(* ===== verification/Mongrel_Prelude.thy ===== *)
theory Mongrel_Prelude
  imports Main "HOL-Library.Word" "HOL-Library.Product_Lexorder"
begin

text \<open>
  Shared vocabulary of the development: the machine integers of the Rust sources, results as
  sums, the library operations the sources use on slices (\<open>partition_point\<close>, \<open>insert\<close>,
  \<open>split_off\<close>), reachability of a step relation, and the generic lemmas on words and lists the
  component theories rest on.
\<close>

named_theorems stamp_simps \<open>unfolding of version stamps and visibility predicates\<close>

section \<open>Machine integers\<close>

type_synonym u8 = "8 word"
type_synonym u16 = "16 word"
type_synonym u32 = "32 word"
type_synonym u64 = "64 word"

text \<open>Rust's \<open>u64::MAX\<close> and \<open>u32::MAX\<close> are \<open>- 1\<close> at their width.\<close>

abbreviation max_u64 :: u64 where
  "max_u64 \<equiv> - 1"

abbreviation max_u32 :: u32 where
  "max_u32 \<equiv> - 1"

text \<open>\<open>saturating_add(1)\<close>, \<open>saturating_add\<close>, \<open>checked_add\<close> and \<open>abs_diff\<close>.\<close>

definition sat_inc :: "'a::len word \<Rightarrow> 'a word" where
  "sat_inc w = (if w = - 1 then w else w + 1)"

definition sat_add :: "'a::len word \<Rightarrow> 'a word \<Rightarrow> 'a word" where
  "sat_add a b = (if a \<le> - 1 - b then a + b else - 1)"

definition sat_sub :: "'a::len word \<Rightarrow> 'a word \<Rightarrow> 'a word" where
  "sat_sub a b = (if b \<le> a then a - b else 0)"

definition checked_add :: "'a::len word \<Rightarrow> 'a word \<Rightarrow> 'a word option" where
  "checked_add a b = (if a \<le> - 1 - b then Some (a + b) else None)"

definition abs_diff :: "'a::len word \<Rightarrow> 'a word \<Rightarrow> 'a word" where
  "abs_diff a b = (if a < b then b - a else a - b)"

text \<open>\<open>to_string\<close> of an unsigned integer.\<close>

fun decimal :: "nat \<Rightarrow> string" where
  "decimal n = (if n < 10 then [char_of (48 + n)]
                else decimal (n div 10) @ [char_of (48 + n mod 10)])"

declare decimal.simps [simp del]

lemma word_le_max [simp]: "(w :: 'a::len word) \<le> - 1"
  by (rule word_order.extremum)

lemma word_max_le_iff [simp]: "- 1 \<le> (w :: 'a::len word) \<longleftrightarrow> w = - 1"
  using word_le_max [of w] by (auto intro: antisym)

lemma word_less_max_iff [simp]: "w < - 1 \<longleftrightarrow> (w :: 'a::len word) \<noteq> - 1"
  using word_le_max [of w] by (auto simp: order.strict_iff_order)

lemma word_less_inc: "w \<noteq> - 1 \<Longrightarrow> (w :: 'a::len word) < w + 1"
  using inc_less_eq_triv_imp [of w] by (metis not_le)

lemma word_less_max_inc: "w < v \<Longrightarrow> (w :: 'a::len word) < w + 1"
  by (rule word_less_inc) (use word_le_max [of v] in auto)

lemma word_less_inc_le: "w < v \<Longrightarrow> (w :: 'a::len word) + 1 \<le> v"
  by (rule inc_le)

lemma sat_inc_max [simp]: "sat_inc (- 1) = - 1"
  by (simp add: sat_inc_def)

lemma sat_inc_ge [simp]: "w \<le> sat_inc w"
  using word_less_inc [of w] by (auto simp: sat_inc_def)

lemma sat_inc_gt_iff [simp]: "w < sat_inc w \<longleftrightarrow> w \<noteq> - 1"
  using word_less_inc [of w] by (auto simp: sat_inc_def)

lemma sat_inc_eq_iff [simp]: "sat_inc w = w \<longleftrightarrow> w = - 1"
  using word_less_inc [of w] by (auto simp: sat_inc_def)

lemma abs_diff_commute: "abs_diff a b = abs_diff b a"
  by (auto simp: abs_diff_def)

section \<open>Library operations on slices\<close>

text \<open>
  \<open>slice::partition_point\<close> returns the index of the first element that fails the predicate of a
  slice that is partitioned by it. The model returns that index for every slice; the slices the
  sources hand to it are sorted, which the component invariants state.
\<close>

definition partition_point :: "('a \<Rightarrow> bool) \<Rightarrow> 'a list \<Rightarrow> nat" where
  "partition_point p xs = length (takeWhile p xs)"

text \<open>\<open>Vec::insert\<close> at an index within the vector.\<close>

definition vec_insert :: "nat \<Rightarrow> 'a \<Rightarrow> 'a list \<Rightarrow> 'a list" where
  "vec_insert i x xs = take i xs @ x # drop i xs"

lemma partition_point_Nil [simp]: "partition_point p [] = 0"
  by (simp add: partition_point_def)

lemma partition_point_Cons [simp]:
  "partition_point p (x # xs) = (if p x then Suc (partition_point p xs) else 0)"
  by (simp add: partition_point_def)

lemma partition_point_le [simp]: "partition_point p xs \<le> length xs"
  by (simp add: partition_point_def length_takeWhile_le)

lemma take_partition_point: "take (partition_point p xs) xs = takeWhile p xs"
  by (simp add: partition_point_def takeWhile_eq_take [symmetric])

lemma drop_partition_point: "drop (partition_point p xs) xs = dropWhile p xs"
  by (simp add: partition_point_def dropWhile_eq_drop [symmetric])

lemma vec_insert_partition_point:
  "vec_insert (partition_point p xs) x xs = takeWhile p xs @ x # dropWhile p xs"
  by (simp add: vec_insert_def take_partition_point drop_partition_point)

lemma length_vec_insert [simp]: "i \<le> length xs \<Longrightarrow> length (vec_insert i x xs) = Suc (length xs)"
  by (simp add: vec_insert_def)

lemma set_vec_insert [simp]: "set (vec_insert i x xs) = insert x (set xs)"
proof -
  have "set (take i xs) \<union> set (drop i xs) = set xs"
    by (metis append_take_drop_id set_append)
  then show ?thesis
    by (auto simp: vec_insert_def)
qed

text \<open>On a sorted list the partition by an upper bound separates the list completely.\<close>

lemma sorted_dropWhile_le:
  assumes "sorted (map f xs)" and "x \<in> set (dropWhile (\<lambda>y. f y \<le> k) xs)"
  shows "(k :: 'k::linorder) < f x"
  using assms
proof (induction xs)
  case Nil
  then show ?case by simp
next
  case (Cons a xs)
  show ?case
  proof (cases "f a \<le> k")
    case True
    with Cons show ?thesis by simp
  next
    case False
    with Cons.prems have "x \<in> set (a # xs)" and "\<forall>y\<in>set (a # xs). f a \<le> f y" by simp_all
    then have "f a \<le> f x" by blast
    with False show ?thesis by simp
  qed
qed

lemma sorted_dropWhile_less:
  assumes "sorted (map f xs)" and "x \<in> set (dropWhile (\<lambda>y. f y < k) xs)"
  shows "(k :: 'k::linorder) \<le> f x"
  using assms
proof (induction xs)
  case Nil
  then show ?case by simp
next
  case (Cons a xs)
  show ?case
  proof (cases "f a < k")
    case True
    with Cons show ?thesis by simp
  next
    case False
    with Cons.prems have "x \<in> set (a # xs)" and "\<forall>y\<in>set (a # xs). f a \<le> f y" by simp_all
    then have "f a \<le> f x" by blast
    with False show ?thesis by simp
  qed
qed

lemma sorted_insert_between:
  assumes "sorted (map f (us @ vs))"
    and "\<And>u. u \<in> set us \<Longrightarrow> f u \<le> f x" and "\<And>v. v \<in> set vs \<Longrightarrow> f x \<le> f v"
  shows "sorted (map f (us @ x # vs))"
  using assms by (auto simp: sorted_append)

lemma sorted_vec_insert:
  assumes "sorted (map f xs)"
  shows "sorted (map f (vec_insert (partition_point (\<lambda>y. f y \<le> f x) xs) x xs))"
  unfolding vec_insert_partition_point
proof (rule sorted_insert_between)
  show "sorted (map f (takeWhile (\<lambda>y. f y \<le> f x) xs @ dropWhile (\<lambda>y. f y \<le> f x) xs))"
    using assms unfolding takeWhile_dropWhile_id .
next
  fix u assume "u \<in> set (takeWhile (\<lambda>y. f y \<le> f x) xs)"
  then show "f u \<le> f x" by (rule set_takeWhileD [THEN conjunct2])
next
  fix v assume "v \<in> set (dropWhile (\<lambda>y. f y \<le> f x) xs)"
  then show "f x \<le> f v" by (rule sorted_dropWhile_le [OF assms, THEN less_imp_le])
qed

lemma filter_vec_insert:
  assumes "sorted (map f xs)"
  shows "filter (\<lambda>y. f y = k) (vec_insert (partition_point (\<lambda>y. f y \<le> f x) xs) x xs) =
         filter (\<lambda>y. f y = k) xs @ filter (\<lambda>y. f y = (k :: 'k::linorder)) [x]"
proof -
  define us vs where "us = takeWhile (\<lambda>y. f y \<le> f x) xs" and "vs = dropWhile (\<lambda>y. f y \<le> f x) xs"
  have xs: "xs = us @ vs"
    by (simp add: us_def vs_def)
  have above: "f x < f y" if "y \<in> set vs" for y
    using that unfolding vs_def by (rule sorted_dropWhile_le [OF assms])
  have none: "filter (\<lambda>y. f y = k) vs = []" if "f x = k"
    using above that by (fastforce simp: filter_empty_conv)
  have "vec_insert (partition_point (\<lambda>y. f y \<le> f x) xs) x xs = us @ x # vs"
    unfolding vec_insert_partition_point us_def vs_def ..
  then show ?thesis
    using none by (cases "f x = k") (simp_all add: xs)
qed

section \<open>Reachable states of a step relation\<close>

inductive reach :: "('s \<Rightarrow> bool) \<Rightarrow> ('s \<Rightarrow> 's \<Rightarrow> bool) \<Rightarrow> 's \<Rightarrow> bool"
  for init :: "'s \<Rightarrow> bool" and step :: "'s \<Rightarrow> 's \<Rightarrow> bool" where
  reach_init: "init s \<Longrightarrow> reach init step s"
| reach_step: "reach init step s \<Longrightarrow> step s t \<Longrightarrow> reach init step t"

text \<open>
  The contract of a protected component: an invariant of the initial states that every step
  keeps. The conclusion is used for the epoch authority, the lock table and the transaction
  life cycle.
\<close>

locale guarded_system =
  fixes init :: "'s \<Rightarrow> bool" and step :: "'s \<Rightarrow> 's \<Rightarrow> bool" and inv :: "'s \<Rightarrow> bool"
  assumes inv_init: "init s \<Longrightarrow> inv s"
    and inv_step: "step s t \<Longrightarrow> inv s \<Longrightarrow> inv t"
begin

lemma reach_inv: "reach init step s \<Longrightarrow> inv s"
  by (induction rule: reach.induct) (auto intro: inv_init inv_step)

lemma reach_inv_step: "reach init step s \<Longrightarrow> step s t \<Longrightarrow> inv s \<and> inv t"
  using reach_inv inv_step by blast

end

end
