(* ===== verification/Hlc.thy ===== *)
theory Hlc
  imports Mongrel_Prelude
begin

text \<open>
  Hybrid logical clock timestamps, the node clock and the legacy-to-HLC stamp order
  (\<open>crates/mongreldb-types/src/hlc.rs\<close>). The clock's mutex makes each call one atomic step on
  the guarded \<open>ClockState\<close>; the injected wall-clock source is the argument \<open>wall\<close> of a step.
\<close>

section \<open>Timestamps\<close>

datatype HlcTimestamp =
  HlcTimestamp (physical_micros: u64) (logical: u32) (node_tiebreaker: u32)

definition HLC_ZERO :: HlcTimestamp where
  "HLC_ZERO = HlcTimestamp 0 0 0"

definition HLC_MAX :: HlcTimestamp where
  "HLC_MAX = HlcTimestamp max_u64 max_u32 max_u32"

text \<open>The derived order compares the fields in declaration order.\<close>

definition hlc_key :: "HlcTimestamp \<Rightarrow> u64 \<times> u32 \<times> u32" where
  "hlc_key t = (physical_micros t, logical t, node_tiebreaker t)"

lemma hlc_key_inj [simp]: "hlc_key a = hlc_key b \<longleftrightarrow> a = b"
  by (cases a; cases b) (simp add: hlc_key_def)

instantiation HlcTimestamp :: linorder
begin

definition less_eq_HlcTimestamp :: "HlcTimestamp \<Rightarrow> HlcTimestamp \<Rightarrow> bool" where
  "a \<le> b \<longleftrightarrow> hlc_key a \<le> hlc_key b"

definition less_HlcTimestamp :: "HlcTimestamp \<Rightarrow> HlcTimestamp \<Rightarrow> bool" where
  "a < b \<longleftrightarrow> hlc_key a < hlc_key b"

instance
  by standard (auto simp: less_eq_HlcTimestamp_def less_HlcTimestamp_def order.strict_iff_order)

end

lemma hlc_less_iff:
  "a < b \<longleftrightarrow> physical_micros a < physical_micros b \<or>
     physical_micros a = physical_micros b \<and>
       (logical a < logical b \<or> logical a = logical b \<and> node_tiebreaker a < node_tiebreaker b)"
  by (cases a; cases b) (auto simp: less_HlcTimestamp_def hlc_key_def)

lemma hlc_le_iff:
  "a \<le> b \<longleftrightarrow> physical_micros a < physical_micros b \<or>
     physical_micros a = physical_micros b \<and>
       (logical a < logical b \<or> logical a = logical b \<and> node_tiebreaker a \<le> node_tiebreaker b)"
  by (cases a; cases b) (auto simp: less_eq_HlcTimestamp_def hlc_key_def)

lemma HLC_ZERO_le [simp]: "HLC_ZERO \<le> t"
  by (cases t) (auto simp: hlc_le_iff HLC_ZERO_def word_gt_0)

lemma le_HLC_MAX [simp]: "t \<le> HLC_MAX"
  by (cases t) (auto simp: hlc_le_iff HLC_MAX_def)

section \<open>Text form\<close>

text \<open>\<open>Display\<close> writes the three components in decimal, separated by dots.\<close>

definition hlc_display :: "HlcTimestamp \<Rightarrow> string" where
  "hlc_display t = decimal (unat (physical_micros t)) @ ''.'' @
     decimal (unat (logical t)) @ ''.'' @ decimal (unat (node_tiebreaker t))"

datatype HlcParseError =
    InvalidFormat string
  | InvalidComponent string string

text \<open>
  \<open>str::parse\<close> on an unsigned type: an optional leading plus sign, then at least one decimal
  digit, failing when the value exceeds the type's maximum.
\<close>

definition digit_value :: "char \<Rightarrow> nat option" where
  "digit_value c = (let n = of_char c in if 48 \<le> n \<and> n \<le> 57 then Some (n - 48) else None)"

fun parse_digits :: "nat \<Rightarrow> string \<Rightarrow> nat option" where
  "parse_digits acc [] = Some acc"
| "parse_digits acc (c # cs) =
     (case digit_value c of None \<Rightarrow> None | Some d \<Rightarrow> parse_digits (acc * 10 + d) cs)"

definition parse_unsigned :: "nat \<Rightarrow> string \<Rightarrow> nat option" where
  "parse_unsigned bound s =
     (let ds = (case s of [] \<Rightarrow> [] | c # cs \<Rightarrow> if c = CHR ''+'' then cs else s)
      in if ds = [] then None
         else case parse_digits 0 ds of
                None \<Rightarrow> None
              | Some n \<Rightarrow> if n < bound then Some n else None)"

text \<open>\<open>str::split\<close> on a character: one piece more than there are separators.\<close>

fun split_on :: "char \<Rightarrow> string \<Rightarrow> string list" where
  "split_on d [] = [[]]"
| "split_on d (c # cs) =
     (if c = d then [] # split_on d cs
      else case split_on d cs of [] \<Rightarrow> [[c]] | p # ps \<Rightarrow> (c # p) # ps)"

definition parse_component :: "nat \<Rightarrow> string \<Rightarrow> string \<Rightarrow> HlcParseError + nat" where
  "parse_component bound text component =
     (case parse_unsigned bound component of
        None \<Rightarrow> Inl (InvalidComponent text component)
      | Some n \<Rightarrow> Inr n)"

definition hlc_from_str :: "string \<Rightarrow> HlcParseError + HlcTimestamp" where
  "hlc_from_str text =
     (case split_on CHR ''.'' text of
        [physical, lgc, node] \<Rightarrow>
          (case parse_component (2 ^ 64) text physical of
             Inl e \<Rightarrow> Inl e
           | Inr p \<Rightarrow>
               (case parse_component (2 ^ 32) text lgc of
                  Inl e \<Rightarrow> Inl e
                | Inr l \<Rightarrow>
                    (case parse_component (2 ^ 32) text node of
                       Inl e \<Rightarrow> Inl e
                     | Inr n \<Rightarrow> Inr (HlcTimestamp (of_nat p) (of_nat l) (of_nat n)))))
      | _ \<Rightarrow> Inl (InvalidFormat text))"

section \<open>The clock\<close>

text \<open>A \<open>Duration\<close> is its length in nanoseconds.\<close>

type_synonym duration = nat

definition duration_from_micros :: "u64 \<Rightarrow> duration" where
  "duration_from_micros m = unat m * 1000"

datatype ClockSkewError = ClockSkewError (observed: duration) (maximum: duration)

record clock_state =
  st_physical_micros :: u64
  st_logical :: u32
  st_max_observed_skew_micros :: u64

record hlc_clock =
  clk_state :: clock_state
  clk_node_tiebreaker :: u32
  clk_max_skew :: duration

definition with_time_source :: "u32 \<Rightarrow> duration \<Rightarrow> hlc_clock" where
  "with_time_source node_tb max_skew =
     \<lparr>clk_state = \<lparr>st_physical_micros = 0, st_logical = 0, st_max_observed_skew_micros = 0\<rparr>,
      clk_node_tiebreaker = node_tb, clk_max_skew = max_skew\<rparr>"

definition max_observed_skew :: "hlc_clock \<Rightarrow> duration" where
  "max_observed_skew c = duration_from_micros (st_max_observed_skew_micros (clk_state c))"

definition clock_advance :: "clock_state \<Rightarrow> u64 \<Rightarrow> clock_state" where
  "clock_advance s wall =
     (if st_physical_micros s < wall
      then s\<lparr>st_physical_micros := wall, st_logical := 0\<rparr>
      else s\<lparr>st_logical := sat_inc (st_logical s)\<rparr>)"

definition reject_excessive_skew :: "hlc_clock \<Rightarrow> clock_state \<Rightarrow> ClockSkewError option" where
  "reject_excessive_skew c s =
     (let obs = duration_from_micros (st_max_observed_skew_micros s)
      in if clk_max_skew c < obs then Some (ClockSkewError obs (clk_max_skew c)) else None)"

definition clock_stamp :: "hlc_clock \<Rightarrow> clock_state \<Rightarrow> HlcTimestamp" where
  "clock_stamp c s = HlcTimestamp (st_physical_micros s) (st_logical s) (clk_node_tiebreaker c)"

definition hlc_now :: "hlc_clock \<Rightarrow> u64 \<Rightarrow> (ClockSkewError + HlcTimestamp) \<times> hlc_clock" where
  "hlc_now c wall =
     (case reject_excessive_skew c (clk_state c) of
        Some e \<Rightarrow> (Inl e, c)
      | None \<Rightarrow>
          (let s = clock_advance (clk_state c) wall
           in (Inr (clock_stamp c s), c\<lparr>clk_state := s\<rparr>)))"

text \<open>The logical counter \<open>observe\<close> continues with at the physical time \<open>p\<close> it adopts.\<close>

definition observe_logical :: "u64 \<Rightarrow> u64 \<Rightarrow> u32 \<Rightarrow> u64 \<Rightarrow> u32 \<Rightarrow> u32" where
  "observe_logical p local_p local_l remote_p remote_l =
     (if p = local_p \<and> p = remote_p then sat_inc (max local_l remote_l)
      else if p = local_p then sat_inc local_l
      else if p = remote_p then sat_inc remote_l
      else 0)"

definition hlc_observe ::
    "hlc_clock \<Rightarrow> u64 \<Rightarrow> HlcTimestamp \<Rightarrow> (ClockSkewError + HlcTimestamp) \<times> hlc_clock" where
  "hlc_observe c wall remote =
     (let s0 = clk_state c;
          skew = abs_diff (physical_micros remote) wall;
          s1 = s0\<lparr>st_max_observed_skew_micros := max (st_max_observed_skew_micros s0) skew\<rparr>
      in case reject_excessive_skew c s1 of
           Some e \<Rightarrow> (Inl e, c\<lparr>clk_state := s1\<rparr>)
         | None \<Rightarrow>
             (let lp = st_physical_micros s1; ll = st_logical s1;
                  p = max (max wall lp) (physical_micros remote);
                  l = observe_logical p lp ll (physical_micros remote) (logical remote);
                  s2 = s1\<lparr>st_physical_micros := p, st_logical := l\<rparr>
              in (Inr (clock_stamp c s2), c\<lparr>clk_state := s2\<rparr>)))"

text \<open>The jump past a minimum that the ordinary tick did not exceed.\<close>

definition bump_past :: "clock_state \<Rightarrow> HlcTimestamp \<Rightarrow> clock_state" where
  "bump_past s minimum =
     (let (p, l) = (if logical minimum < max_u32
                    then (physical_micros minimum, logical minimum + 1)
                    else (sat_inc (physical_micros minimum), 0))
      in if st_physical_micros s < p
         then s\<lparr>st_physical_micros := p, st_logical := l\<rparr>
         else s\<lparr>st_logical := max (st_logical s) l\<rparr>)"

definition next_after :: "hlc_clock \<Rightarrow> u64 \<Rightarrow> HlcTimestamp \<Rightarrow> HlcTimestamp \<times> hlc_clock" where
  "next_after c wall minimum =
     (let s1 = clock_advance (clk_state c) wall; candidate = clock_stamp c s1
      in if candidate \<le> minimum
         then (clock_stamp c (bump_past s1 minimum), c\<lparr>clk_state := bump_past s1 minimum\<rparr>)
         else (candidate, c\<lparr>clk_state := s1\<rparr>))"

definition hlc_max_or_zero :: "HlcTimestamp list \<Rightarrow> HlcTimestamp" where
  "hlc_max_or_zero ts = (case ts of [] \<Rightarrow> HLC_ZERO | t # rest \<Rightarrow> fold max rest t)"

definition commit_timestamp ::
    "hlc_clock \<Rightarrow> u64 \<Rightarrow> HlcTimestamp list \<Rightarrow> HlcTimestamp \<times> hlc_clock" where
  "commit_timestamp c wall participants = next_after c wall (hlc_max_or_zero participants)"

section \<open>Stored stamps during the migration\<close>

datatype StoredVersionStamp = LegacyEpoch u64 | Hlc HlcTimestamp

datatype ordering = Less | Equal | Greater

definition cmp :: "'a::linorder \<Rightarrow> 'a \<Rightarrow> ordering" where
  "cmp a b = (if a < b then Less else if a = b then Equal else Greater)"

record migration_watermark =
  mvcc_format_version :: u32
  watermark :: HlcTimestamp

fun cmp_stamps :: "StoredVersionStamp \<Rightarrow> StoredVersionStamp \<Rightarrow> ordering" where
  "cmp_stamps (LegacyEpoch x) (LegacyEpoch y) = cmp x y"
| "cmp_stamps (LegacyEpoch _) (Hlc _) = Less"
| "cmp_stamps (Hlc _) (LegacyEpoch _) = Greater"
| "cmp_stamps (Hlc x) (Hlc y) = cmp x y"

text \<open>\<open>Ordering::max(Equal)\<close> turns \<open>Less\<close> into \<open>Equal\<close>.\<close>

fun at_least_equal :: "ordering \<Rightarrow> ordering" where
  "at_least_equal Less = Equal"
| "at_least_equal r = r"

fun cmp_stamp_to_watermark :: "migration_watermark \<Rightarrow> StoredVersionStamp \<Rightarrow> ordering" where
  "cmp_stamp_to_watermark w (LegacyEpoch _) = Less"
| "cmp_stamp_to_watermark w (Hlc ts) = at_least_equal (cmp ts (watermark w))"

section \<open>Runs of the clock\<close>

text \<open>
  A call on the clock, with the wall-clock reading it sees. \<open>hlc_step\<close> is the call's effect: the
  timestamp it hands out, if any, and the clock afterwards.
\<close>

datatype clock_call =
    CallNow u64
  | CallObserve u64 HlcTimestamp
  | CallNextAfter u64 HlcTimestamp
  | CallCommit u64 "HlcTimestamp list"

fun handed_out :: "(ClockSkewError + HlcTimestamp) \<times> hlc_clock \<Rightarrow> HlcTimestamp option \<times> hlc_clock" where
  "handed_out (Inl _, c) = (None, c)"
| "handed_out (Inr t, c) = (Some t, c)"

fun hlc_step :: "hlc_clock \<Rightarrow> clock_call \<Rightarrow> HlcTimestamp option \<times> hlc_clock" where
  "hlc_step c (CallNow wall) = handed_out (hlc_now c wall)"
| "hlc_step c (CallObserve wall remote) = handed_out (hlc_observe c wall remote)"
| "hlc_step c (CallNextAfter wall minimum) = (let (t, c') = next_after c wall minimum in (Some t, c'))"
| "hlc_step c (CallCommit wall ps) = (let (t, c') = commit_timestamp c wall ps in (Some t, c'))"

text \<open>The last timestamp the clock produced, as its state records it.\<close>

definition clock_last :: "hlc_clock \<Rightarrow> HlcTimestamp" where
  "clock_last c = clock_stamp c (clk_state c)"

lemmas clock_defs = clock_last_def clock_stamp_def clock_advance_def hlc_now_def hlc_observe_def
  next_after_def commit_timestamp_def reject_excessive_skew_def

fun run_calls :: "('s \<Rightarrow> 'e \<Rightarrow> 't option \<times> 's) \<Rightarrow> 's \<Rightarrow> 'e list \<Rightarrow> 't list \<times> 's" where
  "run_calls step s [] = ([], s)"
| "run_calls step s (e # es) =
     (case step s e of
        (None, s') \<Rightarrow> run_calls step s' es
      | (Some t, s') \<Rightarrow> (let (ts, s'') = run_calls step s' es in (t # ts, s'')))"

text \<open>
  The contract of a monotone timestamp source: every call leaves \<open>last\<close> at what it handed out,
  never moves it backward, and hands out something strictly newer unless the result is
  \<open>exhausted\<close>. Clients rely on whole runs, so those are treated once here.
\<close>

locale timestamp_source =
  fixes step :: "'s \<Rightarrow> 'e \<Rightarrow> 't::linorder option \<times> 's"
    and last :: "'s \<Rightarrow> 't"
    and exhausted :: "'t \<Rightarrow> bool"
  assumes step_last: "step s e = (Some t, s') \<Longrightarrow> last s' = t"
    and step_mono: "step s e = (Some t, s') \<Longrightarrow> last s \<le> t"
    and step_strict: "step s e = (Some t, s') \<Longrightarrow> \<not> exhausted t \<Longrightarrow> last s < t"
    and step_none: "step s e = (None, s') \<Longrightarrow> last s' = last s"
begin

lemma run_above:
  "run_calls step s es = (ts, s') \<Longrightarrow> t \<in> set ts \<Longrightarrow> last s \<le> t"
proof (induction es arbitrary: s ts)
  case Nil
  then show ?case by simp
next
  case (Cons e es)
  obtain r s1 where r: "step s e = (r, s1)" by (cases "step s e")
  obtain ts1 s2 where rest: "run_calls step s1 es = (ts1, s2)" by (cases "run_calls step s1 es")
  show ?case
  proof (cases r)
    case None
    with r Cons.prems have "run_calls step s1 es = (ts, s')" by simp
    then have "last s1 \<le> t" using Cons.prems(2) by (rule Cons.IH)
    with step_none [OF r [unfolded None]] show ?thesis by simp
  next
    case (Some u)
    with r rest Cons.prems have ts: "ts = u # ts1" and s2: "s2 = s'" by simp_all
    have u: "last s \<le> u" "last s1 = u" using r Some by (auto intro: step_mono step_last)
    show ?thesis
    proof (cases "t = u")
      case False
      with ts Cons.prems(2) have "t \<in> set ts1" by simp
      with rest [unfolded s2] have "last s1 \<le> t" by (rule Cons.IH)
      with u show ?thesis by simp
    qed (use u in simp)
  qed
qed

lemma run_sorted: "sorted (fst (run_calls step s es))"
proof (induction es arbitrary: s)
  case Nil
  then show ?case by simp
next
  case (Cons e es)
  obtain r s1 where r: "step s e = (r, s1)" by (cases "step s e")
  obtain ts1 s2 where rest: "run_calls step s1 es = (ts1, s2)" by (cases "run_calls step s1 es")
  show ?case
  proof (cases r)
    case None
    with r Cons.IH [of s1] show ?thesis by simp
  next
    case (Some u)
    with r have "last s1 = u" by (auto intro: step_last)
    then have "\<forall>t\<in>set ts1. u \<le> t" using run_above [OF rest] by simp
    with Cons.IH [of s1] show ?thesis by (simp add: r Some rest)
  qed
qed

lemma run_strict_above:
  "run_calls step s es = (ts, s') \<Longrightarrow> \<forall>t\<in>set ts. \<not> exhausted t \<Longrightarrow> t \<in> set ts \<Longrightarrow> last s < t"
proof (induction es arbitrary: s ts)
  case Nil
  then show ?case by simp
next
  case (Cons e es)
  obtain r s1 where r: "step s e = (r, s1)" by (cases "step s e")
  obtain ts1 s2 where rest: "run_calls step s1 es = (ts1, s2)" by (cases "run_calls step s1 es")
  show ?case
  proof (cases r)
    case None
    with r Cons.prems have "run_calls step s1 es = (ts, s')" by simp
    then have "last s1 < t" using Cons.prems(2,3) by (rule Cons.IH)
    with step_none [OF r [unfolded None]] show ?thesis by simp
  next
    case (Some u)
    with r rest Cons.prems have ts: "ts = u # ts1" by simp
    with Cons.prems(2) have "last s < u" using step_strict r Some by simp
    moreover have "u \<le> t"
      using Cons.prems(3) run_above [OF rest] step_last r Some ts by auto
    ultimately show ?thesis by simp
  qed
qed

lemma run_strictly_sorted:
  "run_calls step s es = (ts, s') \<Longrightarrow> \<forall>t\<in>set ts. \<not> exhausted t \<Longrightarrow> sorted_wrt (<) ts"
proof (induction es arbitrary: s ts)
  case Nil
  then show ?case by simp
next
  case (Cons e es)
  obtain r s1 where r: "step s e = (r, s1)" by (cases "step s e")
  obtain ts1 s2 where rest: "run_calls step s1 es = (ts1, s2)" by (cases "run_calls step s1 es")
  show ?case
  proof (cases r)
    case None
    with r Cons.prems have "run_calls step s1 es = (ts, s')" by simp
    then show ?thesis using Cons.prems(2) by (rule Cons.IH)
  next
    case (Some u)
    with r rest Cons.prems have ts: "ts = u # ts1" and s2: "s2 = s'" by simp_all
    with Cons.prems(2) have ne: "\<forall>t\<in>set ts1. \<not> exhausted t" by simp
    have "u < t" if "t \<in> set ts1" for t
      using run_strict_above [OF rest ne that] step_last r Some by simp
    moreover have "sorted_wrt (<) ts1"
      using rest [unfolded s2] ne by (rule Cons.IH)
    ultimately show ?thesis by (simp add: ts)
  qed
qed

end

text \<open>The provider side: what one call of the clock does to its last stamp.\<close>

lemma hlc_now_cases:
  assumes "hlc_now c wall = (Inr t, c')"
  shows "t = clock_stamp c (clock_advance (clk_state c) wall)"
    and "c' = c\<lparr>clk_state := clock_advance (clk_state c) wall\<rparr>"
  using assms by (auto simp: hlc_now_def Let_def split: option.splits)

lemma clock_advance_mono: "clock_last c \<le> clock_stamp c (clock_advance (clk_state c) wall)"
  by (auto simp: clock_defs hlc_le_iff order_le_less)

lemma clock_advance_strict:
  assumes "logical (clock_stamp c (clock_advance (clk_state c) wall)) \<noteq> max_u32"
  shows "clock_last c < clock_stamp c (clock_advance (clk_state c) wall)"
  using assms by (auto simp: clock_defs hlc_less_iff split: if_splits)

lemma clock_last_update [simp]: "clock_last (c\<lparr>clk_state := s\<rparr>) = clock_stamp c s"
  by (simp add: clock_defs)

lemma hlc_now_step:
  assumes "hlc_now c wall = (Inr t, c')"
  shows "clock_last c' = t" and "clock_last c \<le> t"
    and "logical t \<noteq> max_u32 \<Longrightarrow> clock_last c < t"
  using hlc_now_cases [OF assms] clock_advance_mono clock_advance_strict by simp_all

lemma sat_inc_above: "a \<le> b \<Longrightarrow> a \<le> sat_inc b"
  using sat_inc_ge order_trans by blast

lemma sat_inc_strictly_above: "a \<le> b \<Longrightarrow> sat_inc b \<noteq> - 1 \<Longrightarrow> a < sat_inc b"
  by (metis le_less_trans sat_inc_eq_iff sat_inc_gt_iff)

lemma observe_logical_local:
  assumes "p = local_p"
  shows "local_l \<le> observe_logical p local_p local_l remote_p remote_l"
    and "observe_logical p local_p local_l remote_p remote_l \<noteq> max_u32 \<Longrightarrow>
         local_l < observe_logical p local_p local_l remote_p remote_l"
  using assms by (auto simp: observe_logical_def intro: sat_inc_above sat_inc_strictly_above)

lemma observe_logical_remote:
  assumes "p = remote_p" and "observe_logical p local_p local_l remote_p remote_l \<noteq> max_u32"
  shows "remote_l < observe_logical p local_p local_l remote_p remote_l"
  using assms by (auto simp: observe_logical_def intro: sat_inc_strictly_above split: if_splits)

lemma hlc_observe_result:
  assumes "hlc_observe c wall remote = (Inr t, c')"
  obtains p where "st_physical_micros (clk_state c) \<le> p" and "physical_micros remote \<le> p"
    and "t = HlcTimestamp p (observe_logical p (st_physical_micros (clk_state c))
               (st_logical (clk_state c)) (physical_micros remote) (logical remote))
               (clk_node_tiebreaker c)"
    and "clock_last c' = t"
proof
  let ?p = "max (max wall (st_physical_micros (clk_state c))) (physical_micros remote)"
  show "st_physical_micros (clk_state c) \<le> ?p" and "physical_micros remote \<le> ?p"
    by (simp_all add: le_max_iff_disj)
  show "t = HlcTimestamp ?p (observe_logical ?p (st_physical_micros (clk_state c))
               (st_logical (clk_state c)) (physical_micros remote) (logical remote))
               (clk_node_tiebreaker c)"
    and "clock_last c' = t"
    using assms by (auto simp: hlc_observe_def clock_stamp_def clock_last_def Let_def
        split: option.splits)
qed

lemma hlc_observe_step:
  assumes "hlc_observe c wall remote = (Inr t, c')"
  shows "clock_last c' = t" and "clock_last c \<le> t"
    and "logical t \<noteq> max_u32 \<Longrightarrow> clock_last c < t"
    and "logical t \<noteq> max_u32 \<Longrightarrow> remote < t"
proof -
  from assms obtain p where p: "st_physical_micros (clk_state c) \<le> p" "physical_micros remote \<le> p"
    and t: "t = HlcTimestamp p (observe_logical p (st_physical_micros (clk_state c))
               (st_logical (clk_state c)) (physical_micros remote) (logical remote))
               (clk_node_tiebreaker c)" and c': "clock_last c' = t"
    by (rule hlc_observe_result)
  show "clock_last c' = t" by (rule c')
  show "clock_last c \<le> t"
  proof (cases "p = st_physical_micros (clk_state c)")
    case True
    with observe_logical_local(1) [OF True] show ?thesis
      by (simp add: t clock_last_def clock_stamp_def hlc_le_iff order_le_less)
  next
    case False
    with p(1) show ?thesis by (simp add: t clock_last_def clock_stamp_def hlc_le_iff)
  qed
  show "clock_last c < t" if "logical t \<noteq> max_u32"
  proof (cases "p = st_physical_micros (clk_state c)")
    case True
    from that have "st_logical (clk_state c) < logical t"
      unfolding t HlcTimestamp.sel by (rule observe_logical_local(2) [OF True])
    with True show ?thesis
      unfolding hlc_less_iff by (simp add: t clock_last_def clock_stamp_def)
  next
    case False
    with p(1) show ?thesis by (simp add: t clock_last_def clock_stamp_def hlc_less_iff)
  qed
  show "remote < t" if "logical t \<noteq> max_u32"
  proof (cases "p = physical_micros remote")
    case True
    from that have "logical remote < logical t"
      unfolding t HlcTimestamp.sel by (rule observe_logical_remote [OF True])
    with True show ?thesis unfolding hlc_less_iff by (simp add: t)
  next
    case False
    with p(2) show ?thesis by (simp add: t hlc_less_iff)
  qed
qed

text \<open>
  \<open>next_after\<close>: either the ordinary tick already exceeds the minimum, or the clock jumps to the
  successor of the minimum.
\<close>

lemma bump_past_above:
  "st_physical_micros s < st_physical_micros (bump_past s m) \<or>
   st_physical_micros s = st_physical_micros (bump_past s m) \<and> st_logical s \<le> st_logical (bump_past s m)"
  by (simp add: bump_past_def Let_def)

lemma bump_past_stamp: "clock_stamp c s \<le> clock_stamp c (bump_past s m)"
  using bump_past_above [of s m] by (auto simp: clock_stamp_def hlc_le_iff)

lemma bump_past_exceeds:
  assumes "st_physical_micros s \<le> physical_micros m"
    and "physical_micros m \<noteq> max_u64 \<or> logical m \<noteq> max_u32"
  shows "m < clock_stamp c (bump_past s m)"
proof (cases "logical m = max_u32")
  case True
  with assms(2) have "physical_micros m < sat_inc (physical_micros m)" by simp
  moreover from assms(1) this have "st_physical_micros s < sat_inc (physical_micros m)"
    by (rule le_less_trans)
  ultimately show ?thesis
    using True by (simp add: bump_past_def clock_stamp_def hlc_less_iff)
next
  case False
  then have "logical m < logical m + 1" by (rule word_less_inc)
  with False assms(1) show ?thesis
    by (cases "st_physical_micros s < physical_micros m")
      (simp_all add: bump_past_def clock_stamp_def hlc_less_iff less_max_iff_disj)
qed

lemma next_after_base:
  assumes "next_after c wall m = (t, c')"
  shows "clock_last c' = t" and "clock_stamp c (clock_advance (clk_state c) wall) \<le> t"
  using assms bump_past_stamp by (auto simp: next_after_def Let_def split: if_splits)

lemma next_after_step:
  assumes "next_after c wall m = (t, c')"
  shows "clock_last c' = t" and "clock_last c \<le> t"
    and "logical t \<noteq> max_u32 \<Longrightarrow> clock_last c < t"
proof -
  let ?base = "clock_stamp c (clock_advance (clk_state c) wall)"
  note base = next_after_base [OF assms]
  show "clock_last c' = t" by (rule base(1))
  show "clock_last c \<le> t" using clock_advance_mono base(2) by (rule order_trans)
  show "clock_last c < t" if "logical t \<noteq> max_u32"
  proof (cases "logical ?base = max_u32")
    case False
    then show ?thesis using clock_advance_strict base(2) by (blast intro: less_le_trans)
  next
    case True
    have "\<not> logical ?base < logical t" using True by (simp add: not_less)
    with True that base(2) have "physical_micros ?base < physical_micros t"
      by (auto simp: hlc_le_iff)
    then have "?base < t" by (simp add: hlc_less_iff)
    with clock_advance_mono show ?thesis by (rule le_less_trans)
  qed
qed

lemma next_after_exceeds:
  assumes "next_after c wall m = (t, c')"
    and "physical_micros m \<noteq> max_u64 \<or> logical m \<noteq> max_u32"
  shows "m < t"
proof (cases "clock_stamp c (clock_advance (clk_state c) wall) \<le> m")
  case False
  with assms(1) show ?thesis by (simp add: next_after_def Let_def)
next
  case True
  then have "st_physical_micros (clock_advance (clk_state c) wall) \<le> physical_micros m"
    by (auto simp: hlc_le_iff clock_stamp_def)
  from bump_past_exceeds [OF this assms(2)] True assms(1) show ?thesis
    by (auto simp: next_after_def Let_def)
qed

interpretation clock: timestamp_source hlc_step clock_last "\<lambda>t. logical t = max_u32"
proof
  fix c e t c'
  assume st: "hlc_step c e = (Some t, c')"
  have "clock_last c' = t \<and> clock_last c \<le> t \<and> (logical t \<noteq> max_u32 \<longrightarrow> clock_last c < t)"
  proof (cases e)
    case (CallNow wall)
    with st have "hlc_now c wall = (Inr t, c')"
      by (cases "hlc_now c wall" rule: handed_out.cases) auto
    then show ?thesis using hlc_now_step by blast
  next
    case (CallObserve wall remote)
    with st have "hlc_observe c wall remote = (Inr t, c')"
      by (cases "hlc_observe c wall remote" rule: handed_out.cases) auto
    then show ?thesis using hlc_observe_step by blast
  next
    case (CallNextAfter wall minimum)
    with st have "next_after c wall minimum = (t, c')" by (simp split: prod.splits)
    then show ?thesis using next_after_step by blast
  next
    case (CallCommit wall ps)
    with st have "next_after c wall (hlc_max_or_zero ps) = (t, c')"
      by (simp add: commit_timestamp_def split: prod.splits)
    then show ?thesis using next_after_step by blast
  qed
  then show "clock_last c' = t" and "clock_last c \<le> t"
    and "logical t \<noteq> max_u32 \<Longrightarrow> clock_last c < t" by blast+
next
  fix c e c'
  assume "hlc_step c e = (None, c')"
  then show "clock_last c' = clock_last c"
    by (cases e)
      (auto simp: hlc_now_def hlc_observe_def Let_def clock_last_def clock_stamp_def
        split: option.splits prod.splits)
qed

section \<open>Skew monitoring\<close>

lemma hlc_step_skew:
  assumes "hlc_step c e = (r, c')"
  shows "clk_max_skew c' = clk_max_skew c" and "max_observed_skew c \<le> max_observed_skew c'"
proof -
  have mono: "max_observed_skew c \<le> duration_from_micros (max (st_max_observed_skew_micros (clk_state c)) k)"
    for k
    by (simp add: max_observed_skew_def duration_from_micros_def flip: word_le_nat_alt)
  have adv: "st_max_observed_skew_micros (clock_advance s w) = st_max_observed_skew_micros s"
    and bump: "st_max_observed_skew_micros (bump_past s m) = st_max_observed_skew_micros s" for s w m
    by (simp_all add: clock_advance_def bump_past_def Let_def)
  from assms show "clk_max_skew c' = clk_max_skew c"
    by (cases e) (auto simp: hlc_now_def hlc_observe_def next_after_def commit_timestamp_def Let_def
        split: option.splits prod.splits if_splits)
  from assms mono show "max_observed_skew c \<le> max_observed_skew c'"
    by (cases e) (auto simp: hlc_now_def hlc_observe_def next_after_def commit_timestamp_def Let_def
        max_observed_skew_def adv bump split: option.splits prod.splits if_splits)
qed

lemma hlc_run_skew:
  "clk_max_skew (snd (run_calls hlc_step c es)) = clk_max_skew c \<and>
   max_observed_skew c \<le> max_observed_skew (snd (run_calls hlc_step c es))"
proof (induction es arbitrary: c)
  case Nil
  then show ?case by simp
next
  case (Cons e es)
  obtain r c1 where r: "hlc_step c e = (r, c1)" by (cases "hlc_step c e")
  have "snd (run_calls hlc_step c (e # es)) = snd (run_calls hlc_step c1 es)"
    by (simp add: r split: option.splits prod.splits)
  with hlc_step_skew [OF r] Cons.IH [of c1] show ?case by (simp add: order_trans)
qed

lemma excessive_skew_rejects:
  assumes "clk_max_skew c < max_observed_skew c"
  shows "hlc_now c wall = (Inl (ClockSkewError (max_observed_skew c) (clk_max_skew c)), c)"
  using assms by (simp add: hlc_now_def reject_excessive_skew_def max_observed_skew_def Let_def)

section \<open>Decimal text\<close>

lemma digit_value_char [simp]: "d < 10 \<Longrightarrow> digit_value (char_of (48 + d)) = Some d"
  by (simp add: digit_value_def Let_def)

lemma parse_digits_append:
  "parse_digits acc (s @ t) =
     (case parse_digits acc s of None \<Rightarrow> None | Some n \<Rightarrow> parse_digits n t)"
  by (induction s arbitrary: acc) (auto split: option.splits)

lemma decimal_nonempty: "decimal n \<noteq> []"
  by (subst decimal.simps) simp

lemma parse_digits_decimal_gen: "\<exists>k. \<forall>acc. parse_digits acc (decimal n) = Some (acc * 10 ^ k + n)"
proof (induction n rule: decimal.induct)
  case (1 n)
  show ?case
  proof (cases "n < 10")
    case True
    then have "parse_digits acc (decimal n) = Some (acc * 10 ^ 1 + n)" for acc
      by (subst decimal.simps) simp
    then show ?thesis by blast
  next
    case False
    with "1.IH" obtain k where
      k: "\<And>acc. parse_digits acc (decimal (n div 10)) = Some (acc * 10 ^ k + n div 10)"
      by blast
    have "parse_digits acc (decimal n) = Some (acc * 10 ^ Suc k + n)" for acc
    proof -
      have "parse_digits acc (decimal n) =
          Some ((acc * 10 ^ k + n div 10) * 10 + n mod 10)"
        using False by (subst decimal.simps) (simp add: parse_digits_append k)
      also have "(acc * 10 ^ k + n div 10) * 10 + n mod 10 = acc * 10 ^ Suc k + n"
        by (simp add: algebra_simps)
      finally show ?thesis .
    qed
    then show ?thesis by blast
  qed
qed

lemma parse_digits_decimal: "parse_digits 0 (decimal n) = Some n"
  using parse_digits_decimal_gen [of n] by auto

lemma decimal_digits: "c \<in> set (decimal n) \<Longrightarrow> \<exists>d<10. c = char_of (48 + d :: nat)"
proof (induction n rule: decimal.induct)
  case (1 n)
  show ?case
  proof (cases "n < 10")
    case True
    with "1.prems" show ?thesis by (subst (asm) decimal.simps) auto
  next
    case False
    with "1.prems" have "c \<in> set (decimal (n div 10)) \<or> c = char_of (48 + n mod 10)"
      by (subst (asm) decimal.simps) auto
    then show ?thesis using "1.IH" [OF False] by (auto intro: exI [of _ "n mod 10"])
  qed
qed

lemma digit_not_special:
  assumes "d < 10"
  shows "(char_of (48 + d :: nat) :: char) \<noteq> CHR ''.''" and "(char_of (48 + d :: nat) :: char) \<noteq> CHR ''+''"
proof -
  have "of_char (char_of (48 + d :: nat) :: char) = (48 + d :: nat)" using assms by simp
  then show "(char_of (48 + d :: nat) :: char) \<noteq> CHR ''.''"
    and "(char_of (48 + d :: nat) :: char) \<noteq> CHR ''+''"
    by (auto dest: arg_cong [where f = "of_char :: char \<Rightarrow> nat"])
qed

lemma parse_unsigned_decimal: "n < bound \<Longrightarrow> parse_unsigned bound (decimal n) = Some n"
proof -
  assume n: "n < bound"
  obtain c cs where d: "decimal n = c # cs" using decimal_nonempty by (cases "decimal n") auto
  then have "c \<noteq> CHR ''+''" using decimal_digits [of c n] digit_not_special(2) by auto
  then have "parse_unsigned bound (decimal n) =
      (case parse_digits 0 (decimal n) of None \<Rightarrow> None | Some n \<Rightarrow> if n < bound then Some n else None)"
    by (simp add: parse_unsigned_def d)
  then show ?thesis using n by (simp add: parse_digits_decimal)
qed

lemma split_on_no_sep: "d \<notin> set s \<Longrightarrow> split_on d s = [s]"
  by (induction s) auto

lemma split_on_sep: "d \<notin> set s \<Longrightarrow> split_on d (s @ d # t) = s # split_on d t"
  by (induction s) auto

lemma dot_notin_decimal: "CHR ''.'' \<notin> set (decimal n)"
  using decimal_digits digit_not_special(1) by fastforce

text \<open>The equations that evaluate the clock on concrete words.\<close>

lemmas clock_eval = clock_defs with_time_source_def max_observed_skew_def duration_from_micros_def
  abs_diff_def observe_logical_def bump_past_def sat_inc_def hlc_le_iff hlc_less_iff HLC_ZERO_def
  max_def Let_def

section \<open>Properties\<close>

text \<open>C29: over any sequence of \<open>now\<close>, \<open>observe\<close>, \<open>next_after\<close> and \<open>commit_timestamp\<close> calls and any
  wall-clock readings, including readings that move backward, the timestamps the clock hands out
  are strictly increasing and strictly above everything handed out before the run, as long as none
  of them carries the saturated logical counter \<open>u32::MAX\<close>.\<close>

theorem hlc_run_strictly_increasing:
  assumes "run_calls hlc_step c calls = (ts, c')"
    and "\<forall>t\<in>set ts. logical t \<noteq> max_u32"
  shows "sorted_wrt (<) ts \<and> (\<forall>t\<in>set ts. clock_last c < t)"
  using clock.run_strictly_sorted [OF assms(1)] clock.run_strict_above [OF assms(1)] assms(2)
  by simp

theorem hlc_run_strictly_increasing_witness:
  "run_calls hlc_step (with_time_source 7 60000000000)
     [CallNow 1000000, CallNow 500000, CallObserve 1 (HlcTimestamp 1000000 4 9),
      CallNextAfter 2 (HlcTimestamp 1000000 8 0)] =
   ([HlcTimestamp 1000000 0 7, HlcTimestamp 1000000 1 7, HlcTimestamp 1000000 5 7,
     HlcTimestamp 1000000 9 7],
    \<lparr>clk_state = \<lparr>st_physical_micros = 1000000, st_logical = 9, st_max_observed_skew_micros = 999999\<rparr>,
     clk_node_tiebreaker = 7, clk_max_skew = 60000000000\<rparr>) \<and>
   sorted_wrt (<) [HlcTimestamp 1000000 0 7, HlcTimestamp 1000000 1 7, HlcTimestamp 1000000 5 7,
     HlcTimestamp 1000000 9 7]"
proof -
  have run: "run_calls hlc_step (with_time_source 7 60000000000)
     [CallNow 1000000, CallNow 500000, CallObserve 1 (HlcTimestamp 1000000 4 9),
      CallNextAfter 2 (HlcTimestamp 1000000 8 0)] =
   ([HlcTimestamp 1000000 0 7, HlcTimestamp 1000000 1 7, HlcTimestamp 1000000 5 7,
     HlcTimestamp 1000000 9 7],
    \<lparr>clk_state = \<lparr>st_physical_micros = 1000000, st_logical = 9, st_max_observed_skew_micros = 999999\<rparr>,
     clk_node_tiebreaker = 7, clk_max_skew = 60000000000\<rparr>)"
    by (simp add: clock_eval)
  show ?thesis using run hlc_run_strictly_increasing [OF run] by simp
qed

text \<open>The clock never moves backward: whatever the calls and the wall-clock readings, the
  timestamps handed out are in non-decreasing order, saturated or not.\<close>

lemma hlc_run_never_backward: "sorted (fst (run_calls hlc_step c calls))"
  by (rule clock.run_sorted)

lemma fold_max_ge: "(a :: 'a::linorder) \<le> fold max xs a"
proof (induction xs arbitrary: a)
  case (Cons x xs)
  have "a \<le> max x a" by simp
  with Cons.IH [of "max x a"] show ?case by simp
qed simp

lemma fold_max_ge_elem: "x \<in> set xs \<Longrightarrow> (x :: 'a::linorder) \<le> fold max xs a"
proof (induction xs arbitrary: a)
  case (Cons y ys)
  show ?case
  proof (cases "x = y")
    case True
    with fold_max_ge [of "max y a" ys] show ?thesis by simp
  next
    case False
    with Cons show ?thesis by simp
  qed
qed simp

lemma fold_max_mem: "fold max xs a \<in> insert (a :: 'a::linorder) (set xs)"
proof (induction xs arbitrary: a)
  case (Cons x xs)
  from Cons.IH [of "max x a"] show ?case by (auto simp: max_def split: if_splits)
qed simp

lemma hlc_max_or_zero_ge: "p \<in> set ps \<Longrightarrow> p \<le> hlc_max_or_zero ps"
  by (cases ps) (auto simp: hlc_max_or_zero_def fold_max_ge fold_max_ge_elem)

lemma hlc_max_or_zero_mem: "ps \<noteq> [] \<Longrightarrow> hlc_max_or_zero ps \<in> set ps"
  using fold_max_mem by (cases ps) (simp_all add: hlc_max_or_zero_def)

text \<open>C32: a commit timestamp is strictly greater than every participant's read and write timestamp,
  provided no participant sits at the very end of the physical and logical range.\<close>

theorem commit_timestamp_exceeds_participants:
  assumes "\<forall>p\<in>set ps. physical_micros p \<noteq> max_u64 \<or> logical p \<noteq> max_u32"
    and "p \<in> set ps"
  shows "p < fst (commit_timestamp c wall ps)"
proof -
  let ?m = "hlc_max_or_zero ps"
  from assms(2) have "?m \<in> set ps" by (intro hlc_max_or_zero_mem) auto
  with assms(1) have "physical_micros ?m \<noteq> max_u64 \<or> logical ?m \<noteq> max_u32" by blast
  then have "?m < fst (commit_timestamp c wall ps)"
    by (intro next_after_exceeds [of c wall ?m _ "snd (commit_timestamp c wall ps)"])
      (simp_all add: commit_timestamp_def)
  with hlc_max_or_zero_ge [OF assms(2)] show ?thesis by (rule le_less_trans)
qed

theorem commit_timestamp_exceeds_participants_witness:
  "HlcTimestamp 7000 0 1 < fst (commit_timestamp (with_time_source 4 60000) 5000
     [HlcTimestamp 5000 3 9, HlcTimestamp 7000 0 1, HlcTimestamp 6999 12 12])"
  by (rule commit_timestamp_exceeds_participants) simp_all

text \<open>excessive skew fails closed for good: once the largest observed skew exceeds the
  configured maximum, no later sequence of calls lets \<open>now\<close> hand out a timestamp again.\<close>

lemma excessive_skew_is_permanent:
  assumes "clk_max_skew c < max_observed_skew c"
  shows "\<exists>e. fst (hlc_now (snd (run_calls hlc_step c calls)) wall) = Inl e"
proof -
  let ?c = "snd (run_calls hlc_step c calls)"
  have "clk_max_skew ?c < max_observed_skew ?c"
    using hlc_run_skew [of c calls] assms by (simp add: less_le_trans)
  from excessive_skew_rejects [OF this] show ?thesis by simp
qed

text \<open>C35: The text form of a timestamp parses back to the timestamp.\<close>

theorem hlc_display_round_trip: "hlc_from_str (hlc_display t) = Inr t"
proof -
  let ?p = "decimal (unat (physical_micros t))" and ?l = "decimal (unat (logical t))"
    and ?n = "decimal (unat (node_tiebreaker t))"
  have "split_on CHR ''.'' (hlc_display t) = [?p, ?l, ?n]"
    by (simp add: hlc_display_def split_on_sep split_on_no_sep dot_notin_decimal)
  moreover have "parse_component (2 ^ 64) x ?p = Inr (unat (physical_micros t))"
    and "parse_component (2 ^ 32) x ?l = Inr (unat (logical t))"
    and "parse_component (2 ^ 32) x ?n = Inr (unat (node_tiebreaker t))" for x
    using unsigned_less [where ?'a = nat, of "physical_micros t"] unsigned_less [where ?'a = nat, of "logical t"]
      unsigned_less [where ?'a = nat, of "node_tiebreaker t"]
    by (simp_all add: parse_component_def parse_unsigned_decimal)
  ultimately show ?thesis by (simp add: hlc_from_str_def)
qed

text \<open>C40: at logical saturation the strict order breaks: a clock whose counter is at \<open>u32::MAX\<close>, whose
  observed skew is within its bound and whose wall clock has not passed its physical time hands out
  the timestamp it handed out last and stays as it is, so that it repeats it on every such \<open>now\<close>.\<close>

theorem saturated_clock_repeats:
  assumes "st_logical (clk_state c) = max_u32" and "wall \<le> st_physical_micros (clk_state c)"
    and "max_observed_skew c \<le> clk_max_skew c"
  shows "hlc_now c wall = (Inr (clock_last c), c)"
proof -
  have "clock_advance (clk_state c) wall = clk_state c"
    using assms(1,2) by (simp add: clock_advance_def not_less [symmetric])
  then show ?thesis
    using assms(3)
    by (simp add: hlc_now_def reject_excessive_skew_def max_observed_skew_def clock_last_def
        Let_def not_less [symmetric])
qed

theorem saturated_clock_repeats_witness:
  "hlc_now (snd (next_after (with_time_source 7 1000) 5 (HlcTimestamp 9 4294967294 0))) 5 =
     (Inr (HlcTimestamp 9 4294967295 7),
      snd (next_after (with_time_source 7 1000) 5 (HlcTimestamp 9 4294967294 0)))"
proof -
  let ?c = "snd (next_after (with_time_source 7 1000) 5 (HlcTimestamp 9 4294967294 0))"
  have "clock_last ?c = HlcTimestamp 9 4294967295 7" by (simp add: clock_eval)
  moreover have "hlc_now ?c 5 = (Inr (clock_last ?c), ?c)"
    by (rule saturated_clock_repeats) (simp_all add: clock_eval)
  ultimately show ?thesis by simp
qed

lemma cmp_Less [simp]: "cmp a b = Less \<longleftrightarrow> a < b"
  by (simp add: cmp_def)

lemma cmp_Equal [simp]: "cmp a b = Equal \<longleftrightarrow> a = b"
  by (simp add: cmp_def)

lemma cmp_Greater [simp]: "cmp a b = Greater \<longleftrightarrow> b < (a :: 'a::linorder)"
  by (auto simp: cmp_def)

text \<open>During the migration the stored stamps are totally ordered: the comparison is antisymmetric
  and transitive, legacy epochs keep their numeric order, timestamps keep theirs, and every legacy
  epoch sorts below every timestamp.\<close>

lemma cmp_stamps_total_order:
  "(cmp_stamps a b = Equal \<longleftrightarrow> a = b) \<and>
   (cmp_stamps a b = Less \<longleftrightarrow> cmp_stamps b a = Greater) \<and>
   (cmp_stamps a b = Less \<longrightarrow> cmp_stamps b d = Less \<longrightarrow> cmp_stamps a d = Less) \<and>
   cmp_stamps (LegacyEpoch e) (Hlc t) = Less"
proof (intro conjI impI)
  show "cmp_stamps a b = Equal \<longleftrightarrow> a = b" by (cases a; cases b) auto
  show "cmp_stamps a b = Less \<longleftrightarrow> cmp_stamps b a = Greater" by (cases a; cases b) auto
  show "cmp_stamps a d = Less" if "cmp_stamps a b = Less" "cmp_stamps b d = Less"
    using that by (cases a; cases b; cases d) auto
  show "cmp_stamps (LegacyEpoch e) (Hlc t) = Less" by simp
qed

end
