(* ===== verification/Epochs.thy ===== *)
theory Epochs
  imports Hlc
begin

text \<open>
  Epochs, snapshots and version stamps, and the dual-counter epoch authority
  (\<open>crates/mongreldb-core/src/epoch.rs\<close>). The first part is pure: which row versions a snapshot
  observes and which of two versions is the newer one. The second part is the authority that hands
  out commit tickets and advances the reader watermark in ticket order.
\<close>

section \<open>Snapshots and version stamps\<close>

type_synonym epoch = u64

definition epoch_next :: "epoch \<Rightarrow> epoch" where
  "epoch_next e = e + 1"

record snapshot =
  snap_epoch :: epoch
  snap_commit_ts :: HlcTimestamp

definition snapshot_at :: "epoch \<Rightarrow> snapshot" where
  "snapshot_at e = \<lparr>snap_epoch = e, snap_commit_ts = HLC_ZERO\<rparr>"

definition snapshot_at_hlc :: "epoch \<Rightarrow> HlcTimestamp \<Rightarrow> snapshot" where
  "snapshot_at_hlc e ts = \<lparr>snap_epoch = e, snap_commit_ts = ts\<rparr>"

definition snapshot_unbounded :: snapshot where
  "snapshot_unbounded = snapshot_at_hlc max_u64 HLC_MAX"

definition uses_hlc_authority :: "snapshot \<Rightarrow> bool" where
  "uses_hlc_authority s \<longleftrightarrow> snap_commit_ts s \<noteq> HLC_ZERO"

definition observes :: "snapshot \<Rightarrow> epoch \<Rightarrow> bool" where
  "observes s page_epoch \<longleftrightarrow> page_epoch \<le> snap_epoch s"

definition observes_version :: "snapshot \<Rightarrow> epoch \<Rightarrow> HlcTimestamp option \<Rightarrow> bool" where
  "observes_version s row_epoch row_ts =
     (case (uses_hlc_authority s, row_ts) of
        (True, Some ts) \<Rightarrow> ts \<le> snap_commit_ts s
      | (False, Some _) \<Rightarrow> row_epoch \<le> snap_epoch s
      | (_, None) \<Rightarrow> row_epoch \<le> snap_epoch s)"

definition observes_row :: "snapshot \<Rightarrow> epoch \<Rightarrow> HlcTimestamp option \<Rightarrow> bool" where
  "observes_row s row_epoch row_ts = observes_version s row_epoch row_ts"

definition version_is_newer ::
    "epoch \<Rightarrow> HlcTimestamp option \<Rightarrow> epoch \<Rightarrow> HlcTimestamp option \<Rightarrow> bool" where
  "version_is_newer a_epoch a_ts b_epoch b_ts =
     (case (a_ts, b_ts) of
        (Some a, Some b) \<Rightarrow> b < a
      | _ \<Rightarrow> b_epoch < a_epoch)"

definition version_supersedes ::
    "epoch \<Rightarrow> HlcTimestamp option \<Rightarrow> epoch \<Rightarrow> HlcTimestamp option \<Rightarrow> bool" where
  "version_supersedes cand_epoch cand_ts cur_epoch cur_ts \<longleftrightarrow>
     \<not> version_is_newer cur_epoch cur_ts cand_epoch cand_ts"

record version_stamp =
  vs_epoch :: epoch
  vs_commit_ts :: "HlcTimestamp option"

definition is_newer_than :: "version_stamp \<Rightarrow> version_stamp \<Rightarrow> bool" where
  "is_newer_than a b = version_is_newer (vs_epoch a) (vs_commit_ts a) (vs_epoch b) (vs_commit_ts b)"

declare observes_version_def [stamp_simps] observes_row_def [stamp_simps]
  version_is_newer_def [stamp_simps] version_supersedes_def [stamp_simps]
  is_newer_than_def [stamp_simps] uses_hlc_authority_def [stamp_simps]

section \<open>The garbage-collection floor\<close>

record gc_floor =
  transaction_snapshot :: HlcTimestamp
  history_retention :: HlcTimestamp
  backup_pitr :: HlcTimestamp
  replication :: HlcTimestamp
  read_generation :: HlcTimestamp
  online_index_build :: HlcTimestamp

definition gc_floor_zero :: gc_floor where
  "gc_floor_zero = \<lparr>transaction_snapshot = HLC_ZERO, history_retention = HLC_ZERO,
     backup_pitr = HLC_ZERO, replication = HLC_ZERO, read_generation = HLC_ZERO,
     online_index_build = HLC_ZERO\<rparr>"

definition gc_sources :: "gc_floor \<Rightarrow> (string \<times> HlcTimestamp) list" where
  "gc_sources g =
     [(''transaction_snapshot'', transaction_snapshot g),
      (''history_retention'', history_retention g),
      (''backup_pitr'', backup_pitr g),
      (''replication'', replication g),
      (''read_generation'', read_generation g),
      (''online_index_build'', online_index_build g)]"

text \<open>\<open>Iterator::min\<close> on the non-zero pins, \<open>ZERO\<close> when there is none.\<close>

definition gc_floor_value :: "gc_floor \<Rightarrow> HlcTimestamp" where
  "gc_floor_value g =
     (case filter (\<lambda>ts. ts \<noteq> HLC_ZERO)
             [transaction_snapshot g, history_retention g, backup_pitr g, replication g,
              read_generation g, online_index_build g] of
        [] \<Rightarrow> HLC_ZERO
      | t # ts \<Rightarrow> fold min ts t)"

section \<open>The epoch clock\<close>

text \<open>
  The clock's single atomic counter. \<open>advance_to\<close> retries a compare-exchange until the counter is
  at least the target, which is one atomic raise.
\<close>

record epoch_clock =
  ec_current :: u64

definition epoch_clock_new :: "u64 \<Rightarrow> epoch_clock" where
  "epoch_clock_new start = \<lparr>ec_current = start\<rparr>"

definition epoch_clock_now :: "epoch_clock \<Rightarrow> epoch" where
  "epoch_clock_now c = ec_current c"

definition epoch_clock_snapshot :: "epoch_clock \<Rightarrow> snapshot" where
  "epoch_clock_snapshot c = snapshot_at (epoch_clock_now c)"

definition epoch_clock_bump :: "epoch_clock \<Rightarrow> epoch \<times> epoch_clock" where
  "epoch_clock_bump c = (ec_current c + 1, c\<lparr>ec_current := ec_current c + 1\<rparr>)"

definition raise_to :: "u64 \<Rightarrow> u64 \<Rightarrow> u64" where
  "raise_to cell target = (if cell < target then target else cell)"

definition epoch_clock_advance_to :: "epoch_clock \<Rightarrow> epoch \<Rightarrow> epoch_clock" where
  "epoch_clock_advance_to c e = c\<lparr>ec_current := raise_to (ec_current c) e\<rparr>"

section \<open>The epoch authority\<close>

record epoch_authority =
  ea_assigned :: u64
  ea_visible :: u64
  ea_committed :: u64
  ea_pending :: "u64 set"
  ea_abandoned :: "u64 set"

definition authority_new :: "u64 \<Rightarrow> epoch_authority" where
  "authority_new start =
     \<lparr>ea_assigned = start, ea_visible = start, ea_committed = start,
      ea_pending = {}, ea_abandoned = {}\<rparr>"

definition bump_assigned :: "epoch_authority \<Rightarrow> epoch \<times> epoch_authority" where
  "bump_assigned a = (ea_assigned a + 1, a\<lparr>ea_assigned := ea_assigned a + 1\<rparr>)"

definition publish_visible :: "epoch_authority \<Rightarrow> epoch \<Rightarrow> epoch_authority" where
  "publish_visible a e = a\<lparr>ea_visible := raise_to (ea_visible a) e\<rparr>"

text \<open>
  The loop both \<open>publish_in_order\<close> and \<open>abandon\<close> run under the two locks: it consumes the resolved
  tickets that follow the watermark without a gap.
\<close>

function absorb :: "u64 \<Rightarrow> u64 set \<Rightarrow> u64 set \<Rightarrow> u64 \<times> u64 set \<times> u64 set" where
  "absorb vis pending abandoned =
     (if vis + 1 \<in> pending then absorb (vis + 1) (pending - {vis + 1}) abandoned
      else if vis + 1 \<in> abandoned then absorb (vis + 1) pending (abandoned - {vis + 1})
      else (vis, pending, abandoned))"
  by pat_completeness auto
termination
proof (relation "measure (\<lambda>(_, p, a). card p + card a)")
  fix vis :: u64 and pending abandoned :: "u64 set"
  assume "vis + 1 \<in> pending"
  then show "((vis + 1, pending - {vis + 1}, abandoned), vis, pending, abandoned)
      \<in> measure (\<lambda>(_, p, a). card p + card a)"
    using card_Diff1_less [OF finite] by force
next
  fix vis :: u64 and pending abandoned :: "u64 set"
  assume "vis + 1 \<in> abandoned"
  then show "((vis + 1, pending, abandoned - {vis + 1}), vis, pending, abandoned)
      \<in> measure (\<lambda>(_, p, a). card p + card a)"
    using card_Diff1_less [OF finite] by force
qed simp

declare absorb.simps [simp del]

text \<open>The critical section of \<open>publish_in_order\<close>; it returns the watermark the caller publishes
  after it has dropped the locks.\<close>

definition publish_section :: "epoch_authority \<Rightarrow> epoch \<Rightarrow> epoch \<times> epoch_authority" where
  "publish_section a e =
     (let (vis, p, q) = absorb (ea_visible a) (insert e (ea_pending a)) (ea_abandoned a)
      in (vis, a\<lparr>ea_committed := raise_to (ea_committed a) e, ea_pending := p, ea_abandoned := q\<rparr>))"

definition publish_in_order :: "epoch_authority \<Rightarrow> epoch \<Rightarrow> epoch_authority" where
  "publish_in_order a e = (let (vis, a') = publish_section a e in publish_visible a' vis)"

definition abandon_section :: "epoch_authority \<Rightarrow> epoch \<Rightarrow> epoch \<times> epoch_authority" where
  "abandon_section a e =
     (let (vis, p, q) = absorb (ea_visible a) (ea_pending a - {e}) (insert e (ea_abandoned a))
      in (vis, a\<lparr>ea_pending := p, ea_abandoned := q\<rparr>))"

definition abandon :: "epoch_authority \<Rightarrow> epoch \<Rightarrow> epoch_authority" where
  "abandon a e = (let (vis, a') = abandon_section a e in publish_visible a' vis)"

definition set_recovered :: "epoch_authority \<Rightarrow> epoch \<Rightarrow> epoch_authority" where
  "set_recovered a e = a\<lparr>ea_assigned := e, ea_visible := e, ea_committed := e\<rparr>"

definition advance_recovered :: "epoch_authority \<Rightarrow> epoch \<Rightarrow> epoch_authority" where
  "advance_recovered a e =
     a\<lparr>ea_assigned := raise_to (ea_assigned a) e, ea_visible := raise_to (ea_visible a) e,
       ea_committed := raise_to (ea_committed a) e\<rparr>"

text \<open>The guard that resolves a ticket on every exit path: dropping it while armed abandons.\<close>

record epoch_guard =
  eg_epoch :: epoch
  eg_armed :: bool

definition guard_new :: "epoch \<Rightarrow> epoch_guard" where
  "guard_new e = \<lparr>eg_epoch = e, eg_armed = True\<rparr>"

definition guard_disarm :: "epoch_guard \<Rightarrow> epoch_guard" where
  "guard_disarm g = g\<lparr>eg_armed := False\<rparr>"

definition guard_drop :: "epoch_guard \<Rightarrow> epoch_authority \<Rightarrow> epoch_authority" where
  "guard_drop g a = (if eg_armed g then abandon a (eg_epoch g) else a)"

section \<open>Selecting the newest version\<close>

text \<open>
  A fold over candidates in physical write order that keeps the later one unless the current
  winner is strictly newer, as every version container does it.
\<close>

definition supersede :: "('v \<Rightarrow> 'v \<Rightarrow> bool) \<Rightarrow> 'v option \<Rightarrow> 'v \<Rightarrow> 'v option" where
  "supersede newer best r =
     (case best of None \<Rightarrow> Some r | Some current \<Rightarrow> if \<not> newer current r then Some r else Some current)"

definition fold_newest :: "('v \<Rightarrow> 'v \<Rightarrow> bool) \<Rightarrow> 'v list \<Rightarrow> 'v option" where
  "fold_newest newer xs = foldl (supersede newer) None xs"

text \<open>
  The contract of a recency relation on the versions that can meet in one fold: a strict weak
  order. Under it the fold returns the last written among the newest candidates.
\<close>

definition last_newest :: "('v \<Rightarrow> 'v \<Rightarrow> bool) \<Rightarrow> 'v list \<Rightarrow> 'v \<Rightarrow> bool" where
  "last_newest newer xs w \<longleftrightarrow>
     (\<exists>us vs. xs = us @ w # vs \<and> (\<forall>u\<in>set us. \<not> newer u w) \<and> (\<forall>v\<in>set vs. newer w v))"

locale recency =
  fixes carrier :: "'v set" and newer :: "'v \<Rightarrow> 'v \<Rightarrow> bool"
  assumes asym: "a \<in> carrier \<Longrightarrow> b \<in> carrier \<Longrightarrow> newer a b \<Longrightarrow> \<not> newer b a"
    and trans: "a \<in> carrier \<Longrightarrow> b \<in> carrier \<Longrightarrow> c \<in> carrier \<Longrightarrow>
      newer a b \<Longrightarrow> newer b c \<Longrightarrow> newer a c"
    and weak: "a \<in> carrier \<Longrightarrow> b \<in> carrier \<Longrightarrow> c \<in> carrier \<Longrightarrow>
      \<not> newer a b \<Longrightarrow> \<not> newer b c \<Longrightarrow> \<not> newer a c"
begin

lemma fold_newest_snoc:
  "fold_newest newer (xs @ [x]) = supersede newer (fold_newest newer xs) x"
  by (simp add: fold_newest_def)

lemma fold_newest_last_newest:
  assumes "set xs \<subseteq> carrier" and "xs \<noteq> []"
  shows "\<exists>w. fold_newest newer xs = Some w \<and> last_newest newer xs w"
  using assms
proof (induction xs rule: rev_induct)
  case Nil
  then show ?case by simp
next
  case (snoc x xs)
  show ?case
  proof (cases "xs = []")
    case True
    have "last_newest newer [x] x" unfolding last_newest_def by (rule exI [of _ "[]"]) simp
    with True show ?thesis by (simp add: fold_newest_def supersede_def)
  next
    case False
    with snoc obtain w where w: "fold_newest newer xs = Some w" "last_newest newer xs w" by auto
    then obtain us vs where xs: "xs = us @ w # vs"
      and us: "\<forall>u\<in>set us. \<not> newer u w" and vs: "\<forall>v\<in>set vs. newer w v"
      unfolding last_newest_def by blast
    from snoc.prems xs have mem: "set us \<subseteq> carrier" "w \<in> carrier" "set vs \<subseteq> carrier" "x \<in> carrier"
      by auto
    show ?thesis
    proof (cases "newer w x")
      case True
      then have "last_newest newer (xs @ [x]) w"
        unfolding last_newest_def xs using us vs by (intro exI [of _ us] exI [of _ "vs @ [x]"]) auto
      with True w(1) show ?thesis by (simp add: fold_newest_snoc supersede_def)
    next
      case False
      have "\<not> newer u x" if "u \<in> set xs" for u
      proof -
        from that xs us vs have "\<not> newer u w"
          using asym mem by auto
        moreover have "u \<in> carrier" using that snoc.prems by auto
        ultimately show ?thesis using weak [of u w x] mem False by blast
      qed
      then have "last_newest newer (xs @ [x]) x"
        unfolding last_newest_def by (intro exI [of _ xs] exI [of _ "[]"]) auto
      with False w(1) show ?thesis by (simp add: fold_newest_snoc supersede_def)
    qed
  qed
qed

lemma last_newest_unique:
  assumes "set xs \<subseteq> carrier" and "last_newest newer xs v" and "last_newest newer xs w"
  shows "v = w"
proof -
  obtain us vs where v: "xs = us @ v # vs" "\<forall>u\<in>set us. \<not> newer u v" "\<forall>u\<in>set vs. newer v u"
    using assms(2) unfolding last_newest_def by blast
  obtain us' vs' where w: "xs = us' @ w # vs'" "\<forall>u\<in>set us'. \<not> newer u w" "\<forall>u\<in>set vs'. newer w u"
    using assms(3) unfolding last_newest_def by blast
  from v(1) w(1) have "us @ v # vs = us' @ w # vs'" by simp
  then consider "us = us'" "v = w" | ts where "us' = us @ v # ts" "vs = ts @ w # vs'"
    | ts where "us = us' @ w # ts" "vs' = ts @ v # vs"
    by (auto simp: append_eq_append_conv2 Cons_eq_append_conv append_eq_Cons_conv)
  then show ?thesis
  proof cases
    case 2
    with v w show ?thesis by auto
  next
    case 3
    with v w show ?thesis by auto
  qed
qed

lemma fold_newest_iff:
  assumes "set xs \<subseteq> carrier"
  shows "fold_newest newer xs = Some w \<longleftrightarrow> last_newest newer xs w"
proof
  assume w: "fold_newest newer xs = Some w"
  then have "xs \<noteq> []" by (auto simp: fold_newest_def)
  with fold_newest_last_newest [OF assms] w show "last_newest newer xs w" by simp
next
  assume w: "last_newest newer xs w"
  then have "xs \<noteq> []" by (auto simp: last_newest_def)
  with fold_newest_last_newest [OF assms] obtain v
    where "fold_newest newer xs = Some v" "last_newest newer xs v" by blast
  with last_newest_unique [OF assms] w show "fold_newest newer xs = Some w" by blast
qed

end

text \<open>
  Stamps of one authority, all legacy or all HLC, are ordered; so is every set of stamps on which
  epoch order and timestamp order agree.
\<close>

definition legacy_stamps :: "version_stamp set" where
  "legacy_stamps = {s. vs_commit_ts s = None}"

definition hlc_stamps :: "version_stamp set" where
  "hlc_stamps = {s. vs_commit_ts s \<noteq> None}"

definition coherent_stamps :: "version_stamp set \<Rightarrow> bool" where
  "coherent_stamps C \<longleftrightarrow>
     (\<forall>a\<in>C. \<forall>b\<in>C. \<forall>ta tb. vs_commit_ts a = Some ta \<longrightarrow> vs_commit_ts b = Some tb \<longrightarrow>
        (ta < tb \<longleftrightarrow> vs_epoch a < vs_epoch b))"

interpretation legacy: recency legacy_stamps is_newer_than
  by unfold_locales (auto simp: legacy_stamps_def stamp_simps)

interpretation hlc: recency hlc_stamps is_newer_than
  by unfold_locales (auto simp: hlc_stamps_def stamp_simps)

lemma coherent_newer_iff:
  assumes "coherent_stamps C" and "a \<in> C" and "b \<in> C"
  shows "is_newer_than a b \<longleftrightarrow> vs_epoch b < vs_epoch a"
  using assms unfolding coherent_stamps_def by (auto simp: stamp_simps split: option.splits)

lemma coherent_recency:
  assumes "coherent_stamps C"
  shows "recency C is_newer_than"
  by unfold_locales (auto simp: coherent_newer_iff [OF assms])

section \<open>The watermark loop\<close>

lemma raise_to_ge [simp]: "cell \<le> raise_to cell target" "target \<le> raise_to cell target"
  by (auto simp: raise_to_def)

lemma raise_to_cases: "raise_to cell target = cell \<or> raise_to cell target = target"
  by (simp add: raise_to_def)

lemma interval_step:
  assumes "w < w + 1" and "w + 1 \<le> (v :: u64)"
  shows "{w<..v} = insert (w + 1) {w + 1<..v}"
proof (intro set_eqI iffI)
  fix x assume "x \<in> {w<..v}"
  then have "w + 1 \<le> x" "x \<le> v" by (simp_all add: inc_le)
  then show "x \<in> insert (w + 1) {w + 1<..v}" by auto
next
  fix x assume "x \<in> insert (w + 1) {w + 1<..v}"
  with assms show "x \<in> {w<..v}" by (auto intro: less_trans)
qed

lemma interval_snoc:
  assumes "w < w + 1" and "u \<le> (w :: u64)"
  shows "{u<..w + 1} = insert (w + 1) {u<..w}"
proof (intro set_eqI iffI)
  fix x assume x: "x \<in> {u<..w + 1}"
  then have "x = w + 1 \<or> x \<le> w" by (auto simp: order_le_less [of x "w + 1"] less_inc_imp_less_eq)
  with x show "x \<in> insert (w + 1) {u<..w}" by auto
next
  fix x assume "x \<in> insert (w + 1) {u<..w}"
  with assms show "x \<in> {u<..w + 1}" by (auto intro: le_less_trans less_imp_le)
qed

text \<open>What the loop consumes is exactly the gap-free run of resolved tickets after the watermark.\<close>

lemma absorb_run:
  assumes "absorb vis P A = (v, P', A')" and "0 \<notin> P \<union> A"
  shows "vis \<le> v \<and> {vis<..v} \<subseteq> P \<union> A \<and> P' \<subseteq> P \<and> A' \<subseteq> A \<and>
         v + 1 \<notin> P' \<union> A' \<and> P \<union> A \<subseteq> P' \<union> A' \<union> {vis<..v} \<and>
         (P \<inter> A = {} \<longrightarrow> (P' \<union> A') \<inter> {vis<..v} = {})"
  using assms
proof (induction vis P A arbitrary: v P' A' rule: absorb.induct)
  case (1 vis P A)
  consider (pend) "vis + 1 \<in> P" | (aban) "vis + 1 \<notin> P" "vis + 1 \<in> A"
    | (stop) "vis + 1 \<notin> P" "vis + 1 \<notin> A" by blast
  then show ?case
  proof cases
    case pend
    with "1.prems"(2) have "vis \<noteq> - 1" by auto
    then have lt: "vis < vis + 1" by (rule word_less_inc)
    have "absorb (vis + 1) (P - {vis + 1}) A = (v, P', A')"
      using "1.prems"(1) pend by (simp add: absorb.simps [of vis P A])
    with "1.IH"(1) [OF pend] "1.prems"(2)
    have ih: "vis + 1 \<le> v \<and> {vis + 1<..v} \<subseteq> (P - {vis + 1}) \<union> A \<and> P' \<subseteq> P - {vis + 1} \<and> A' \<subseteq> A \<and>
         v + 1 \<notin> P' \<union> A' \<and> (P - {vis + 1}) \<union> A \<subseteq> P' \<union> A' \<union> {vis + 1<..v} \<and>
         (P \<inter> A = {} \<longrightarrow> (P' \<union> A') \<inter> {vis + 1<..v} = {})" by blast
    with lt have "{vis<..v} = insert (vis + 1) {vis + 1<..v}" by (intro interval_step) auto
    with ih lt pend show ?thesis by auto
  next
    case aban
    with "1.prems"(2) have "vis \<noteq> - 1" by auto
    then have lt: "vis < vis + 1" by (rule word_less_inc)
    have "absorb (vis + 1) P (A - {vis + 1}) = (v, P', A')"
      using "1.prems"(1) aban by (simp add: absorb.simps [of vis P A])
    with "1.IH"(2) [OF aban] "1.prems"(2)
    have ih: "vis + 1 \<le> v \<and> {vis + 1<..v} \<subseteq> P \<union> (A - {vis + 1}) \<and> P' \<subseteq> P \<and> A' \<subseteq> A - {vis + 1} \<and>
         v + 1 \<notin> P' \<union> A' \<and> P \<union> (A - {vis + 1}) \<subseteq> P' \<union> A' \<union> {vis + 1<..v} \<and>
         (P \<inter> A = {} \<longrightarrow> (P' \<union> A') \<inter> {vis + 1<..v} = {})" by blast
    with lt have "{vis<..v} = insert (vis + 1) {vis + 1<..v}" by (intro interval_step) auto
    with ih lt aban show ?thesis by auto
  next
    case stop
    with "1.prems"(1) have "v = vis" "P' = P" "A' = A" by (simp_all add: absorb.simps [of vis P A])
    with stop show ?thesis by simp
  qed
qed

section \<open>Properties of stamps and floors\<close>

lemma fold_min_props:
  fixes t :: "'a :: linorder"
  shows "fold min ts t \<in> set (t # ts) \<and> (\<forall>u\<in>set (t # ts). fold min ts t \<le> u)"
proof (induction ts arbitrary: t)
  case (Cons u ts)
  from Cons [of "min u t"] show ?case by (auto simp: min_def split: if_splits)
qed simp

text \<open>The garbage-collection floor is the least pin. When some source pins a timestamp, the
  floor is one of the pinned timestamps and no pin is below it, so nothing a source still needs is
  reclaimed; the floor is \<open>ZERO\<close> exactly when no source pins anything.\<close>

lemma gc_floor_is_least_pin:
  "let pins = {ts \<in> snd ` set (gc_sources g). ts \<noteq> HLC_ZERO} in
     if pins = {} then gc_floor_value g = HLC_ZERO
     else gc_floor_value g \<in> pins \<and> gc_floor_value g = Min pins"
proof -
  define pins where "pins = {ts \<in> snd ` set (gc_sources g). ts \<noteq> HLC_ZERO}"
  let ?l = "[transaction_snapshot g, history_retention g, backup_pitr g, replication g,
    read_generation g, online_index_build g]"
  have pins: "pins = set (filter (\<lambda>ts. ts \<noteq> HLC_ZERO) ?l)"
    unfolding pins_def gc_sources_def by auto
  show ?thesis
  proof (cases "filter (\<lambda>ts. ts \<noteq> HLC_ZERO) ?l")
    case Nil
    then show ?thesis unfolding Let_def pins_def [symmetric] pins gc_floor_value_def by simp
  next
    case (Cons t ts)
    then have p: "pins = set (t # ts)" and v: "gc_floor_value g = fold min ts t"
      unfolding pins gc_floor_value_def by simp_all
    have m: "fold min ts t \<in> pins" "\<forall>u\<in>pins. fold min ts t \<le> u"
      unfolding p using fold_min_props [of ts t] by blast+
    then have "Min pins = fold min ts t" by (intro Min_eqI) (auto simp: p)
    with m(1) show ?thesis unfolding Let_def pins_def [symmetric] v by auto
  qed
qed

text \<open>On versions of mixed origin "newer" is not an order. A version without a timestamp is
  compared by epoch and two stamped versions by timestamp, and three versions can be newer than each
  other in a cycle, so which one a fold keeps depends on the order it meets them in.\<close>

lemma mixed_stamps_cycle:
  "\<exists>a b c. is_newer_than a b \<and> is_newer_than b c \<and> is_newer_than c a \<and>
     fold_newest is_newer_than [a, b, c] \<noteq> fold_newest is_newer_than [b, c, a]"
proof -
  define a where "a = \<lparr>vs_epoch = 1, vs_commit_ts = Some (HlcTimestamp 3 0 0)\<rparr>"
  define b where "b = \<lparr>vs_epoch = 3, vs_commit_ts = Some (HlcTimestamp 1 0 0)\<rparr>"
  define c where "c = \<lparr>vs_epoch = 2, vs_commit_ts = None\<rparr>"
  have "is_newer_than a b" "is_newer_than b c" "is_newer_than c a"
    by (simp_all add: a_def b_def c_def stamp_simps less_HlcTimestamp_def hlc_key_def)
  moreover from this have "\<not> is_newer_than b a" "\<not> is_newer_than c b" "\<not> is_newer_than a c"
    by (simp_all add: a_def b_def c_def stamp_simps less_HlcTimestamp_def hlc_key_def)
  moreover have "a \<noteq> b" by (simp add: a_def b_def)
  ultimately show ?thesis
    by (intro exI [of _ a] exI [of _ b] exI [of _ c]) (auto simp: fold_newest_def supersede_def a_def b_def c_def)
qed

end
