(* ===== verification/Epoch_Publication.thy ===== *)
theory Epoch_Publication
  imports Epochs
begin

text \<open>
  The epoch authority as a system of committers. A ticket taken from \<open>bump_assigned\<close> is in flight
  until its committer publishes or abandons it. The sequential system runs each operation of
  \<open>epoch.rs\<close> as one step. The concurrent system splits \<open>publish_in_order\<close> and \<open>abandon\<close> where
  the code drops its locks: the watermark computed in the critical section is published by a later
  step, and other committers may run in between.
\<close>

section \<open>The sequential system\<close>

record ticket_state =
  tk_auth :: epoch_authority
  tk_inflight :: "u64 set"

definition ticket_init :: "ticket_state \<Rightarrow> bool" where
  "ticket_init s \<longleftrightarrow> (\<exists>start. s = \<lparr>tk_auth = authority_new start, tk_inflight = {}\<rparr>)"

inductive ticket_step :: "ticket_state \<Rightarrow> ticket_state \<Rightarrow> bool" where
  take_ticket: "ea_assigned (tk_auth s) \<noteq> max_u64 \<Longrightarrow> bump_assigned (tk_auth s) = (e, a) \<Longrightarrow>
     ticket_step s (s\<lparr>tk_auth := a, tk_inflight := insert e (tk_inflight s)\<rparr>)"
| publish_ticket: "e \<in> tk_inflight s \<Longrightarrow>
     ticket_step s (s\<lparr>tk_auth := publish_in_order (tk_auth s) e, tk_inflight := tk_inflight s - {e}\<rparr>)"
| drop_ticket: "e \<in> tk_inflight s \<Longrightarrow>
     ticket_step s (s\<lparr>tk_auth := guard_drop (guard_new e) (tk_auth s), tk_inflight := tk_inflight s - {e}\<rparr>)"

text \<open>
  Every ticket above the watermark is in flight, pending or abandoned, and the next one is still
  in flight.
\<close>

definition ticket_inv :: "ticket_state \<Rightarrow> bool" where
  "ticket_inv s \<longleftrightarrow>
     (let a = tk_auth s in
        ea_visible a \<le> ea_assigned a \<and>
        {ea_visible a<..ea_assigned a} = ea_pending a \<union> ea_abandoned a \<union> tk_inflight s \<and>
        (ea_pending a \<union> ea_abandoned a) \<inter> tk_inflight s = {} \<and>
        ea_pending a \<inter> ea_abandoned a = {} \<and>
        ea_visible a + 1 \<notin> ea_pending a \<union> ea_abandoned a)"

lemma ticket_invD:
  assumes "ticket_inv s"
  shows "ea_visible (tk_auth s) \<le> ea_assigned (tk_auth s)"
    and "{ea_visible (tk_auth s)<..ea_assigned (tk_auth s)} =
           ea_pending (tk_auth s) \<union> ea_abandoned (tk_auth s) \<union> tk_inflight s"
    and "(ea_pending (tk_auth s) \<union> ea_abandoned (tk_auth s)) \<inter> tk_inflight s = {}"
    and "ea_pending (tk_auth s) \<inter> ea_abandoned (tk_auth s) = {}"
    and "ea_visible (tk_auth s) + 1 \<notin> ea_pending (tk_auth s) \<union> ea_abandoned (tk_auth s)"
  using assms unfolding ticket_inv_def Let_def by simp_all

text \<open>The step both resolutions share: one more ticket resolved, then the gap-free run consumed.\<close>

lemma resolve_keeps_inv:
  assumes inv: "ticket_inv s" and e: "e \<in> tk_inflight s"
    and PA: "P \<union> A = insert e (ea_pending (tk_auth s) \<union> ea_abandoned (tk_auth s))" "P \<inter> A = {}"
    and absorbed: "absorb (ea_visible (tk_auth s)) P A = (v, P', A')"
    and t: "ea_visible (tk_auth t) = raise_to (ea_visible (tk_auth s)) v"
      "ea_assigned (tk_auth t) = ea_assigned (tk_auth s)"
      "ea_pending (tk_auth t) = P'" "ea_abandoned (tk_auth t) = A'"
      "tk_inflight t = tk_inflight s - {e}"
  shows "ticket_inv t"
proof -
  let ?vis = "ea_visible (tk_auth s)" and ?asg = "ea_assigned (tk_auth s)"
  note I = ticket_invD [OF inv]
  have sub: "P \<union> A \<subseteq> {?vis<..?asg}" 
    unfolding PA(1) I(2) using e by blast
  then have "0 \<notin> P \<union> A" by auto
  with absorbed PA(2) have R: "?vis \<le> v" "{?vis<..v} \<subseteq> P \<union> A" "P' \<subseteq> P" "A' \<subseteq> A"
      "v + 1 \<notin> P' \<union> A'" "P \<union> A \<subseteq> P' \<union> A' \<union> {?vis<..v}" "(P' \<union> A') \<inter> {?vis<..v} = {}"
    using absorb_run [OF absorbed] by simp_all
  have v: "ea_visible (tk_auth t) = v" using R(1) t(1) by (auto simp: raise_to_def)
  have vle: "v \<le> ?asg"
  proof (cases "?vis = v")
    case False
    then have "v \<in> {?vis<..v}" using R(1) by simp
    with R(2) sub have "v \<in> {?vis<..?asg}" by blast
    then show ?thesis by simp
  qed (use I(1) in simp)
  have split: "{v<..?asg} = {?vis<..?asg} - {?vis<..v}" using R(1) vle by auto
  have fl: "tk_inflight t \<inter> {?vis<..v} = {}" using R(2) PA(1) I(3) t(5) by blast
  have "P \<union> A \<union> tk_inflight t = {?vis<..?asg}" unfolding PA(1) I(2) t(5) using e by blast
  then have above: "{v<..?asg} = P' \<union> A' \<union> tk_inflight t"
    unfolding split using R(3,4,6,7) fl by blast
  show ?thesis
    unfolding ticket_inv_def Let_def v t(2-4) using vle above R(3-5) PA I(3) t(5) by blast
qed

lemma ticket_inv_init: "ticket_init s \<Longrightarrow> ticket_inv s"
  by (auto simp: ticket_init_def ticket_inv_def authority_new_def)

lemma ticket_inv_step: "ticket_step s t \<Longrightarrow> ticket_inv s \<Longrightarrow> ticket_inv t"
proof (induction rule: ticket_step.induct)
  case (take_ticket s e a)
  let ?a = "tk_auth s"
  from take_ticket have e: "e = ea_assigned ?a + 1" and a: "a = ?a\<lparr>ea_assigned := e\<rparr>"
    by (auto simp: bump_assigned_def)
  note I = ticket_invD [OF take_ticket.prems]
  have lt: "ea_assigned ?a < e" using take_ticket.hyps(1) by (simp add: e word_less_inc)
  then have "{ea_visible ?a<..e} = insert e {ea_visible ?a<..ea_assigned ?a}"
    unfolding e using I(1) by (intro interval_snoc) simp_all
  moreover have "e \<notin> {ea_visible ?a<..ea_assigned ?a}" using lt by auto
  ultimately show ?case
    unfolding ticket_inv_def Let_def a using I lt by auto
next
  case (publish_ticket e s)
  let ?a = "tk_auth s"
  note I = ticket_invD [OF publish_ticket.prems]
  obtain v P' A' where ab: "absorb (ea_visible ?a) (insert e (ea_pending ?a)) (ea_abandoned ?a) = (v, P', A')"
    by (cases "absorb (ea_visible ?a) (insert e (ea_pending ?a)) (ea_abandoned ?a)")
  show ?case
    by (rule resolve_keeps_inv [OF publish_ticket.prems publish_ticket.hyps _ _ ab])
      (use I publish_ticket.hyps in \<open>auto simp: publish_in_order_def publish_section_def ab
        publish_visible_def\<close>)
next
  case (drop_ticket e s)
  let ?a = "tk_auth s"
  note I = ticket_invD [OF drop_ticket.prems]
  obtain v P' A' where ab: "absorb (ea_visible ?a) (ea_pending ?a - {e}) (insert e (ea_abandoned ?a)) = (v, P', A')"
    by (cases "absorb (ea_visible ?a) (ea_pending ?a - {e}) (insert e (ea_abandoned ?a))")
  show ?case
    by (rule resolve_keeps_inv [OF drop_ticket.prems drop_ticket.hyps _ _ ab])
      (use I drop_ticket.hyps in \<open>auto simp: guard_drop_def guard_new_def abandon_def
        abandon_section_def ab publish_visible_def\<close>)
qed

interpretation tickets: guarded_system ticket_init ticket_step ticket_inv
  by unfold_locales (auto intro: ticket_inv_init ticket_inv_step)

section \<open>The concurrent system\<close>

text \<open>
  \<open>rc_leaving\<close> holds the watermarks of committers that have left the critical section and not yet
  reached their \<open>publish_visible\<close>.
\<close>

record race_state =
  rc_auth :: epoch_authority
  rc_inflight :: "u64 set"
  rc_leaving :: "u64 list"

definition race_init :: "race_state \<Rightarrow> bool" where
  "race_init s \<longleftrightarrow>
     (\<exists>start. s = \<lparr>rc_auth = authority_new start, rc_inflight = {}, rc_leaving = []\<rparr>)"

inductive race_step :: "race_state \<Rightarrow> race_state \<Rightarrow> bool" where
  race_take: "ea_assigned (rc_auth s) \<noteq> max_u64 \<Longrightarrow> bump_assigned (rc_auth s) = (e, a) \<Longrightarrow>
     race_step s (s\<lparr>rc_auth := a, rc_inflight := insert e (rc_inflight s)\<rparr>)"
| race_publish: "e \<in> rc_inflight s \<Longrightarrow> publish_section (rc_auth s) e = (v, a) \<Longrightarrow>
     race_step s (s\<lparr>rc_auth := a, rc_inflight := rc_inflight s - {e}, rc_leaving := v # rc_leaving s\<rparr>)"
| race_abandon: "e \<in> rc_inflight s \<Longrightarrow> abandon_section (rc_auth s) e = (v, a) \<Longrightarrow>
     race_step s (s\<lparr>rc_auth := a, rc_inflight := rc_inflight s - {e}, rc_leaving := v # rc_leaving s\<rparr>)"
| race_leave: "rc_leaving s = us @ v # vs \<Longrightarrow>
     race_step s (s\<lparr>rc_auth := publish_visible (rc_auth s) v, rc_leaving := us @ vs\<rparr>)"

text \<open>
  No watermark, published or about to be published, reaches a ticket that is still in flight, and
  every ticket above the published watermark is resolved, in flight, or covered by a watermark that
  a leaving committer is about to publish.
\<close>

definition race_inv :: "race_state \<Rightarrow> bool" where
  "race_inv s \<longleftrightarrow>
     (let a = rc_auth s; resolved = ea_pending a \<union> ea_abandoned a in
        (\<forall>v\<in>insert (ea_visible a) (set (rc_leaving s)).
           v \<le> ea_assigned a \<and> (\<forall>e\<in>rc_inflight s. v < e)) \<and>
        resolved \<inter> rc_inflight s = {} \<and>
        resolved \<union> rc_inflight s \<subseteq> {0<..ea_assigned a} \<and>
        {ea_visible a<..ea_assigned a} \<subseteq>
          resolved \<union> rc_inflight s \<union> {x. \<exists>v\<in>set (rc_leaving s). x \<le> v})"

lemma race_invD:
  assumes "race_inv s"
  shows "v \<in> insert (ea_visible (rc_auth s)) (set (rc_leaving s)) \<Longrightarrow> v \<le> ea_assigned (rc_auth s)"
    and "v \<in> insert (ea_visible (rc_auth s)) (set (rc_leaving s)) \<Longrightarrow> e \<in> rc_inflight s \<Longrightarrow> v < e"
    and "(ea_pending (rc_auth s) \<union> ea_abandoned (rc_auth s)) \<inter> rc_inflight s = {}"
    and "ea_pending (rc_auth s) \<union> ea_abandoned (rc_auth s) \<union> rc_inflight s \<subseteq> {0<..ea_assigned (rc_auth s)}"
    and "{ea_visible (rc_auth s)<..ea_assigned (rc_auth s)} \<subseteq>
       ea_pending (rc_auth s) \<union> ea_abandoned (rc_auth s) \<union> rc_inflight s \<union>
       {x. \<exists>v\<in>set (rc_leaving s). x \<le> v}"
  using assms unfolding race_inv_def Let_def by blast+

lemma race_resolve:
  assumes inv: "race_inv s" and e: "e \<in> rc_inflight s"
    and PA: "P \<union> A = insert e (ea_pending (rc_auth s) \<union> ea_abandoned (rc_auth s))"
    and absorbed: "absorb (ea_visible (rc_auth s)) P A = (v, P', A')"
    and t: "ea_visible (rc_auth t) = ea_visible (rc_auth s)"
      "ea_assigned (rc_auth t) = ea_assigned (rc_auth s)"
      "ea_pending (rc_auth t) = P'" "ea_abandoned (rc_auth t) = A'"
      "rc_inflight t = rc_inflight s - {e}" "rc_leaving t = v # rc_leaving s"
  shows "race_inv t"
proof -
  let ?vis = "ea_visible (rc_auth s)" and ?asg = "ea_assigned (rc_auth s)"
  note I = race_invD [OF inv]
  have sub: "P \<union> A \<subseteq> {0<..?asg}" unfolding PA using e I(4) by blast
  then have "0 \<notin> P \<union> A" by auto
  then have R: "?vis \<le> v" "{?vis<..v} \<subseteq> P \<union> A" "P' \<subseteq> P" "A' \<subseteq> A"
      "P \<union> A \<subseteq> P' \<union> A' \<union> {?vis<..v}"
    using absorb_run [OF absorbed] by simp_all
  have v_le: "v \<le> ?asg"
  proof (cases "?vis = v")
    case True
    then show ?thesis using I(1) by blast
  next
    case False
    then have "v \<in> {?vis<..v}" using R(1) by simp
    with R(2) sub have "v \<in> {0<..?asg}" by blast
    then show ?thesis by simp
  qed
  have v_fl: "v < f" if f: "f \<in> rc_inflight t" for f
  proof (rule ccontr)
    assume "\<not> v < f"
    moreover have "?vis < f" using f t(5) I(2) by blast
    ultimately have "f \<in> {?vis<..v}" by simp
    with R(2) PA f t(5) I(3) show False by blast
  qed
  have "(P' \<union> A') \<inter> (rc_inflight s - {e}) = {}"
    using R(3,4) PA I(3) by blast
  moreover have "P' \<union> A' \<union> (rc_inflight s - {e}) \<subseteq> {0<..?asg}" using R(3,4) sub I(4) by blast
  moreover have "{?vis<..?asg} \<subseteq> P' \<union> A' \<union> (rc_inflight s - {e}) \<union> {x. \<exists>u\<in>set (v # rc_leaving s). x \<le> u}"
  proof
    fix x assume x: "x \<in> {?vis<..?asg}"
    with I(5) have "x \<in> P \<union> A \<or> x \<in> rc_inflight s - {e} \<or> (\<exists>u\<in>set (rc_leaving s). x \<le> u)"
      unfolding PA by blast
    moreover have "x \<in> P' \<union> A' \<or> x \<le> v" if "x \<in> P \<union> A" using that R(5) by auto
    ultimately show "x \<in> P' \<union> A' \<union> (rc_inflight s - {e}) \<union> {x. \<exists>u\<in>set (v # rc_leaving s). x \<le> u}"
      by auto
  qed
  moreover have "u \<le> ?asg \<and> (\<forall>f\<in>rc_inflight t. u < f)"
    if "u \<in> insert ?vis (set (rc_leaving t))" for u
  proof (cases "u = v")
    case True
    with v_le v_fl show ?thesis by blast
  next
    case False
    with that t(6) have "u \<in> insert ?vis (set (rc_leaving s))" by auto
    with I(1,2) t(5) show ?thesis by blast
  qed
  ultimately show ?thesis
    unfolding race_inv_def Let_def t(1-6) by simp
qed

lemma race_inv_init: "race_init s \<Longrightarrow> race_inv s"
  by (auto simp: race_init_def race_inv_def authority_new_def)

lemma race_inv_step: "race_step s t \<Longrightarrow> race_inv s \<Longrightarrow> race_inv t"
proof (induction rule: race_step.induct)
  case (race_take s e a)
  let ?a = "rc_auth s"
  from race_take have e: "e = ea_assigned ?a + 1" and a: "a = ?a\<lparr>ea_assigned := e\<rparr>"
    by (auto simp: bump_assigned_def)
  note I = race_invD [OF race_take.prems]
  have lt: "ea_assigned ?a < e" using race_take.hyps(1) by (simp add: e word_less_inc)
  have below: "v < e" if "v \<in> insert (ea_visible ?a) (set (rc_leaving s))" for v
    using I(1) [OF that] lt by (rule le_less_trans)
  have "v \<le> e \<and> (\<forall>f\<in>insert e (rc_inflight s). v < f)"
    if "v \<in> insert (ea_visible ?a) (set (rc_leaving s))" for v
    using below [OF that] I(2) [OF that] by (simp add: less_imp_le)
  moreover have grow: "{0<..ea_assigned ?a} \<subseteq> {0<..e}" using lt by auto
  moreover have new: "e \<notin> {0<..ea_assigned ?a}" "e \<in> {0<..e}" using lt by (auto simp: word_gt_0)
  moreover have "(ea_pending ?a \<union> ea_abandoned ?a) \<inter> insert e (rc_inflight s) = {}"
    using I(3,4) new(1) by blast
  moreover have "ea_pending ?a \<union> ea_abandoned ?a \<union> insert e (rc_inflight s) \<subseteq> {0<..e}"
    using I(4) grow new(2) by blast
  moreover have "{ea_visible ?a<..e} \<subseteq>
       ea_pending ?a \<union> ea_abandoned ?a \<union> insert e (rc_inflight s) \<union> {x. \<exists>v\<in>set (rc_leaving s). x \<le> v}"
  proof -
    have "{ea_visible ?a<..e} = insert e {ea_visible ?a<..ea_assigned ?a}"
      unfolding e using I(1) lt by (intro interval_snoc) (simp_all add: e)
    then show ?thesis using I(5) by blast
  qed
  ultimately show ?case
    unfolding race_inv_def Let_def a by simp
next
  case (race_publish e s v a)
  let ?a = "rc_auth s"
  obtain u P' A' where ab: "absorb (ea_visible ?a) (insert e (ea_pending ?a)) (ea_abandoned ?a) = (u, P', A')"
    by (cases "absorb (ea_visible ?a) (insert e (ea_pending ?a)) (ea_abandoned ?a)")
  show ?case
    by (rule race_resolve [OF race_publish.prems race_publish.hyps(1) _ ab])
      (use race_publish.hyps(2) in \<open>auto simp: publish_section_def ab\<close>)
next
  case (race_abandon e s v a)
  let ?a = "rc_auth s"
  obtain u P' A' where ab: "absorb (ea_visible ?a) (ea_pending ?a - {e}) (insert e (ea_abandoned ?a)) = (u, P', A')"
    by (cases "absorb (ea_visible ?a) (ea_pending ?a - {e}) (insert e (ea_abandoned ?a))")
  show ?case
    by (rule race_resolve [OF race_abandon.prems race_abandon.hyps(1) _ ab])
      (use race_abandon.hyps(2) in \<open>auto simp: abandon_section_def ab\<close>)
next
  case (race_leave s us v vs)
  let ?a = "rc_auth s" and ?w = "raise_to (ea_visible (rc_auth s)) v"
  note I = race_invD [OF race_leave.prems]
  have w: "?w \<in> insert (ea_visible ?a) (set (rc_leaving s))"
    using raise_to_cases [of "ea_visible ?a" v] race_leave.hyps by auto
  have "{?w<..ea_assigned ?a} \<subseteq>
       ea_pending ?a \<union> ea_abandoned ?a \<union> rc_inflight s \<union> {x. \<exists>v\<in>set (us @ vs). x \<le> v}"
  proof
    fix x assume "x \<in> {?w<..ea_assigned ?a}"
    then have "x \<in> {ea_visible ?a<..ea_assigned ?a}" and "\<not> x \<le> v"
      by (auto simp: raise_to_def split: if_splits)
    with I(5) race_leave.hyps
    show "x \<in> ea_pending ?a \<union> ea_abandoned ?a \<union> rc_inflight s \<union> {x. \<exists>v\<in>set (us @ vs). x \<le> v}"
      by auto
  qed
  moreover have "u \<le> ea_assigned ?a \<and> (\<forall>f\<in>rc_inflight s. u < f)"
    if "u \<in> insert ?w (set (us @ vs))" for u
  proof -
    have "u \<in> insert (ea_visible ?a) (set (rc_leaving s))" using that w race_leave.hyps by auto
    then show ?thesis using I(1,2) by blast
  qed
  ultimately show ?case
    unfolding race_inv_def Let_def publish_visible_def using I(3,4) by simp
qed

interpretation races: guarded_system race_init race_step race_inv
  by unfold_locales (auto intro: race_inv_init race_inv_step)

section \<open>Properties\<close>

text \<open>Calls that do not overlap publish in ticket order and without a stall; the theorems after this one are
  about overlapping calls, for which only the first half holds. After every sequence of
  \<open>bump_assigned\<close>, \<open>publish_in_order\<close> and guard drops, each run to its end before the next one
  starts, the reader watermark is below every ticket in flight; it is the predecessor of a ticket in
  flight, or it has reached the last assigned ticket because none is in flight.\<close>

lemma publication_in_ticket_order:
  assumes "reach ticket_init ticket_step s"
  shows "(\<forall>e\<in>tk_inflight s. ea_visible (tk_auth s) < e) \<and>
     (if tk_inflight s = {} then ea_visible (tk_auth s) = ea_assigned (tk_auth s)
      else ea_visible (tk_auth s) + 1 \<in> tk_inflight s)"
proof -
  let ?a = "tk_auth s"
  note I = ticket_invD [OF tickets.reach_inv [OF assms]]
  have "ea_visible ?a + 1 \<in> tk_inflight s" if "ea_visible ?a \<noteq> ea_assigned ?a"
  proof -
    have lt: "ea_visible ?a < ea_assigned ?a" using that I(1) by simp
    then have "ea_visible ?a < ea_visible ?a + 1" by (intro word_less_inc) auto
    with lt have "ea_visible ?a + 1 \<in> {ea_visible ?a<..ea_assigned ?a}" by (simp add: inc_le)
    with I(2,5) show ?thesis by blast
  qed
  moreover have "tk_inflight s \<subseteq> {ea_visible ?a<..ea_assigned ?a}" using I(2) by blast
  ultimately show ?thesis by (cases "ea_visible ?a = ea_assigned ?a") auto
qed

text \<open>C27: The same safety under interleaving. With committers that overlap between the end of their
  critical section and their \<open>publish_visible\<close>, the reader watermark still never reaches a ticket
  whose commit is in flight, never passes the last assigned ticket, and no step moves it backward.\<close>

theorem watermark_safe_under_races:
  assumes "reach race_init race_step s"
  shows "(\<forall>e\<in>rc_inflight s. ea_visible (rc_auth s) < e) \<and>
     ea_visible (rc_auth s) \<le> ea_assigned (rc_auth s) \<and>
     (\<forall>t. race_step s t \<longrightarrow> ea_visible (rc_auth s) \<le> ea_visible (rc_auth t))"
proof -
  note I = race_invD [OF races.reach_inv [OF assms]]
  have "ea_visible (rc_auth s) \<le> ea_visible (rc_auth t)" if "race_step s t" for t
    using that by cases (auto simp: bump_assigned_def publish_section_def abandon_section_def
        publish_visible_def Let_def split: prod.splits)
  then show ?thesis using I(1,2) by blast
qed

text \<open>The run in which two committers overlap: the first leaves its critical section with watermark
  1, the second computes its watermark from the not yet advanced \<open>visible\<close> and leaves with 0.\<close>

definition after_takes :: race_state where
  "after_takes = \<lparr>rc_auth = snd (bump_assigned (snd (bump_assigned (authority_new 0)))),
     rc_inflight = {1, 2}, rc_leaving = []\<rparr>"

definition after_sections :: race_state where
  "after_sections = \<lparr>rc_auth = (authority_new 0)\<lparr>ea_assigned := 2, ea_committed := 2, ea_pending := {2}\<rparr>,
     rc_inflight = {}, rc_leaving = [0, 1]\<rparr>"

definition stalled :: race_state where
  "stalled = \<lparr>rc_auth = (authority_new 0)\<lparr>ea_assigned := 2, ea_visible := 1, ea_committed := 2, ea_pending := {2}\<rparr>,
     rc_inflight = {}, rc_leaving = []\<rparr>"

lemma after_takes_reachable: "reach race_init race_step after_takes"
proof -
  let ?s0 = "\<lparr>rc_auth = authority_new 0, rc_inflight = {}, rc_leaving = []\<rparr>"
  let ?s1 = "?s0\<lparr>rc_auth := snd (bump_assigned (authority_new 0)), rc_inflight := {1}\<rparr>"
  have "reach race_init race_step ?s0"
    by (rule reach_init) (auto simp: race_init_def)
  moreover have "race_step ?s0 ?s1"
    using race_take [of ?s0 1 "rc_auth ?s1"] by (simp add: bump_assigned_def authority_new_def)
  moreover have "race_step ?s1 after_takes"
    using race_take [of ?s1 2 "rc_auth after_takes"]
    by (simp add: bump_assigned_def authority_new_def after_takes_def insert_commute)
  ultimately show ?thesis by (blast intro: reach_step)
qed

lemma after_sections_reachable: "reach race_init race_step after_sections"
proof -
  let ?s1 = "after_takes\<lparr>rc_auth := (authority_new 0)\<lparr>ea_assigned := 2, ea_committed := 1\<rparr>,
    rc_inflight := {2}, rc_leaving := [1]\<rparr>"
  have "race_step after_takes ?s1"
    using race_publish [of 1 after_takes 1 "rc_auth ?s1"]
    by (simp add: after_takes_def publish_section_def bump_assigned_def authority_new_def
        raise_to_def absorb.simps)
  moreover have "race_step ?s1 after_sections"
    using race_publish [of 2 ?s1 0 "rc_auth after_sections"]
    by (simp add: after_takes_def after_sections_def publish_section_def authority_new_def
        raise_to_def absorb.simps)
  ultimately show ?thesis using after_takes_reachable by (blast intro: reach_step)
qed

lemma stalled_reachable: "reach race_init race_step stalled"
proof -
  let ?s1 = "after_sections\<lparr>rc_leaving := [1]\<rparr>"
  have "race_step after_sections ?s1"
    using race_leave [of after_sections "[]" 0 "[1]"]
    by (simp add: after_sections_def publish_visible_def raise_to_def)
  moreover have "race_step ?s1 stalled"
    using race_leave [of ?s1 "[]" 1 "[]"]
    by (simp add: after_sections_def stalled_def publish_visible_def raise_to_def authority_new_def)
  ultimately show ?thesis using after_sections_reachable by (blast intro: reach_step)
qed

text \<open>Under interleaving the watermark can stall. There is a run in which every ticket has been
  published and every committer has returned from \<open>publish_in_order\<close>, and the last committed epoch is
  still not visible: the second committer read \<open>visible\<close> after the first one dropped the locks and
  before it published, so it left its own ticket pending.\<close>

lemma watermark_can_stall:
  "\<exists>s. reach race_init race_step s \<and> rc_inflight s = {} \<and> rc_leaving s = [] \<and>
     ea_pending (rc_auth s) \<noteq> {} \<and> ea_visible (rc_auth s) < ea_committed (rc_auth s)"
  by (rule exI [of _ stalled]) (simp add: stalled_reachable, simp add: stalled_def authority_new_def)

text \<open>C33: A stall loses nothing and the next commit ends it. In every quiescent state of the
  interleaved system, one more ticket that is taken and published without overlap makes the
  watermark reach the last assigned ticket.\<close>

theorem next_publish_ends_stall:
  assumes "reach race_init race_step s" and "rc_inflight s = {}" and "rc_leaving s = []"
    and "ea_assigned (rc_auth s) \<noteq> max_u64" and "bump_assigned (rc_auth s) = (e, a)"
  shows "ea_visible (publish_in_order a e) = e \<and> ea_assigned (publish_in_order a e) = e"
proof -
  let ?b = "rc_auth s"
  note I = race_invD [OF races.reach_inv [OF assms(1)]]
  have e: "e = ea_assigned ?b + 1" and a: "a = ?b\<lparr>ea_assigned := e\<rparr>"
    using assms(5) by (auto simp: bump_assigned_def)
  have lt: "ea_assigned ?b < e" using assms(4) by (simp add: e word_less_inc)
  let ?R = "insert e (ea_pending ?b) \<union> ea_abandoned ?b"
  obtain v P' A' where ab: "absorb (ea_visible ?b) (insert e (ea_pending ?b)) (ea_abandoned ?b) = (v, P', A')"
    by (cases "absorb (ea_visible ?b) (insert e (ea_pending ?b)) (ea_abandoned ?b)")
  have vis: "ea_visible ?b \<le> ea_assigned ?b" using I(1) by blast
  have iv: "{ea_visible ?b<..e} = insert e {ea_visible ?b<..ea_assigned ?b}"
    unfolding e using vis lt by (intro interval_snoc) (simp_all add: e)
  have sub: "ea_pending ?b \<union> ea_abandoned ?b \<subseteq> {0<..ea_assigned ?b}" using I(4) by blast
  have R_le: "x \<le> e \<and> x \<noteq> 0" if "x \<in> ?R" for x
    using that sub lt by (auto dest!: subsetD intro: less_imp_le le_less_trans)
  then have "0 \<notin> ?R" by blast
  then have A: "ea_visible ?b \<le> v" "{ea_visible ?b<..v} \<subseteq> ?R" "v + 1 \<notin> P' \<union> A'"
      "?R \<subseteq> P' \<union> A' \<union> {ea_visible ?b<..v}"
    using absorb_run [OF ab] by simp_all
  have all: "{ea_visible ?b<..e} \<subseteq> ?R" unfolding iv using I(5) assms(2,3) by auto
  have "v \<le> e"
  proof (cases "v = ea_visible ?b")
    case False
    then have "v \<in> {ea_visible ?b<..v}" using A(1) by simp
    then have "v \<in> ?R" using A(2) by blast
    then show ?thesis using R_le by blast
  qed (use vis lt in auto)
  moreover have "\<not> v < e"
  proof
    assume "v < e"
    then have s: "v < v + 1" and "v + 1 \<le> e" by (auto intro!: word_less_inc inc_le)
    then have "v + 1 \<in> {ea_visible ?b<..e}" using A(1) by (auto intro: le_less_trans)
    with all A(3,4) have "v + 1 \<in> {ea_visible ?b<..v}" by blast
    with s show False by auto
  qed
  ultimately have "v = e" by simp
  then show ?thesis
    using A(1) by (simp add: a publish_in_order_def publish_section_def ab publish_visible_def raise_to_def)
qed

theorem next_publish_ends_stall_witness:
  "bump_assigned (rc_auth stalled) = (3, (rc_auth stalled)\<lparr>ea_assigned := 3\<rparr>) \<and>
   ea_visible (publish_in_order ((rc_auth stalled)\<lparr>ea_assigned := 3\<rparr>) 3) = 3"
  using next_publish_ends_stall [OF stalled_reachable, of 3 "(rc_auth stalled)\<lparr>ea_assigned := 3\<rparr>"]
  by (simp add: stalled_def bump_assigned_def authority_new_def)

theorem watermark_safe_under_races_witness:
  "ea_visible (rc_auth after_takes) < 1 \<and> ea_visible (rc_auth after_takes) < 2"
  using watermark_safe_under_races [OF after_takes_reachable] by (simp add: after_takes_def)

end
