(* ===== verification/Errors.thy ===== *)
theory Errors
  imports Mongrel_Prelude
begin

text \<open>
  The error taxonomy: the stable categories with their codes and retry discipline
  (\<open>crates/mongreldb-types/src/errors.rs\<close>) and the engine's errors with their category
  (\<open>crates/mongreldb-core/src/error.rs\<close>). The payload of a foreign error (I/O, codec, permission)
  is its message. Category constructors carry the prefix \<open>Cat\<close>, because several of them share
  their name with an engine error.
\<close>

section \<open>Error categories\<close>

datatype ErrorCategory =
    CatNotLeader
  | CatLeaderUnknown
  | CatStaleMetadata
  | CatReplicaUnavailable
  | CatQuorumUnavailable
  | CatTransactionConflict
  | CatTransactionAborted
  | CatSerializationFailure
  | CatDeadlock
  | CatDeadlineExceeded
  | CatCancelled
  | CatCommitOutcomeUnknown
  | CatCommitTooLate
  | CatTabletMoved
  | CatTabletSplitting
  | CatSchemaVersionMismatch
  | CatClusterVersionMismatch
  | CatResourceExhausted
  | CatUnauthenticated
  | CatPermissionDenied

datatype RetryClass =
    Never
  | IdempotencyKeyRequired
  | AfterMetadataRefresh
  | AfterBackoff
  | RetryTransaction

definition ALL_CATEGORIES :: "ErrorCategory list" where
  "ALL_CATEGORIES =
     [CatNotLeader,
      CatLeaderUnknown,
      CatStaleMetadata,
      CatReplicaUnavailable,
      CatQuorumUnavailable,
      CatTransactionConflict,
      CatTransactionAborted,
      CatSerializationFailure,
      CatDeadlock,
      CatDeadlineExceeded,
      CatCancelled,
      CatCommitOutcomeUnknown,
      CatCommitTooLate,
      CatTabletMoved,
      CatTabletSplitting,
      CatSchemaVersionMismatch,
      CatClusterVersionMismatch,
      CatResourceExhausted,
      CatUnauthenticated,
      CatPermissionDenied]"

fun category_code :: "ErrorCategory \<Rightarrow> u32" where
  "category_code CatNotLeader = 1"
| "category_code CatLeaderUnknown = 2"
| "category_code CatStaleMetadata = 3"
| "category_code CatReplicaUnavailable = 4"
| "category_code CatQuorumUnavailable = 5"
| "category_code CatTransactionConflict = 6"
| "category_code CatTransactionAborted = 7"
| "category_code CatSerializationFailure = 8"
| "category_code CatDeadlock = 9"
| "category_code CatDeadlineExceeded = 10"
| "category_code CatCancelled = 11"
| "category_code CatCommitOutcomeUnknown = 12"
| "category_code CatCommitTooLate = 13"
| "category_code CatTabletMoved = 14"
| "category_code CatTabletSplitting = 15"
| "category_code CatSchemaVersionMismatch = 16"
| "category_code CatClusterVersionMismatch = 17"
| "category_code CatResourceExhausted = 18"
| "category_code CatUnauthenticated = 19"
| "category_code CatPermissionDenied = 20"

fun category_name :: "ErrorCategory \<Rightarrow> string" where
  "category_name CatNotLeader = ''not leader''"
| "category_name CatLeaderUnknown = ''leader unknown''"
| "category_name CatStaleMetadata = ''stale metadata''"
| "category_name CatReplicaUnavailable = ''replica unavailable''"
| "category_name CatQuorumUnavailable = ''quorum unavailable''"
| "category_name CatTransactionConflict = ''transaction conflict''"
| "category_name CatTransactionAborted = ''transaction aborted''"
| "category_name CatSerializationFailure = ''serialization failure''"
| "category_name CatDeadlock = ''deadlock''"
| "category_name CatDeadlineExceeded = ''deadline exceeded''"
| "category_name CatCancelled = ''cancelled''"
| "category_name CatCommitOutcomeUnknown = ''commit outcome unknown''"
| "category_name CatCommitTooLate = ''commit too late''"
| "category_name CatTabletMoved = ''tablet moved''"
| "category_name CatTabletSplitting = ''tablet splitting''"
| "category_name CatSchemaVersionMismatch = ''schema version mismatch''"
| "category_name CatClusterVersionMismatch = ''cluster version mismatch''"
| "category_name CatResourceExhausted = ''resource exhausted''"
| "category_name CatUnauthenticated = ''unauthenticated''"
| "category_name CatPermissionDenied = ''permission denied''"

definition from_code :: "u32 \<Rightarrow> ErrorCategory option" where
  "from_code code =
     (if code = 1 then Some CatNotLeader
      else if code = 2 then Some CatLeaderUnknown
      else if code = 3 then Some CatStaleMetadata
      else if code = 4 then Some CatReplicaUnavailable
      else if code = 5 then Some CatQuorumUnavailable
      else if code = 6 then Some CatTransactionConflict
      else if code = 7 then Some CatTransactionAborted
      else if code = 8 then Some CatSerializationFailure
      else if code = 9 then Some CatDeadlock
      else if code = 10 then Some CatDeadlineExceeded
      else if code = 11 then Some CatCancelled
      else if code = 12 then Some CatCommitOutcomeUnknown
      else if code = 13 then Some CatCommitTooLate
      else if code = 14 then Some CatTabletMoved
      else if code = 15 then Some CatTabletSplitting
      else if code = 16 then Some CatSchemaVersionMismatch
      else if code = 17 then Some CatClusterVersionMismatch
      else if code = 18 then Some CatResourceExhausted
      else if code = 19 then Some CatUnauthenticated
      else if code = 20 then Some CatPermissionDenied
      else None)"

fun retry_class :: "ErrorCategory \<Rightarrow> RetryClass" where
  "retry_class CatNotLeader = AfterMetadataRefresh"
| "retry_class CatLeaderUnknown = AfterMetadataRefresh"
| "retry_class CatStaleMetadata = AfterMetadataRefresh"
| "retry_class CatTabletMoved = AfterMetadataRefresh"
| "retry_class CatTabletSplitting = AfterMetadataRefresh"
| "retry_class CatSchemaVersionMismatch = AfterMetadataRefresh"
| "retry_class CatReplicaUnavailable = AfterBackoff"
| "retry_class CatQuorumUnavailable = AfterBackoff"
| "retry_class CatResourceExhausted = AfterBackoff"
| "retry_class CatTransactionConflict = RetryTransaction"
| "retry_class CatTransactionAborted = RetryTransaction"
| "retry_class CatSerializationFailure = RetryTransaction"
| "retry_class CatDeadlock = RetryTransaction"
| "retry_class CatCommitTooLate = RetryTransaction"
| "retry_class CatDeadlineExceeded = Never"
| "retry_class CatCancelled = Never"
| "retry_class CatClusterVersionMismatch = Never"
| "retry_class CatUnauthenticated = Never"
| "retry_class CatPermissionDenied = Never"
| "retry_class CatCommitOutcomeUnknown = IdempotencyKeyRequired"

definition is_retryable :: "ErrorCategory \<Rightarrow> bool" where
  "is_retryable c \<longleftrightarrow> retry_class c \<in> {AfterMetadataRefresh, AfterBackoff, RetryTransaction}"

record category_error =
  ce_category :: ErrorCategory
  ce_message :: string

definition category_error_new :: "ErrorCategory \<Rightarrow> string \<Rightarrow> category_error" where
  "category_error_new c m = \<lparr>ce_category = c, ce_message = m\<rparr>"

definition category_error_code :: "category_error \<Rightarrow> u32" where
  "category_error_code e = category_code (ce_category e)"

section \<open>Engine errors\<close>

datatype (plugins only: code) MongrelError =
    Io string
  | DatabaseLocked string string
  | DatabaseBusy nat
  | ForkedProcess u32 u32
  | Serialization string
  | CorruptWal u64 string
  | TornWrite u64
  | ChecksumMismatch u64 u64 string
  | MagicMismatch string "u8 list" "u8 list"
  | UnsupportedStorageVersion string u16 u16
  | Schema string
  | ColumnNotFound string
  | EncryptionDisabled
  | Encryption string
  | Decryption string
  | EntropyUnavailable string
  | NotFound string
  | InvalidArgument string
  | Full string
  | Conflict string
  | Deadlock u64 string
  | SerializationFailure string
  | TriggerValidation string
  | ReadOnlyReplica
  | ReadOnlyHandle string
  | AuthRequired
  | AuthNotRequired
  | InvalidCredentials string
  | PermissionDenied string string
  | DeadlineExceeded
  | WorkBudgetExceeded
  | ResourceLimitExceeded string nat nat
  | Cancelled
  | DurableCommit u64 string
  | CommitOutcomeUnknown u64 string
  | CursorStale string
  | CursorExpired
  | Other string

fun category :: "MongrelError \<Rightarrow> ErrorCategory" where
  "category (Io _) = CatReplicaUnavailable"
| "category (DatabaseLocked _ _) = CatResourceExhausted"
| "category (DatabaseBusy _) = CatResourceExhausted"
| "category (ForkedProcess _ _) = CatPermissionDenied"
| "category (Serialization _) = CatClusterVersionMismatch"
| "category (CorruptWal _ _) = CatReplicaUnavailable"
| "category (TornWrite _) = CatReplicaUnavailable"
| "category (ChecksumMismatch _ _ _) = CatReplicaUnavailable"
| "category (MagicMismatch _ _ _) = CatReplicaUnavailable"
| "category (UnsupportedStorageVersion _ _ _) = CatClusterVersionMismatch"
| "category (Schema _) = CatSchemaVersionMismatch"
| "category (ColumnNotFound _) = CatSchemaVersionMismatch"
| "category EncryptionDisabled = CatClusterVersionMismatch"
| "category (Encryption _) = CatUnauthenticated"
| "category (Decryption _) = CatUnauthenticated"
| "category (EntropyUnavailable _) = CatResourceExhausted"
| "category (NotFound _) = CatStaleMetadata"
| "category (InvalidArgument _) = CatClusterVersionMismatch"
| "category (Full _) = CatResourceExhausted"
| "category (Conflict _) = CatTransactionConflict"
| "category (Deadlock _ _) = CatDeadlock"
| "category (SerializationFailure _) = CatSerializationFailure"
| "category (TriggerValidation _) = CatSchemaVersionMismatch"
| "category ReadOnlyReplica = CatNotLeader"
| "category (ReadOnlyHandle _) = CatPermissionDenied"
| "category AuthRequired = CatUnauthenticated"
| "category AuthNotRequired = CatClusterVersionMismatch"
| "category (InvalidCredentials _) = CatUnauthenticated"
| "category (PermissionDenied _ _) = CatPermissionDenied"
| "category DeadlineExceeded = CatDeadlineExceeded"
| "category WorkBudgetExceeded = CatResourceExhausted"
| "category (ResourceLimitExceeded _ _ _) = CatResourceExhausted"
| "category Cancelled = CatCancelled"
| "category (DurableCommit _ _) = CatCommitOutcomeUnknown"
| "category (CommitOutcomeUnknown _ _) = CatCommitOutcomeUnknown"
| "category (CursorStale _) = CatStaleMetadata"
| "category CursorExpired = CatStaleMetadata"
| "category (Other _) = CatReplicaUnavailable"

section \<open>Properties\<close>

text \<open>Category codes are stable names. Every category is recovered from its code, a code resolves
  to a category only if it is that category's code, the codes are 1 to 20 in the declaration order,
  and every name fits the 32-byte buffer of the bindings with its terminator.\<close>

lemma category_codes_round_trip:
  "from_code (category_code c) = Some c \<and>
   (from_code n = Some c \<longrightarrow> category_code c = n) \<and>
   map category_code ALL_CATEGORIES = map of_nat [1..<21] \<and> set ALL_CATEGORIES = UNIV \<and>
   length (category_name c) < 32"
proof (intro conjI)
  show "from_code (category_code c) = Some c" by (cases c) (simp_all add: from_code_def)
  show "from_code n = Some c \<longrightarrow> category_code c = n" by (auto simp: from_code_def split: if_splits)
  show "map category_code ALL_CATEGORIES = map of_nat [1..<21]"
    by (simp add: ALL_CATEGORIES_def upt_rec)
  show "set ALL_CATEGORIES = UNIV"
  proof (rule set_eqI)
    fix d show "d \<in> set ALL_CATEGORIES \<longleftrightarrow> d \<in> UNIV" by (cases d) (simp_all add: ALL_CATEGORIES_def)
  qed
  show "length (category_name c) < 32" by (cases c) simp_all
qed

text \<open>C37: The retry discipline of the engine's errors. An error that may hide a durable commit, and
  only such an error, demands an idempotency key, so it is never retried blindly; and exactly a
  conflict, a deadlock victim and a serialization failure ask to restart the whole transaction.\<close>

theorem engine_error_retry_discipline:
  "(retry_class (category e) = IdempotencyKeyRequired \<longleftrightarrow>
      (\<exists>ep m. e = DurableCommit ep m \<or> e = CommitOutcomeUnknown ep m)) \<and>
   (retry_class (category e) = RetryTransaction \<longleftrightarrow>
      (\<exists>m v. e = Conflict m \<or> e = Deadlock v m \<or> e = SerializationFailure m)) \<and>
   (is_retryable (category e) \<longleftrightarrow>
      retry_class (category e) \<noteq> Never \<and> retry_class (category e) \<noteq> IdempotencyKeyRequired)"
proof (intro conjI)
  show "retry_class (category e) = IdempotencyKeyRequired \<longleftrightarrow>
      (\<exists>ep m. e = DurableCommit ep m \<or> e = CommitOutcomeUnknown ep m)"
    by (cases e) simp_all
  show "retry_class (category e) = RetryTransaction \<longleftrightarrow>
      (\<exists>m v. e = Conflict m \<or> e = Deadlock v m \<or> e = SerializationFailure m)"
    by (cases e) simp_all
  show "is_retryable (category e) \<longleftrightarrow>
      retry_class (category e) \<noteq> Never \<and> retry_class (category e) \<noteq> IdempotencyKeyRequired"
    by (cases "retry_class (category e)") (simp_all add: is_retryable_def)
qed

end
