(* ===== verification/Rows.thy ===== *)
theory Rows
  imports Epochs Errors "HOL-Library.List_Lexorder"
begin

text \<open>
  Cell values, rows and row identifiers: \<open>Value\<close> and \<open>Row\<close> of
  \<open>crates/mongreldb-core/src/memtable.rs\<close> and the row-id allocator of
  \<open>crates/mongreldb-core/src/rowid.rs\<close>. Floats are their IEEE bit patterns, signed integers their
  two's complement words. A row's \<open>HashMap\<close> of columns is a map. Of the provenance of a generated
  embedding only the fields that the operations below read are kept.
\<close>

section \<open>Values\<close>

record generated_embedding_metadata =
  provider_id :: string
  model_id :: string
  model_version :: string
  preprocessing_version :: string

record generated_embedding_value =
  gev_vector :: "u32 list"
  gev_metadata :: generated_embedding_metadata

datatype Value =
    Null
  | Bool bool
  | Int64 u64
  | Float64 u64
  | Bytes "u8 list"
  | Embedding "u32 list"
  | Decimal "128 word"
  | Interval (months: u64) (days: u32) (nanos: u64)
  | Uuid "u8 list"
  | Json "u8 list"
  | GeneratedEmbedding generated_embedding_value

fun as_embedding :: "Value \<Rightarrow> u32 list option" where
  "as_embedding (Embedding vs) = Some vs"
| "as_embedding (GeneratedEmbedding g) = Some (gev_vector g)"
| "as_embedding _ = None"

fun generated_metadata :: "Value \<Rightarrow> generated_embedding_metadata option" where
  "generated_metadata (GeneratedEmbedding g) = Some (gev_metadata g)"
| "generated_metadata _ = None"

text \<open>\<open>to_be_bytes\<close> on a word of \<open>n\<close> bytes.\<close>

fun be_bytes :: "nat \<Rightarrow> 'a::len word \<Rightarrow> u8 list" where
  "be_bytes 0 w = []"
| "be_bytes (Suc n) w = ucast (drop_bit (8 * n) w) # be_bytes n w"

fun encode_key :: "Value \<Rightarrow> u8 list" where
  "encode_key Null = []"
| "encode_key (Bool b) = [if b then 1 else 0]"
| "encode_key (Int64 n) = be_bytes 8 n"
| "encode_key (Float64 f) = be_bytes 8 f"
| "encode_key (Bytes b) = b"
| "encode_key (Embedding v) = concat (map (be_bytes 4) v)"
| "encode_key (GeneratedEmbedding g) = concat (map (be_bytes 4) (gev_vector g))"
| "encode_key (Decimal d) = be_bytes 16 d"
| "encode_key (Interval m d n) = be_bytes 8 m @ be_bytes 4 d @ be_bytes 8 n"
| "encode_key (Uuid b) = b"
| "encode_key (Json b) = b"

fun value_estimated_bytes :: "Value \<Rightarrow> u64" where
  "value_estimated_bytes Null = 1"
| "value_estimated_bytes (Bool _) = 1"
| "value_estimated_bytes (Int64 _) = 8"
| "value_estimated_bytes (Float64 _) = 8"
| "value_estimated_bytes (Bytes bs) = 16 + of_nat (length bs)"
| "value_estimated_bytes (Json bs) = 16 + of_nat (length bs)"
| "value_estimated_bytes (Embedding vs) = 16 + of_nat (length vs) * 4"
| "value_estimated_bytes (GeneratedEmbedding g) =
     16 + of_nat (length (gev_vector g)) * 4 +
     of_nat (length (provider_id (gev_metadata g))) +
     of_nat (length (model_id (gev_metadata g))) +
     of_nat (length (model_version (gev_metadata g))) +
     of_nat (length (preprocessing_version (gev_metadata g))) + 48"
| "value_estimated_bytes (Decimal _) = 16"
| "value_estimated_bytes (Uuid _) = 16"
| "value_estimated_bytes (Interval _ _ _) = 20"

section \<open>Rows\<close>

type_synonym RowId = u64

record row =
  row_id :: RowId
  committed_epoch :: epoch
  columns :: "u16 \<rightharpoonup> Value"
  deleted :: bool
  commit_ts :: "HlcTimestamp option"

definition row_new :: "RowId \<Rightarrow> epoch \<Rightarrow> row" where
  "row_new rid e =
     \<lparr>row_id = rid, committed_epoch = e, columns = Map.empty, deleted = False, commit_ts = None\<rparr>"

definition row_new_with_hlc :: "RowId \<Rightarrow> epoch \<Rightarrow> HlcTimestamp \<Rightarrow> row" where
  "row_new_with_hlc rid e ts =
     \<lparr>row_id = rid, committed_epoch = e, columns = Map.empty, deleted = False, commit_ts = Some ts\<rparr>"

definition with_column :: "row \<Rightarrow> u16 \<Rightarrow> Value \<Rightarrow> row" where
  "with_column r c v = r\<lparr>columns := (columns r)(c \<mapsto> v)\<rparr>"

text \<open>The composite version key and the stamp of a row.\<close>

type_synonym vkey = "RowId \<times> epoch"

definition vkey_of :: "row \<Rightarrow> vkey" where
  "vkey_of r = (row_id r, committed_epoch r)"

definition stamp_of :: "row \<Rightarrow> version_stamp" where
  "stamp_of r = \<lparr>vs_epoch = committed_epoch r, vs_commit_ts = commit_ts r\<rparr>"

section \<open>The row-id allocator\<close>

record row_id_allocator =
  ra_next :: u64

definition row_id_exhausted :: MongrelError where
  "row_id_exhausted = Full ''row-id namespace exhausted''"

definition row_id_next :: "RowId \<Rightarrow> RowId option" where
  "row_id_next r = checked_add r 1"

definition allocator_new :: "u64 \<Rightarrow> row_id_allocator" where
  "allocator_new start = \<lparr>ra_next = start\<rparr>"

text \<open>\<open>checked_add(n).filter(|next| *next < u64::MAX)\<close>.\<close>

definition bounded_add :: "u64 \<Rightarrow> u64 \<Rightarrow> u64 option" where
  "bounded_add a n = (case checked_add a n of Some m \<Rightarrow> if m < max_u64 then Some m else None | None \<Rightarrow> None)"

definition alloc :: "row_id_allocator \<Rightarrow> (MongrelError + RowId) \<times> row_id_allocator" where
  "alloc a =
     (case bounded_add (ra_next a) 1 of
        None \<Rightarrow> (Inl row_id_exhausted, a)
      | Some next \<Rightarrow> (Inr (ra_next a), a\<lparr>ra_next := next\<rparr>))"

definition alloc_range :: "row_id_allocator \<Rightarrow> u64 \<Rightarrow> (MongrelError + RowId) \<times> row_id_allocator" where
  "alloc_range a n =
     (if n \<noteq> 0 then
        (case bounded_add (ra_next a) n of
           None \<Rightarrow> (Inl row_id_exhausted, a)
         | Some next \<Rightarrow> (Inr (ra_next a), a\<lparr>ra_next := next\<rparr>))
      else (Inr (ra_next a), a))"

definition alloc_advance_to :: "row_id_allocator \<Rightarrow> RowId \<Rightarrow> (MongrelError + unit) \<times> row_id_allocator" where
  "alloc_advance_to a rid =
     (if ra_next a \<le> rid then
        (case bounded_add rid 1 of
           None \<Rightarrow> (Inl row_id_exhausted, a)
         | Some next \<Rightarrow> (Inr (), a\<lparr>ra_next := next\<rparr>))
      else (Inr (), a))"

text \<open>A caller's sequence of requests, and the ids each request hands out.\<close>

datatype alloc_request = RequestOne | RequestRange u64 | RecoverPast RowId

fun alloc_step :: "row_id_allocator \<Rightarrow> alloc_request \<Rightarrow> RowId set \<times> row_id_allocator" where
  "alloc_step a RequestOne =
     (case alloc a of (Inr i, a') \<Rightarrow> ({i}, a') | (Inl _, a') \<Rightarrow> ({}, a'))"
| "alloc_step a (RequestRange n) =
     (case alloc_range a n of (Inr i, a') \<Rightarrow> ({i..<i + n}, a') | (Inl _, a') \<Rightarrow> ({}, a'))"
| "alloc_step a (RecoverPast rid) = ({}, snd (alloc_advance_to a rid))"

fun issued_ids :: "row_id_allocator \<Rightarrow> alloc_request list \<Rightarrow> RowId set list" where
  "issued_ids a [] = []"
| "issued_ids a (q # qs) = (let (ids, a') = alloc_step a q in ids # issued_ids a' qs)"

lemma bounded_add_Some:
  assumes "bounded_add a n = Some m"
  shows "m = a + n" and "a \<le> m" and "m < max_u64" and "n \<noteq> 0 \<Longrightarrow> a < m"
proof -
  have le: "a \<le> - 1 - n" and m: "m = a + n" and lt: "m < max_u64"
    using assms by (auto simp: bounded_add_def checked_add_def split: if_splits option.splits)
  show "m = a + n" "m < max_u64" by fact+
  show am: "a \<le> m" unfolding m by (rule plus_minus_no_overflow_ab [OF le]) simp
  show "a < m" if "n \<noteq> 0" using am that by (simp add: m less_le)
qed

text \<open>One request hands out ids between the old and the new counter.\<close>

lemma alloc_step_between:
  assumes "alloc_step a q = (ids, a')"
  shows "ra_next a \<le> ra_next a' \<and> ids \<subseteq> {ra_next a..<ra_next a'}"
proof (cases q)
  case RequestOne
  show ?thesis
    using assms bounded_add_Some [of "ra_next a" 1]
    by (auto simp: RequestOne alloc_def split: option.splits)
next
  case (RequestRange n)
  show ?thesis
    using assms bounded_add_Some [of "ra_next a" n]
    by (auto simp: RequestRange alloc_range_def split: option.splits if_splits)
next
  case (RecoverPast rid)
  show ?thesis
    using assms bounded_add_Some [of rid 1]
    by (auto simp: RecoverPast alloc_advance_to_def split: option.splits if_splits intro: order_trans)
qed

lemma issued_ids_above: "ids \<in> set (issued_ids a qs) \<Longrightarrow> i \<in> ids \<Longrightarrow> ra_next a \<le> i"
proof (induction qs arbitrary: a)
  case (Cons q qs)
  obtain ids0 a' where st: "alloc_step a q = (ids0, a')" by (cases "alloc_step a q")
  note B = alloc_step_between [OF st]
  from Cons.prems st consider "ids = ids0" | "ids \<in> set (issued_ids a' qs)" by auto
  then show ?case
  proof cases
    case 1
    with B Cons.prems(2) have "i \<in> {ra_next a..<ra_next a'}" by blast
    then show ?thesis by simp
  next
    case 2
    have "ra_next a' \<le> i" by (rule Cons.IH [OF 2 Cons.prems(2)])
    with B show ?thesis by (meson order_trans)
  qed
qed simp

lemma advance_to_past:
  assumes "alloc_advance_to a rid = (Inr (), a')"
  shows "rid < ra_next a'"
  using assms bounded_add_Some(4) [of rid 1]
  by (auto simp: alloc_advance_to_def split: if_splits option.splits)

text \<open>C34: A row id is handed out once. Over every sequence of \<open>alloc\<close>, \<open>alloc_range\<close> and
  \<open>advance_to\<close> calls, failed ones included, every id of a later request is above every id of an
  earlier one; and once recovery has advanced past an id, no later request hands that id out.\<close>

theorem row_ids_never_reused:
  "sorted_wrt (\<lambda>earlier later. \<forall>i\<in>earlier. \<forall>j\<in>later. i < j) (issued_ids a qs) \<and>
   (\<forall>rid a'. alloc_advance_to a rid = (Inr (), a') \<longrightarrow> rid \<notin> \<Union> (set (issued_ids a' qs)))"
proof
  show "sorted_wrt (\<lambda>earlier later. \<forall>i\<in>earlier. \<forall>j\<in>later. i < j) (issued_ids a qs)"
  proof (induction qs arbitrary: a)
    case (Cons q qs)
    obtain ids0 a' where st: "alloc_step a q = (ids0, a')" by (cases "alloc_step a q")
    have "i < j" if "i \<in> ids0" and "ids \<in> set (issued_ids a' qs)" and "j \<in> ids" for i j ids
    proof -
      have "i < ra_next a'" using alloc_step_between [OF st] that(1) by auto
      also have "\<dots> \<le> j" by (rule issued_ids_above [OF that(2,3)])
      finally show ?thesis .
    qed
    with Cons [of a'] st show ?case by simp
  qed simp
next
  show "\<forall>rid a'. alloc_advance_to a rid = (Inr (), a') \<longrightarrow> rid \<notin> \<Union> (set (issued_ids a' qs))"
  proof (intro allI impI notI)
    fix rid a' assume "alloc_advance_to a rid = (Inr (), a')" and "rid \<in> \<Union> (set (issued_ids a' qs))"
    then have "rid < ra_next a'" and "ra_next a' \<le> rid"
      using advance_to_past issued_ids_above by blast+
    then show False by simp
  qed
qed

theorem row_ids_never_reused_witness:
  "6 \<notin> \<Union> (set (issued_ids (snd (alloc_advance_to (allocator_new 2) 6)) [RequestRange 3, RequestOne]))"
  using row_ids_never_reused [of "allocator_new 2" "[RequestRange 3, RequestOne]"]
  by (simp add: alloc_advance_to_def allocator_new_def bounded_add_def checked_add_def)

section \<open>The order of encoded keys\<close>

lemma unat_top_byte: "unat (ucast (drop_bit (8 * n) w) :: u8) = unat w div 256 ^ n mod 256"
proof -
  have "(2 :: nat) ^ (8 * n) = 256 ^ n" by (simp add: power_mult)
  then show ?thesis unfolding unsigned_ucast_eq unat_drop_bit_eq by (simp add: drop_bit_eq_div take_bit_eq_mod)
qed

lemma radix_less:
  assumes "r < B" and "s < (B :: nat)"
  shows "x * B + r < y * B + s \<longleftrightarrow> x < y \<or> x = y \<and> r < s"
proof -
  have "x * B + r < y * B + s" if "x < y"
  proof -
    have "x * B + r < Suc x * B" using assms(1) by simp
    also have "\<dots> \<le> y * B" using that by (intro mult_le_mono1) simp
    finally show ?thesis by simp
  qed
  moreover have "y * B + s < x * B + r" if "y < x"
  proof -
    have "y * B + s < Suc y * B" using assms(2) by simp
    also have "\<dots> \<le> x * B" using that by (intro mult_le_mono1) simp
    finally show ?thesis by simp
  qed
  ultimately show ?thesis by (cases x y rule: linorder_cases) auto
qed

lemma be_bytes_less_iff:
  fixes v w :: "'a::len word"
  shows "be_bytes n v < be_bytes n w \<longleftrightarrow> unat v mod 256 ^ n < unat w mod 256 ^ n"
proof (induction n)
  case (Suc n)
  have split: "unat u mod 256 ^ Suc n = (unat u div 256 ^ n mod 256) * 256 ^ n + unat u mod 256 ^ n"
    for u :: "'a word"
    using mod_mult2_eq [of "unat u" "256 ^ n" 256] by (simp add: mult.commute)
  show ?case
    unfolding split
    by (simp add: radix_less Suc word_less_nat_alt word_unat_eq_iff unat_top_byte Cons_less_Cons)
qed simp

lemma uint_via_sint: "uint w = (if sint w < 0 then sint w + 2 ^ 64 else sint (w :: u64))"
proof -
  have b: "- (2 ^ 63) \<le> sint w" "sint w < 2 ^ 63" using sint_ge [of w] sint_lt [of w] by simp_all
  have u: "uint w = sint w mod 2 ^ 64" by (simp add: uint_sint take_bit_eq_mod)
  show ?thesis
  proof (cases "sint w < 0")
    case True
    have "sint w mod 2 ^ 64 = (sint w + 2 ^ 64) mod 2 ^ 64" by simp
    also have "\<dots> = sint w + 2 ^ 64" using b True by (intro mod_pos_pos_trivial) auto
    finally show ?thesis using True u by simp
  next
    case False
    then have "sint w mod 2 ^ 64 = sint w" using b by (intro mod_pos_pos_trivial) auto
    then show ?thesis using False u by simp
  qed
qed

text \<open>The key bytes of two integers compare like the integers when these have the same sign,
  and a negative integer's key sorts above every non-negative one's.\<close>

lemma int64_key_order:
  "encode_key (Int64 a) < encode_key (Int64 b) \<longleftrightarrow>
     (if sint a < 0 \<longleftrightarrow> sint b < 0 then sint a < sint b else sint b < 0)"
proof -
  have "unat a < 256 ^ 8" "unat b < 256 ^ 8"
    using unsigned_less [where ?'a = nat, of a] unsigned_less [where ?'a = nat, of b] by simp_all
  then have "encode_key (Int64 a) < encode_key (Int64 b) \<longleftrightarrow> a < b"
    unfolding encode_key.simps be_bytes_less_iff by (simp add: word_less_nat_alt)
  moreover have "- (2 ^ 63) \<le> sint a" "sint a < 2 ^ 63" "- (2 ^ 63) \<le> sint b" "sint b < 2 ^ 63"
    using sint_ge [of a] sint_lt [of a] sint_ge [of b] sint_lt [of b] by simp_all
  ultimately show ?thesis
    unfolding word_less_def uint_via_sint by (auto split: if_splits)
qed

end
