(* ===== verification/Be_Tree_Log.thy ===== *)
theory Be_Tree_Log
  imports Be_Tree
begin

text \<open>
  The B-epsilon-tree as a log per version key. The abstraction of a list of versions maps a key to
  the versions written under it, oldest first; every insertion appends to one key's log, and flushes
  and splits leave all logs as they are. The point read, the range walk of one row and the sorted
  drain are then equal to their definitions on the logs.
\<close>

declare split_paired_All [simp del] split_paired_Ex [simp del]

section \<open>Logs\<close>

definition klog :: "row list \<Rightarrow> vkey \<Rightarrow> row list" where
  "klog rs k = filter (\<lambda>r. vkey_of r = k) rs"

definition msg_row :: "Message \<Rightarrow> row" where
  "msg_row m = snd (to_row m)"

lemma klog_Nil [simp]: "klog [] k = []"
  by (simp add: klog_def)

lemma klog_append [simp]: "klog (xs @ ys) k = klog xs k @ klog ys k"
  by (simp add: klog_def)

lemma klog_empty: "(\<And>r. r \<in> set xs \<Longrightarrow> vkey_of r \<noteq> k) \<Longrightarrow> klog xs k = []"
  by (simp add: klog_def filter_empty_conv)

lemma klog_single [simp]: "klog [r] k = (if vkey_of r = k then [r] else [])"
  by (simp add: klog_def)

lemma mem_klog: "r \<in> set xs \<longleftrightarrow> r \<in> set (klog xs (vkey_of r))"
  by (simp add: klog_def)

lemma klog_set:
  assumes "\<And>k. klog xs k = klog ys k"
  shows "set xs = set ys"
proof (rule set_eqI)
  fix r
  show "r \<in> set xs \<longleftrightarrow> r \<in> set ys"
    using mem_klog [of r xs] mem_klog [of r ys] assms [of "vkey_of r"] by simp
qed

lemma klog_mset:
  assumes "\<And>k. klog xs k = klog ys k"
  shows "mset xs = mset ys"
proof (rule multiset_eqI)
  fix r
  have *: "count (mset zs) r = count (mset (klog zs (vkey_of r))) r" for zs
    by (induction zs) (auto simp: klog_def)
  show "count (mset xs) r = count (mset ys) r" unfolding * [of xs] * [of ys] assms ..
qed

lemma msg_key_row: "msg_key m = vkey_of (msg_row m)"
  by (cases m) (simp_all add: vkey_of_def msg_row_def tombstone_row_def)

lemma to_row_eq: "to_row m = (snd (msg_key m), msg_row m)"
  by (cases m) (simp_all add: msg_row_def tombstone_row_def)

abbreviation ents :: "node \<Rightarrow> row list" where
  "ents \<equiv> collect_all_versions"

abbreviation forest :: "node list \<Rightarrow> row list" where
  "forest cs \<equiv> concat (map ents cs)"

lemma ents_Internal: "ents (Internal ks cs b) = forest cs @ map msg_row b"
  by (simp add: msg_row_def [abs_def])

section \<open>The shape invariant\<close>

text \<open>
  Leaves are sorted. A separator bounds the child on its left from above and everything on its right
  from below, and it is the first key of the leftmost leaf on its right: keys are never removed, so
  the version that once led the right half of a split stays in front.
\<close>

fun first_key :: "node \<Rightarrow> vkey option" where
  "first_key (Leaf []) = None"
| "first_key (Leaf (r # rs)) = Some (vkey_of r)"
| "first_key (Internal ks [] b) = None"
| "first_key (Internal ks (c # cs) b) = first_key c"

fun separated :: "vkey list \<Rightarrow> node list \<Rightarrow> bool" where
  "separated [] [c] = True"
| "separated (k # ks) (c # cs) =
     ((\<forall>r\<in>set (ents c). vkey_of r \<le> k) \<and> (\<forall>r\<in>set (forest cs). k \<le> vkey_of r) \<and>
      cs \<noteq> [] \<and> first_key (hd cs) = Some k \<and> separated ks cs)"
| "separated _ _ = False"

fun ordered :: "node \<Rightarrow> bool" where
  "ordered (Leaf rows) = sorted (map vkey_of rows)"
| "ordered (Internal ks cs b) = (separated ks cs \<and> (\<forall>c\<in>set cs. ordered c))"

definition anchored :: "vkey \<Rightarrow> node \<Rightarrow> bool" where
  "anchored k n \<longleftrightarrow> first_key n = Some k \<and> (\<forall>r\<in>set (ents n). k \<le> vkey_of r)"

fun slim :: "node \<Rightarrow> bool" where
  "slim (Leaf _) = True"
| "slim (Internal ks cs b) = (length cs \<le> FANOUT \<and> length b \<le> BUFFER_CAP \<and> (\<forall>c\<in>set cs. slim c))"

fun slim_below :: "node \<Rightarrow> bool" where
  "slim_below (Leaf _) = True"
| "slim_below (Internal ks cs b) = (length cs \<le> FANOUT \<and> (\<forall>c\<in>set cs. slim c))"

lemma separated_length: "separated ks cs \<Longrightarrow> length cs = Suc (length ks)"
  by (induction ks cs rule: separated.induct) auto

lemma separated_nonempty: "separated ks cs \<Longrightarrow> cs \<noteq> []"
  by (auto dest: separated_length)

lemma first_key_entry: "first_key n = Some k \<Longrightarrow> \<exists>r\<in>set (ents n). vkey_of r = k"
  by (induction n rule: first_key.induct) auto

lemma slim_slim_below: "slim n \<Longrightarrow> slim_below n"
  by (cases n) auto

section \<open>Pushing one message\<close>

lemma leaf_apply_eq:
  "leaf_apply rows m = vec_insert (partition_point (\<lambda>r. vkey_of r \<le> vkey_of (msg_row m)) rows) (msg_row m) rows"
  unfolding leaf_apply_def Let_def msg_row_def [symmetric] msg_key_row [symmetric] by (simp add: vkey_of_def)

lemma push_entries: "set (ents (push_into_child c m)) = insert (msg_row m) (set (ents c))"
  by (cases c) (simp_all add: leaf_apply_eq msg_row_def del: collect_all_versions.simps(2) add: ents_Internal)

lemma push_log:
  assumes "ordered c"
  shows "klog (ents (push_into_child c m)) k = klog (ents c) k @ klog [msg_row m] k"
proof (cases c)
  case (Leaf rows)
  with assms have "sorted (map vkey_of rows)" by simp
  from filter_vec_insert [OF this, of k "msg_row m"] show ?thesis
    unfolding klog_def Leaf push_into_child.simps collect_all_versions.simps leaf_apply_eq .
next
  case (Internal ks cs b)
  then show ?thesis by (simp add: klog_def msg_row_def)
qed

lemma push_ordered: "ordered c \<Longrightarrow> ordered (push_into_child c m)"
  by (cases c) (simp_all add: leaf_apply_eq sorted_vec_insert)

lemma push_anchored:
  assumes "anchored k c" and "k \<le> msg_key m"
  shows "anchored k (push_into_child c m)"
proof -
  have "first_key (push_into_child c m) = Some k"
  proof (cases c)
    case (Leaf rows)
    with assms(1) obtain r rs where rows: "rows = r # rs" "vkey_of r = k"
      by (cases rows) (auto simp: anchored_def)
    with assms(2) have "leaf_apply rows m = r # leaf_apply rs m"
      by (simp add: leaf_apply_eq vec_insert_def msg_key_row)
    with Leaf rows show ?thesis by simp
  next
    case (Internal ks cs b)
    with assms(1) show ?thesis by (cases cs) (simp_all add: anchored_def)
  qed
  moreover have "k \<le> vkey_of r" if "r \<in> set (ents (push_into_child c m))" for r
    using that assms by (auto simp: push_entries anchored_def msg_key_row)
  ultimately show ?thesis by (simp add: anchored_def)
qed

lemma push_slim_below: "slim_below c \<Longrightarrow> slim_below (push_into_child c m)"
  by (cases c) simp_all

text \<open>Pushing into the child the separators select.\<close>

definition push_at :: "vkey list \<Rightarrow> Message \<Rightarrow> node list \<Rightarrow> node list" where
  "push_at ks m cs = (let i = child_index ks (msg_key m) in cs[i := push_into_child (cs ! i) m])"

lemma drain_into_push_at: "drain_into ks ms cs = foldl (\<lambda>cs m. push_at ks m cs) cs ms"
  by (induction ms arbitrary: cs) (simp_all add: push_at_def Let_def)

lemma push_at_Cons:
  "push_at (k # ks) m (c # cs) =
     (if k \<le> msg_key m then c # push_at ks m cs else push_into_child c m # cs)"
  by (simp add: push_at_def child_index_def Let_def)

lemma push_at_single: "push_at [] m [c] = [push_into_child c m]"
  by (simp add: push_at_def child_index_def Let_def)

lemma push_at_entries:
  assumes "separated ks cs"
  shows "set (forest (push_at ks m cs)) = insert (msg_row m) (set (forest cs))"
  using assms
  by (induction ks cs rule: separated.induct) (auto simp: push_at_Cons push_at_single push_entries)

lemma push_at_hd:
  assumes "separated ks cs" and "anchored k (hd cs)" and "k \<le> msg_key m"
  shows "push_at ks m cs \<noteq> [] \<and> anchored k (hd (push_at ks m cs))"
  using assms
  by (cases ks; cases cs; cases "tl cs")
    (auto simp: push_at_Cons push_at_single push_anchored)

lemma push_at_ok:
  assumes "separated ks cs" and "\<forall>c\<in>set cs. ordered c"
  shows "separated ks (push_at ks m cs) \<and> (\<forall>c\<in>set (push_at ks m cs). ordered c) \<and>
    (\<forall>x. klog (forest (push_at ks m cs)) x = klog (forest cs) x @ klog [msg_row m] x)"
  using assms
proof (induction ks cs rule: separated.induct)
  case (1 c)
  then show ?case by (simp add: push_at_single push_ordered push_log)
next
  case (2 k ks c cs)
  then have sep: "separated ks cs" and ord: "\<forall>c\<in>set cs. ordered c" "ordered c"
    and lo: "\<forall>r\<in>set (ents c). vkey_of r \<le> k" and hi: "\<forall>r\<in>set (forest cs). k \<le> vkey_of r"
    and fk: "cs \<noteq> []" "first_key (hd cs) = Some k" by simp_all
  note IH = "2.IH" [OF sep ord(1)]
  show ?case
  proof (cases "k \<le> msg_key m")
    case True
    have "anchored k (hd cs)" using fk hi by (cases cs) (auto simp: anchored_def)
    from push_at_hd [OF sep this True]
    have "push_at ks m cs \<noteq> []" "first_key (hd (push_at ks m cs)) = Some k" by (auto simp: anchored_def)
    moreover have "\<forall>r\<in>set (forest (push_at ks m cs)). k \<le> vkey_of r"
      unfolding push_at_entries [OF sep] using hi True by (simp add: msg_key_row)
    ultimately show ?thesis using IH ord lo True by (simp add: push_at_Cons)
  next
    case False
    have "\<forall>r\<in>set (ents (push_into_child c m)). vkey_of r \<le> k"
      using lo False by (auto simp: push_entries msg_key_row)
    moreover have "klog (forest cs) x = []" if "vkey_of (msg_row m) = x" for x
    proof (rule klog_empty)
      fix r assume "r \<in> set (forest cs)"
      then have "k \<le> vkey_of r" by (rule hi [rule_format])
      with False that show "vkey_of r \<noteq> x" by (auto simp: msg_key_row)
    qed
    ultimately show ?thesis
      using False hi fk sep ord by (auto simp: push_at_Cons push_ordered push_log)
  qed
qed auto

section \<open>Draining a buffer\<close>

lemma drain_ok:
  assumes "separated ks cs" and "\<forall>c\<in>set cs. ordered c"
  shows "separated ks (drain_into ks ms cs) \<and> (\<forall>c\<in>set (drain_into ks ms cs). ordered c) \<and>
    (\<forall>x. klog (forest (drain_into ks ms cs)) x = klog (forest cs) x @ klog (map msg_row ms) x)"
  using assms unfolding drain_into_push_at
proof (induction ms arbitrary: cs)
  case (Cons m ms)
  note P = push_at_ok [OF Cons.prems, of m]
  moreover have "klog (map msg_row (m # ms)) x = klog [msg_row m] x @ klog (map msg_row ms) x" for x
    by (simp add: klog_def)
  ultimately have "klog (forest (push_at ks m cs)) x @ klog (map msg_row ms) x =
      klog (forest cs) x @ klog (map msg_row (m # ms)) x" for x by auto
  with Cons.IH [of "push_at ks m cs"] P show ?case by simp
qed simp

lemma drain_hd:
  assumes "separated ks cs" and "\<forall>c\<in>set cs. ordered c" and "anchored k (hd cs)"
    and "\<forall>m\<in>set ms. k \<le> msg_key m"
  shows "anchored k (hd (drain_into ks ms cs))"
  using assms unfolding drain_into_push_at
proof (induction ms arbitrary: cs)
  case (Cons m ms)
  have "anchored k (hd (push_at ks m cs))" using push_at_hd [OF Cons.prems(1,3), of m] Cons.prems(4) by simp
  with Cons.IH [of "push_at ks m cs"] push_at_ok [OF Cons.prems(1,2), of m] Cons.prems(4)
  show ?case by simp
qed simp

lemma drain_slim_below:
  assumes "\<forall>c\<in>set cs. slim_below c"
  shows "\<forall>c\<in>set (drain_into ks ms cs). slim_below c"
  using assms unfolding drain_into_push_at
proof (induction ms arbitrary: cs)
  case (Cons m ms)
  have "\<forall>c\<in>set (push_at ks m cs). slim_below c"
  proof
    fix c assume c: "c \<in> set (push_at ks m cs)"
    let ?i = "child_index ks (msg_key m)"
    show "slim_below c"
    proof (cases "?i < length cs")
      case True
      have "c \<in> insert (push_into_child (cs ! ?i) m) (set cs)"
        using c set_update_subset_insert [of cs ?i] unfolding push_at_def Let_def by blast
      with True Cons.prems show ?thesis by (auto intro: push_slim_below)
    next
      case False
      with c Cons.prems show ?thesis by (simp add: push_at_def Let_def list_update_beyond not_less)
    qed
  qed
  with Cons.IH [of "push_at ks m cs"] show ?case by simp
qed simp

section \<open>Splitting\<close>

text \<open>What \<open>maintain\<close> promises of a node: the parts are ordered and within their caps, the logs are
  those of the node, and a split separates at a key that leads the right part.\<close>

definition maintained :: "node \<Rightarrow> node \<times> split option \<Rightarrow> bool" where
  "maintained n res \<longleftrightarrow>
     ordered (fst res) \<and> slim (fst res) \<and> (\<forall>k. anchored k n \<longrightarrow> anchored k (fst res)) \<and>
     (case snd res of
        None \<Rightarrow> \<forall>x. klog (ents (fst res)) x = klog (ents n) x
      | Some sp \<Rightarrow> ordered (sp_node sp) \<and> slim (sp_node sp) \<and> anchored (sp_key sp) (sp_node sp) \<and>
          (\<forall>r\<in>set (ents (fst res)). vkey_of r \<le> sp_key sp) \<and>
          (\<forall>x. klog (ents (fst res)) x @ klog (ents (sp_node sp)) x = klog (ents n) x))"

lemma maintained_None:
  assumes "maintained n (n', None)"
  shows "ordered n'" "slim n'" "\<And>k. anchored k n \<Longrightarrow> anchored k n'"
    "\<And>x. klog (ents n') x = klog (ents n) x" "set (ents n') = set (ents n)"
proof -
  show log: "\<And>x. klog (ents n') x = klog (ents n) x" using assms by (simp add: maintained_def)
  show "set (ents n') = set (ents n)" by (rule klog_set) (rule log)
qed (use assms in \<open>simp_all add: maintained_def\<close>)

lemma maintained_Some:
  assumes "maintained n (n', Some sp)"
  shows "ordered n'" "slim n'" "\<And>k. anchored k n \<Longrightarrow> anchored k n'"
    "ordered (sp_node sp)" "slim (sp_node sp)" "anchored (sp_key sp) (sp_node sp)"
    "\<forall>r\<in>set (ents n'). vkey_of r \<le> sp_key sp"
    "\<And>x. klog (ents n') x @ klog (ents (sp_node sp)) x = klog (ents n) x"
    "set (ents n') \<union> set (ents (sp_node sp)) = set (ents n)"
proof -
  show log: "\<And>x. klog (ents n') x @ klog (ents (sp_node sp)) x = klog (ents n) x"
    using assms by (simp add: maintained_def)
  have "set (ents n' @ ents (sp_node sp)) = set (ents n)" by (rule klog_set) (simp add: log)
  then show "set (ents n') \<union> set (ents (sp_node sp)) = set (ents n)" by simp
qed (use assms in \<open>simp_all add: maintained_def\<close>)

text \<open>The structural form of the loop that inserts the splits.\<close>

fun splice :: "(node \<times> split option) list \<Rightarrow> vkey list \<Rightarrow> vkey list \<times> node list" where
  "splice [] ks = (ks, [])"
| "splice ((c, None) # rs) ks = (take 1 ks @ fst (splice rs (drop 1 ks)), c # snd (splice rs (drop 1 ks)))"
| "splice ((c, Some sp) # rs) ks =
     (sp_key sp # take 1 ks @ fst (splice rs (drop 1 ks)), c # sp_node sp # snd (splice rs (drop 1 ks)))"

lemma insert_splits_splice:
  assumes "length ks1 = length cs1 \<or> rs = []" and "length cs2 = length rs"
    and "length ks2 = length rs - 1"
  shows "insert_splits (length cs1) rs (ks1 @ ks2) (cs1 @ cs2) =
    (ks1 @ fst (splice rs ks2), cs1 @ snd (splice rs ks2))"
  using assms
proof (induction rs arbitrary: ks1 cs1 ks2 cs2)
  case (Cons res rs)
  obtain c sp where res: "res = (c, sp)" by (cases res)
  from Cons.prems obtain d cs2' where cs2: "cs2 = d # cs2'" by (cases cs2) auto
  have ih: "insert_splits (length cs1') rs (ks1' @ drop 1 ks2) (cs1' @ cs2') =
      (ks1' @ fst (splice rs (drop 1 ks2)), cs1' @ snd (splice rs (drop 1 ks2)))"
    if "length ks1' = length cs1' \<or> rs = []" for ks1' cs1'
    using Cons.prems that by (intro Cons.IH) (auto simp: cs2)
  have len: "length (take 1 ks2) = 1 \<or> rs = []" using Cons.prems by (cases rs) auto
  have ks2: "ks2 = take 1 ks2 @ drop 1 ks2" by simp
  show ?case
  proof (cases sp)
    case None
    have "length (ks1 @ take 1 ks2) = length (cs1 @ [c]) \<or> rs = []"
      using Cons.prems(1) len by auto
    from ih [OF this] show ?thesis
      by (simp add: res None cs2 flip: append_assoc) (simp add: append_assoc)
  next
    case (Some s)
    have "length (ks1 @ sp_key s # take 1 ks2) = length (cs1 @ [c, sp_node s]) \<or> rs = []"
      using Cons.prems(1) len by auto
    from ih [OF this] Cons.prems(1) show ?thesis
      by (simp add: res Some cs2 vec_insert_def flip: append_assoc) (simp add: append_assoc)
  qed
qed simp

lemma splice_ok:
  assumes "separated ks cs" and "list_all2 maintained cs rs" and "splice rs ks = (ks', cs')"
  shows "separated ks' cs' \<and> (\<forall>c\<in>set cs'. ordered c \<and> slim c) \<and>
    (\<forall>x. klog (forest cs') x = klog (forest cs) x) \<and> length cs' \<le> 2 * length cs \<and>
    (\<forall>k. anchored k (hd cs) \<longrightarrow> anchored k (hd cs'))"
  using assms
proof (induction ks cs arbitrary: rs ks' cs' rule: separated.induct)
  case (1 c)
  then obtain res where rs: "rs = [res]" and m: "maintained c res"
    by (auto simp: list_all2_Cons1)
  obtain n' sp where res: "res = (n', sp)" by (cases res)
  show ?case
  proof (cases sp)
    case None
    note M = maintained_None [OF m [unfolded res None]]
    from 1 rs res None have "ks' = []" "cs' = [n']" by auto
    with M show ?thesis by simp
  next
    case (Some s)
    note M = maintained_Some [OF m [unfolded res Some]]
    from 1 rs res Some have "ks' = [sp_key s]" "cs' = [n', sp_node s]" by auto
    with M show ?thesis by (simp add: anchored_def)
  qed
next
  case (2 k ks c cs)
  then have sep: "separated ks cs"
    and lo: "\<forall>r\<in>set (ents c). vkey_of r \<le> k" and hi: "\<forall>r\<in>set (forest cs). k \<le> vkey_of r"
    and fk: "cs \<noteq> []" "first_key (hd cs) = Some k" by simp_all
  from "2.prems"(2) obtain res rs' where rs: "rs = res # rs'" and m: "maintained c res"
    and ms: "list_all2 maintained cs rs'" by (auto simp: list_all2_Cons1)
  obtain ks2 cs2 where sp2: "splice rs' ks = (ks2, cs2)" by (cases "splice rs' ks")
  note IH = "2.IH" [OF sep ms sp2]
  have "anchored k (hd cs)" using fk hi by (cases cs) (auto simp: anchored_def)
  with IH have anch: "anchored k (hd cs2)" by blast
  from IH have ne: "cs2 \<noteq> []" by (auto dest: separated_nonempty)
  have "set (forest cs2) = set (forest cs)" by (rule klog_set) (use IH in blast)
  with hi have hi2: "\<forall>r\<in>set (forest cs2). k \<le> vkey_of r" by simp
  obtain n' sp where res: "res = (n', sp)" by (cases res)
  show ?case
  proof (cases sp)
    case None
    note M = maintained_None [OF m [unfolded res None]]
    from "2.prems"(3) rs res None sp2 have eq: "ks' = k # ks2" "cs' = n' # cs2" by auto
    from M(5) lo have "\<forall>r\<in>set (ents n'). vkey_of r \<le> k" by simp
    with hi2 ne anch IH have "separated ks' cs'" unfolding eq by (simp add: anchored_def)
    with M IH show ?thesis unfolding eq by simp
  next
    case (Some s)
    note M = maintained_Some [OF m [unfolded res Some]]
    from "2.prems"(3) rs res Some sp2 have eq: "ks' = sp_key s # k # ks2" "cs' = n' # sp_node s # cs2" by auto
    have right: "\<forall>r\<in>set (ents (sp_node s)). vkey_of r \<le> k" using M(9) lo by blast
    from M(6) obtain r where "r \<in> set (ents (sp_node s))" "vkey_of r = sp_key s"
      using first_key_entry [of "sp_node s" "sp_key s"] by (auto simp: anchored_def)
    with right have sk: "sp_key s \<le> k" by auto
    have "\<forall>r\<in>set (forest (sp_node s # cs2)). sp_key s \<le> vkey_of r"
      using M(6) hi2 sk by (auto simp: anchored_def intro: order_trans)
    moreover have "separated (k # ks2) (sp_node s # cs2)"
      using right hi2 ne anch IH by (simp add: anchored_def)
    ultimately have "separated ks' cs'" unfolding eq using M(6,7) by (simp add: anchored_def)
    with M IH show ?thesis unfolding eq by (simp flip: append_assoc)
  qed
qed auto

text \<open>Cutting a separated node at a separator.\<close>

lemma separated_cut:
  assumes "separated ks cs" and "m < length ks"
  shows "separated (take m ks) (take (Suc m) cs) \<and> separated (drop (Suc m) ks) (drop (Suc m) cs) \<and>
    (\<forall>r\<in>set (forest (take (Suc m) cs)). vkey_of r \<le> ks ! m) \<and>
    (\<forall>r\<in>set (forest (drop (Suc m) cs)). ks ! m \<le> vkey_of r) \<and>
    first_key (hd (drop (Suc m) cs)) = Some (ks ! m)"
  using assms
proof (induction ks cs arbitrary: m rule: separated.induct)
  case (2 k ks c cs)
  then have sep: "separated ks cs"
    and lo: "\<forall>r\<in>set (ents c). vkey_of r \<le> k" and hi: "\<forall>r\<in>set (forest cs). k \<le> vkey_of r"
    and fk: "cs \<noteq> []" "first_key (hd cs) = Some k" by simp_all
  show ?case
  proof (cases m)
    case 0
    with sep lo hi fk show ?thesis by simp
  next
    case (Suc m')
    then have m': "m' < length ks" using "2.prems"(2) by simp
    note IH = "2.IH" [OF sep m']
    have "ks ! m' \<in> vkey_of ` set (forest cs)"
    proof -
      from IH have fk': "first_key (hd (drop (Suc m') cs)) = Some (ks ! m')" by blast
      have "drop (Suc m') cs \<noteq> []" using IH by (auto dest: separated_nonempty)
      then have "hd (drop (Suc m') cs) \<in> set cs" by (meson hd_in_set in_set_dropD)
      moreover from first_key_entry [OF fk'] obtain r
        where r: "r \<in> set (ents (hd (drop (Suc m') cs)))" "vkey_of r = ks ! m'" by blast
      ultimately have "r \<in> set (forest cs)" by auto
      with r(2) show ?thesis by (rule image_eqI [OF sym])
    qed
    with hi have kk: "k \<le> ks ! m'" by auto
    have sub: "set (forest (take (Suc m') cs)) \<subseteq> set (forest cs)"
      using set_take_subset [of "Suc m'" cs] by auto
    have "separated (k # take m' ks) (c # take (Suc m') cs)"
      using IH lo hi fk sub by auto
    moreover have "\<forall>r\<in>set (ents c). vkey_of r \<le> ks ! m'" using lo kk by (auto intro: order_trans)
    ultimately show ?thesis unfolding Suc using IH by auto
  qed
qed auto

section \<open>Maintenance\<close>

lemma maintain_leaf:
  assumes "sorted (map vkey_of rows)"
  shows "maintained (Leaf rows) (maintain (Leaf rows))"
proof (cases "length rows > LEAF_CAP")
  case True
  let ?mid = "length rows div 2"
  have mid: "0 < ?mid" "?mid < length rows" using True by (simp_all add: LEAF_CAP_def)
  have rows: "rows = take ?mid rows @ drop ?mid rows" by simp
  then have "sorted (map vkey_of (take ?mid rows @ drop ?mid rows))" using assms by simp
  then have srt: "sorted (map vkey_of (take ?mid rows))" "sorted (map vkey_of (drop ?mid rows))"
    and le: "\<And>a b. a \<in> set (take ?mid rows) \<Longrightarrow> b \<in> set (drop ?mid rows) \<Longrightarrow> vkey_of a \<le> vkey_of b"
    unfolding map_append sorted_append by auto
  have ne: "drop ?mid rows \<noteq> []" using mid by simp
  then obtain h t where right: "drop ?mid rows = h # t" by (cases "drop ?mid rows") auto
  have "anchored k (Leaf (take ?mid rows))" if "anchored k (Leaf rows)" for k
  proof -
    from that obtain r rs where "rows = r # rs" by (cases rows) (auto simp: anchored_def)
    with that mid(1) show ?thesis by (cases ?mid) (auto simp: anchored_def dest: in_set_takeD)
  qed
  moreover have "klog (take ?mid rows) x @ klog (h # t) x = klog rows x" for x
    unfolding right [symmetric] klog_append [symmetric] by simp
  moreover have "anchored (vkey_of h) (Leaf (h # t))"
    using srt(2) unfolding right by (simp add: anchored_def)
  moreover have "\<forall>r\<in>set (take ?mid rows). vkey_of r \<le> vkey_of h" using le [of _ h] right by auto
  ultimately show ?thesis
    using True srt unfolding right
    by (simp add: maintain.simps split_leaf_def maintained_def Let_def right vkey_of_def)
next
  case False
  with assms show ?thesis by (simp add: maintain.simps maintained_def)
qed

lemma split_internal_ok:
  assumes sep: "separated ks cs" and ok: "\<forall>c\<in>set cs. ordered c \<and> slim c"
    and len: "FANOUT < length cs" "length cs \<le> 2 * FANOUT"
    and log: "\<And>x. klog (forest cs) x = klog (ents n) x"
    and anch: "\<And>k. anchored k n \<Longrightarrow> anchored k (hd cs)"
    and sp: "split_internal ks cs = (ks', cs', sp)"
  shows "maintained n (Internal ks' cs' [], Some sp)"
proof -
  let ?m = "length ks div 2"
  have lk: "length cs = Suc (length ks)" using sep by (rule separated_length)
  have m: "?m < length ks" using len lk by (simp add: FANOUT_def)
  note C = separated_cut [OF sep m]
  have eq: "ks' = take ?m ks" "cs' = take (Suc ?m) cs"
    "sp = \<lparr>sp_key = ks ! ?m, sp_node = Internal (drop (Suc ?m) ks) (drop (Suc ?m) cs) []\<rparr>"
    using sp by (simp_all add: split_internal_def Let_def)
  have sub: "set (take (Suc ?m) cs) \<subseteq> set cs" "set (drop (Suc ?m) cs) \<subseteq> set cs"
    by (rule set_take_subset, rule set_drop_subset)
  have ne: "drop (Suc ?m) cs \<noteq> []" "cs \<noteq> []" using lk m by auto
  have logs: "klog (forest (take (Suc ?m) cs)) x @ klog (forest (drop (Suc ?m) cs)) x = klog (ents n) x" for x
  proof -
    have "forest (take (Suc ?m) cs) @ forest (drop (Suc ?m) cs) = forest cs"
      by (simp flip: concat_append map_append)
    then show ?thesis unfolding klog_append [symmetric] by (simp add: log)
  qed
  have "set (forest cs) = set (ents n)" by (rule klog_set) (rule log)
  moreover have "set (forest (take (Suc ?m) cs)) \<subseteq> set (forest cs)" using sub(1) by auto
  ultimately have left: "anchored k (Internal ks' cs' [])" if "anchored k n" for k
    using anch [OF that] that ne(2) unfolding eq anchored_def ents_Internal
    by (cases cs) auto
  have right: "anchored (ks ! ?m) (sp_node sp)"
    using C ne(1) unfolding eq anchored_def by (cases "drop (Suc ?m) cs") auto
  have caps: "length (take (Suc ?m) cs) \<le> FANOUT" "length (drop (Suc ?m) cs) \<le> FANOUT"
    using len lk by (simp_all add: FANOUT_def)
  show ?thesis
    using C sub ok left right caps logs unfolding maintained_def eq by auto
qed

lemma maintain_ok: "ordered n \<Longrightarrow> slim_below n \<Longrightarrow> maintained n (maintain n)"
proof (induction n rule: measure_induct_rule [of height])
  case (less n)
  show ?case
  proof (cases n)
    case (Leaf rows)
    with less.prems show ?thesis by (simp add: maintain_leaf)
  next
    case (Internal ks cs b)
    with less.prems have sep: "separated ks cs" and ord: "\<forall>c\<in>set cs. ordered c"
      and slim: "length cs \<le> FANOUT" "\<forall>c\<in>set cs. slim c" by simp_all
    show ?thesis
    proof (cases "length b > BUFFER_CAP")
      case False
      with slim sep ord show ?thesis
        by (simp add: Internal maintain.simps maintained_def not_less [symmetric])
    next
      case True
      let ?f = "drain_into ks b cs"
      obtain ks' cs' where sp: "splice (map maintain ?f) ks = (ks', cs')"
        by (cases "splice (map maintain ?f) ks")
      note D = drain_ok [OF sep ord, of b]
      have "maintained c (maintain c)" if "c \<in> set ?f" for c
      proof (rule less.IH)
        show "height c < height n" unfolding Internal by (rule drain_into_height [OF that])
        show "ordered c" using D that by blast
        show "slim_below c" using drain_slim_below [of cs ks b] slim(2) slim_slim_below that by blast
      qed
      then have "list_all2 maintained ?f (map maintain ?f)" by (simp add: list_all2_conv_all_nth)
      with splice_ok [OF conjunct1 [OF D] _ sp] have S: "separated ks' cs'"
          "\<forall>c\<in>set cs'. ordered c \<and> slim c" "\<And>x. klog (forest cs') x = klog (forest ?f) x"
          "length cs' \<le> 2 * length cs" "\<And>k. anchored k (hd ?f) \<Longrightarrow> anchored k (hd cs')" by simp_all
      have ins: "insert_splits 0 (map maintain ?f) ks ?f = (ks', cs')"
      proof -
        have "insert_splits (length ([] :: node list)) (map maintain ?f) ([] @ ks) ([] @ ?f) =
            ([] @ fst (splice (map maintain ?f) ks), [] @ snd (splice (map maintain ?f) ks))"
          by (rule insert_splits_splice) (simp_all add: separated_length [OF sep])
        then show ?thesis by (simp only: sp fst_conv snd_conv append_Nil list.size)
      qed
      have log: "klog (forest cs') x = klog (ents n) x" for x
        unfolding S(3) Internal ents_Internal using D by simp
      have anch: "anchored k (hd cs')" if "anchored k n" for k
      proof (rule S(5), rule drain_hd [OF sep ord])
        show "anchored k (hd cs)"
          using that separated_nonempty [OF sep] unfolding Internal anchored_def ents_Internal
          by (cases cs) auto
        show "\<forall>m\<in>set b. k \<le> msg_key m"
          using that unfolding Internal anchored_def ents_Internal by (auto simp: msg_key_row)
      qed
      show ?thesis
      proof (cases "length cs' > FANOUT")
        case big: True
        obtain l r s where si: "split_internal ks' cs' = (l, r, s)" by (cases "split_internal ks' cs'")
        have "maintained n (Internal l r [], Some s)"
          by (rule split_internal_ok [OF S(1,2) big _ log anch si]) (use S(4) slim(1) in simp)
        then show ?thesis by (simp add: Internal maintain.simps True ins big si)
      next
        case small: False
        have set_eq: "set (forest cs') = set (ents n)" by (rule klog_set) (rule log)
        have "anchored k (Internal ks' cs' [])" if "anchored k n" for k
          using anch [OF that] that separated_nonempty [OF S(1)] set_eq
          unfolding anchored_def ents_Internal by (cases cs') auto
        then have "maintained n (Internal ks' cs' [], None)"
          using S(1,2) small log by (simp add: maintained_def)
        then show ?thesis by (simp add: Internal maintain.simps True ins small)
      qed
    qed
  qed
qed

section \<open>Insertion appends to one log\<close>

definition be_inv :: "be_tree \<Rightarrow> bool" where
  "be_inv t \<longleftrightarrow> ordered (root t) \<and> slim (root t)"

lemma be_inv_new [simp]: "be_inv be_tree_new"
  by (simp add: be_inv_def be_tree_new_def empty_leaf_def)

lemma be_insert_ok:
  assumes "be_inv t"
  shows "be_inv (be_insert t m)"
    and "klog (versions (be_insert t m)) k = klog (versions t) k @ klog [msg_row m] k"
proof -
  let ?p = "push_into_child (root t) m"
  from assms have "ordered ?p" "slim_below ?p"
    by (auto simp: be_inv_def intro: push_ordered push_slim_below slim_slim_below)
  note M = maintain_ok [OF this]
  obtain n' sp where res: "maintain ?p = (n', sp)" by (cases "maintain ?p")
  have log: "klog (ents ?p) k = klog (versions t) k @ klog [msg_row m] k"
    unfolding versions_def using assms by (intro push_log) (simp add: be_inv_def)
  have "be_inv (be_insert t m) \<and>
    klog (versions (be_insert t m)) k = klog (versions t) k @ klog [msg_row m] k"
  proof (cases sp)
    case None
    note N = maintained_None [OF M [unfolded res None]]
    show ?thesis using N log by (simp add: be_inv_def be_insert_def res None versions_def)
  next
    case (Some s)
    note N = maintained_Some [OF M [unfolded res Some]]
    show ?thesis using N log
      by (simp add: be_inv_def be_insert_def res Some versions_def anchored_def FANOUT_def BUFFER_CAP_def)
  qed
  then show "be_inv (be_insert t m)"
    and "klog (versions (be_insert t m)) k = klog (versions t) k @ klog [msg_row m] k" by blast+
qed

end
