(* ===== verification/Be_Tree_Reads.thy ===== *)
theory Be_Tree_Reads
  imports Be_Tree_Log
begin

text \<open>
  The reads of the B-epsilon-tree against the logs: the point read takes the newest epoch at or
  below the snapshot and, within it, the version written last; the range walk visits exactly the
  versions of one row; the consuming drain is the stable sort of everything that was written. The
  contract of such a store is the locale \<open>version_store\<close>.
\<close>

declare split_paired_All [simp del] split_paired_Ex [simp del]

section \<open>Reading a log\<close>

definition log_read :: "(vkey \<Rightarrow> row list) \<Rightarrow> RowId \<Rightarrow> epoch \<Rightarrow> (epoch \<times> row) option" where
  "log_read L rid snap =
     (let es = {e. e \<le> snap \<and> L (rid, e) \<noteq> []}
      in if es = {} then None else Some (Max es, last (L (rid, Max es))))"

definition newer_read :: "(epoch \<times> row) option \<Rightarrow> (epoch \<times> row) option \<Rightarrow> (epoch \<times> row) option" where
  "newer_read a b =
     (case a of None \<Rightarrow> b
      | Some (ea, ra) \<Rightarrow> (case b of None \<Rightarrow> a | Some (eb, rb) \<Rightarrow> if eb \<le> ea then a else b))"

abbreviation read_of :: "row list \<Rightarrow> RowId \<Rightarrow> epoch \<Rightarrow> (epoch \<times> row) option" where
  "read_of rs \<equiv> log_read (klog rs)"

lemma newer_read_None [simp]: "newer_read None b = b" "newer_read a None = a"
  by (simp_all add: newer_read_def split: option.splits)

lemma newer_read_assoc: "newer_read (newer_read a b) c = newer_read a (newer_read b c)"
  by (cases a; cases b; cases c) (auto simp: newer_read_def)

lemma consider_prefer: "consider_version best e r = newer_read best (Some (e, r))"
  by (auto simp: consider_version_def newer_read_def split: option.splits)

lemma log_read_None_iff: "log_read L rid snap = None \<longleftrightarrow> (\<forall>e\<le> snap. L (rid, e) = [])"
  by (auto simp: log_read_def Let_def)

lemma log_read_Some_iff:
  "log_read L rid snap = Some (e, r) \<longleftrightarrow>
     e \<le> snap \<and> L (rid, e) \<noteq> [] \<and> r = last (L (rid, e)) \<and> (\<forall>f\<le> snap. L (rid, f) \<noteq> [] \<longrightarrow> f \<le> e)"
proof -
  let ?es = "{e. e \<le> snap \<and> L (rid, e) \<noteq> []}"
  have *: "Max ?es = e \<longleftrightarrow> e \<in> ?es \<and> (\<forall>f\<in>?es. f \<le> e)" if "?es \<noteq> {}"
    using that by (intro Max_eq_iff) simp_all
  show ?thesis
  proof (cases "?es = {}")
    case True
    then have "log_read L rid snap = None" by (auto simp: log_read_None_iff)
    with True show ?thesis by auto
  next
    case False
    then have "log_read L rid snap = Some (Max ?es, last (L (rid, Max ?es)))"
      by (simp add: log_read_def Let_def)
    with * [OF False] show ?thesis by auto
  qed
qed

lemma log_read_cong:
  assumes "\<And>e. e \<le> snap \<Longrightarrow> L (rid, e) = L' (rid, e)"
  shows "log_read L rid snap = log_read L' rid snap"
proof (cases "log_read L' rid snap")
  case None
  then have "log_read L rid snap = None" using assms by (simp add: log_read_None_iff)
  with None show ?thesis by simp
next
  case (Some p)
  obtain e r where p: "p = (e, r)" by (cases p)
  from Some have "log_read L' rid snap = Some (e, r)" by (simp add: p)
  then have "log_read L rid snap = Some (e, r)" using assms by (auto simp: log_read_Some_iff)
  with Some p show ?thesis by simp
qed

text \<open>What is written later is preferred when the epochs are equal.\<close>

lemma read_of_append: "read_of (xs @ ys) rid snap = newer_read (read_of ys rid snap) (read_of xs rid snap)"
proof (cases "read_of ys rid snap")
  case None
  then have "read_of (xs @ ys) rid snap = read_of xs rid snap"
    by (intro log_read_cong) (auto simp: log_read_None_iff)
  with None show ?thesis by simp
next
  case (Some p)
  obtain ey ry where p: "p = (ey, ry)" by (cases p)
  note Y = Some [unfolded p log_read_Some_iff]
  show ?thesis
  proof (cases "read_of xs rid snap")
    case None
    then have "read_of (xs @ ys) rid snap = read_of ys rid snap"
      by (intro log_read_cong) (auto simp: log_read_None_iff)
    with None show ?thesis by simp
  next
    case (Some q)
    obtain ex rx where q: "q = (ex, rx)" by (cases q)
    note X = Some [unfolded q log_read_Some_iff]
    show ?thesis
    proof (cases "ex \<le> ey")
      case True
      then have "read_of (xs @ ys) rid snap = Some (ey, ry)"
        using X Y unfolding log_read_Some_iff by (auto intro: order_trans)
      with True show ?thesis using \<open>read_of ys rid snap = Some p\<close> Some p q by (simp add: newer_read_def)
    next
      case False
      then have lt: "ey < ex" by simp
      have "klog ys (rid, ex) = []" using Y X lt by (auto simp: not_less [symmetric])
      then have "read_of (xs @ ys) rid snap = Some (ex, rx)"
        using X Y lt unfolding log_read_Some_iff by (auto intro: order_trans less_imp_le)
      with False show ?thesis using \<open>read_of ys rid snap = Some p\<close> Some p q by (simp add: newer_read_def)
    qed
  qed
qed

lemma read_of_single:
  "read_of [r] rid snap =
     (if row_id r = rid \<and> committed_epoch r \<le> snap then Some (committed_epoch r, r) else None)"
proof (cases "row_id r = rid \<and> committed_epoch r \<le> snap")
  case True
  then have "read_of [r] rid snap = Some (committed_epoch r, r)"
    unfolding log_read_Some_iff by (auto simp: vkey_of_def)
  with True show ?thesis by simp
next
  case False
  then have "read_of [r] rid snap = None" by (auto simp: log_read_None_iff vkey_of_def)
  with False show ?thesis by simp
qed

lemma read_of_none:
  assumes "\<And>r. r \<in> set rs \<Longrightarrow> row_id r \<noteq> rid \<or> \<not> committed_epoch r \<le> snap"
  shows "read_of rs rid snap = None"
  unfolding log_read_None_iff
proof (intro allI impI)
  fix e assume "e \<le> snap"
  show "klog rs (rid, e) = []"
    by (rule klog_empty) (use assms \<open>e \<le> snap\<close> in \<open>auto simp: vkey_of_def\<close>)
qed

lemma read_of_ge:
  assumes "r \<in> set rs" and "vkey_of r = (rid, e)" and "e \<le> snap"
  shows "\<exists>e' r'. read_of rs rid snap = Some (e', r') \<and> e \<le> e'"
proof -
  have "klog rs (rid, e) \<noteq> []" using assms(1,2) by (auto simp: klog_def filter_empty_conv)
  with assms(3) show ?thesis
    by (cases "read_of rs rid snap") (auto simp: log_read_None_iff log_read_Some_iff)
qed

declare klog_append [simp del]

section \<open>The point read\<close>

lemma vkey_le: "vkey_of r \<le> (rid, snap) \<longleftrightarrow> row_id r < rid \<or> row_id r = rid \<and> committed_epoch r \<le> snap"
  by (auto simp: vkey_of_def less_eq_prod_def)

lemma le_vkey: "(rid, snap) \<le> vkey_of r \<longleftrightarrow> rid < row_id r \<or> rid = row_id r \<and> snap \<le> committed_epoch r"
  by (auto simp: vkey_of_def less_eq_prod_def)

lemma scan_leaf_read:
  assumes "sorted (map vkey_of rows)" and "i \<le> length rows"
    and "\<And>r. r \<in> set (take i rows) \<Longrightarrow> vkey_of r \<le> (rid, snap)"
  shows "scan_leaf rows i rid snap best = newer_read best (read_of (take i rows) rid snap)"
  using assms(2,3)
proof (induction i arbitrary: best)
  case 0
  then show ?case by (simp add: log_read_def)
next
  case (Suc i)
  let ?x = "rows ! i"
  have take: "take (Suc i) rows = take i rows @ [?x]" using Suc.prems(1) by (simp add: take_Suc_conv_app_nth)
  have x: "vkey_of ?x \<le> (rid, snap)" by (rule Suc.prems(2)) (simp add: take)
  have ih: "scan_leaf rows i rid snap b = newer_read b (read_of (take i rows) rid snap)" for b
    using Suc.prems by (intro Suc.IH) (auto simp: take)
  show ?case
  proof (cases "row_id ?x = rid")
    case True
    with x have "committed_epoch ?x \<le> snap" by (simp add: vkey_le)
    with True show ?thesis
      unfolding take read_of_append read_of_single
      by (simp add: ih consider_prefer newer_read_assoc)
  next
    case False
    with x have xlt: "row_id ?x < rid" by (simp add: vkey_le)
    have "read_of (take (Suc i) rows) rid snap = None"
    proof (rule read_of_none)
      fix r assume r: "r \<in> set (take (Suc i) rows)"
      have "sorted (map vkey_of (take i rows @ ?x # drop (Suc i) rows))"
        using assms(1) Suc.prems(1) by (simp add: id_take_nth_drop [symmetric])
      then have "vkey_of r \<le> vkey_of ?x" using r unfolding take by (auto simp: sorted_append)
      then have "row_id r \<le> row_id ?x" by (auto simp: vkey_of_def less_eq_prod_def)
      with xlt show "row_id r \<noteq> rid \<or> \<not> committed_epoch r \<le> snap" by auto
    qed
    with False show ?thesis by simp
  qed
qed

lemma collect_leaf:
  assumes "sorted (map vkey_of rows)"
  shows "collect (Leaf rows) rid snap best = newer_read best (read_of rows rid snap)"
proof -
  let ?p = "\<lambda>r. vkey_of r \<le> (rid, snap)"
  let ?u = "partition_point ?p rows"
  have "scan_leaf rows ?u rid snap best = newer_read best (read_of (take ?u rows) rid snap)"
  proof (rule scan_leaf_read [OF assms])
    fix r assume "r \<in> set (take ?u rows)"
    then show "?p r" unfolding take_partition_point by (rule set_takeWhileD [THEN conjunct2])
  qed simp
  moreover have "read_of (drop ?u rows) rid snap = None"
  proof (rule read_of_none)
    fix r assume "r \<in> set (drop ?u rows)"
    then have "(rid, snap) < vkey_of r"
      unfolding drop_partition_point by (rule sorted_dropWhile_le [OF assms])
    then show "row_id r \<noteq> rid \<or> \<not> committed_epoch r \<le> snap" by (auto simp: vkey_of_def less_prod_def)
  qed
  then have "read_of rows rid snap = read_of (take ?u rows) rid snap"
    using read_of_append [of "take ?u rows" "drop ?u rows"] by simp
  ultimately show ?thesis by (simp add: vkey_of_def [abs_def])
qed

lemma consider_messages:
  "foldl (consider_message rid snap) best (rev b) = newer_read best (read_of (map msg_row b) rid snap)"
proof (induction b)
  case Nil
  then show ?case by (simp add: log_read_def)
next
  case (Cons m b)
  have step: "consider_message rid snap x m = newer_read x (read_of [msg_row m] rid snap)" for x
    by (cases "msg_key m")
      (auto simp: consider_message_def to_row_eq read_of_single consider_prefer msg_key_row vkey_of_def)
  have "read_of (map msg_row (m # b)) rid snap =
      newer_read (read_of (map msg_row b) rid snap) (read_of [msg_row m] rid snap)"
    using read_of_append [of "[msg_row m]" "map msg_row b"] by simp
  with Cons show ?case by (simp add: step newer_read_assoc)
qed

text \<open>Everything a point read can return is in the one child the separators select.\<close>

lemma read_of_forest:
  assumes "separated ks cs"
  shows "child_index ks (rid, snap) < length cs \<and>
    read_of (forest cs) rid snap = read_of (ents (cs ! child_index ks (rid, snap))) rid snap"
  using assms
proof (induction ks cs rule: separated.induct)
  case (1 c)
  then show ?case by (simp add: child_index_def)
next
  case (2 k ks c cs)
  then have sep: "separated ks cs"
    and lo: "\<forall>r\<in>set (ents c). vkey_of r \<le> k" and hi: "\<forall>r\<in>set (forest cs). k \<le> vkey_of r"
    and fk: "cs \<noteq> []" "first_key (hd cs) = Some k" by simp_all
  note IH = "2.IH" [OF sep]
  have app: "read_of (forest (c # cs)) rid snap = newer_read (read_of (forest cs) rid snap) (read_of (ents c) rid snap)"
    using read_of_append [of "ents c" "forest cs"] by simp
  show ?case
  proof (cases "k \<le> (rid, snap)")
    case True
    obtain kr ke where k: "k = (kr, ke)" by (cases k)
    from first_key_entry [OF fk(2)] fk(1) obtain r where r: "r \<in> set (forest cs)" "vkey_of r = k"
      by (cases cs) auto
    have "newer_read (read_of (forest cs) rid snap) (read_of (ents c) rid snap) = read_of (forest cs) rid snap"
    proof (cases "kr = rid")
      case True
      with \<open>k \<le> (rid, snap)\<close> k have ke: "ke \<le> snap" by simp
      from read_of_ge [OF r(1), of rid ke snap] r(2) k True ke obtain e' r'
        where e': "read_of (forest cs) rid snap = Some (e', r')" "ke \<le> e'" by auto
      have "e \<le> ke" if "read_of (ents c) rid snap = Some (e, x)" for e x
      proof -
        from that have "klog (ents c) (rid, e) \<noteq> []" by (simp add: log_read_Some_iff)
        then obtain q where "q \<in> set (ents c)" "vkey_of q = (rid, e)"
          by (auto simp: klog_def filter_empty_conv)
        with lo k True show ?thesis by fastforce
      qed
      with e' show ?thesis by (auto simp: newer_read_def split: option.splits intro: order_trans)
    next
      case False
      with \<open>k \<le> (rid, snap)\<close> k have kr: "kr < rid" by (auto simp: less_eq_prod_def)
      have "read_of (ents c) rid snap = None"
      proof (rule read_of_none)
        fix q assume "q \<in> set (ents c)"
        with lo have "vkey_of q \<le> k" by blast
        then have "row_id q \<le> kr" by (auto simp: k vkey_of_def less_eq_prod_def)
        with kr show "row_id q \<noteq> rid \<or> \<not> committed_epoch q \<le> snap" by auto
      qed
      then show ?thesis by simp
    qed
    with IH app True show ?thesis by (simp add: child_index_def)
  next
    case False
    have "read_of (forest cs) rid snap = None"
    proof (rule read_of_none)
      fix q assume "q \<in> set (forest cs)"
      with hi have "k \<le> vkey_of q" by blast
      with False have "(rid, snap) < vkey_of q" by simp
      then show "row_id q \<noteq> rid \<or> \<not> committed_epoch q \<le> snap" by (auto simp: vkey_of_def less_prod_def)
    qed
    with app False show ?thesis by (simp add: child_index_def)
  qed
qed auto

lemma collect_read: "ordered n \<Longrightarrow> collect n rid snap best = newer_read best (read_of (ents n) rid snap)"
proof (induction n arbitrary: best rule: measure_induct_rule [of height])
  case (less n)
  show ?case
  proof (cases n)
    case (Leaf rows)
    with less.prems show ?thesis by (simp add: collect_leaf del: collect.simps)
  next
    case (Internal ks cs b)
    let ?i = "child_index ks (rid, snap)"
    from less.prems Internal have sep: "separated ks cs" and ord: "\<forall>c\<in>set cs. ordered c" by simp_all
    note F = read_of_forest [OF sep, of rid snap]
    have "collect (cs ! ?i) rid snap x = newer_read x (read_of (ents (cs ! ?i)) rid snap)" for x
      using F ord Internal by (intro less.IH) (auto simp del: height.simps intro: height_child)
    then have "collect n rid snap best =
        newer_read (newer_read best (read_of (map msg_row b) rid snap)) (read_of (forest cs) rid snap)"
      using F by (simp add: Internal Let_def consider_messages)
    also have "\<dots> = newer_read best (read_of (ents n) rid snap)"
      unfolding Internal ents_Internal read_of_append newer_read_assoc ..
    finally show ?thesis .
  qed
qed

lemma get_version_log: "be_inv t \<Longrightarrow> get_version t rid snap = log_read (klog (versions t)) rid snap"
  by (simp add: get_version_def versions_def be_inv_def collect_read)

section \<open>The range walk of one row\<close>

lemma slice_simps [simp]:
  "slice i 0 xs = []" "slice i j [] = []" "slice (Suc i) (Suc j) (x # xs) = slice i j xs"
  "slice 0 (Suc j) (x # xs) = x # slice 0 j xs"
  by (simp_all add: slice_def)

lemma partition_point_zero: "(\<And>x. x \<in> set xs \<Longrightarrow> \<not> p x) \<Longrightarrow> partition_point p xs = 0"
  by (cases xs) auto

lemma visit_leaf:
  assumes "sorted (map row_id rows)"
  shows "slice (partition_point (\<lambda>r. row_id r < rid) rows) (partition_point (\<lambda>r. row_id r \<le> rid) rows) rows =
    filter (\<lambda>r. row_id r = rid) rows"
  using assms
proof (induction rows)
  case (Cons r rs)
  then have ge: "\<forall>x\<in>set rs. row_id r \<le> row_id x" by simp
  show ?case
  proof (cases "row_id r" rid rule: linorder_cases)
    case less
    then have "row_id r \<le> rid" "row_id r \<noteq> rid" by auto
    with Cons less show ?thesis by simp
  next
    case equal
    then have "partition_point (\<lambda>r. row_id r < rid) rs = 0"
      using ge by (intro partition_point_zero) auto
    with Cons equal show ?thesis by simp
  next
    case greater
    then have "filter (\<lambda>r. row_id r = rid) rs = []" using ge by (auto simp: filter_empty_conv)
    moreover have "\<not> row_id r < rid" "\<not> row_id r \<le> rid" "row_id r \<noteq> rid" using greater by auto
    ultimately show ?thesis by simp
  qed
qed simp

lemma sorted_row_ids:
  assumes "sorted (map vkey_of rows)"
  shows "sorted (map row_id rows)"
proof -
  have "sorted_wrt (\<lambda>a b. vkey_of a \<le> vkey_of b) rows" using assms by (simp add: sorted_map)
  then have "sorted_wrt (\<lambda>a b. row_id a \<le> row_id b) rows"
    by (rule sorted_wrt_mono_rel [rotated]) (auto simp: vkey_of_def less_eq_prod_def)
  then show ?thesis by (simp add: sorted_map)
qed

lemma separated_keys: "separated (k # ks) cs \<Longrightarrow> k' \<in> set ks \<Longrightarrow> k \<le> k'"
proof (induction ks arbitrary: k cs)
  case (Cons k2 ks)
  from Cons.prems(1) obtain c d cs' where cs: "cs = c # d # cs'"
    by (cases cs; cases "tl cs") auto
  with Cons.prems(1) have sep: "separated (k2 # ks) (d # cs')"
    and hi: "\<forall>r\<in>set (forest (d # cs')). k \<le> vkey_of r" by simp_all
  from sep have ne: "cs' \<noteq> []" "first_key (hd cs') = Some k2" by simp_all
  from first_key_entry [OF ne(2)] ne(1) obtain r where "r \<in> set (forest cs')" "vkey_of r = k2"
    by (cases cs') auto
  with hi have "k \<le> k2" by auto
  with Cons.IH [OF sep] Cons.prems(2) show ?case by (auto intro: order_trans)
qed simp

lemma visit_forest:
  assumes "separated ks cs" and "\<forall>r\<in>set (forest cs). vkey_of r \<noteq> (rid, 0)"
  shows "concat (map (\<lambda>c. filter (\<lambda>r. row_id r = rid) (ents c))
      (slice (child_index ks (rid, 0)) (Suc (child_index ks (rid, max_u64))) cs)) =
    filter (\<lambda>r. row_id r = rid) (forest cs)"
  using assms
proof (induction ks cs rule: separated.induct)
  case (1 c)
  then show ?case by (simp add: child_index_def)
next
  case (2 k ks c cs)
  then have sep: "separated ks cs" and ne: "cs \<noteq> []"
    and lo: "\<forall>r\<in>set (ents c). vkey_of r \<le> k" and hi: "\<forall>r\<in>set (forest cs). k \<le> vkey_of r"
    and z: "\<forall>r\<in>set (ents c). vkey_of r \<noteq> (rid, 0)" "\<forall>r\<in>set (forest cs). vkey_of r \<noteq> (rid, 0)"
    by simp_all
  note IH = "2.IH" [OF sep z(2)]
  consider (below) "k \<le> (rid, 0)" | (inside) "\<not> k \<le> (rid, 0)" "k \<le> (rid, max_u64)" | (above) "\<not> k \<le> (rid, max_u64)"
    by blast
  then show ?case
  proof cases
    case below
    then have up: "k \<le> (rid, max_u64)" by (auto intro: order_trans simp: less_eq_prod_def)
    have "filter (\<lambda>r. row_id r = rid) (ents c) = []"
    proof (rule filter_False, rule ballI)
      fix r assume r: "r \<in> set (ents c)"
      with lo below have "vkey_of r \<le> (rid, 0)" by (blast intro: order_trans)
      moreover have "vkey_of r \<noteq> (rid, 0)" using r z(1) by blast
      ultimately show "\<not> row_id r = rid" by (auto simp: vkey_of_def less_eq_prod_def)
    qed
    with IH below up show ?thesis by (simp add: child_index_def)
  next
    case inside
    have "child_index ks (rid, 0) = 0"
      unfolding child_index_def
    proof (rule partition_point_zero)
      fix k' assume "k' \<in> set ks"
      with separated_keys [OF "2.prems"(1)] have "k \<le> k'" by blast
      with inside(1) show "\<not> k' \<le> (rid, 0)" by (meson order_trans)
    qed
    with IH inside show ?thesis by (simp add: child_index_def)
  next
    case above
    then have "\<not> k \<le> (rid, 0)" by (auto simp: less_eq_prod_def)
    moreover have "filter (\<lambda>r. row_id r = rid) (forest cs) = []"
    proof (rule filter_False, rule ballI)
      fix r assume "r \<in> set (forest cs)"
      with hi have "k \<le> vkey_of r" by blast
      with above have "\<not> vkey_of r \<le> (rid, max_u64)" by (meson order_trans)
      then show "\<not> row_id r = rid" by (auto simp: vkey_of_def less_eq_prod_def)
    qed
    ultimately show ?thesis using above by (simp add: child_index_def)
  qed
qed auto

lemma visit_row_versions_ok:
  "ordered n \<Longrightarrow> \<forall>r\<in>set (ents n). vkey_of r \<noteq> (rid, 0) \<Longrightarrow>
     visit_row_versions n rid = filter (\<lambda>r. row_id r = rid) (ents n)"
proof (induction n rule: measure_induct_rule [of height])
  case (less n)
  show ?case
  proof (cases n)
    case (Leaf rows)
    with less.prems show ?thesis by (simp add: visit_leaf sorted_row_ids)
  next
    case (Internal ks cs b)
    from less.prems Internal have sep: "separated ks cs" and ord: "\<forall>c\<in>set cs. ordered c"
      and z: "\<forall>r\<in>set (forest cs). vkey_of r \<noteq> (rid, 0)" by auto
    let ?s = "slice (child_index ks (rid, 0)) (Suc (child_index ks (rid, max_u64))) cs"
    have "visit_row_versions c rid = filter (\<lambda>r. row_id r = rid) (ents c)" if "c \<in> set ?s" for c
      using set_slice [OF that] ord z Internal
      by (intro less.IH) (auto simp del: height.simps intro: height_child)
    then have kids: "concat (map (\<lambda>c. visit_row_versions c rid) ?s) = filter (\<lambda>r. row_id r = rid) (forest cs)"
      unfolding visit_forest [OF sep z, symmetric] by (intro arg_cong [of _ _ concat] map_cong) simp_all
    have "map (\<lambda>m. snd (to_row m)) (filter (\<lambda>m. fst (msg_key m) = rid) b) =
        filter (\<lambda>r. row_id r = rid) (map msg_row b)"
      by (simp add: filter_map comp_def msg_key_row vkey_of_def msg_row_def [abs_def])
    with kids show ?thesis
      unfolding Internal ents_Internal visit_row_versions.simps filter_append by simp
  qed
qed

section \<open>The sorted drain\<close>

lemma separated_map:
  assumes "separated ks cs" and "\<forall>c\<in>set cs. set (ents (f c)) = set (ents c)"
    and "\<forall>c\<in>set cs. \<forall>k. anchored k c \<longrightarrow> anchored k (f c)"
  shows "separated ks (map f cs)"
  using assms
proof (induction ks cs rule: separated.induct)
  case (2 k ks c cs)
  then have "anchored k (hd cs)" "cs \<noteq> []" by (cases cs; auto simp: anchored_def)+
  then have "first_key (hd (map f cs)) = Some k" using 2 by (cases cs) (auto simp: anchored_def)
  with 2 show ?case by auto
qed auto

lemma klog_forest_map:
  "(\<And>c. c \<in> set cs \<Longrightarrow> klog (ents (f c)) x = klog (ents c) x) \<Longrightarrow>
     klog (forest (map f cs)) x = klog (forest cs) x"
  by (induction cs) (simp_all add: klog_append)

lemma flush_all_ok:
  "ordered n \<Longrightarrow> ordered (flush_all n) \<and> (\<forall>x. klog (ents (flush_all n)) x = klog (ents n) x) \<and>
     collect_leaves (flush_all n) = ents (flush_all n) \<and> (\<forall>k. anchored k n \<longrightarrow> anchored k (flush_all n))"
proof (induction n rule: measure_induct_rule [of height])
  case (less n)
  show ?case
  proof (cases n)
    case (Leaf rows)
    with less.prems show ?thesis by simp
  next
    case (Internal ks cs b)
    from less.prems Internal have sep: "separated ks cs" and ord: "\<forall>c\<in>set cs. ordered c" by simp_all
    let ?d = "drain_into ks b cs"
    note D = drain_ok [OF sep ord, of b]
    have ih: "ordered (flush_all c) \<and> (\<forall>x. klog (ents (flush_all c)) x = klog (ents c) x) \<and>
       collect_leaves (flush_all c) = ents (flush_all c) \<and> (\<forall>k. anchored k c \<longrightarrow> anchored k (flush_all c))"
      if "c \<in> set ?d" for c
      using that D unfolding Internal by (intro less.IH) (auto simp: Internal simp del: height.simps intro: drain_into_height)
    have sets: "\<forall>c\<in>set ?d. set (ents (flush_all c)) = set (ents c)"
      using ih by (intro ballI klog_set) blast
    have sep': "separated ks (map flush_all ?d)"
      by (rule separated_map [OF conjunct1 [OF D] sets]) (use ih in blast)
    have log: "klog (ents (flush_all n)) x = klog (ents n) x" for x
    proof -
      have "klog (forest (map flush_all ?d)) x = klog (forest ?d) x" by (rule klog_forest_map) (use ih in blast)
      then show ?thesis unfolding Internal flush_all.simps ents_Internal using D by (simp add: klog_append)
    qed
    have leaves: "collect_leaves (flush_all n) = ents (flush_all n)"
      unfolding Internal flush_all.simps by (auto simp: ih intro!: arg_cong [of _ _ concat])
    have "anchored k (flush_all n)" if k: "anchored k n" for k
    proof -
      have "anchored k (hd cs)" "\<forall>m\<in>set b. k \<le> msg_key m"
        using k separated_nonempty [OF sep] unfolding Internal anchored_def ents_Internal
        by (cases cs; auto simp: msg_key_row)+
      then have "anchored k (hd ?d)" by (rule drain_hd [OF sep ord])
      moreover have ne: "?d \<noteq> []" using separated_nonempty [OF conjunct1 [OF D]] .
      ultimately have fk: "first_key (flush_all n) = Some k"
        using ih [of "hd ?d"] unfolding Internal by (cases ?d) (auto simp: anchored_def)
      have "set (ents (flush_all n)) = set (ents n)" by (rule klog_set) (rule log)
      with fk k show ?thesis by (simp add: anchored_def)
    qed
    with sep' ih log leaves show ?thesis by (auto simp: Internal)
  qed
qed

lemma sorted_leaves:
  "ordered n \<Longrightarrow> sorted (map vkey_of (collect_leaves n)) \<and> set (collect_leaves n) \<subseteq> set (ents n)"
proof (induction n)
  case (Leaf rows)
  then show ?case by simp
next
  case (Internal ks cs b)
  then have sep: "separated ks cs" and ih: "\<forall>c\<in>set cs. sorted (map vkey_of (collect_leaves c)) \<and>
      set (collect_leaves c) \<subseteq> set (ents c)" by auto
  have "sorted (map vkey_of (concat (map collect_leaves cs)))"
    using sep ih
  proof (induction ks cs rule: separated.induct)
    case (2 k ks c cs)
    have "vkey_of a \<le> vkey_of z" if a: "a \<in> set (collect_leaves c)" and z: "z \<in> set (concat (map collect_leaves cs))" for a z
    proof -
      have "a \<in> set (ents c)" "z \<in> set (forest cs)" using a z 2 by fastforce+
      with 2 have "vkey_of a \<le> k" "k \<le> vkey_of z" by auto
      then show ?thesis by (rule order_trans)
    qed
    with 2 show ?case by (auto simp: sorted_append)
  qed auto
  with ih show ?case by fastforce
qed

lemma sort_by_logs:
  assumes "sorted (map vkey_of ys)" and "\<And>x. klog ys x = klog xs x"
  shows "ys = sort_key vkey_of xs"
proof -
  have "sort_key vkey_of xs = ys"
  proof (rule properties_for_sort_key)
    show "mset ys = mset xs" by (rule klog_mset) (rule assms(2))
    show "filter (\<lambda>x. vkey_of k = vkey_of x) ys = filter (\<lambda>x. vkey_of k = vkey_of x) xs" for k
      using assms(2) [of "vkey_of k"] unfolding klog_def by (simp add: eq_commute [of "vkey_of k"])
  qed (rule assms(1))
  then show ?thesis ..
qed

lemma into_sorted_rows_sort:
  assumes "be_inv t"
  shows "into_sorted_rows t = sort_key vkey_of (versions t)"
proof -
  have ord: "ordered (root t)" using assms by (simp add: be_inv_def)
  note F = flush_all_ok [OF ord]
  show ?thesis
    unfolding into_sorted_rows_def versions_def
  proof (rule sort_by_logs)
    show "sorted (map vkey_of (collect_leaves (flush_all (root t))))" using F sorted_leaves by blast
    show "klog (collect_leaves (flush_all (root t))) x = klog (ents (root t)) x" for x using F by simp
  qed
qed

end
