(* ===== verification/Execution.thy ===== *)
theory Execution
  imports Errors
begin

text \<open>
  Cooperative cancellation and deadlines (\<open>crates/mongreldb-core/src/execution.rs\<close>). The controls of
  one hierarchy share their cancellation states through \<open>Arc\<close>s and one lock that orders the
  cancellation events: a \<open>hierarchy\<close> is that shared store, a control names the states it sees by their
  index. \<open>Instant::now()\<close> is an argument. The asynchronous \<open>cancelled\<close> and the wake-up of its
  waiters have no counterpart.
\<close>

section \<open>Cancellation reasons\<close>

datatype CancellationReason =
    ReasonNone
  | ClientRequest
  | Deadline
  | ClientDisconnected
  | SessionClosed
  | ServerShutdown

fun reason_as_str :: "CancellationReason \<Rightarrow> string" where
  "reason_as_str ReasonNone = ''none''"
| "reason_as_str ClientRequest = ''client_request''"
| "reason_as_str Deadline = ''deadline''"
| "reason_as_str ClientDisconnected = ''client_disconnected''"
| "reason_as_str SessionClosed = ''session_closed''"
| "reason_as_str ServerShutdown = ''server_shutdown''"

definition from_protocol_str :: "string \<Rightarrow> CancellationReason option" where
  "from_protocol_str v =
     (if v = ''none'' then Some ReasonNone
      else if v = ''client_request'' then Some ClientRequest
      else if v = ''deadline'' then Some Deadline
      else if v = ''client_disconnected'' then Some ClientDisconnected
      else if v = ''session_closed'' then Some SessionClosed
      else if v = ''server_shutdown'' then Some ServerShutdown
      else None)"

fun reason_to_u8 :: "CancellationReason \<Rightarrow> u8" where
  "reason_to_u8 ReasonNone = 0"
| "reason_to_u8 ClientRequest = 1"
| "reason_to_u8 Deadline = 2"
| "reason_to_u8 ClientDisconnected = 3"
| "reason_to_u8 SessionClosed = 4"
| "reason_to_u8 ServerShutdown = 5"

definition reason_from_u8 :: "u8 \<Rightarrow> CancellationReason" where
  "reason_from_u8 v =
     (if v = 1 then ClientRequest
      else if v = 2 then Deadline
      else if v = 3 then ClientDisconnected
      else if v = 4 then SessionClosed
      else if v = 5 then ServerShutdown
      else ReasonNone)"

section \<open>Controls\<close>

record cancellation_state =
  cs_sequence :: u64
  cs_reason :: u8

record hierarchy =
  hi_cells :: "cancellation_state list"
  hi_next_sequence :: u64

type_synonym instant = nat

record execution_control =
  ctl_states :: "nat list"
  ctl_own :: nat
  ctl_deadline :: "instant option"

definition fresh_cell :: cancellation_state where
  "fresh_cell = \<lparr>cs_sequence = 0, cs_reason = reason_to_u8 ReasonNone\<rparr>"

definition control_new :: "instant option \<Rightarrow> hierarchy \<times> execution_control" where
  "control_new dl =
     (\<lparr>hi_cells = [fresh_cell], hi_next_sequence = 0\<rparr>,
      \<lparr>ctl_states = [0], ctl_own = 0, ctl_deadline = dl\<rparr>)"

text \<open>\<open>now.checked_add(timeout).unwrap_or(now)\<close>: \<open>limit\<close> is the last instant the platform can
  represent, past which the addition fails and the deadline is immediate.\<close>

definition deadline_after :: "instant \<Rightarrow> instant \<Rightarrow> nat \<Rightarrow> instant" where
  "deadline_after limit now timeout = (if now + timeout \<le> limit then now + timeout else now)"

definition with_timeout :: "instant \<Rightarrow> instant \<Rightarrow> nat \<Rightarrow> hierarchy \<times> execution_control" where
  "with_timeout limit now timeout = control_new (Some (deadline_after limit now timeout))"

definition child_with_deadline ::
    "hierarchy \<Rightarrow> execution_control \<Rightarrow> instant option \<Rightarrow> hierarchy \<times> execution_control" where
  "child_with_deadline h c dl =
     (let dl' = (case (ctl_deadline c, dl) of
                   (Some parent, Some child) \<Rightarrow> Some (min parent child)
                 | (Some parent, None) \<Rightarrow> Some parent
                 | (None, child) \<Rightarrow> child);
          own = length (hi_cells h)
      in (h\<lparr>hi_cells := hi_cells h @ [fresh_cell]\<rparr>,
          \<lparr>ctl_states = ctl_states c @ [own], ctl_own = own, ctl_deadline = dl'\<rparr>))"

definition child_with_timeout ::
    "hierarchy \<Rightarrow> execution_control \<Rightarrow> instant \<Rightarrow> instant \<Rightarrow> nat \<Rightarrow> hierarchy \<times> execution_control" where
  "child_with_timeout h c limit now timeout =
     child_with_deadline h c (Some (deadline_after limit now timeout))"

definition cancel :: "hierarchy \<Rightarrow> execution_control \<Rightarrow> CancellationReason \<Rightarrow> hierarchy" where
  "cancel h c r =
     (if r = ReasonNone then h
      else if cs_reason (hi_cells h ! ctl_own c) = reason_to_u8 ReasonNone then
        h\<lparr>hi_cells := (hi_cells h)[ctl_own c :=
              \<lparr>cs_sequence = hi_next_sequence h, cs_reason = reason_to_u8 r\<rparr>],
          hi_next_sequence := sat_inc (hi_next_sequence h)\<rparr>
      else h)"

text \<open>\<open>min_by_key\<close> keeps the first of equal minima.\<close>

fun min_event :: "(u64 \<times> CancellationReason) list \<Rightarrow> (u64 \<times> CancellationReason) option" where
  "min_event [] = None"
| "min_event (e # es) =
     (case min_event es of None \<Rightarrow> Some e | Some f \<Rightarrow> if fst e \<le> fst f then Some e else Some f)"

definition visible_events :: "hierarchy \<Rightarrow> execution_control \<Rightarrow> (u64 \<times> CancellationReason) list" where
  "visible_events h c =
     List.map_filter (\<lambda>i. let st = hi_cells h ! i; r = reason_from_u8 (cs_reason st)
                in if r \<noteq> ReasonNone then Some (cs_sequence st, r) else None) (ctl_states c)"

definition reason :: "hierarchy \<Rightarrow> execution_control \<Rightarrow> CancellationReason" where
  "reason h c = (case min_event (visible_events h c) of None \<Rightarrow> ReasonNone | Some (_, r) \<Rightarrow> r)"

definition expire :: "hierarchy \<Rightarrow> execution_control \<Rightarrow> instant \<Rightarrow> hierarchy" where
  "expire h c now =
     (case ctl_deadline c of
        Some dl \<Rightarrow> if dl \<le> now then cancel h c Deadline else h
      | None \<Rightarrow> h)"

definition checkpoint :: "hierarchy \<Rightarrow> execution_control \<Rightarrow> instant \<Rightarrow> (MongrelError + unit) \<times> hierarchy" where
  "checkpoint h c now =
     (let h' = expire h c now
      in (case reason h' c of
            ReasonNone \<Rightarrow> Inr ()
          | Deadline \<Rightarrow> Inl DeadlineExceeded
          | _ \<Rightarrow> Inl Cancelled, h'))"

definition remaining_duration :: "execution_control \<Rightarrow> instant \<Rightarrow> nat option" where
  "remaining_duration c now = map_option (\<lambda>dl. dl - now) (ctl_deadline c)"

definition is_cancelled :: "hierarchy \<Rightarrow> execution_control \<Rightarrow> instant \<Rightarrow> bool \<times> hierarchy" where
  "is_cancelled h c now = (let h' = expire h c now in (reason h' c \<noteq> ReasonNone, h'))"

section \<open>Well-formed hierarchies\<close>

text \<open>
  Every control refers to states of the store, its own among them. The sequence numbers of the
  events so far are distinct and below the next one, as long as the counter has not saturated.
\<close>

definition control_ok :: "hierarchy \<Rightarrow> execution_control \<Rightarrow> bool" where
  "control_ok h c \<longleftrightarrow>
     ctl_own c \<in> set (ctl_states c) \<and> (\<forall>i\<in>set (ctl_states c). i < length (hi_cells h))"

definition event_at :: "hierarchy \<Rightarrow> nat \<Rightarrow> (u64 \<times> CancellationReason) option" where
  "event_at h i =
     (let st = hi_cells h ! i; r = reason_from_u8 (cs_reason st)
      in if r \<noteq> ReasonNone then Some (cs_sequence st, r) else None)"

definition hierarchy_ok :: "hierarchy \<Rightarrow> bool" where
  "hierarchy_ok h \<longleftrightarrow>
     (\<forall>i<length (hi_cells h). cs_reason (hi_cells h ! i) = 0 \<longleftrightarrow> event_at h i = None) \<and>
     (hi_next_sequence h \<noteq> max_u64 \<longrightarrow>
        (\<forall>i<length (hi_cells h). \<forall>s r. event_at h i = Some (s, r) \<longrightarrow> s < hi_next_sequence h))"

text \<open>What the holders of a hierarchy's controls may do.\<close>

inductive control_step :: "hierarchy \<Rightarrow> hierarchy \<Rightarrow> bool" where
  step_child: "control_ok h c \<Longrightarrow> control_step h (fst (child_with_deadline h c dl))"
| step_cancel: "control_ok h c \<Longrightarrow> control_step h (cancel h c r)"
| step_checkpoint: "control_ok h c \<Longrightarrow> control_step h (snd (checkpoint h c now))"
| step_poll: "control_ok h c \<Longrightarrow> control_step h (snd (is_cancelled h c now))"

lemma reason_from_to [simp]: "reason_from_u8 (reason_to_u8 r) = r"
  by (cases r) (simp_all add: reason_from_u8_def)

lemma reason_from_zero [simp]: "reason_from_u8 0 = ReasonNone"
  by (simp add: reason_from_u8_def)

lemma reason_to_u8_zero [simp]: "reason_to_u8 r = 0 \<longleftrightarrow> r = ReasonNone"
  by (cases r) simp_all

lemma visible_events_map: "visible_events h c = List.map_filter (event_at h) (ctl_states c)"
  by (simp add: visible_events_def event_at_def [abs_def])

lemma map_filter_cong:
  "(\<And>x. x \<in> set xs \<Longrightarrow> f x = g x) \<Longrightarrow> List.map_filter f xs = List.map_filter g xs"
  by (induction xs) (auto simp: List.map_filter_simps split: option.split)

lemma set_map_filter: "set (List.map_filter f xs) = {y. \<exists>x\<in>set xs. f x = Some y}"
  by (induction xs) (auto simp: List.map_filter_simps split: option.splits)

text \<open>One step either adds a child's state or records one event in an empty state.\<close>

definition cell_change :: "hierarchy \<Rightarrow> hierarchy \<Rightarrow> bool" where
  "cell_change h h' \<longleftrightarrow>
     h' = h \<or>
     h' = h\<lparr>hi_cells := hi_cells h @ [fresh_cell]\<rparr> \<or>
     (\<exists>i r. i < length (hi_cells h) \<and> cs_reason (hi_cells h ! i) = 0 \<and> r \<noteq> ReasonNone \<and>
        h' = h\<lparr>hi_cells := (hi_cells h)[i := \<lparr>cs_sequence = hi_next_sequence h, cs_reason = reason_to_u8 r\<rparr>],
               hi_next_sequence := sat_inc (hi_next_sequence h)\<rparr>)"

lemma cancel_change: "control_ok h c \<Longrightarrow> cell_change h (cancel h c r)"
  by (auto simp: cancel_def cell_change_def control_ok_def)

lemma expire_change: "control_ok h c \<Longrightarrow> cell_change h (expire h c now)"
  using cancel_change by (auto simp: expire_def cell_change_def split: option.splits)

lemma step_change: "control_step h h' \<Longrightarrow> cell_change h h'"
  by (induction rule: control_step.induct)
    (simp_all add: cancel_change expire_change checkpoint_def is_cancelled_def Let_def
      child_with_deadline_def cell_change_def [of _ "_\<lparr>hi_cells := _ @ _\<rparr>"])

lemma event_at_append [simp]:
  "i < length (hi_cells h) \<Longrightarrow> event_at (h\<lparr>hi_cells := hi_cells h @ cs\<rparr>) i = event_at h i"
  by (simp add: event_at_def nth_append)

lemma event_at_record:
  assumes "i < length (hi_cells h)" and "r \<noteq> ReasonNone"
  shows "event_at (h\<lparr>hi_cells := (hi_cells h)[i := \<lparr>cs_sequence = s, cs_reason = reason_to_u8 r\<rparr>],
      hi_next_sequence := n\<rparr>) j = (if j = i then Some (s, r) else event_at h j)"
  using assms by (simp add: event_at_def nth_list_update)

lemma cell_change_ok:
  assumes "cell_change h h'" and "hierarchy_ok h"
  shows "hierarchy_ok h'"
proof -
  consider "h' = h" | "h' = h\<lparr>hi_cells := hi_cells h @ [fresh_cell]\<rparr>"
    | i r where "i < length (hi_cells h)" "cs_reason (hi_cells h ! i) = 0" "r \<noteq> ReasonNone"
        "h' = h\<lparr>hi_cells := (hi_cells h)[i := \<lparr>cs_sequence = hi_next_sequence h, cs_reason = reason_to_u8 r\<rparr>],
           hi_next_sequence := sat_inc (hi_next_sequence h)\<rparr>"
    using assms(1) unfolding cell_change_def by blast
  then show ?thesis
  proof cases
    case 1
    with assms(2) show ?thesis by simp
  next
    case 2
    have "event_at h' (length (hi_cells h)) = None"
      by (simp add: 2 event_at_def fresh_cell_def)
    with 2 assms(2) show ?thesis
      by (auto simp: hierarchy_ok_def less_Suc_eq nth_append fresh_cell_def)
  next
    case 3
    have e: "event_at h' j = (if j = i then Some (hi_next_sequence h, r) else event_at h j)" for j
      unfolding 3(4) by (rule event_at_record [OF 3(1,3)])
    have cells: "cs_reason (hi_cells h' ! j) = (if j = i then reason_to_u8 r else cs_reason (hi_cells h ! j))"
      if "j < length (hi_cells h)" for j
      using that 3(1) by (simp add: 3(4) nth_list_update)
    have n: "hi_next_sequence h' = sat_inc (hi_next_sequence h)"
        "length (hi_cells h') = length (hi_cells h)" by (simp_all add: 3(4))
    have valid: "cs_reason (hi_cells h' ! j) = 0 \<longleftrightarrow> event_at h' j = None"
      if "j < length (hi_cells h)" for j
      using that assms(2) 3(3) by (simp add: cells e hierarchy_ok_def)
    moreover have "s < hi_next_sequence h'"
      if "hi_next_sequence h' \<noteq> max_u64" "j < length (hi_cells h)" "event_at h' j = Some (s, q)" for j s q
    proof -
      have nm: "hi_next_sequence h \<noteq> max_u64" using that(1) by (auto simp: n)
      have lt: "hi_next_sequence h < hi_next_sequence h'" using nm by (simp add: n)
      show ?thesis
      proof (cases "j = i")
        case True
        with that(3) lt show ?thesis by (simp add: e)
      next
        case False
        with that(2,3) nm assms(2) have "s < hi_next_sequence h" by (auto simp: e hierarchy_ok_def)
        then show ?thesis using lt by (rule less_trans)
      qed
    qed
    ultimately show ?thesis unfolding hierarchy_ok_def n(2) by blast
  qed
qed

definition hierarchy_init :: "hierarchy \<Rightarrow> bool" where
  "hierarchy_init h \<longleftrightarrow> (\<exists>dl. h = fst (control_new dl))"

lemma hierarchy_init_ok: "hierarchy_init h \<Longrightarrow> hierarchy_ok h"
  by (auto simp: hierarchy_init_def control_new_def hierarchy_ok_def event_at_def fresh_cell_def)

interpretation controls: guarded_system hierarchy_init control_step hierarchy_ok
  by unfold_locales (auto intro: hierarchy_init_ok cell_change_ok step_change)

section \<open>The first event wins\<close>

lemma min_event_mem: "min_event es = Some e \<Longrightarrow> e \<in> set es"
  by (induction es arbitrary: e) (auto split: option.splits if_splits)

lemma min_event_None [simp]: "min_event es = None \<longleftrightarrow> es = []"
  by (induction es) (auto split: option.splits)

lemma reason_None_iff: "reason h c = ReasonNone \<longleftrightarrow> (\<forall>i\<in>set (ctl_states c). event_at h i = None)"
proof (cases "min_event (visible_events h c)")
  case None
  then have "{e. \<exists>i\<in>set (ctl_states c). event_at h i = Some e} = {}"
    unfolding set_map_filter [symmetric] visible_events_map [symmetric] by simp
  then have "event_at h i = None" if "i \<in> set (ctl_states c)" for i
    using that by (cases "event_at h i") auto
  with None show ?thesis by (simp add: reason_def)
next
  case (Some e)
  from min_event_mem [OF Some] obtain i where "i \<in> set (ctl_states c)" "event_at h i = Some e"
    by (auto simp: visible_events_map set_map_filter)
  moreover from this have "snd e \<noteq> ReasonNone" by (auto simp: event_at_def Let_def split: if_splits)
  ultimately show ?thesis using Some by (cases e) (auto simp: reason_def)
qed

text \<open>
  \<open>reason\<close> takes no lock: it loads the states of the control one after the other, and cancellations may
  happen between two loads. A scan reads the i-th state in the i-th of the hierarchies it passes through;
  the sequence number of an event is stored before its reason, so a loaded event is complete.
  \<open>reason h c\<close> is the scan that nothing disturbs.
\<close>

definition reason_scan :: "hierarchy list \<Rightarrow> execution_control \<Rightarrow> CancellationReason" where
  "reason_scan hs c =
     (case min_event (List.map_filter (\<lambda>(h, i). event_at h i) (zip hs (ctl_states c))) of
        None \<Rightarrow> ReasonNone | Some (_, r) \<Rightarrow> r)"

fun passes_through :: "hierarchy \<Rightarrow> hierarchy list \<Rightarrow> bool" where
  "passes_through h [] \<longleftrightarrow> True"
| "passes_through h (h' # hs) \<longleftrightarrow> control_step\<^sup>*\<^sup>* h h' \<and> passes_through h' hs"

lemma undisturbed_scan: "reason_scan (replicate (length (ctl_states c)) h) c = reason h c"
proof -
  have "List.map_filter (\<lambda>(h, i). event_at h i) (zip (replicate (length xs) h) xs) = List.map_filter (event_at h) xs" for xs
    by (induction xs) (simp_all add: List.map_filter_simps split: option.splits)
  then show ?thesis by (simp add: reason_scan_def reason_def visible_events_map)
qed

text \<open>Later events have greater numbers, and an event stays.\<close>

definition event_grows :: "u64 \<Rightarrow> (u64 \<times> CancellationReason) option \<Rightarrow> (u64 \<times> CancellationReason) option \<Rightarrow> bool" where
  "event_grows n e e' \<longleftrightarrow> e' = e \<or> e = None \<and> (\<exists>s r. e' = Some (s, r) \<and> n \<le> s)"

lemma event_grows_trans: "event_grows n a b \<Longrightarrow> event_grows m b c \<Longrightarrow> n \<le> m \<Longrightarrow> event_grows n a c"
  by (auto simp: event_grows_def)

lemma cell_change_event:
  assumes "cell_change h h'" and "hierarchy_ok h" and "i < length (hi_cells h)"
  shows "event_grows (hi_next_sequence h) (event_at h i) (event_at h' i)" and "hi_next_sequence h \<le> hi_next_sequence h'"
    and "i < length (hi_cells h')"
proof -
  have "event_grows (hi_next_sequence h) (event_at h i) (event_at h' i) \<and> hi_next_sequence h \<le> hi_next_sequence h' \<and> i < length (hi_cells h')"
    using assms(1) unfolding cell_change_def
  proof (elim disjE exE conjE)
    fix j r
    assume j: "j < length (hi_cells h)" "cs_reason (hi_cells h ! j) = 0" "r \<noteq> ReasonNone"
      and h': "h' = h\<lparr>hi_cells := (hi_cells h)[j := \<lparr>cs_sequence = hi_next_sequence h, cs_reason = reason_to_u8 r\<rparr>],
        hi_next_sequence := sat_inc (hi_next_sequence h)\<rparr>"
    have "event_at h' i = (if i = j then Some (hi_next_sequence h, r) else event_at h i)"
      unfolding h' by (rule event_at_record [OF j(1,3)])
    moreover have "event_at h j = None" using j(1,2) assms(2) by (auto simp: hierarchy_ok_def)
    ultimately show ?thesis using assms(3) by (auto simp: event_grows_def h')
  qed (use assms(3) in \<open>simp_all add: event_grows_def\<close>)
  then show "event_grows (hi_next_sequence h) (event_at h i) (event_at h' i)" "hi_next_sequence h \<le> hi_next_sequence h'"
    "i < length (hi_cells h')" by simp_all
qed

lemma run_event:
  assumes "control_step\<^sup>*\<^sup>* h h'" and "hierarchy_ok h" and "i < length (hi_cells h)"
  shows "hierarchy_ok h' \<and> i < length (hi_cells h') \<and> hi_next_sequence h \<le> hi_next_sequence h' \<and>
    event_grows (hi_next_sequence h) (event_at h i) (event_at h' i)"
  using assms(1)
proof (induction rule: rtranclp_induct)
  case base
  then show ?case using assms(2,3) by (simp add: event_grows_def)
next
  case (step h1 h2)
  note ch = step_change [OF step.hyps(2)]
  have "hierarchy_ok h2" by (rule cell_change_ok [OF ch]) (use step.IH in blast)
  moreover have "event_grows (hi_next_sequence h) (event_at h i) (event_at h2 i)"
    using step.IH cell_change_event(1) [OF ch, of i] by (blast intro: event_grows_trans)
  ultimately show ?case using step.IH cell_change_event(2,3) [OF ch, of i] by (blast intro: order_trans)
qed

lemma scan_events:
  assumes "passes_through h hs" and "hierarchy_ok h" and "\<forall>i\<in>set is. i < length (hi_cells h)" and "length hs = length is"
  shows "list_all2 (\<lambda>i e. event_grows (hi_next_sequence h) (event_at h i) e) is (map2 event_at hs is)"
  using assms
proof (induction h hs arbitrary: "is" rule: passes_through.induct)
  case (2 h h' hs)
  then obtain i js where is': "is = i # js" by (cases "is") auto
  have run: "control_step\<^sup>*\<^sup>* h h'" using "2.prems"(1) by simp
  note E = run_event [OF run "2.prems"(2)]
  have js: "hierarchy_ok h'" "\<forall>j\<in>set js. j < length (hi_cells h')" using E "2.prems"(3) is' by auto
  have le: "hi_next_sequence h \<le> hi_next_sequence h'" using E [of i] "2.prems"(3) is' by simp
  have "list_all2 (\<lambda>j e. event_grows (hi_next_sequence h') (event_at h' j) e) js (map2 event_at hs js)"
    using "2.IH" [OF _ js] "2.prems"(1,4) is' by simp
  then have "list_all2 (\<lambda>j e. event_grows (hi_next_sequence h) (event_at h j) e) js (map2 event_at hs js)"
  proof (rule list.rel_mono_strong)
    fix j e assume "j \<in> set js" "event_grows (hi_next_sequence h') (event_at h' j) e"
    then show "event_grows (hi_next_sequence h) (event_at h j) e"
      using E [of j] "2.prems"(3) is' le by (auto intro: event_grows_trans)
  qed
  then show ?case using E [of i] "2.prems"(3) is' by simp
qed simp

lemma min_event_scan:
  assumes "list_all2 (\<lambda>i e. event_grows n (f i) e) is es" and "\<And>j s q. j \<in> set is \<Longrightarrow> f j = Some (s, q) \<Longrightarrow> s < n"
  shows "case min_event (List.map_filter f is) of
      Some e \<Rightarrow> min_event (List.map_filter id es) = Some e
    | None \<Rightarrow> (\<forall>e. min_event (List.map_filter id es) = Some e \<longrightarrow> n \<le> fst e)"
  using assms
proof (induction rule: list_all2_induct)
  case (Cons i "is" e es)
  have IH: "case min_event (List.map_filter f is) of
      Some e \<Rightarrow> min_event (List.map_filter id es) = Some e
    | None \<Rightarrow> (\<forall>e. min_event (List.map_filter id es) = Some e \<longrightarrow> n \<le> fst e)"
    by (rule Cons.IH) (rule Cons.prems, simp_all)
  have below: "fst m < n" if "min_event (List.map_filter f is) = Some m" for m
  proof -
    from min_event_mem [OF that] obtain k where "k \<in> set is" "f k = Some (fst m, snd m)" unfolding set_map_filter by auto
    then show ?thesis by (intro Cons.prems [of k "fst m" "snd m"]) simp_all
  qed
  show ?case
  proof (cases "f i")
    case (Some v)
    then have "e = Some v" "fst v < n" using Cons.hyps(1) Cons.prems [of i "fst v" "snd v"] by (auto simp: event_grows_def)
    with Some IH show ?thesis
      by (cases "min_event (List.map_filter f is)") (auto simp: List.map_filter_simps split: option.splits)
  next
    case None
    with Cons.hyps(1) consider "e = None" | s r where "e = Some (s, r)" "n \<le> s" by (auto simp: event_grows_def)
    then show ?thesis
    proof cases
      case 1
      with None have fg: "List.map_filter f (i # is) = List.map_filter f is" "List.map_filter id (e # es) = List.map_filter id es"
        by (simp_all add: List.map_filter_simps)
      show ?thesis unfolding fg by (rule IH)
    next
      case 2
      show ?thesis
      proof (cases "min_event (List.map_filter f is)")
        case none: None
        with IH 2 None show ?thesis by (auto simp: List.map_filter_simps split: option.splits)
      next
        case some: (Some m)
        have "\<not> s \<le> fst m" using below [OF some] 2(2) by simp
        with IH 2 None some show ?thesis by (simp add: List.map_filter_simps)
      qed
    qed
  qed
qed (simp add: List.map_filter_simps)

lemma map_filter_zip: "List.map_filter (\<lambda>(h, i). f h i) (zip hs is) = List.map_filter id (map2 f hs is)"
  by (induction hs "is" rule: list_induct2') (simp_all add: List.map_filter_simps split: option.splits)

text \<open>C31: A reason that can be read is permanent. Take a reachable state of a hierarchy in which a control
  is cancelled, and less than \<open>2\<^sup>6\<^sup>4 - 1\<close> cancellation events recorded. Every scan for its reason
  that begins then or later returns the reason it has in that state, whatever cancellations, expiring
  deadlines and new children happen before the scan and between its loads.\<close>

theorem readable_reason_is_permanent:
  assumes "reach hierarchy_init control_step h" and "control_ok h c" and "reason h c \<noteq> ReasonNone"
    and "hi_next_sequence h \<noteq> max_u64" and "passes_through h hs" and "length hs = length (ctl_states c)"
  shows "reason_scan hs c = reason h c"
proof -
  have ok: "hierarchy_ok h" by (rule controls.reach_inv [OF assms(1)])
  have idx: "\<forall>i\<in>set (ctl_states c). i < length (hi_cells h)" using assms(2) by (simp add: control_ok_def)
  have "s < hi_next_sequence h" if "j \<in> set (ctl_states c)" "event_at h j = Some (s, q)" for j s q
    using that idx ok assms(4) by (auto simp: hierarchy_ok_def)
  from min_event_scan [OF scan_events [OF assms(5) ok idx assms(6)] this] obtain e where
    "min_event (visible_events h c) = Some e" "min_event (List.map_filter id (map2 event_at hs (ctl_states c))) = Some e"
    using assms(3) by (auto simp: reason_def visible_events_map split: option.splits)
  then show ?thesis by (simp add: reason_scan_def reason_def map_filter_zip)
qed

text \<open>A parent and its child, and the states in which first the one and then the other is cancelled.\<close>

definition family :: "hierarchy \<times> execution_control \<times> execution_control" where
  "family = (case control_new None of (h0, p) \<Rightarrow> case child_with_deadline h0 p None of (h1, k) \<Rightarrow> (h1, p, k))"

lemma family_eq:
  "family = (\<lparr>hi_cells = [fresh_cell, fresh_cell], hi_next_sequence = 0\<rparr>,
     \<lparr>ctl_states = [0], ctl_own = 0, ctl_deadline = None\<rparr>, \<lparr>ctl_states = [0, 1], ctl_own = 1, ctl_deadline = None\<rparr>)"
  by (simp add: family_def control_new_def child_with_deadline_def)

lemma family_reach: "reach hierarchy_init control_step (fst family)"
proof -
  let ?h0 = "fst (control_new None)" and ?p = "snd (control_new None)"
  have "control_ok ?h0 ?p" by (simp add: control_new_def control_ok_def)
  moreover have "fst family = fst (child_with_deadline ?h0 ?p None)" by (simp add: family_def split: prod.splits)
  moreover have "reach hierarchy_init control_step ?h0" by (rule reach_init) (auto simp: hierarchy_init_def)
  ultimately show ?thesis using reach_step step_child by metis
qed

lemma family_ok: "length (hi_cells h) = 2 \<Longrightarrow> control_ok h (fst (snd family)) \<and> control_ok h (snd (snd family))"
  by (simp add: family_eq control_ok_def)

lemma length_cancel [simp]: "length (hi_cells (cancel h c r)) = length (hi_cells h)"
  by (simp add: cancel_def)

lemmas family_simps = family_eq cancel_def reason_scan_def reason_def visible_events_map event_at_def List.map_filter_simps
  fresh_cell_def reason_from_u8_def sat_inc_def

text \<open>The child's client cancels it; during a later scan of the child its parent is shut down.\<close>

theorem readable_reason_is_permanent_witness:
  "case family of (h, p, k) \<Rightarrow>
     let h1 = cancel h k ClientRequest; h2 = cancel h1 p ServerShutdown
     in reason_scan [h1, h2] k = ClientRequest \<and> reason_scan [h2, h2] k = ClientRequest"
proof -
  let ?h = "fst family" and ?p = "fst (snd family)" and ?k = "snd (snd family)"
  let ?h1 = "cancel ?h ?k ClientRequest"
  let ?h2 = "cancel ?h1 ?p ServerShutdown"
  have len: "length (hi_cells ?h) = 2" by (simp add: family_eq)
  have steps: "control_step ?h ?h1" "control_step ?h1 ?h2" using len by (simp_all add: family_ok step_cancel)
  have r: "reach hierarchy_init control_step ?h1" using family_reach steps(1) by (rule reach_step)
  have k: "control_ok ?h1 ?k" using len by (simp add: family_ok)
  have one: "reason ?h1 ?k = ClientRequest" "hi_next_sequence ?h1 \<noteq> max_u64" by (simp_all add: family_simps)
  have "passes_through ?h1 [?h1, ?h2]" "passes_through ?h1 [?h2, ?h2]" using steps(2) by auto
  moreover have "length [?h1, ?h2] = length (ctl_states ?k)" by (simp add: family_eq)
  ultimately show ?thesis
    using readable_reason_is_permanent [OF r k, of "[?h1, ?h2]"] readable_reason_is_permanent [OF r k, of "[?h2, ?h2]"] one
    by (simp add: Let_def case_prod_unfold)
qed

text \<open>A scan that begins before the first event can return a later one: the parent's state is loaded, then
  the parent is shut down and the child cancelled by its client, and the child's state is loaded. Every
  later scan returns the shutdown.\<close>

lemma racing_scan_sees_later_reason:
  "case family of (h, p, k) \<Rightarrow>
     let h2 = cancel (cancel h p ServerShutdown) k ClientRequest
     in passes_through h [h, h2] \<and> reason_scan [h, h2] k = ClientRequest \<and> reason h2 k = ServerShutdown"
proof -
  let ?h = "fst family" and ?p = "fst (snd family)" and ?k = "snd (snd family)"
  let ?h1 = "cancel ?h ?p ServerShutdown"
  have "length (hi_cells ?h) = 2" by (simp add: family_eq)
  then have "control_step ?h ?h1" "control_step ?h1 (cancel ?h1 ?k ClientRequest)" by (simp_all add: family_ok step_cancel)
  then have "passes_through ?h [?h, cancel ?h1 ?k ClientRequest]" by auto
  moreover have "reason_scan [?h, cancel ?h1 ?k ClientRequest] ?k = ClientRequest"
    "reason (cancel ?h1 ?k ClientRequest) ?k = ServerShutdown" by (simp_all add: family_simps)
  ultimately show ?thesis by (simp add: Let_def case_prod_unfold)
qed

text \<open>Cancellation flows down and not up. A child starts with its parent's reason and a deadline
  no later than its parent's; whatever happens later, a cancelled parent means a cancelled child, and
  cancelling the child leaves the parent's reason as it was.\<close>

lemma child_inherits_and_isolates:
  assumes "control_ok h c" and "child_with_deadline h c dl = (h', k)"
  shows "reason h' k = reason h c \<and>
     (\<forall>d. ctl_deadline c = Some d \<longrightarrow> (\<exists>d'. ctl_deadline k = Some d' \<and> d' \<le> d)) \<and>
     (reason h'' c \<noteq> ReasonNone \<longrightarrow> reason h'' k \<noteq> ReasonNone) \<and>
     reason (cancel h'' k r) c = reason h'' c"
proof (intro conjI)
  have k: "ctl_states k = ctl_states c @ [length (hi_cells h)]" "ctl_own k = length (hi_cells h)"
    and h': "h' = h\<lparr>hi_cells := hi_cells h @ [fresh_cell]\<rparr>"
    using assms(2) by (auto simp: child_with_deadline_def Let_def)
  have "List.map_filter (event_at h') (ctl_states c) = List.map_filter (event_at h) (ctl_states c)"
    using assms(1) by (intro map_filter_cong) (simp add: h' control_ok_def)
  moreover have "event_at h' (length (hi_cells h)) = None"
    by (simp add: h' event_at_def fresh_cell_def)
  ultimately show "reason h' k = reason h c"
    by (simp add: reason_def visible_events_map k List.map_filter_simps List.map_filter_def)
  show "\<forall>d. ctl_deadline c = Some d \<longrightarrow> (\<exists>d'. ctl_deadline k = Some d' \<and> d' \<le> d)"
    using assms(2) by (auto simp: child_with_deadline_def Let_def split: option.splits)
  show "reason h'' c \<noteq> ReasonNone \<longrightarrow> reason h'' k \<noteq> ReasonNone"
    by (auto simp: reason_None_iff k)
  have "event_at (cancel h'' k r) i = event_at h'' i" if "i \<in> set (ctl_states c)" for i
  proof -
    have "i \<noteq> ctl_own k" using that assms(1) k(2) by (auto simp: control_ok_def)
    then show ?thesis by (simp add: cancel_def event_at_def nth_list_update)
  qed
  then have "visible_events (cancel h'' k r) c = visible_events h'' c"
    unfolding visible_events_map by (rule map_filter_cong)
  then show "reason (cancel h'' k r) c = reason h'' c" by (simp add: reason_def)
qed

text \<open>A checkpoint passes exactly when the control is not cancelled and its deadline, if it has
  one, has not been reached.\<close>

lemma checkpoint_passes_iff:
  assumes "reach hierarchy_init control_step h" and "control_ok h c"
  shows "fst (checkpoint h c now) = Inr () \<longleftrightarrow>
     reason h c = ReasonNone \<and> (\<forall>d. ctl_deadline c = Some d \<longrightarrow> now < d)"
proof -
  note ok = controls.reach_inv [OF assms(1)]
  have own: "ctl_own c < length (hi_cells h)" "ctl_own c \<in> set (ctl_states c)"
    using assms(2) by (auto simp: control_ok_def)
  have pass: "fst (checkpoint h c now) = Inr () \<longleftrightarrow> reason (expire h c now) c = ReasonNone"
    by (simp add: checkpoint_def Let_def split: CancellationReason.splits)
  have "reason (cancel h c Deadline) c \<noteq> ReasonNone"
  proof -
    let ?h = "cancel h c Deadline"
    have "event_at ?h (ctl_own c) \<noteq> None"
      using own(1) ok by (auto simp: cancel_def hierarchy_ok_def event_at_record [where r = Deadline, simplified]
          event_at_def reason_from_u8_def)
    then show ?thesis using own(2) by (auto simp: reason_None_iff)
  qed
  then show ?thesis
    unfolding pass by (auto simp: expire_def not_le split: option.splits)
qed

end
