(* ===== verification/Be_Tree_Stream.thy ===== *)
theory Be_Tree_Stream
  imports Be_Tree_Cursor
begin

text \<open>
  What the lazy cursor still has to deliver, as a list: the contents of a frame are the stable merges
  of the children with their buffer groups. Every step of the cursor takes the head off that list,
  and for the cursor of a whole tree the list is the stable sort of its versions.
\<close>

declare split_paired_All [simp del] split_paired_Ex [simp del]

section \<open>The remaining stream of a cursor\<close>

fun merge_rows :: "row list \<Rightarrow> row list \<Rightarrow> row list" where
  "merge_rows [] ys = ys"
| "merge_rows (x # xs) [] = x # xs"
| "merge_rows (x # xs) (y # ys) =
     (if vkey_of y < vkey_of x then y # merge_rows (x # xs) ys else x # merge_rows xs (y # ys))"

definition cursor_groups :: "vkey list \<Rightarrow> 'c list \<Rightarrow> Message list \<Rightarrow> buffered_item list list" where
  "cursor_groups ks cs b =
     map (sort_key (\<lambda>it. (bi_key it, bi_sequence it)))
       (assign_groups ks (buffered_items b) (map (\<lambda>_. []) cs))"

definition merged :: "row list list \<Rightarrow> buffered_item list list \<Rightarrow> row list" where
  "merged streams gs = concat (map2 merge_rows streams (map (map bi_row) gs))"

fun node_stream :: "node \<Rightarrow> row list" where
  "node_stream (Leaf rows) = rows"
| "node_stream (Internal ks cs b) = merged (map node_stream cs) (cursor_groups ks cs b)"

definition opt_list :: "'a option \<Rightarrow> 'a list" where
  "opt_list x = (case x of None \<Rightarrow> [] | Some y \<Rightarrow> [y])"

definition later :: "node list \<Rightarrow> buffered_item list list \<Rightarrow> nat \<Rightarrow> row list" where
  "later cs gs i = merged (map node_stream (drop i cs)) (drop i gs)"

fun remaining :: "cursor \<Rightarrow> row list" where
  "remaining (LeafCursor rows _) = rows"
| "remaining (InternalCursor cs i ex gs child buf pc pb st) =
     (if child = None \<and> \<not> ex then later cs gs i
      else merge_rows (opt_list pc @ (case child of None \<Rightarrow> [] | Some c \<Rightarrow> remaining c))
             (opt_list pb @ map bi_row buf) @ later cs gs (Suc i))"

fun wf_cursor :: "cursor \<Rightarrow> bool" where
  "wf_cursor (LeafCursor _ _) = True"
| "wf_cursor (InternalCursor cs i ex gs child buf pc pb st) =
     (length gs = length cs \<and> (ex \<longrightarrow> child = None) \<and>
      (child = None \<and> \<not> ex \<longrightarrow> pc = None \<and> pb = None \<and> buf = []) \<and>
      (case child of None \<Rightarrow> True | Some c \<Rightarrow> wf_cursor c))"

fun fits :: "nat \<Rightarrow> cursor \<Rightarrow> bool" where
  "fits d (LeafCursor _ _) = True"
| "fits (Suc d) (InternalCursor cs i ex gs child buf pc pb st) =
     ((\<forall>n\<in>set cs. height n \<le> d) \<and> (case child of None \<Rightarrow> True | Some c \<Rightarrow> fits d c))"
| "fits 0 (InternalCursor _ _ _ _ _ _ _ _ _) = False"

lemma length_assign_groups [simp]: "length (assign_groups ks its gs) = length gs"
  by (induction its arbitrary: gs) (simp_all add: Let_def)

lemma cursor_new_Internal:
  "\<exists>st. cursor_new (Internal ks cs b) = InternalCursor cs 0 False (cursor_groups ks cs b) None [] None None st"
  by (simp add: cursor_groups_def Let_def)

lemma remaining_new: "remaining (cursor_new n) = node_stream n"
proof (cases n)
  case (Internal ks cs b)
  obtain st where "cursor_new (Internal ks cs b) =
      InternalCursor cs 0 False (cursor_groups ks cs b) None [] None None st"
    using cursor_new_Internal by blast
  then show ?thesis unfolding Internal by (simp add: later_def del: cursor_new.simps)
qed simp

lemma wf_cursor_new [simp]: "wf_cursor (cursor_new n)"
  by (cases n) (simp_all add: Let_def)

lemma fits_new: "height n \<le> d \<Longrightarrow> fits d (cursor_new n)"
proof (cases n)
  case (Internal ks cs b)
  assume "height n \<le> d"
  moreover have "height c < height n" if "c \<in> set cs" for c
    using height_child [OF that] by (simp add: Internal)
  ultimately obtain d' where "d = Suc d'" "\<forall>c\<in>set cs. height c \<le> d'"
    by (cases d) (fastforce simp: Internal less_Suc_eq_le)+
  then show ?thesis by (simp add: Internal Let_def)
qed simp

lemma later_open:
  assumes "i < length cs" and "length gs = length cs"
  shows "later cs gs i = merge_rows (node_stream (cs ! i)) (map bi_row (gs ! i)) @ later cs gs (Suc i)"
  using assms by (simp add: later_def merged_def Cons_nth_drop_Suc [symmetric])

lemma later_end: "length cs \<le> i \<Longrightarrow> later cs gs i = []"
  by (simp add: later_def merged_def)

lemma later_taken: "later cs (gs[i := x]) (Suc i) = later cs gs (Suc i)"
  by (simp add: later_def)

lemma merge_rows_Nil2 [simp]: "merge_rows xs [] = xs"
  by (cases xs) simp_all

lemma opt_list_simps [simp]: "opt_list None = []" "opt_list (Some x) = [x]"
  by (simp_all add: opt_list_def)

section \<open>One step\<close>

definition yields ::
    "bool \<Rightarrow> nat \<Rightarrow> cursor \<Rightarrow> (MongrelError + row option) \<times> cursor \<times> 'h \<Rightarrow> bool" where
  "yields free d c out \<longleftrightarrow>
     (case fst out of
        Inl _ \<Rightarrow> \<not> free
      | Inr None \<Rightarrow> remaining c = []
      | Inr (Some r) \<Rightarrow>
          (let c' = fst (snd out) in remaining c = r # remaining c' \<and> wf_cursor c' \<and> fits d c'))"

lemma yields_cong: "yields free d c' out \<Longrightarrow> remaining c = remaining c' \<Longrightarrow> yields free d c out"
  by (simp add: yields_def split: sum.splits option.splits)

lemma checkpoint_free: "cursor_checkpoint None st h = (Inr (), st, h)"
  by (simp add: cursor_checkpoint_def)

lemma note_version_free: "\<exists>st'. note_version None st h = (Inr (), st', h)"
  by (simp add: note_version_def Let_def checkpoint_free)

lemma checkpoint_error: "cursor_checkpoint control st h = (Inl e, st', h') \<Longrightarrow> control \<noteq> None"
  by (cases control) (simp_all add: cursor_checkpoint_def)

lemma note_version_error: "note_version control st h = (Inl e, st', h') \<Longrightarrow> control \<noteq> None"
  using note_version_free [of st h] by (cases control) auto

lemma advance_frame_yields:
  assumes adv: "\<And>c h. wf_cursor c \<Longrightarrow> fits d c \<Longrightarrow> yields (control = None) d c (adv c h)"
    and kids: "\<forall>n\<in>set cs. height n \<le> d"
  shows "wf_cursor (InternalCursor cs i ex gs child buf pc pb st) \<Longrightarrow>
    fits (Suc d) (InternalCursor cs i ex gs child buf pc pb st) \<Longrightarrow>
    yields (control = None) (Suc d) (InternalCursor cs i ex gs child buf pc pb st)
      (advance_internal_frame adv control cs i ex gs child buf pc pb st h)"
proof (induction "frame_measure (length cs) i ex (child = None) (pc = None)"
    arbitrary: i ex gs child buf pc pb st h rule: less_induct)
  case less
  let ?c = "InternalCursor cs i ex gs child buf pc pb st"
  note unfold = advance_internal_frame.simps [of adv control cs i ex gs child buf pc pb st h]
  from less.prems have len: "length gs = length cs" by simp
  consider (entering) "child = None" "\<not> ex" | (pull) c where "child = Some c" "\<not> ex" "pc = None"
    | (emit) "pc \<noteq> None \<or> ex" "\<not> (child = None \<and> \<not> ex)" by (cases child) auto
  then show ?case
  proof cases
    case entering
    show ?thesis
    proof (cases "length cs \<le> i")
      case True
      then show ?thesis unfolding unfold using entering by (simp add: yields_def later_end)
    next
      case False
      obtain res st' h' where cp: "cursor_checkpoint control st h = (res, st', h')"
        by (cases "cursor_checkpoint control st h")
      show ?thesis
      proof (cases res)
        case (Inl e)
        with cp checkpoint_error [of control st h e st' h'] entering False show ?thesis
          unfolding unfold by (simp add: yields_def)
      next
        case (Inr u)
        let ?gs = "gs[i := []]" and ?ch = "Some (cursor_new (cs ! i))"
        let ?st = "refresh_peaks ?gs (gs ! i) ?ch st'"
        have prems: "pc = None" "pb = None" "buf = []" using less.prems(1) entering by simp_all
        have "yields (control = None) (Suc d) (InternalCursor cs i ex ?gs ?ch (gs ! i) pc pb ?st)
            (advance_internal_frame adv control cs i ex ?gs ?ch (gs ! i) pc pb ?st h')"
          by (rule less.hyps)
            (use entering False len prems kids in \<open>auto simp: frame_measure_def fits_new\<close>)
        moreover have "remaining ?c = remaining (InternalCursor cs i ex ?gs ?ch (gs ! i) pc pb ?st)"
          using entering False len prems by (simp add: remaining_new later_open later_taken)
        ultimately have out: "yields (control = None) (Suc d) ?c
            (advance_internal_frame adv control cs i ex ?gs ?ch (gs ! i) pc pb ?st h')"
          by (rule yields_cong)
        show ?thesis
          unfolding unfold using out entering False cp Inr by (simp add: Let_def)
      qed
    qed
  next
    case (pull c)
    obtain res c' h' where a: "adv c h = (res, c', h')" by (cases "adv c h")
    have wfc: "wf_cursor c" "fits d c" using less.prems pull by simp_all
    note A = adv [OF wfc, of h, unfolded a]
    show ?thesis
    proof (cases res)
      case (Inl e)
      with A a pull show ?thesis unfolding unfold by (simp add: yields_def)
    next
      case (Inr o')
      show ?thesis
      proof (cases o')
        case None
        let ?st = "refresh_peaks gs buf None (absorb_child st c')"
        have "yields (control = None) (Suc d) (InternalCursor cs i True gs None buf pc pb ?st)
            (advance_internal_frame adv control cs i True gs None buf pc pb ?st h')"
          by (rule less.hyps) (use pull len kids in \<open>auto simp: frame_measure_def\<close>)
        moreover have "remaining ?c = remaining (InternalCursor cs i True gs None buf pc pb ?st)"
          using A pull Inr None by (simp add: yields_def)
        ultimately have out: "yields (control = None) (Suc d) ?c
            (advance_internal_frame adv control cs i True gs None buf pc pb ?st h')"
          by (rule yields_cong)
        show ?thesis
          unfolding unfold using out pull a Inr None by (simp add: Let_def)
      next
        case (Some r)
        let ?st = "refresh_peaks gs buf (Some c') st"
        from A Inr Some have c': "remaining c = r # remaining c'" "wf_cursor c'" "fits d c'"
          by (simp_all add: yields_def Let_def)
        have "yields (control = None) (Suc d) (InternalCursor cs i ex gs (Some c') buf (Some r) pb ?st)
            (advance_internal_frame adv control cs i ex gs (Some c') buf (Some r) pb ?st h')"
          by (rule less.hyps) (use pull len kids c' in \<open>auto simp: frame_measure_def\<close>)
        moreover have "remaining ?c = remaining (InternalCursor cs i ex gs (Some c') buf (Some r) pb ?st)"
          using pull c' by simp
        ultimately have out: "yields (control = None) (Suc d) ?c
            (advance_internal_frame adv control cs i ex gs (Some c') buf (Some r) pb ?st h')"
          by (rule yields_cong)
        show ?thesis
          unfolding unfold using out pull a Inr Some by (simp add: Let_def)
      qed
    qed
  next
    case emit
    obtain pb' buf' where fill: "(case pb of Some _ \<Rightarrow> (pb, buf)
        | None \<Rightarrow> (case buf of [] \<Rightarrow> (None, []) | it # its \<Rightarrow> (Some (bi_row it), its))) = (pb', buf')"
      by (cases "(case pb of Some _ \<Rightarrow> (pb, buf)
        | None \<Rightarrow> (case buf of [] \<Rightarrow> (None, []) | it # its \<Rightarrow> (Some (bi_row it), its)))")
    then have buf: "opt_list pb @ map bi_row buf = opt_list pb' @ map bi_row buf'"
      and spent: "pb' = None \<Longrightarrow> buf' = []"
      by (auto split: option.splits list.splits)
    let ?left = "case child of None \<Rightarrow> [] | Some c \<Rightarrow> remaining c"
    have rem: "remaining ?c = merge_rows (opt_list pc @ ?left) (opt_list pb' @ map bi_row buf') @ later cs gs (Suc i)"
      using emit by (auto simp: buf)
    have drained: "child = None" if "pc = None" using emit that less.prems(1) by auto
    show ?thesis
    proof (cases "pc = None \<and> pb' = None")
      case True
      with emit have ex: "ex" by simp
      have "yields (control = None) (Suc d) (InternalCursor cs (i + 1) False gs child buf' pc pb' st)
          (advance_internal_frame adv control cs (i + 1) False gs child buf' pc pb' st h)"
        by (rule less.hyps)
          (use True ex len kids drained spent in \<open>auto simp: frame_measure_def\<close>)
      moreover have "remaining ?c = remaining (InternalCursor cs (i + 1) False gs child buf' pc pb' st)"
        unfolding rem using True drained spent by simp
      ultimately have out: "yields (control = None) (Suc d) ?c
            (advance_internal_frame adv control cs (i + 1) False gs child buf' pc pb' st h)"
        by (rule yields_cong)
      show ?thesis
        unfolding unfold using out emit True fill by (simp add: Let_def)
    next
      case False
      obtain res st' h' where nv: "note_version control st h = (res, st', h')"
        by (cases "note_version control st h")
      show ?thesis
      proof (cases res)
        case (Inl e)
        with nv note_version_error [of control st h e st' h'] emit False fill show ?thesis
          unfolding unfold by (auto simp: yields_def Let_def)
      next
        case (Inr u)
        have wf: "wf_cursor (InternalCursor cs i ex gs child buf' pc pb' st')"
            "fits (Suc d) (InternalCursor cs i ex gs child buf' pc pb' st')"
          using less.prems emit by auto
        show ?thesis
          unfolding unfold
          using emit False fill nv Inr rem wf drained spent
          by (cases pc; cases pb') (auto simp: yields_def Let_def)
      qed
    qed
  qed
qed

lemma cursor_advance_yields:
  "wf_cursor c \<Longrightarrow> fits d c \<Longrightarrow> yields (control = None) d c (cursor_advance control d c h)"
proof (induction d arbitrary: c h)
  case 0
  then obtain rows st where c: "c = LeafCursor rows st" by (cases c) auto
  show ?case
  proof (cases rows)
    case (Cons r rs)
    obtain res st' h' where nv: "note_version control st h = (res, st', h')" by (cases "note_version control st h")
    show ?thesis
      using note_version_error [of control st h _ st' h'] nv
      by (cases res) (simp_all add: c Cons yields_def Let_def)
  qed (simp add: c yields_def)
next
  case (Suc d)
  show ?case
  proof (cases c)
    case (LeafCursor rows st)
    show ?thesis
    proof (cases rows)
      case (Cons r rs)
      obtain res st' h' where nv: "note_version control st h = (res, st', h')" by (cases "note_version control st h")
      show ?thesis
        using note_version_error [of control st h _ st' h'] nv
        by (cases res) (simp_all add: LeafCursor Cons yields_def Let_def)
    qed (simp add: LeafCursor yields_def)
  next
    case (InternalCursor cs i ex gs child buf pc pb st)
    show ?thesis
      unfolding InternalCursor cursor_advance.simps
      by (rule advance_frame_yields) (use Suc InternalCursor in auto)
  qed
qed

text \<open>Collecting to the end returns the remaining stream, and enough items do reach the end.\<close>

lemma cursor_collect_remaining:
  "wf_cursor c \<Longrightarrow> fits d c \<Longrightarrow> length (remaining c) < n \<Longrightarrow> cursor_collect n d c = (remaining c, True)"
proof (induction n arbitrary: c)
  case (Suc n)
  obtain res c' h' where a: "cursor_advance None d c () = (res, c', h')" by (cases "cursor_advance None d c ()")
  note Y = cursor_advance_yields [OF Suc.prems(1,2), of None "()", unfolded a]
  show ?case
  proof (cases res)
    case (Inl e)
    with Y show ?thesis by (simp add: yields_def)
  next
    case (Inr o')
    show ?thesis
    proof (cases o')
      case None
      with Y Inr a show ?thesis by (simp add: yields_def)
    next
      case (Some r)
      with Y Inr have c': "remaining c = r # remaining c'" "wf_cursor c'" "fits d c'"
        by (simp_all add: yields_def Let_def)
      with Suc.IH [of c'] Suc.prems(3) have "cursor_collect n d c' = (remaining c', True)" by simp
      with a Inr Some c' show ?thesis by simp
    qed
  qed
qed simp

section \<open>The stream of a node is its sorted contents\<close>

lemma set_merge_rows: "set (merge_rows xs ys) = set xs \<union> set ys"
  by (induction xs ys rule: merge_rows.induct) auto

lemma sorted_merge_rows:
  "sorted (map vkey_of xs) \<Longrightarrow> sorted (map vkey_of ys) \<Longrightarrow> sorted (map vkey_of (merge_rows xs ys))"
proof (induction xs ys rule: merge_rows.induct)
  case (3 x xs y ys)
  then show ?case
    by (auto simp: set_merge_rows not_less intro: order_trans less_imp_le)
qed simp_all

lemma klog_merge_rows:
  assumes "sorted (map vkey_of xs)" and "sorted (map vkey_of ys)"
  shows "klog (merge_rows xs ys) k = klog xs k @ klog ys k"
  using assms
proof (induction xs ys rule: merge_rows.induct)
  case (3 x xs y ys)
  show ?case
  proof (cases "vkey_of y < vkey_of x")
    case True
    have "klog (x # xs) k = []" if "vkey_of y = k"
      by (rule klog_empty) (use 3 True that in auto)
    with 3 True show ?thesis by (auto simp: klog_def)
  next
    case False
    with 3 show ?thesis by (simp add: klog_def)
  qed
qed (simp_all add: klog_def)

text \<open>The groups in structural form: each separator cuts the buffered items in two.\<close>

fun cut_groups :: "vkey list \<Rightarrow> buffered_item list \<Rightarrow> buffered_item list list" where
  "cut_groups [] its = [its]"
| "cut_groups (k # ks) its =
     filter (\<lambda>it. \<not> k \<le> bi_key it) its # cut_groups ks (filter (\<lambda>it. k \<le> bi_key it) its)"

lemma length_cut_groups [simp]: "length (cut_groups ks its) = Suc (length ks)"
  by (induction ks arbitrary: its) simp_all

lemma cut_groups_snoc:
  "cut_groups ks (its @ [it]) =
     (let i = child_index ks (bi_key it) in (cut_groups ks its)[i := cut_groups ks its ! i @ [it]])"
  by (induction ks arbitrary: its) (simp_all add: child_index_def Let_def)

lemma assign_groups_cut:
  "assign_groups ks its (cut_groups ks done_its) = cut_groups ks (done_its @ its)"
proof (induction its arbitrary: done_its)
  case (Cons it its)
  have "assign_groups ks (it # its) (cut_groups ks done_its) = assign_groups ks its (cut_groups ks (done_its @ [it]))"
    by (simp add: cut_groups_snoc Let_def)
  also have "\<dots> = cut_groups ks (done_its @ it # its)" using Cons [of "done_its @ [it]"] by simp
  finally show ?case .
qed simp

lemma cut_groups_Nil: "cut_groups ks [] = replicate (Suc (length ks)) []"
  by (induction ks) simp_all

lemma cursor_groups_cut:
  assumes "length cs = Suc (length ks)"
  shows "cursor_groups ks cs b =
    map (sort_key (\<lambda>it. (bi_key it, bi_sequence it))) (cut_groups ks (buffered_items b))"
proof -
  have "map (\<lambda>_. []) cs = cut_groups ks []"
    unfolding cut_groups_Nil by (simp add: map_replicate_const assms)
  then show ?thesis
    unfolding cursor_groups_def using assign_groups_cut [of ks "buffered_items b" "[]"] by simp
qed

definition item_ok :: "buffered_item list \<Rightarrow> bool" where
  "item_ok its \<longleftrightarrow>
     sorted (map bi_sequence its) \<and> (\<forall>it\<in>set its. bi_key it = vkey_of (bi_row it))"

abbreviation sorted_group :: "buffered_item list \<Rightarrow> row list" where
  "sorted_group its \<equiv> map bi_row (sort_key (\<lambda>it. (bi_key it, bi_sequence it)) its)"

lemma message_as_cow_row [simp]: "message_as_cow m = msg_row m"
  by (cases m) (simp_all add: msg_row_def tombstone_row_def)

lemma buffered_items_ok: "item_ok (buffered_items b)" "map bi_row (buffered_items b) = map msg_row b"
proof -
  have "map bi_sequence (buffered_items b) = map fst (zip [0..<length b] b)"
    unfolding buffered_items_def map_map by (rule map_cong) auto
  also have "\<dots> = [0..<length b]" by simp
  finally have "sorted (map bi_sequence (buffered_items b))" by simp
  moreover have "\<forall>it\<in>set (buffered_items b). bi_key it = vkey_of (bi_row it)"
    by (auto simp: buffered_items_def msg_key_row)
  ultimately show "item_ok (buffered_items b)" by (simp add: item_ok_def)
  have "map bi_row (buffered_items b) = map msg_row (map snd (zip [0..<length b] b))"
    unfolding buffered_items_def map_map by (rule map_cong) auto
  then show "map bi_row (buffered_items b) = map msg_row b" by simp
qed

lemma item_ok_filter: "item_ok its \<Longrightarrow> item_ok (filter p its)"
  by (auto simp: item_ok_def intro: sorted_filter)

text \<open>Sorting by key and sequence is the stable sort by key.\<close>

lemma sorted_group_ok:
  assumes "item_ok its"
  shows "sorted (map vkey_of (sorted_group its))"
    and "klog (sorted_group its) k = klog (map bi_row its) k"
    and "set (sorted_group its) = bi_row ` set its"
proof -
  let ?f = "\<lambda>it. (bi_key it, bi_sequence it)"
  let ?s = "sort_key ?f its"
  have key: "bi_key it = vkey_of (bi_row it)" if "it \<in> set ?s" for it
    using that assms by (simp add: item_ok_def)
  show "set (sorted_group its) = bi_row ` set its" by simp
  have "sorted (map ?f ?s)" by (rule sorted_sort_key)
  then have "sorted (map bi_key ?s)"
    unfolding sorted_map by (rule sorted_wrt_mono_rel [rotated]) (auto simp: less_imp_le)
  moreover have "map bi_key ?s = map vkey_of (sorted_group its)" using key by simp
  ultimately show "sorted (map vkey_of (sorted_group its))" by simp
  have "filter (\<lambda>it. bi_key it = k) ?s = filter (\<lambda>it. bi_key it = k) its"
  proof -
    let ?p = "\<lambda>it. bi_key it = k"
    have "sort_key ?f (filter ?p its) = filter ?p its"
    proof (rule sort_key_id_if_sorted)
      have "sorted (map bi_sequence (filter ?p its))" using assms by (simp add: item_ok_def sorted_filter)
      then have "sorted_wrt (\<lambda>a b. bi_sequence a \<le> bi_sequence b) (filter ?p its)" by (simp add: sorted_map)
      then have "sorted_wrt (\<lambda>a b. ?f a \<le> ?f b) (filter ?p its)"
        by (rule sorted_wrt_mono_rel [rotated]) auto
      then show "sorted (map ?f (filter ?p its))" by (simp add: sorted_map)
    qed
    then show ?thesis by (simp add: filter_sort)
  qed
  then have "map bi_row (filter (\<lambda>it. bi_key it = k) ?s) = map bi_row (filter (\<lambda>it. bi_key it = k) its)" by simp
  moreover have kl: "map bi_row (filter (\<lambda>it. bi_key it = k) zs) = klog (map bi_row zs) k"
    if "\<forall>it\<in>set zs. bi_key it = vkey_of (bi_row it)" for zs
    unfolding klog_def filter_map comp_def by (intro arg_cong [of _ _ "map bi_row"] filter_cong) (use that in auto)
  ultimately show "klog (sorted_group its) k = klog (map bi_row its) k"
    using kl [of ?s] kl [of its] key assms by (simp add: item_ok_def)
qed

lemma sorted_append_at:
  fixes f :: "'a \<Rightarrow> 'k::linorder"
  assumes "sorted (map f xs)" and "sorted (map f ys)"
    and "\<And>x. x \<in> set xs \<Longrightarrow> f x \<le> k" and "\<And>y. y \<in> set ys \<Longrightarrow> k \<le> f y"
  shows "sorted (map f (xs @ ys))"
  using assms by (force simp: sorted_append intro: order_trans)

text \<open>Merging every child with its group, for children that deliver their sorted contents.\<close>

lemma merged_groups_ok:
  assumes "separated ks cs" and "item_ok its"
    and "\<And>c. c \<in> set cs \<Longrightarrow> sorted (map vkey_of (f c)) \<and> (\<forall>x. klog (f c) x = klog (ents c) x)"
  shows "sorted (map vkey_of (merged (map f cs) (map (sort_key (\<lambda>it. (bi_key it, bi_sequence it))) (cut_groups ks its)))) \<and>
    (\<forall>x. klog (merged (map f cs) (map (sort_key (\<lambda>it. (bi_key it, bi_sequence it))) (cut_groups ks its))) x =
      klog (forest cs) x @ klog (map bi_row its) x)"
  using assms
proof (induction ks cs arbitrary: its rule: separated.induct)
  case (1 c)
  note G = sorted_group_ok [OF "1.prems"(2)]
  note C = "1.prems"(3) [of c]
  show ?case using C G(1) by (simp add: merged_def sorted_merge_rows klog_merge_rows G(2))
next
  case (2 k ks c cs)
  then have sep: "separated ks cs"
    and lo: "\<forall>r\<in>set (ents c). vkey_of r \<le> k" and hi: "\<forall>r\<in>set (forest cs). k \<le> vkey_of r" by simp_all
  let ?lo = "filter (\<lambda>it. \<not> k \<le> bi_key it) its" and ?hi = "filter (\<lambda>it. k \<le> bi_key it) its"
  let ?srt = "sort_key (\<lambda>it. (bi_key it, bi_sequence it))"
  let ?rest = "merged (map f cs) (map ?srt (cut_groups ks ?hi))"
  have oks: "item_ok ?lo" "item_ok ?hi" using "2.prems"(2) by (simp_all add: item_ok_filter)
  have IH: "sorted (map vkey_of ?rest)" "\<And>x. klog ?rest x = klog (forest cs) x @ klog (map bi_row ?hi) x"
    using "2.IH" [OF sep oks(2) "2.prems"(3)] by simp_all
  note G = sorted_group_ok [OF oks(1)]
  have C: "sorted (map vkey_of (f c))" "\<And>x. klog (f c) x = klog (ents c) x" using "2.prems"(3) [of c] by simp_all
  have eq: "merged (map f (c # cs)) (map ?srt (cut_groups (k # ks) its)) = merge_rows (f c) (sorted_group ?lo) @ ?rest"
    by (simp add: merged_def)
  have fc: "set (f c) = set (ents c)" by (rule klog_set) (rule C(2))
  have low: "vkey_of r \<le> k" if "r \<in> set (merge_rows (f c) (sorted_group ?lo))" for r
    using that lo fc G(3) "2.prems"(2) by (auto simp: set_merge_rows item_ok_def)
  have keys: "\<forall>it\<in>set its. bi_key it = vkey_of (bi_row it)" using "2.prems"(2) by (simp add: item_ok_def)
  have "set ?rest = set (forest cs @ map bi_row ?hi)" by (rule klog_set) (simp add: IH(2) klog_append)
  then have high: "k \<le> vkey_of r" if "r \<in> set ?rest" for r using that hi keys by auto
  have "sorted (map vkey_of (merge_rows (f c) (sorted_group ?lo) @ ?rest))"
    by (rule sorted_append_at [OF sorted_merge_rows [OF C(1) G(1)] IH(1) low high])
  moreover have "klog (merge_rows (f c) (sorted_group ?lo) @ ?rest) x =
      klog (forest (c # cs)) x @ klog (map bi_row its) x" for x
  proof -
    have parts: "klog (map bi_row its) x = (if k \<le> x then klog (map bi_row ?hi) x else klog (map bi_row ?lo) x)"
      using keys by (auto simp: klog_def filter_map comp_def intro!: arg_cong [of _ _ "map bi_row"] filter_cong)
    have none: "klog (map bi_row ?lo) x = []" if "k \<le> x"
      by (rule klog_empty) (use keys that in auto)
    have none': "klog (map bi_row ?hi) x = []" "klog (forest cs) x = []" if "\<not> k \<le> x"
      using keys hi that by (auto intro!: klog_empty)
    show ?thesis
      unfolding klog_append klog_merge_rows [OF C(1) G(1)] C(2) G(2) IH(2)
      using parts none none' by (auto simp: klog_append)
  qed
  ultimately show ?case unfolding eq by blast
qed auto

lemma node_stream_ok:
  "ordered n \<Longrightarrow> sorted (map vkey_of (node_stream n)) \<and> (\<forall>x. klog (node_stream n) x = klog (ents n) x)"
proof (induction n)
  case (Leaf rows)
  then show ?case by simp
next
  case (Internal ks cs b)
  then have sep: "separated ks cs" by simp
  note M = merged_groups_ok [OF sep buffered_items_ok(1) [of b], of node_stream]
  have "sorted (map vkey_of (node_stream c)) \<and> (\<forall>x. klog (node_stream c) x = klog (ents c) x)"
    if "c \<in> set cs" for c using Internal that by auto
  note M = M [OF this]
  have g: "cursor_groups ks cs b = map (sort_key (\<lambda>it. (bi_key it, bi_sequence it))) (cut_groups ks (buffered_items b))"
    by (rule cursor_groups_cut) (rule separated_length [OF sep])
  show ?case
    unfolding node_stream.simps g ents_Internal klog_append using M by (simp add: buffered_items_ok(2))
qed

lemma node_stream_sort: "ordered n \<Longrightarrow> node_stream n = sort_key vkey_of (ents n)"
  using node_stream_ok by (intro sort_by_logs) blast+

lemma cursor_stream:
  assumes "be_inv t" and "length (versions t) < n"
  shows "cursor_collect n (height (root t)) (leaf_versions_iter t) = (sort_key vkey_of (versions t), True)"
proof -
  have r: "remaining (leaf_versions_iter t) = sort_key vkey_of (versions t)"
    using assms(1) by (simp add: leaf_versions_iter_def remaining_new versions_def be_inv_def node_stream_sort)
  then have "length (remaining (leaf_versions_iter t)) < n" using assms(2) by simp
  moreover have "wf_cursor (leaf_versions_iter t)" "fits (height (root t)) (leaf_versions_iter t)"
    by (simp_all add: leaf_versions_iter_def fits_new)
  ultimately show ?thesis unfolding r [symmetric] by (intro cursor_collect_remaining)
qed

end
