(* ===== verification/Version_Store.thy ===== *)
theory Version_Store
  imports Be_Tree_Stream
begin

text \<open>
  The contract of a multi-version store as a locale, its interpretation on the B-epsilon-tree, and
  the properties of the tree as seen by its clients: after every sequence of writes the reads are
  functions of what was written.
\<close>

declare split_paired_All [simp del] split_paired_Ex [simp del]

section \<open>The contract\<close>

locale version_store =
  fixes empty :: 's and put :: "'s \<Rightarrow> Message \<Rightarrow> 's"
    and lookup :: "'s \<Rightarrow> RowId \<Rightarrow> epoch \<Rightarrow> (epoch \<times> row) option"
    and scan :: "'s \<Rightarrow> row list" and drain :: "'s \<Rightarrow> row list" and inv :: "'s \<Rightarrow> bool"
  assumes inv_empty: "inv empty"
    and inv_write: "inv s \<Longrightarrow> inv (put s m)"
    and scan_empty: "scan empty = []"
    and scan_write: "inv s \<Longrightarrow> klog (scan (put s m)) k = klog (scan s) k @ klog [msg_row m] k"
    and lookup_log: "inv s \<Longrightarrow> lookup s rid snap = log_read (klog (scan s)) rid snap"
    and drain_sort: "inv s \<Longrightarrow> drain s = sort_key vkey_of (scan s)"
begin

definition written :: "Message list \<Rightarrow> 's" where
  "written ms = foldl put empty ms"

lemma inv_written: "inv (written ms)"
  unfolding written_def by (induction ms rule: rev_induct) (simp_all add: inv_empty inv_write)

lemma scan_written: "klog (scan (written ms)) k = klog (map msg_row ms) k"
proof (induction ms rule: rev_induct)
  case Nil
  then show ?case by (simp add: written_def scan_empty)
next
  case (snoc m ms)
  have "written (ms @ [m]) = put (written ms) m" by (simp add: written_def)
  with snoc scan_write [OF inv_written [of ms]] show ?case by (simp add: klog_append)
qed

lemma lookup_written: "lookup (written ms) rid snap = log_read (klog (map msg_row ms)) rid snap"
  using lookup_log [OF inv_written] by (simp add: scan_written cong: log_read_cong)

lemma drain_written: "drain (written ms) = sort_key vkey_of (map msg_row ms)"
proof (rule sort_by_logs)
  have d: "drain (written ms) = sort_key vkey_of (scan (written ms))" by (rule drain_sort) (rule inv_written)
  show "sorted (map vkey_of (drain (written ms)))" unfolding d by (rule sorted_sort_key)
  show "klog (drain (written ms)) x = klog (map msg_row ms) x" for x
    unfolding d scan_written [symmetric] by (simp add: klog_def sort_key_stable)
qed

end

interpretation be: version_store be_tree_new be_insert get_version versions into_sorted_rows be_inv
proof unfold_locales
  show "versions be_tree_new = []" by (simp add: versions_def be_tree_new_def empty_leaf_def)
qed (simp_all add: be_insert_ok get_version_log into_sorted_rows_sort del: klog_single)

lemma be_written: "be.written ms = foldl be_insert be_tree_new ms"
  by (simp add: be.written_def)

section \<open>Properties of the tree\<close>

text \<open>C3: A point read of the tree is a point read of the log of its writes. Whatever was buffered,
  flushed and split on the way, \<open>get_version\<close> returns the newest epoch at or below the snapshot that
  was written for the row and, when several writes have that epoch, the last of them; it returns
  nothing exactly when the row has no such write.\<close>

theorem be_tree_point_read:
  "get_version (foldl be_insert be_tree_new ms) rid snap = log_read (klog (map msg_row ms)) rid snap"
  unfolding be_written [symmetric] by (rule be.lookup_written)

text \<open>C8: The consuming drain returns everything that was written, in key order and in write order
  within equal keys: it is the stable sort of the writes.\<close>

theorem be_tree_sorted_drain:
  "into_sorted_rows (foldl be_insert be_tree_new ms) = sort_key vkey_of (map msg_row ms)"
  unfolding be_written [symmetric] by (rule be.drain_written)

text \<open>C23: The shape of the tree after every sequence of writes: leaves sorted, separators between
  their children and equal to the first key on their right, at most \<open>FANOUT\<close> children and at most
  \<open>BUFFER_CAP\<close> buffered messages in every node.\<close>

theorem be_tree_shape:
  "ordered (root (foldl be_insert be_tree_new ms)) \<and> slim (root (foldl be_insert be_tree_new ms))"
  using be.inv_written [of ms] unfolding be_written be_inv_def .

text \<open>C12: The lazy cursor delivers the stable sort of the writes and then ends. Advanced without a
  control it never fails, and one more call than there were writes reaches its end.\<close>

theorem be_tree_cursor_stream:
  assumes "length ms < n"
  shows "cursor_collect n (height (root (foldl be_insert be_tree_new ms)))
      (leaf_versions_iter (foldl be_insert be_tree_new ms)) = (sort_key vkey_of (map msg_row ms), True)"
proof -
  let ?t = "be.written ms"
  have "mset (versions ?t) = mset (map msg_row ms)" by (rule klog_mset) (rule be.scan_written)
  then have "length (versions ?t) = length ms" by (metis length_map size_mset)
  with cursor_stream [OF be.inv_written [of ms], of n] assms
  have "cursor_collect n (height (root ?t)) (leaf_versions_iter ?t) = (sort_key vkey_of (versions ?t), True)" by simp
  also have "sort_key vkey_of (versions ?t) = sort_key vkey_of (map msg_row ms)"
    using be.drain_written [of ms] be.drain_sort [OF be.inv_written [of ms]] by simp
  finally show ?thesis unfolding be_written .
qed

text \<open>The write sequence of the witness: an update between two writes of one key, then a delete.\<close>

definition sample_writes :: "Message list" where
  "sample_writes = [Upsert (row_new 7 3), Upsert (row_new 2 4), Tombstone 7 3]"

theorem be_tree_cursor_stream_witness:
  "cursor_collect 4 (height (root (foldl be_insert be_tree_new sample_writes)))
      (leaf_versions_iter (foldl be_insert be_tree_new sample_writes)) =
     ([row_new 2 4, row_new 7 3, tombstone_row 7 3], True)"
proof -
  have "length sample_writes < 4" by (simp add: sample_writes_def)
  from be_tree_cursor_stream [OF this] show ?thesis
    by (simp add: sample_writes_def msg_row_def vkey_of_def row_new_def tombstone_row_def)
qed

text \<open>The walk of one row visits exactly that row's versions, in the relative order of the full
  traversal, when none of them was written at epoch 0.\<close>

lemma be_tree_row_walk:
  assumes "\<forall>m\<in>set ms. msg_key m \<noteq> (rid, 0)"
  shows "visit_versions (foldl be_insert be_tree_new ms) rid =
    filter (\<lambda>r. row_id r = rid) (versions (foldl be_insert be_tree_new ms))"
proof -
  let ?t = "be.written ms"
  have "set (versions ?t) = set (map msg_row ms)" by (rule klog_set) (rule be.scan_written)
  then have "\<forall>r\<in>set (versions ?t). vkey_of r \<noteq> (rid, 0)" using assms by (auto simp: msg_key_row)
  moreover have "ordered (root ?t)" using be.inv_written [of ms] by (simp add: be_inv_def)
  ultimately show ?thesis
    unfolding be_written [symmetric] visit_versions_def versions_def by (intro visit_row_versions_ok)
qed

text \<open>At epoch 0 the walk starts right of a separator that equals its lower end, so equal keys that a
  split left on the other side are not visited.\<close>

lemma leaf_apply_same: "leaf_apply (replicate n r) (Upsert r) = replicate (Suc n) r"
proof -
  have "partition_point (\<lambda>x. vkey_of x \<le> vkey_of r) (replicate n r) = n"
    by (simp add: partition_point_def takeWhile_replicate)
  then show ?thesis by (simp add: leaf_apply_eq msg_row_def vec_insert_def replicate_append_same)
qed

lemma same_key_leaf:
  "n \<le> LEAF_CAP \<Longrightarrow> foldl be_insert be_tree_new (replicate n (Upsert r)) = \<lparr>root = Leaf (replicate n r), mutations = n\<rparr>"
proof (induction n)
  case 0
  then show ?case by (simp add: be_tree_new_def empty_leaf_def)
next
  case (Suc n)
  have "foldl be_insert be_tree_new (replicate (Suc n) (Upsert r)) =
      be_insert (foldl be_insert be_tree_new (replicate n (Upsert r))) (Upsert r)"
    unfolding replicate_Suc replicate_append_same [symmetric] by simp
  also have "\<dots> = be_insert \<lparr>root = Leaf (replicate n r), mutations = n\<rparr> (Upsert r)" using Suc by simp
  also have "\<dots> = \<lparr>root = Leaf (replicate (Suc n) r), mutations = Suc n\<rparr>"
    using Suc.prems
    by (simp add: be_insert_def leaf_apply_same maintain.simps)
  finally show ?case .
qed

text \<open>The walk of one row can miss versions written at epoch 0: after 33 writes of one key at epoch
  0 a leaf split leaves 16 of them left of the separator, and the walk does not visit these.\<close>

lemma row_walk_misses_epoch_zero:
  "\<exists>ms rid. length (visit_versions (foldl be_insert be_tree_new ms) rid) = 17 \<and>
     length (filter (\<lambda>r. row_id r = rid) (versions (foldl be_insert be_tree_new ms))) = 33"
proof -
  let ?r = "row_new 5 0"
  let ?ms = "replicate 33 (Upsert ?r)"
  have app: "leaf_apply (replicate 32 ?r) (Upsert ?r) = replicate 33 ?r"
    by (simp add: leaf_apply_same del: replicate_Suc)
  have "?ms = replicate 32 (Upsert ?r) @ [Upsert ?r]"
    using replicate_append_same [of 32 "Upsert ?r"] by (simp flip: replicate_Suc)
  then have "foldl be_insert be_tree_new ?ms = be_insert \<lparr>root = Leaf (replicate 32 ?r), mutations = 32\<rparr> (Upsert ?r)"
    by (simp add: same_key_leaf LEAF_CAP_def)
  also have "\<dots> = \<lparr>root = Internal [(5, 0)] [Leaf (replicate 16 ?r), Leaf (replicate 17 ?r)] [], mutations = 33\<rparr>"
    by (simp add: be_insert_def app maintain.simps LEAF_CAP_def split_leaf_def Let_def)
      (simp add: row_new_def)
  finally have t: "foldl be_insert be_tree_new ?ms =
      \<lparr>root = Internal [(5, 0)] [Leaf (replicate 16 ?r), Leaf (replicate 17 ?r)] [], mutations = 33\<rparr>" .
  have "visit_versions (foldl be_insert be_tree_new ?ms) 5 = replicate 17 ?r"
    unfolding t visit_versions_def
    by (simp add: child_index_def partition_point_def slice_def takeWhile_replicate row_new_def)
  moreover have "filter (\<lambda>r. row_id r = 5) (versions (foldl be_insert be_tree_new ?ms)) = replicate 16 ?r @ replicate 17 ?r"
    unfolding t versions_def by (simp add: row_new_def)
  ultimately show ?thesis by (intro exI [of _ ?ms] exI [of _ 5]) simp
qed

end
