(* ===== verification/Memtable.thy ===== *)
theory Memtable
  imports Version_Store
begin

text \<open>
  The memtable (\<open>crates/mongreldb-core/src/memtable.rs\<close>): one mutable B-epsilon-tree and a list of
  frozen ones, oldest first. Writes, tombstones, sealing and consolidation, the point reads under an
  epoch or an HLC snapshot, the newest-version map and the sorted drain. The streaming merge over the
  segments is in \<open>Memtable_Cursor\<close>. \<open>Arc\<close>s share immutable segments and are plain values; a
  \<open>BTreeMap\<close> is a map whose values are listed in the order of its keys.
\<close>

declare split_paired_All [simp del] split_paired_Ex [simp del]

section \<open>The memtable\<close>

definition MAX_READ_GENERATION_LAYERS :: nat where
  "MAX_READ_GENERATION_LAYERS = 8"

definition row_estimated_bytes :: "row \<Rightarrow> u64" where
  "row_estimated_bytes r = 32 + (\<Sum>c\<in>dom (columns r). value_estimated_bytes (the (columns r c)))"

record memtable_segment =
  seg_tree :: be_tree
  seg_byte_size :: u64

record memtable =
  mt_frozen :: "memtable_segment list"
  mt_active :: memtable_segment
  mt_byte_size :: u64

definition segment_new :: memtable_segment where
  "segment_new = \<lparr>seg_tree = be_tree_new, seg_byte_size = 0\<rparr>"

definition memtable_new :: memtable where
  "memtable_new = \<lparr>mt_frozen = [], mt_active = segment_new, mt_byte_size = 0\<rparr>"

definition upsert :: "memtable \<Rightarrow> row \<Rightarrow> memtable" where
  "upsert m r =
     (let bytes = row_estimated_bytes r
      in m\<lparr>mt_byte_size := sat_add (mt_byte_size m) bytes,
           mt_active := \<lparr>seg_tree = insert_row (seg_tree (mt_active m)) r,
                         seg_byte_size = sat_add (seg_byte_size (mt_active m)) bytes\<rparr>\<rparr>)"

text \<open>The loop over the frozen segments of an epoch-only read: a candidate replaces the best so far
  only when its epoch is strictly greater.\<close>

fun newest_first ::
    "(epoch \<times> row) option \<Rightarrow> memtable_segment list \<Rightarrow> RowId \<Rightarrow> epoch \<Rightarrow> (epoch \<times> row) option" where
  "newest_first best [] rid snap = best"
| "newest_first best (seg # segs) rid snap =
     (case get_version (seg_tree seg) rid snap of
        None \<Rightarrow> newest_first best segs rid snap
      | Some candidate \<Rightarrow>
          newest_first
            (case best of
               None \<Rightarrow> Some candidate
             | Some (e, r) \<Rightarrow> if e < fst candidate then Some candidate else Some (e, r))
            segs rid snap)"

text \<open>The fold of the HLC reads and of the map: an observed row replaces the current one unless that
  is strictly newer.\<close>

definition supersede_visible :: "snapshot \<Rightarrow> row option \<Rightarrow> row \<Rightarrow> row option" where
  "supersede_visible snap best r =
     (if \<not> observes_row snap (committed_epoch r) (commit_ts r) then best
      else case best of
             None \<Rightarrow> Some r
           | Some current \<Rightarrow>
               if version_supersedes (committed_epoch r) (commit_ts r) (committed_epoch current) (commit_ts current)
               then Some r else Some current)"

definition segments :: "memtable \<Rightarrow> memtable_segment list" where
  "segments m = mt_frozen m @ [mt_active m]"

definition get_version_at :: "memtable \<Rightarrow> RowId \<Rightarrow> snapshot \<Rightarrow> (epoch \<times> row) option" where
  "get_version_at m rid snap =
     (if \<not> uses_hlc_authority snap then
        newest_first (get_version (seg_tree (mt_active m)) rid (snap_epoch snap)) (rev (mt_frozen m))
          rid (snap_epoch snap)
      else
        map_option (\<lambda>r. (committed_epoch r, r))
          (foldl (supersede_visible snap) None
            (concat (map (\<lambda>seg. visit_versions (seg_tree seg) rid) (segments m)))))"

definition mem_get_version :: "memtable \<Rightarrow> RowId \<Rightarrow> epoch \<Rightarrow> (epoch \<times> row) option" where
  "mem_get_version m rid e = get_version_at m rid (snapshot_at e)"

definition mem_get :: "memtable \<Rightarrow> RowId \<Rightarrow> epoch \<Rightarrow> row option" where
  "mem_get m rid e =
     (case mem_get_version m rid e of None \<Rightarrow> None | Some (_, r) \<Rightarrow> if deleted r then None else Some r)"

definition tombstone :: "memtable \<Rightarrow> RowId \<Rightarrow> epoch \<Rightarrow> memtable" where
  "tombstone m rid e =
     (let cols = (case mem_get m rid (sat_sub e 1) of Some live \<Rightarrow> columns live | None \<Rightarrow> Map.empty)
      in upsert m \<lparr>row_id = rid, committed_epoch = e, columns = cols, deleted = True, commit_ts = None\<rparr>)"

definition mem_len :: "memtable \<Rightarrow> nat" where
  "mem_len m = mutations (seg_tree (mt_active m)) + sum_list (map (\<lambda>seg. mutations (seg_tree seg)) (mt_frozen m))"

definition mem_is_empty :: "memtable \<Rightarrow> bool" where
  "mem_is_empty m \<longleftrightarrow> be_is_empty (seg_tree (mt_active m)) \<and> mt_frozen m = []"

definition insert_newest :: "snapshot \<Rightarrow> (RowId \<rightharpoonup> row) \<Rightarrow> row \<Rightarrow> (RowId \<rightharpoonup> row)" where
  "insert_newest snap by_row r =
     (if \<not> observes_version snap (committed_epoch r) (commit_ts r) then by_row
      else case by_row (row_id r) of
             None \<Rightarrow> by_row(row_id r \<mapsto> r)
           | Some existing \<Rightarrow>
               if version_supersedes (committed_epoch r) (commit_ts r) (committed_epoch existing) (commit_ts existing)
               then by_row(row_id r \<mapsto> r) else by_row)"

definition newest_visible_map :: "memtable \<Rightarrow> snapshot \<Rightarrow> (RowId \<rightharpoonup> row)" where
  "newest_visible_map m snap =
     foldl (insert_newest snap) Map.empty (concat (map (\<lambda>seg. versions (seg_tree seg)) (segments m)))"

definition visible_versions_at :: "memtable \<Rightarrow> snapshot \<Rightarrow> row list" where
  "visible_versions_at m snap =
     (let by_row = newest_visible_map m snap in map (\<lambda>rid. the (by_row rid)) (sorted_list_of_set (dom by_row)))"

definition visible_versions :: "memtable \<Rightarrow> epoch \<Rightarrow> row list" where
  "visible_versions m e = visible_versions_at m (snapshot_at e)"

definition visible_rows :: "memtable \<Rightarrow> epoch \<Rightarrow> row list" where
  "visible_rows m e = filter (\<lambda>r. \<not> deleted r) (visible_versions m e)"

definition consolidate :: "memtable \<Rightarrow> memtable" where
  "consolidate m =
     (let tree = foldl insert_row be_tree_new (concat (map (\<lambda>seg. versions (seg_tree seg)) (mt_frozen m)))
      in m\<lparr>mt_frozen := [\<lparr>seg_tree = tree, seg_byte_size = mt_byte_size m\<rparr>]\<rparr>)"

definition seal :: "memtable \<Rightarrow> memtable" where
  "seal m =
     (if be_is_empty (seg_tree (mt_active m)) then m
      else let m' = m\<lparr>mt_active := segment_new, mt_frozen := mt_frozen m @ [mt_active m]\<rparr>
           in if MAX_READ_GENERATION_LAYERS \<le> length (mt_frozen m') then consolidate m' else m')"

definition drain_sorted :: "memtable \<Rightarrow> row list \<times> memtable" where
  "drain_sorted m =
     (sort_key (\<lambda>r. (row_id r, committed_epoch r))
        (concat (map (\<lambda>seg. versions (seg_tree seg)) (mt_frozen m)) @ versions (seg_tree (mt_active m))),
      m\<lparr>mt_frozen := [], mt_active := segment_new, mt_byte_size := 0\<rparr>)"

section \<open>The log of a memtable\<close>

definition mem_rows :: "memtable \<Rightarrow> row list" where
  "mem_rows m = concat (map (\<lambda>seg. versions (seg_tree seg)) (segments m))"

definition mem_inv :: "memtable \<Rightarrow> bool" where
  "mem_inv m \<longleftrightarrow> (\<forall>seg\<in>set (segments m). be_inv (seg_tree seg))"

lemma mem_rows_eq:
  "mem_rows m = concat (map (\<lambda>seg. versions (seg_tree seg)) (mt_frozen m)) @ versions (seg_tree (mt_active m))"
  by (simp add: mem_rows_def segments_def)

lemma segment_new_props [simp]: "be_inv (seg_tree segment_new)" "versions (seg_tree segment_new) = []"
  by (simp_all add: segment_new_def be.scan_empty)

lemma mem_inv_new [simp]: "mem_inv memtable_new"
  by (simp add: mem_inv_def segments_def memtable_new_def)

lemma mem_rows_new [simp]: "mem_rows memtable_new = []"
  by (simp add: mem_rows_eq memtable_new_def)

lemma upsert_ok:
  assumes "mem_inv m"
  shows "mem_inv (upsert m r)" and "klog (mem_rows (upsert m r)) k = klog (mem_rows m @ [r]) k"
proof -
  let ?t = "seg_tree (mt_active m)"
  have inv: "be_inv ?t" using assms by (simp add: mem_inv_def segments_def)
  then show "mem_inv (upsert m r)"
    using assms be.inv_write [OF inv] by (simp add: mem_inv_def segments_def upsert_def Let_def insert_row_def)
  have "klog (versions (insert_row ?t r)) k = klog (versions ?t) k @ klog [r] k"
    using be.scan_write [OF inv, of "Upsert r" k] by (simp add: insert_row_def msg_row_def)
  then show "klog (mem_rows (upsert m r)) k = klog (mem_rows m @ [r]) k"
    by (simp add: mem_rows_eq upsert_def Let_def klog_append)
qed

lemma consolidate_ok:
  assumes "mem_inv m"
  shows "mem_inv (consolidate m)" and "klog (mem_rows (consolidate m)) k = klog (mem_rows m) k"
proof -
  let ?rs = "concat (map (\<lambda>seg. versions (seg_tree seg)) (mt_frozen m))"
  have fold: "foldl insert_row be_tree_new rs = be.written (map Upsert rs)" for rs
    by (simp add: be.written_def foldl_map insert_row_def [abs_def])
  have "map msg_row (map Upsert ?rs) = ?rs" by (simp add: comp_def msg_row_def)
  then have "klog (versions (foldl insert_row be_tree_new ?rs)) k = klog ?rs k"
    unfolding fold be.scan_written by simp
  then show "klog (mem_rows (consolidate m)) k = klog (mem_rows m) k"
    by (simp add: mem_rows_eq consolidate_def Let_def klog_append)
  show "mem_inv (consolidate m)"
    using assms be.inv_written [of "map Upsert ?rs"]
    by (simp add: mem_inv_def segments_def consolidate_def Let_def fold)
qed

lemma seal_ok:
  assumes "mem_inv m"
  shows "mem_inv (seal m)" and "klog (mem_rows (seal m)) k = klog (mem_rows m) k"
proof -
  let ?m = "m\<lparr>mt_active := segment_new, mt_frozen := mt_frozen m @ [mt_active m]\<rparr>"
  have "mem_inv ?m" using assms by (auto simp: mem_inv_def segments_def)
  moreover have "mem_rows ?m = mem_rows m" by (simp add: mem_rows_eq)
  ultimately show "mem_inv (seal m)" and "klog (mem_rows (seal m)) k = klog (mem_rows m) k"
    using assms consolidate_ok [of ?m] by (simp_all add: seal_def Let_def)
qed

section \<open>The epoch-only point read\<close>

lemma newest_first_step:
  "newest_first best (seg # segs) rid snap =
     newest_first (newer_read best (get_version (seg_tree seg) rid snap)) segs rid snap"
  by (cases "get_version (seg_tree seg) rid snap"; cases best)
    (auto simp: newer_read_def not_less [symmetric])

lemma newest_first_read:
  assumes "\<forall>seg\<in>set segs. be_inv (seg_tree seg)"
  shows "newest_first best segs rid snap =
    newer_read best (read_of (concat (map (\<lambda>seg. versions (seg_tree seg)) (rev segs))) rid snap)"
  using assms
proof (induction segs arbitrary: best)
  case Nil
  then show ?case by (simp add: log_read_def)
next
  case (Cons seg segs)
  let ?old = "concat (map (\<lambda>seg. versions (seg_tree seg)) (rev segs))"
  have "newest_first best (seg # segs) rid snap =
      newer_read (newer_read best (read_of (versions (seg_tree seg)) rid snap)) (read_of ?old rid snap)"
    unfolding newest_first_step using Cons by (simp add: be.lookup_log)
  also have "\<dots> = newer_read best (read_of (?old @ versions (seg_tree seg)) rid snap)"
    unfolding newer_read_assoc read_of_append ..
  finally show ?case by simp
qed

lemma snapshot_at_no_hlc [simp]: "\<not> uses_hlc_authority (snapshot_at e)" "snap_epoch (snapshot_at e) = e"
  by (simp_all add: uses_hlc_authority_def snapshot_at_def)

lemma get_version_at_epoch:
  assumes "mem_inv m" and "\<not> uses_hlc_authority snap"
  shows "get_version_at m rid snap = read_of (mem_rows m) rid (snap_epoch snap)"
proof -
  have "\<forall>seg\<in>set (rev (mt_frozen m)). be_inv (seg_tree seg)" "be_inv (seg_tree (mt_active m))"
    using assms(1) by (simp_all add: mem_inv_def segments_def)
  then have "get_version_at m rid snap =
      newer_read (read_of (versions (seg_tree (mt_active m))) rid (snap_epoch snap))
        (read_of (concat (map (\<lambda>seg. versions (seg_tree seg)) (mt_frozen m))) rid (snap_epoch snap))"
    unfolding get_version_at_def using assms(2) by (simp add: newest_first_read be.lookup_log)
  then show ?thesis unfolding mem_rows_eq read_of_append .
qed

section \<open>The abstract memtable\<close>

text \<open>A write buffer as the list of the rows written, and its point read.\<close>

datatype mem_op = OpUpsert row | OpTombstone RowId epoch | OpSeal

fun mem_step :: "memtable \<Rightarrow> mem_op \<Rightarrow> memtable" where
  "mem_step m (OpUpsert r) = upsert m r"
| "mem_step m (OpTombstone rid e) = tombstone m rid e"
| "mem_step m OpSeal = seal m"

definition spec_tombstone :: "row list \<Rightarrow> RowId \<Rightarrow> epoch \<Rightarrow> row" where
  "spec_tombstone log rid e =
     \<lparr>row_id = rid, committed_epoch = e,
      columns = (case log_read (klog log) rid (sat_sub e 1) of
                   Some (_, r) \<Rightarrow> if deleted r then Map.empty else columns r
                 | None \<Rightarrow> Map.empty),
      deleted = True, commit_ts = None\<rparr>"

fun spec_step :: "row list \<Rightarrow> mem_op \<Rightarrow> row list" where
  "spec_step log (OpUpsert r) = log @ [r]"
| "spec_step log (OpTombstone rid e) = log @ [spec_tombstone log rid e]"
| "spec_step log OpSeal = log"

abbreviation mem_run :: "mem_op list \<Rightarrow> memtable" where
  "mem_run ops \<equiv> foldl mem_step memtable_new ops"

abbreviation spec_run :: "mem_op list \<Rightarrow> row list" where
  "spec_run ops \<equiv> foldl spec_step [] ops"

lemma tombstone_upsert:
  assumes "mem_inv m" and "\<And>k. klog (mem_rows m) k = klog log k"
  shows "tombstone m rid e = upsert m (spec_tombstone log rid e)"
proof -
  have "mem_get_version m rid x = log_read (klog log) rid x" for x
    unfolding mem_get_version_def get_version_at_epoch [OF assms(1) snapshot_at_no_hlc(1)] snapshot_at_no_hlc(2)
    by (rule log_read_cong) (rule assms(2))
  then show ?thesis
    by (auto simp: tombstone_def spec_tombstone_def mem_get_def Let_def split: option.splits)
qed

lemma mem_run_refines: "mem_inv (mem_run ops) \<and> (\<forall>k. klog (mem_rows (mem_run ops)) k = klog (spec_run ops) k)"
proof (induction ops rule: rev_induct)
  case Nil
  then show ?case by simp
next
  case (snoc op ops)
  then have inv: "mem_inv (mem_run ops)" and log: "\<And>k. klog (mem_rows (mem_run ops)) k = klog (spec_run ops) k" by blast+
  show ?case
  proof (cases op)
    case (OpUpsert r)
    with upsert_ok [OF inv] log show ?thesis by (simp add: klog_append)
  next
    case (OpTombstone rid e)
    with upsert_ok [OF inv] log tombstone_upsert [OF inv log] show ?thesis by (simp add: klog_append)
  next
    case OpSeal
    with seal_ok [OF inv] log show ?thesis by simp
  qed
qed

lemmas mem_run_inv = mem_run_refines [THEN conjunct1]
lemmas mem_run_log = mem_run_refines [THEN conjunct2, rule_format]

end
