(* ===== verification/Memtable_Visibility.thy ===== *)
theory Memtable_Visibility
  imports Memtable
begin

text \<open>
  Point reads and full scans of the memtable select the same version. Both are folds that keep the
  later write unless the current winner is strictly newer; they run over the same rows, in orders
  that agree on equal keys. Under an HLC snapshot they agree always, under an epoch-only snapshot
  they agree when epochs and timestamps of the row's versions are ordered alike.
\<close>

declare split_paired_All [simp del] split_paired_Ex [simp del]

section \<open>The folds\<close>

definition row_newer :: "row \<Rightarrow> row \<Rightarrow> bool" where
  "row_newer a b = is_newer_than (stamp_of a) (stamp_of b)"

definition visible_to :: "snapshot \<Rightarrow> row \<Rightarrow> bool" where
  "visible_to snap r = observes_version snap (committed_epoch r) (commit_ts r)"

abbreviation candidates :: "snapshot \<Rightarrow> RowId \<Rightarrow> row list \<Rightarrow> row list" where
  "candidates snap rid rs \<equiv> filter (\<lambda>r. row_id r = rid \<and> visible_to snap r) rs"

lemma supersedes_row_newer:
  "version_supersedes (committed_epoch r) (commit_ts r) (committed_epoch c) (commit_ts c) \<longleftrightarrow> \<not> row_newer c r"
  by (simp add: version_supersedes_def row_newer_def is_newer_than_def stamp_of_def)

lemma supersede_visible_eq:
  "supersede_visible snap best r = (if visible_to snap r then supersede row_newer best r else best)"
  by (auto simp: supersede_visible_def visible_to_def observes_row_def supersede_def supersedes_row_newer
      split: option.splits)

lemma insert_newest_eq:
  "insert_newest snap M r =
     (if visible_to snap r then M(row_id r := supersede row_newer (M (row_id r)) r) else M)"
  by (auto simp: insert_newest_def visible_to_def supersede_def supersedes_row_newer fun_eq_iff
      split: option.splits)

lemma foldl_supersede_visible:
  "foldl (supersede_visible snap) best rs = foldl (supersede row_newer) best (filter (visible_to snap) rs)"
  by (induction rs arbitrary: best) (simp_all add: supersede_visible_eq)

lemma foldl_insert_newest:
  "foldl (insert_newest snap) M rs rid = foldl (supersede row_newer) (M rid) (candidates snap rid rs)"
  by (induction rs arbitrary: M) (simp_all add: insert_newest_eq)

lemma newest_visible_map_fold:
  "newest_visible_map m snap rid = fold_newest row_newer (candidates snap rid (mem_rows m))"
  by (simp add: newest_visible_map_def foldl_insert_newest mem_rows_def fold_newest_def)

section \<open>The two reads\<close>

lemma hlc_read_fold:
  assumes "mem_inv m" and "uses_hlc_authority snap" and "\<forall>r\<in>set (mem_rows m). vkey_of r \<noteq> (rid, 0)"
  shows "get_version_at m rid snap =
    map_option (\<lambda>r. (committed_epoch r, r)) (newest_visible_map m snap rid)"
proof -
  have "visit_versions (seg_tree seg) rid = filter (\<lambda>r. row_id r = rid) (versions (seg_tree seg))"
    if "seg \<in> set (segments m)" for seg
  proof -
    have "ordered (root (seg_tree seg))" using assms(1) that by (auto simp: mem_inv_def be_inv_def)
    moreover have "\<forall>r\<in>set (versions (seg_tree seg)). vkey_of r \<noteq> (rid, 0)"
      using assms(3) that by (auto simp: mem_rows_def)
    ultimately show ?thesis unfolding visit_versions_def versions_def by (intro visit_row_versions_ok)
  qed
  then have "concat (map (\<lambda>seg. visit_versions (seg_tree seg) rid) (segments m)) =
      concat (map (\<lambda>seg. filter (\<lambda>r. row_id r = rid) (versions (seg_tree seg))) (segments m))"
    by (intro arg_cong [of _ _ concat] map_cong) simp_all
  also have "\<dots> = filter (\<lambda>r. row_id r = rid) (mem_rows m)"
    by (simp add: mem_rows_def filter_concat comp_def)
  finally show ?thesis
    unfolding get_version_at_def newest_visible_map_fold fold_newest_def
    using assms(2) by (simp add: foldl_supersede_visible conj_commute)
qed

text \<open>On coherently stamped versions of one row, newer means a greater epoch.\<close>

definition coherent_rows :: "row list \<Rightarrow> bool" where
  "coherent_rows rs \<longleftrightarrow> coherent_stamps (stamp_of ` set rs)"

lemma coherent_row_newer:
  assumes "coherent_rows rs" and "a \<in> set rs" and "b \<in> set rs"
  shows "row_newer a b \<longleftrightarrow> committed_epoch b < committed_epoch a"
  using coherent_newer_iff [OF assms(1) [unfolded coherent_rows_def], of "stamp_of a" "stamp_of b"] assms(2,3)
  by (simp add: row_newer_def stamp_of_def)

lemma coherent_rows_recency: "coherent_rows rs \<Longrightarrow> recency (set rs) row_newer"
  by unfold_locales (auto simp: coherent_row_newer)

lemma foldl_supersede_mem: "foldl (supersede newer) best xs = Some w \<Longrightarrow> best = Some w \<or> w \<in> set xs"
  by (induction xs arbitrary: best) (fastforce simp: supersede_def split: option.splits if_splits)+

lemma read_of_fold:
  assumes "coherent_rows (filter (\<lambda>r. row_id r = rid) rs)"
  shows "read_of rs rid e = map_option (\<lambda>r. (committed_epoch r, r))
    (fold_newest row_newer (filter (\<lambda>r. row_id r = rid \<and> committed_epoch r \<le> e) rs))"
  using assms
proof (induction rs rule: rev_induct)
  case Nil
  then show ?case by (simp add: log_read_def fold_newest_def)
next
  case (snoc x rs)
  let ?f = "\<lambda>rs. filter (\<lambda>r. row_id r = rid \<and> committed_epoch r \<le> e) rs"
  have coh: "coherent_rows (filter (\<lambda>r. row_id r = rid) rs)"
    using snoc.prems by (auto simp: coherent_rows_def coherent_stamps_def split: if_splits)
  have app: "read_of (rs @ [x]) rid e = newer_read (read_of [x] rid e) (read_of rs rid e)" by (rule read_of_append)
  show ?case
  proof (cases "row_id x = rid \<and> committed_epoch x \<le> e")
    case False
    then have "read_of [x] rid e = None" by (simp only: read_of_single) simp
    with app snoc.IH [OF coh] False show ?thesis by auto
  next
    case True
    then have x: "read_of [x] rid e = Some (committed_epoch x, x)" by (simp only: read_of_single) simp
    have fold: "fold_newest row_newer (?f (rs @ [x])) = supersede row_newer (fold_newest row_newer (?f rs)) x"
      using True by (simp add: fold_newest_def)
    show ?thesis
    proof (cases "fold_newest row_newer (?f rs)")
      case None
      with app x fold snoc.IH [OF coh] show ?thesis by (simp add: supersede_def)
    next
      case (Some w)
      then have "w \<in> set (?f rs)" unfolding fold_newest_def using foldl_supersede_mem by fastforce
      then have "row_newer w x \<longleftrightarrow> committed_epoch x < committed_epoch w"
        using True by (intro coherent_row_newer [OF snoc.prems]) auto
      with app x fold Some snoc.IH [OF coh] show ?thesis
        by (simp add: supersede_def newer_read_def not_less)
    qed
  qed
qed

lemma epoch_read_fold:
  assumes "mem_inv m" and "\<not> uses_hlc_authority snap"
    and "coherent_rows (filter (\<lambda>r. row_id r = rid) (mem_rows m))"
  shows "get_version_at m rid snap =
    map_option (\<lambda>r. (committed_epoch r, r)) (newest_visible_map m snap rid)"
proof -
  have "visible_to snap r \<longleftrightarrow> committed_epoch r \<le> snap_epoch snap" for r
    using assms(2) by (simp add: visible_to_def observes_version_def split: option.splits)
  then show ?thesis
    unfolding get_version_at_epoch [OF assms(1,2)] newest_visible_map_fold read_of_fold [OF assms(3)] by simp
qed

section \<open>Properties\<close>

lemma set_mem_run: "set (mem_rows (mem_run ops)) = set (spec_run ops)"
  by (rule klog_set) (rule mem_run_log)

lemma coherent_rows_cong: "set xs = set ys \<Longrightarrow> coherent_rows xs \<longleftrightarrow> coherent_rows ys"
  by (simp add: coherent_rows_def)

text \<open>C6: The memtable refines a list of writes. After every sequence of upserts, tombstones and
  seals, with all consolidations these cause, the epoch-only point read and the tombstones written
  are those of the plain list, and the drain returns the stable sort of the list and leaves the
  memtable empty.\<close>

theorem memtable_refines_log:
  "mem_get_version (mem_run ops) rid e = log_read (klog (spec_run ops)) rid e \<and>
   fst (drain_sorted (mem_run ops)) = sort_key vkey_of (spec_run ops) \<and>
   mem_rows (snd (drain_sorted (mem_run ops))) = []"
proof (intro conjI)
  show "mem_get_version (mem_run ops) rid e = log_read (klog (spec_run ops)) rid e"
    unfolding mem_get_version_def get_version_at_epoch [OF mem_run_inv snapshot_at_no_hlc(1)] snapshot_at_no_hlc(2)
    by (rule log_read_cong) (rule mem_run_log)
  have "fst (drain_sorted (mem_run ops)) = sort_key vkey_of (mem_rows (mem_run ops))"
    by (simp add: drain_sorted_def mem_rows_eq vkey_of_def [abs_def])
  also have "\<dots> = sort_key vkey_of (spec_run ops)"
  proof (rule sort_by_logs)
    show "klog (sort_key vkey_of (mem_rows (mem_run ops))) x = klog (spec_run ops) x" for x
      unfolding mem_run_log [symmetric] by (simp add: klog_def sort_key_stable)
  qed simp
  finally show "fst (drain_sorted (mem_run ops)) = sort_key vkey_of (spec_run ops)" .
  show "mem_rows (snd (drain_sorted (mem_run ops))) = []" by (simp add: drain_sorted_def mem_rows_eq)
qed

text \<open>C13: Point read and scan agree. If no version of the row was written at epoch 0 and its epochs and
  timestamps are ordered alike, \<open>get_version_at\<close> returns for every snapshot, HLC or epoch-only, what
  the newest-version map holds for the row.\<close>

theorem point_read_matches_scan:
  assumes "\<forall>r\<in>set (spec_run ops). vkey_of r \<noteq> (rid, 0)"
    and "coherent_rows (filter (\<lambda>r. row_id r = rid) (spec_run ops))"
  shows "get_version_at (mem_run ops) rid snap =
    map_option (\<lambda>r. (committed_epoch r, r)) (newest_visible_map (mem_run ops) snap rid)"
proof (cases "uses_hlc_authority snap")
  case True
  then show ?thesis using assms(1) by (intro hlc_read_fold mem_run_inv) (simp_all add: set_mem_run)
next
  case False
  have "coherent_rows (filter (\<lambda>r. row_id r = rid) (mem_rows (mem_run ops)))"
    using assms(2) by (subst coherent_rows_cong [of _ "filter (\<lambda>r. row_id r = rid) (spec_run ops)"])
      (simp_all add: set_mem_run)
  with False show ?thesis by (intro epoch_read_fold mem_run_inv)
qed

text \<open>A row rewritten and deleted, with a seal in between.\<close>

definition sample_ops :: "mem_op list" where
  "sample_ops = [OpUpsert (row_new_with_hlc 4 2 (HlcTimestamp 10 0 1)), OpSeal,
     OpUpsert (row_new_with_hlc 4 3 (HlcTimestamp 11 0 1)), OpTombstone 4 5]"

lemma spec_run_sample:
  "map (\<lambda>r. (row_id r, stamp_of r)) (spec_run sample_ops) =
     [(4, \<lparr>vs_epoch = 2, vs_commit_ts = Some (HlcTimestamp 10 0 1)\<rparr>),
      (4, \<lparr>vs_epoch = 3, vs_commit_ts = Some (HlcTimestamp 11 0 1)\<rparr>),
      (4, \<lparr>vs_epoch = 5, vs_commit_ts = None\<rparr>)]"
  by (simp add: sample_ops_def row_new_with_hlc_def stamp_of_def spec_tombstone_def)

theorem point_read_matches_scan_witness:
  "get_version_at (mem_run sample_ops) 4 (snapshot_at 3) =
    map_option (\<lambda>r. (committed_epoch r, r)) (newest_visible_map (mem_run sample_ops) (snapshot_at 3) 4)"
proof (rule point_read_matches_scan)
  show "\<forall>r\<in>set (spec_run sample_ops). vkey_of r \<noteq> (4, 0)"
    by (simp add: sample_ops_def row_new_with_hlc_def vkey_of_def spec_tombstone_def)
  show "coherent_rows (filter (\<lambda>r. row_id r = 4) (spec_run sample_ops))"
    by (simp add: sample_ops_def row_new_with_hlc_def stamp_of_def spec_tombstone_def coherent_rows_def
        coherent_stamps_def less_HlcTimestamp_def hlc_key_def)
qed

text \<open>The scan returns the last written of the newest visible versions: the map holds a version of
  the row exactly if that version is visible, no visible version of the row is newer, and every
  later written one is strictly older.\<close>

lemma scan_selects_last_newest:
  assumes "coherent_rows (filter (\<lambda>r. row_id r = rid) (mem_rows m))"
  shows "newest_visible_map m snap rid = Some w \<longleftrightarrow> last_newest row_newer (candidates snap rid (mem_rows m)) w"
proof -
  have r: "recency (set (filter (\<lambda>r. row_id r = rid) (mem_rows m))) row_newer"
    using assms by (rule coherent_rows_recency)
  have "set (candidates snap rid (mem_rows m)) \<subseteq> set (filter (\<lambda>r. row_id r = rid) (mem_rows m))" by auto
  from recency.fold_newest_iff [OF r this] show ?thesis unfolding newest_visible_map_fold .
qed

text \<open>The two versions of the next theorem: the later epoch carries the earlier timestamp.\<close>

definition inverted_ops :: "mem_op list" where
  "inverted_ops = [OpUpsert (row_new_with_hlc 1 1 (HlcTimestamp 5 0 0)), OpUpsert (row_new_with_hlc 1 2 (HlcTimestamp 3 0 0))]"

text \<open>With epochs and timestamps in opposite order, point read and scan at one epoch-only snapshot
  return different versions of the row: the point read the greater epoch, the scan the greater
  timestamp.\<close>

lemma epoch_read_and_scan_disagree:
  "map_option fst (mem_get_version (mem_run inverted_ops) 1 2) = Some 2 \<and>
   map_option committed_epoch (newest_visible_map (mem_run inverted_ops) (snapshot_at 2) 1) = Some 1"
proof
  let ?a = "row_new_with_hlc 1 1 (HlcTimestamp 5 0 0)" and ?b = "row_new_with_hlc 1 2 (HlcTimestamp 3 0 0)"
  have log: "spec_run inverted_ops = [?a] @ [?b]" by (simp add: inverted_ops_def)
  have ra: "read_of [?a] 1 2 = Some (1, ?a)" and rb: "read_of [?b] 1 2 = Some (2, ?b)"
    by (simp_all only: read_of_single) (simp_all add: row_new_with_hlc_def)
  have "read_of ([?a] @ [?b]) 1 2 = Some (2, ?b)"
    unfolding read_of_append ra rb by (simp add: newer_read_def)
  then have read: "read_of (spec_run inverted_ops) 1 2 = Some (2, ?b)" unfolding log .
  have "read_of (mem_rows (mem_run inverted_ops)) 1 2 = read_of (spec_run inverted_ops) 1 2"
    by (rule log_read_cong) (rule mem_run_log)
  with read show "map_option fst (mem_get_version (mem_run inverted_ops) 1 2) = Some 2"
    unfolding mem_get_version_def get_version_at_epoch [OF mem_run_inv snapshot_at_no_hlc(1)] snapshot_at_no_hlc(2)
    by simp
  have "mem_rows (mem_run inverted_ops) = [?a, ?b]"
    by (simp add: inverted_ops_def upsert_def memtable_new_def segment_new_def mem_rows_eq versions_def
        be_tree_new_def empty_leaf_def insert_row_def be_insert_def leaf_apply_def maintain.simps LEAF_CAP_def
        vec_insert_def Let_def row_new_with_hlc_def)
  then show "map_option committed_epoch (newest_visible_map (mem_run inverted_ops) (snapshot_at 2) 1) = Some 1"
    by (simp add: newest_visible_map_fold fold_newest_def supersede_def row_newer_def stamp_of_def stamp_simps
        visible_to_def row_new_with_hlc_def snapshot_at_def less_HlcTimestamp_def hlc_key_def)
qed

end
