(* ===== verification/Memtable_Cursor.thy ===== *)
theory Memtable_Cursor
  imports Memtable_Visibility
begin

text \<open>
  The streaming merge over the segments of a memtable (\<open>MemtableVisibleVersionCursor\<close> of
  \<open>memtable.rs\<close>): one head per segment in a heap, the versions of a row gathered and folded, one
  version emitted per row. The \<open>BinaryHeap\<close> is a list kept in the order in which the heap pops; heads
  differ in their index, so the order is determined. A memtable has at most
  \<open>MAX_READ_GENERATION_LAYERS\<close> segments (\<open>segments_bound\<close>), so the index needs no width. The loops carry fuel, and
  \<open>None\<close> is running out of it; one unit per stored version is enough. The depth \<open>d\<close> bounds the height
  of the trees below.
\<close>

declare split_paired_All [simp del] split_paired_Ex [simp del]

section \<open>The cursor\<close>

definition CURSOR_GROUP_CHECKPOINT_INTERVAL :: nat where
  "CURSOR_GROUP_CHECKPOINT_INTERVAL = 256"

record mem_head =
  mh_rid :: RowId
  mh_epoch :: epoch
  mh_index :: nat
  mh_row :: row

definition mh_key :: "mem_head \<Rightarrow> RowId \<times> epoch \<times> nat" where
  "mh_key h = (mh_rid h, mh_epoch h, mh_index h)"

record mem_cursor =
  mc_segments :: "cursor list"
  mc_heap :: "mem_head list"
  mc_snapshot :: snapshot
  mc_primed :: bool
  mc_finished :: bool
  mc_last_examined :: nat
  mc_peak_examined :: nat

definition newest_visible_iter :: "memtable \<Rightarrow> snapshot \<Rightarrow> mem_cursor" where
  "newest_visible_iter m snap =
     \<lparr>mc_segments =
        map (\<lambda>seg. leaf_versions_iter (seg_tree seg)) (mt_frozen m) @ [leaf_versions_iter (seg_tree (mt_active m))],
      mc_heap = [], mc_snapshot = snap, mc_primed = False, mc_finished = False,
      mc_last_examined = 0, mc_peak_examined = 0\<rparr>"

definition is_exhausted :: "mem_cursor \<Rightarrow> bool" where
  "is_exhausted c = mc_finished c"

definition stats_zero :: cursor_stats where
  "stats_zero =
     \<lparr>active_frames = 0, peak_active_frames = 0, buffered_messages_owned = 0,
      peak_buffered_messages_owned = 0, total_versions_precollected = 0, versions_examined = 0,
      checkpoints = 0\<rparr>"

definition be_tree_cursor_stats :: "mem_cursor \<Rightarrow> cursor_stats" where
  "be_tree_cursor_stats c =
     foldl (\<lambda>total segment.
         (let stats = cursor_stats_total segment
          in \<lparr>active_frames = active_frames total + active_frames stats,
              peak_active_frames = max (peak_active_frames total) (peak_active_frames stats),
              buffered_messages_owned = buffered_messages_owned total + buffered_messages_owned stats,
              peak_buffered_messages_owned =
                max (peak_buffered_messages_owned total) (peak_buffered_messages_owned stats),
              total_versions_precollected =
                total_versions_precollected total + total_versions_precollected stats,
              versions_examined = versions_examined total + versions_examined stats,
              checkpoints = checkpoints total + checkpoints stats\<rparr>))
       stats_zero (mc_segments c)"

definition segment_next ::
    "'h control \<Rightarrow> nat \<Rightarrow> nat \<Rightarrow> mem_cursor \<Rightarrow> 'h \<Rightarrow> (MongrelError + row option) \<times> mem_cursor \<times> 'h" where
  "segment_next control d i c h =
     (case cursor_advance control d (mc_segments c ! i) h of
        (res, s, h') \<Rightarrow> (res, c\<lparr>mc_segments := (mc_segments c)[i := s]\<rparr>, h'))"

definition push_head :: "nat \<Rightarrow> row \<Rightarrow> mem_cursor \<Rightarrow> mem_cursor" where
  "push_head i r c =
     c\<lparr>mc_heap :=
         insort_key mh_key \<lparr>mh_rid = row_id r, mh_epoch = committed_epoch r, mh_index = i, mh_row = r\<rparr>
           (mc_heap c)\<rparr>"

text \<open>Advance one source and push its next version, as after every pop and when priming.\<close>

definition refill ::
    "'h control \<Rightarrow> nat \<Rightarrow> nat \<Rightarrow> mem_cursor \<Rightarrow> 'h \<Rightarrow> (MongrelError + unit) \<times> mem_cursor \<times> 'h" where
  "refill control d i c h =
     (case segment_next control d i c h of
        (Inl e, c', h') \<Rightarrow> (Inl e, c', h')
      | (Inr None, c', h') \<Rightarrow> (Inr (), c', h')
      | (Inr (Some r), c', h') \<Rightarrow> (Inr (), push_head i r c', h'))"

fun prime ::
    "'h control \<Rightarrow> nat \<Rightarrow> nat list \<Rightarrow> mem_cursor \<Rightarrow> 'h \<Rightarrow> (MongrelError + unit) \<times> mem_cursor \<times> 'h" where
  "prime control d [] c h = (Inr (), c, h)"
| "prime control d (i # is) c h =
     (case refill control d i c h of
        (Inl e, c', h') \<Rightarrow> (Inl e, c', h')
      | (Inr _, c', h') \<Rightarrow> prime control d is c' h')"

definition group_checkpoint :: "'h control \<Rightarrow> nat \<Rightarrow> 'h \<Rightarrow> (MongrelError + unit) \<times> 'h" where
  "group_checkpoint control gathered h =
     (if CURSOR_GROUP_CHECKPOINT_INTERVAL dvd gathered
      then (case control of None \<Rightarrow> (Inr (), h) | Some cp \<Rightarrow> cp h) else (Inr (), h))"

definition consider_head :: "snapshot \<Rightarrow> row option \<Rightarrow> mem_head \<Rightarrow> row option" where
  "consider_head snap best least =
     (if observes_version snap (mh_epoch least) (commit_ts (mh_row least)) \<and>
         (case best of
            None \<Rightarrow> True
          | Some current \<Rightarrow>
              version_supersedes (mh_epoch least) (commit_ts (mh_row least)) (committed_epoch current) (commit_ts current))
      then Some (mh_row least) else best)"

fun gather ::
    "nat \<Rightarrow> 'h control \<Rightarrow> nat \<Rightarrow> RowId \<Rightarrow> row option \<Rightarrow> nat \<Rightarrow> mem_cursor \<Rightarrow> 'h \<Rightarrow>
     ((MongrelError + row option) \<times> mem_cursor \<times> 'h) option" where
  "gather n control d rid best gathered c h =
     (case mc_heap c of
        [] \<Rightarrow> Some (Inr best, c, h)
      | least # others \<Rightarrow>
          if mh_rid least \<noteq> rid then Some (Inr best, c, h)
          else
            (case n of
               0 \<Rightarrow> None
             | Suc n' \<Rightarrow>
                 (case group_checkpoint control (gathered + 1) h of
                    (Inl e, h1) \<Rightarrow> Some (Inl e, c, h1)
                  | (Inr _, h1) \<Rightarrow>
                      (case refill control d (mh_index least)
                              (c\<lparr>mc_heap := others, mc_last_examined := mc_last_examined c + 1\<rparr>) h1 of
                         (Inl e, c', h2) \<Rightarrow> Some (Inl e, c', h2)
                       | (Inr _, c', h2) \<Rightarrow>
                           gather n' control d rid (consider_head (mc_snapshot c) best least) (gathered + 1) c' h2))))"

declare gather.simps [simp del]

fun advance_loop ::
    "nat \<Rightarrow> 'h control \<Rightarrow> nat \<Rightarrow> mem_cursor \<Rightarrow> 'h \<Rightarrow>
     ((MongrelError + (RowId \<times> epoch \<times> row) option) \<times> mem_cursor \<times> 'h) option" where
  "advance_loop n control d c h =
     (case mc_heap c of
        [] \<Rightarrow> Some (Inr None, c\<lparr>mc_finished := True\<rparr>, h)
      | least # others \<Rightarrow>
          (case n of
             0 \<Rightarrow> None
           | Suc n' \<Rightarrow>
               (case refill control d (mh_index least)
                       (c\<lparr>mc_heap := others, mc_last_examined := mc_last_examined c + 1\<rparr>) h of
                  (Inl e, c1, h1) \<Rightarrow> Some (Inl e, c1, h1)
                | (Inr _, c1, h1) \<Rightarrow>
                    if \<not> observes_version (mc_snapshot c) (mh_epoch least) (commit_ts (mh_row least))
                    then advance_loop n' control d c1 h1
                    else
                      (case gather n' control d (mh_rid least) (Some (mh_row least)) 0 c1 h1 of
                         None \<Rightarrow> None
                       | Some (Inl e, c2, h2) \<Rightarrow> Some (Inl e, c2, h2)
                       | Some (Inr None, c2, h2) \<Rightarrow> advance_loop n' control d c2 h2
                       | Some (Inr (Some best), c2, h2) \<Rightarrow>
                           Some (Inr (Some (row_id best, committed_epoch best, best)),
                             c2\<lparr>mc_peak_examined := max (mc_peak_examined c2) (mc_last_examined c2)\<rparr>, h2)))))"

declare advance_loop.simps [simp del]

definition advance_impl ::
    "nat \<Rightarrow> 'h control \<Rightarrow> nat \<Rightarrow> mem_cursor \<Rightarrow> 'h \<Rightarrow>
     ((MongrelError + (RowId \<times> epoch \<times> row) option) \<times> mem_cursor \<times> 'h) option" where
  "advance_impl n control d c h =
     (if mc_finished c then Some (Inr None, c, h)
      else
        (case (if mc_primed c then (Inr (), c, h)
               else (case prime control d [0..<length (mc_segments c)] c h of
                       (Inl e, c1, h1) \<Rightarrow> (Inl e, c1, h1)
                     | (Inr _, c1, h1) \<Rightarrow> (Inr (), c1\<lparr>mc_primed := True\<rparr>, h1))) of
           (Inl e, c1, h1) \<Rightarrow> Some (Inl e, c1, h1)
         | (Inr _, c1, h1) \<Rightarrow> advance_loop n control d (c1\<lparr>mc_last_examined := 0\<rparr>) h1))"

text \<open>The plain iterator, collected until its end.\<close>

fun mem_cursor_collect :: "nat \<Rightarrow> nat \<Rightarrow> nat \<Rightarrow> mem_cursor \<Rightarrow> (RowId \<times> epoch \<times> row) list option" where
  "mem_cursor_collect 0 n d c = None"
| "mem_cursor_collect (Suc k) n d c =
     (case advance_impl n None d c () of
        Some (Inr (Some item), c', _) \<Rightarrow> map_option ((#) item) (mem_cursor_collect k n d c')
      | Some (Inr None, _, _) \<Rightarrow> Some []
      | _ \<Rightarrow> None)"

section \<open>What the cursor still delivers\<close>

text \<open>The stream of a segment is its head and what its tree cursor holds. The indices in \<open>I\<close> await
  their next version.\<close>

definition streams :: "nat set \<Rightarrow> mem_cursor \<Rightarrow> row list list" where
  "streams I c =
     map (\<lambda>i. map mh_row (filter (\<lambda>h. mh_index h = i) (mc_heap c)) @
              (if i \<in> mh_index ` set (mc_heap c) \<union> I then remaining (mc_segments c ! i) else []))
       [0..<length (mc_segments c)]"

definition rest :: "nat set \<Rightarrow> mem_cursor \<Rightarrow> row list" where
  "rest I c = sort_key vkey_of (concat (streams I c))"

definition merge_ok :: "nat \<Rightarrow> nat set \<Rightarrow> mem_cursor \<Rightarrow> bool" where
  "merge_ok d I c \<longleftrightarrow>
     distinct (map mh_index (mc_heap c)) \<and> sorted (map mh_key (mc_heap c)) \<and>
     (\<forall>h\<in>set (mc_heap c). (mh_rid h, mh_epoch h) = vkey_of (mh_row h)) \<and>
     I \<inter> mh_index ` set (mc_heap c) = {} \<and>
     (\<forall>i\<in>mh_index ` set (mc_heap c) \<union> I.
        i < length (mc_segments c) \<and> wf_cursor (mc_segments c ! i) \<and> fits d (mc_segments c ! i)) \<and>
     (\<forall>s\<in>set (streams I c). sorted (map vkey_of s))"

lemma merge_okD:
  assumes "merge_ok d I c"
  shows "h \<in> set (mc_heap c) \<Longrightarrow> (mh_rid h, mh_epoch h) = vkey_of (mh_row h)"
    and "s \<in> set (streams I c) \<Longrightarrow> sorted (map vkey_of s)"
  using assms unfolding merge_ok_def by blast+

definition same_frame :: "mem_cursor \<Rightarrow> mem_cursor \<Rightarrow> bool" where
  "same_frame c c' \<longleftrightarrow>
     mc_snapshot c' = mc_snapshot c \<and> mc_primed c' = mc_primed c \<and> mc_finished c' = mc_finished c \<and>
     length (mc_segments c') = length (mc_segments c)"

lemma same_frame_refl [simp]: "same_frame c c"
  by (simp add: same_frame_def)

lemma same_frame_trans [trans]: "same_frame a b \<Longrightarrow> same_frame b c \<Longrightarrow> same_frame a c"
  by (simp add: same_frame_def)

lemma length_streams [simp]: "length (streams I c) = length (mc_segments c)"
  by (simp add: streams_def)

lemma streams_nth:
  "i < length (mc_segments c) \<Longrightarrow> streams I c ! i =
     map mh_row (filter (\<lambda>h. mh_index h = i) (mc_heap c)) @
       (if i \<in> mh_index ` set (mc_heap c) \<union> I then remaining (mc_segments c ! i) else [])"
  by (simp add: streams_def)

lemma streams_cong:
  "mc_heap c' = mc_heap c \<Longrightarrow> mc_segments c' = mc_segments c \<Longrightarrow> streams I c' = streams I c"
  by (simp add: streams_def)

lemma merge_ok_cong:
  "mc_heap c' = mc_heap c \<Longrightarrow> mc_segments c' = mc_segments c \<Longrightarrow> merge_ok d I c' = merge_ok d I c"
  by (simp add: merge_ok_def streams_cong [of c' c])

lemma rest_cong:
  "mc_heap c' = mc_heap c \<Longrightarrow> mc_segments c' = mc_segments c \<Longrightarrow> rest I c' = rest I c"
  by (simp add: rest_def streams_cong [of c' c])

lemma no_head: "i \<notin> mh_index ` set hs \<Longrightarrow> filter (\<lambda>h. mh_index h = i) hs = []"
  by (auto simp: filter_empty_conv)

lemma refill_ok:
  assumes ok: "merge_ok d I c" and i: "i \<in> I" and out: "refill control d i c h = (res, c', h')"
  shows "case res of Inl _ \<Rightarrow> control \<noteq> None
    | Inr _ \<Rightarrow> merge_ok d (I - {i}) c' \<and> rest (I - {i}) c' = rest I c \<and> same_frame c c'"
proof -
  obtain r s h1 where adv: "cursor_advance control d (mc_segments c ! i) h = (r, s, h1)" by (metis prod_cases3)
  have seg: "i < length (mc_segments c)" "wf_cursor (mc_segments c ! i)" "fits d (mc_segments c ! i)"
    and free: "i \<notin> mh_index ` set (mc_heap c)" and srt: "sorted (map mh_key (mc_heap c))"
    using ok i by (auto simp: merge_ok_def)
  note Y = cursor_advance_yields [OF seg(2,3), of control h, unfolded adv yields_def fst_conv snd_conv]
  show ?thesis
  proof (cases r)
    case (Inl e)
    with out adv Y show ?thesis by (auto simp: refill_def segment_next_def)
  next
    case (Inr o1)
    show ?thesis
    proof (cases o1)
      case None
      with out adv Inr have c': "res = Inr ()" "c' = c\<lparr>mc_segments := (mc_segments c)[i := s]\<rparr>"
        by (auto simp: refill_def segment_next_def)
      have "streams (I - {i}) c' = streams I c"
      proof (rule nth_equalityI)
        fix j assume "j < length (streams (I - {i}) c')"
        then show "streams (I - {i}) c' ! j = streams I c ! j"
          using Y Inr None free i by (cases "j = i") (simp_all add: c' streams_nth no_head)
      qed (simp add: c')
      moreover have "\<forall>j\<in>mh_index ` set (mc_heap c) \<union> (I - {i}). j \<noteq> i" using free by auto
      ultimately show ?thesis
        using ok i by (auto simp: c' merge_ok_def rest_def same_frame_def nth_list_update)
    next
      case (Some v)
      let ?h = "\<lparr>mh_rid = row_id v, mh_epoch = committed_epoch v, mh_index = i, mh_row = v\<rparr>"
      from out adv Inr Some have c': "res = Inr ()"
        "c' = c\<lparr>mc_segments := (mc_segments c)[i := s], mc_heap := insort_key mh_key ?h (mc_heap c)\<rparr>"
        by (auto simp: refill_def segment_next_def push_head_def)
      have s: "remaining (mc_segments c ! i) = v # remaining s" "wf_cursor s" "fits d s"
        using Y Inr Some by (simp_all add: Let_def)
      have heads: "filter (\<lambda>x. mh_index x = j) (insort_key mh_key ?h (mc_heap c)) =
          (if j = i then [?h] else filter (\<lambda>x. mh_index x = j) (mc_heap c))" for j
        using srt free by (simp add: filter_insort filter_insort_triv no_head)
      have streams: "streams (I - {i}) c' = streams I c"
      proof (rule nth_equalityI)
        fix j assume "j < length (streams (I - {i}) c')"
        then show "streams (I - {i}) c' ! j = streams I c ! j"
          using s free i by (cases "j = i") (simp_all add: c' streams_nth heads no_head set_insort_key)
      qed (simp add: c')
      have "distinct (map mh_index (mc_heap c'))"
      proof -
        have "mset (map mh_index (mc_heap c')) = mset (i # map mh_index (mc_heap c))" by (simp add: c')
        then show ?thesis using ok free
          by (metis (no_types, lifting) distinct.simps(2) image_set merge_ok_def mset_eq_imp_distinct_iff)
      qed
      then have "merge_ok d (I - {i}) c'"
        using ok i s seg free unfolding merge_ok_def streams
        by (auto simp: c' nth_list_update set_insort_key sorted_insort_key vkey_of_def)
      moreover have "same_frame c c'" by (simp add: c' same_frame_def)
      ultimately show ?thesis by (simp add: c'(1) streams rest_def)
    qed
  qed
qed

text \<open>The least head is the next version of the whole merge.\<close>

lemma sort_key_pull:
  assumes "\<forall>a\<in>set as. f x < f a" and "\<forall>b\<in>set bs. f x \<le> f b"
  shows "sort_key f (as @ x # bs) = x # sort_key f (as @ bs)"
proof (rule properties_for_sort_key)
  show "filter (\<lambda>y. f k = f y) (x # sort_key f (as @ bs)) = filter (\<lambda>y. f k = f y) (as @ x # bs)" for k
  proof (cases "f k = f x")
    case True
    then have "filter (\<lambda>y. f k = f y) as = []" using assms(1) by (auto simp: filter_empty_conv)
    with True show ?thesis using sort_key_stable [of f "f x" "as @ bs"] by (simp add: eq_commute)
  next
    case False
    then show ?thesis using sort_key_stable [of f "f k" "as @ bs"] by (simp add: eq_commute)
  qed
  show "sorted (map f (x # sort_key f (as @ bs)))" using assms by (auto simp: less_imp_le)
qed simp

lemma sort_concat_pull:
  assumes "i < length ss" and "\<And>j y. j < i \<Longrightarrow> y \<in> set (ss ! j) \<Longrightarrow> f x < f y"
    and "\<And>j y. i \<le> j \<Longrightarrow> j < length ss \<Longrightarrow> y \<in> set (ss ! j) \<Longrightarrow> f x \<le> f y"
  shows "sort_key f (concat (ss[i := x # ss ! i])) = x # sort_key f (concat ss)"
proof -
  let ?as = "concat (take i ss)" and ?bs = "ss ! i @ concat (drop (Suc i) ss)"
  have "concat (ss[i := x # ss ! i]) = ?as @ x # ?bs" using assms(1) by (simp add: upd_conv_take_nth_drop)
  moreover have "concat ss = ?as @ ?bs" using assms(1) by (subst id_take_nth_drop [of i ss]) simp_all
  moreover have "\<forall>a\<in>set ?as. f x < f a" using assms(1,2) by (fastforce simp: in_set_conv_nth)
  moreover have "\<forall>b\<in>set ?bs. f x \<le> f b"
  proof
    fix b assume "b \<in> set ?bs"
    then consider "b \<in> set (ss ! i)" | s where "s \<in> set (drop (Suc i) ss)" "b \<in> set s" by auto
    then show "f x \<le> f b"
    proof cases
      case 1
      then show ?thesis using assms(1) by (intro assms(3) [of i]) simp_all
    next
      case 2
      then obtain j where "j < length ss - Suc i" "s = ss ! (Suc i + j)" by (auto simp: in_set_conv_nth)
      with 2 show ?thesis by (intro assms(3) [of "Suc i + j"]) simp_all
    qed
  qed
  ultimately show ?thesis using sort_key_pull [of ?as f x ?bs] by simp
qed

lemma stream_bound:
  assumes "merge_ok d {} c" and "j < length (mc_segments c)" and "y \<in> set (streams {} c ! j)"
  obtains h where "h \<in> set (mc_heap c)" and "mh_index h = j" and "vkey_of (mh_row h) \<le> vkey_of y"
proof -
  have "filter (\<lambda>h. mh_index h = j) (mc_heap c) \<noteq> []"
    using assms(3) streams_nth [OF assms(2), of "{}"] by (auto simp: filter_empty_conv split: if_splits)
  then obtain h hs where hs: "filter (\<lambda>h. mh_index h = j) (mc_heap c) = h # hs" by (auto simp: neq_Nil_conv)
  then have "h \<in> set (filter (\<lambda>h. mh_index h = j) (mc_heap c))" by simp
  then have h: "h \<in> set (mc_heap c)" "mh_index h = j" by simp_all
  have "streams {} c ! j \<in> set (streams {} c)" using assms(2) by simp
  then have "sorted (map vkey_of (streams {} c ! j))" by (rule merge_okD(2) [OF assms(1)])
  then have "vkey_of (mh_row h) \<le> vkey_of y"
    using assms(3) unfolding streams_nth [OF assms(2)] hs by auto
  with h that show ?thesis by blast
qed

lemma mh_key_order:
  assumes "mh_key a \<le> mh_key b"
  shows "(mh_rid a, mh_epoch a) \<le> (mh_rid b, mh_epoch b)"
    and "mh_index b < mh_index a \<Longrightarrow> (mh_rid a, mh_epoch a) < (mh_rid b, mh_epoch b)"
  using assms by (auto simp: mh_key_def)

lemma pop_ok:
  assumes ok: "merge_ok d {} c" and heap: "mc_heap c = least # others"
    and c1: "mc_heap c1 = others" "mc_segments c1 = mc_segments c"
  shows "merge_ok d {mh_index least} c1" and "rest {} c = mh_row least # rest {mh_index least} c1"
proof -
  let ?i = "mh_index least" and ?x = "mh_row least"
  have i: "?i < length (mc_segments c)" and fresh: "?i \<notin> mh_index ` set others"
    and key: "(mh_rid least, mh_epoch least) = vkey_of ?x"
    and srt: "\<forall>h\<in>set others. mh_key least \<le> mh_key h"
    using ok heap by (auto simp: merge_ok_def)
  have str: "streams {} c = (streams {?i} c1)[?i := ?x # streams {?i} c1 ! ?i]"
  proof (rule nth_equalityI)
    fix j assume "j < length (streams {} c)"
    then have j: "j < length (mc_segments c)" "j < length (mc_segments c1)" by (simp_all add: c1)
    show "streams {} c ! j = (streams {?i} c1)[?i := ?x # streams {?i} c1 ! ?i] ! j"
      using j fresh by (cases "j = ?i") (auto simp: streams_nth heap c1 no_head nth_list_update)
  qed (simp add: c1)
  have sorted_c1: "sorted (map vkey_of (streams {?i} c1 ! j))" if "j < length (mc_segments c1)" for j
  proof -
    have "streams {} c ! j \<in> set (streams {} c)" using that by (simp add: c1)
    then have "sorted (map vkey_of (streams {} c ! j))" by (rule merge_okD(2) [OF ok])
    then show ?thesis using that by (cases "j = ?i") (simp_all add: str nth_list_update)
  qed
  then have "\<forall>s\<in>set (streams {?i} c1). sorted (map vkey_of s)" by (auto simp: in_set_conv_nth)
  then show "merge_ok d {?i} c1" using ok heap fresh by (auto simp: merge_ok_def c1)
  show "rest {} c = ?x # rest {?i} c1"
    unfolding rest_def str
  proof (rule sort_concat_pull)
    show "?i < length (streams {?i} c1)" using i by (simp add: c1)
  next
    fix j y assume j: "j < ?i" and y: "y \<in> set (streams {?i} c1 ! j)"
    then have len: "j < length (mc_segments c)" using i by simp
    have "y \<in> set (streams {} c ! j)" using y j unfolding str by simp
    then obtain h where h: "h \<in> set (mc_heap c)" "mh_index h = j" "vkey_of (mh_row h) \<le> vkey_of y"
      by (rule stream_bound [OF ok len])
    then have "h \<in> set others" using heap j by auto
    then have "mh_key least \<le> mh_key h" using srt by blast
    moreover have "(mh_rid h, mh_epoch h) = vkey_of (mh_row h)" by (rule merge_okD(1) [OF ok h(1)])
    ultimately have "vkey_of ?x < vkey_of (mh_row h)"
      using j h(2) mh_key_order(2) [of least h] unfolding key [symmetric] by metis
    with h(3) show "vkey_of ?x < vkey_of y" by simp
  next
    fix j y assume j: "?i \<le> j" "j < length (streams {?i} c1)" and y: "y \<in> set (streams {?i} c1 ! j)"
    then have len: "j < length (mc_segments c)" by (simp add: c1)
    have "y \<in> set (streams {} c ! j)" using y j unfolding str by (cases "j = ?i") auto
    then obtain h where h: "h \<in> set (mc_heap c)" "mh_index h = j" "vkey_of (mh_row h) \<le> vkey_of y"
      by (rule stream_bound [OF ok len])
    then have "mh_key least \<le> mh_key h" using srt heap by auto
    moreover have "(mh_rid h, mh_epoch h) = vkey_of (mh_row h)" by (rule merge_okD(1) [OF ok h(1)])
    ultimately have "vkey_of ?x \<le> vkey_of (mh_row h)"
      using mh_key_order(1) [of least h] unfolding key [symmetric] by metis
    with h(3) show "vkey_of ?x \<le> vkey_of y" by simp
  qed
qed

lemma rest_empty: "merge_ok d {} c \<Longrightarrow> mc_heap c = [] \<Longrightarrow> rest {} c = []"
  by (simp add: rest_def streams_def concat_eq_Nil_conv [THEN iffD2])

section \<open>The loops\<close>

lemma take_ok:
  assumes ok: "merge_ok d {} c" and heap: "mc_heap c = least # others"
    and out: "refill control d (mh_index least) (c\<lparr>mc_heap := others, mc_last_examined := k\<rparr>) h = (res, c', h')"
  shows "case res of Inl _ \<Rightarrow> control \<noteq> None
    | Inr _ \<Rightarrow> merge_ok d {} c' \<and> rest {} c = mh_row least # rest {} c' \<and> same_frame c c'"
proof -
  let ?c = "c\<lparr>mc_heap := others, mc_last_examined := k\<rparr>"
  note pop = pop_ok [OF ok heap, of ?c, simplified]
  show ?thesis
    using refill_ok [OF pop(1) _ out] pop(2) by (auto simp: same_frame_def split: sum.splits)
qed

lemma consider_head_eq:
  "(mh_rid h, mh_epoch h) = vkey_of (mh_row h) \<Longrightarrow> consider_head snap best h = supersede_visible snap best (mh_row h)"
  by (auto simp: consider_head_def supersede_visible_def observes_row_def vkey_of_def split: option.splits)

lemma group_checkpoint_error: "group_checkpoint control g h = (Inl e, h') \<Longrightarrow> control \<noteq> None"
  by (auto simp: group_checkpoint_def split: if_splits option.splits)

definition gathers ::
    "bool \<Rightarrow> nat \<Rightarrow> mem_cursor \<Rightarrow> RowId \<Rightarrow> row option \<Rightarrow> (MongrelError + row option) \<times> mem_cursor \<times> 'h \<Rightarrow> bool" where
  "gathers free d c rid best out \<longleftrightarrow>
     (case fst out of
        Inl _ \<Rightarrow> \<not> free
      | Inr b \<Rightarrow>
          (let c' = fst (snd out)
           in b = foldl (supersede_visible (mc_snapshot c)) best (takeWhile (\<lambda>r. row_id r = rid) (rest {} c)) \<and>
              rest {} c' = dropWhile (\<lambda>r. row_id r = rid) (rest {} c) \<and> merge_ok d {} c' \<and> same_frame c c'))"

lemma gathers_step:
  assumes "gathers free d c2 rid (supersede_visible (mc_snapshot c) best r) out"
    and "rest {} c = r # rest {} c2" and "row_id r = rid" and "same_frame c c2"
  shows "gathers free d c rid best out"
  using assms same_frame_trans [OF assms(4)]
  by (auto simp: gathers_def Let_def same_frame_def split: sum.splits)

lemma gather_ok:
  assumes "merge_ok d {} c" and "length (rest {} c) \<le> n"
  shows "\<exists>out. gather n control d rid best g c h = Some out \<and> gathers (control = None) d c rid best out"
  using assms
proof (induction n arbitrary: best g c h)
  case 0
  then have "mc_heap c = []" using pop_ok(2) [OF 0(1), of _ _ "c\<lparr>mc_heap := tl (mc_heap c)\<rparr>"]
    by (cases "mc_heap c") simp_all
  with 0 show ?case by (subst gather.simps) (simp add: gathers_def)
next
  case (Suc n)
  show ?case
  proof (cases "mc_heap c")
    case Nil
    with rest_empty [OF Suc.prems(1) Nil] Suc.prems(1) show ?thesis by (subst gather.simps) (simp add: gathers_def)
  next
    case (Cons least others)
    let ?c = "c\<lparr>mc_heap := others, mc_last_examined := mc_last_examined c + 1\<rparr>"
    have key: "(mh_rid least, mh_epoch least) = vkey_of (mh_row least)"
      using Cons by (intro merge_okD(1) [OF Suc.prems(1)]) simp
    then have rid: "row_id (mh_row least) = mh_rid least" by (simp add: vkey_of_def)
    have rest: "rest {} c = mh_row least # rest {mh_index least} ?c"
      by (rule pop_ok(2) [OF Suc.prems(1) Cons]) simp_all
    obtain r1 h1 where cp: "group_checkpoint control (g + 1) h = (r1, h1)" by (metis prod.exhaust)
    obtain r2 c2 h2 where rf: "refill control d (mh_index least) ?c h1 = (r2, c2, h2)" by (metis prod_cases3)
    note T = take_ok [OF Suc.prems(1) Cons rf]
    show ?thesis
    proof (cases "mh_rid least = rid")
      case False
      with Cons rest rid Suc.prems(1) show ?thesis by (subst gather.simps) (simp add: gathers_def)
    next
      case True
      show ?thesis
      proof (cases r1)
        case (Inl e)
        with True Cons cp group_checkpoint_error [of control "g + 1" h e h1] show ?thesis
          by (subst gather.simps) (simp add: gathers_def)
      next
        case (Inr u1)
        show ?thesis
        proof (cases r2)
          case (Inl e)
          with True Cons cp Inr rf T show ?thesis by (subst gather.simps) (simp add: gathers_def)
        next
          case (Inr u2)
          with T have c2: "merge_ok d {} c2" "rest {} c = mh_row least # rest {} c2" "same_frame c c2" by simp_all
          have "gather (Suc n) control d rid best g c h =
              gather n control d rid (consider_head (mc_snapshot c) best least) (g + 1) c2 h2"
            using True Cons cp \<open>r1 = Inr u1\<close> Inr rf by (subst gather.simps) simp
          moreover obtain out where "gather n control d rid (consider_head (mc_snapshot c) best least) (g + 1) c2 h2 = Some out"
            and "gathers (control = None) d c2 rid (consider_head (mc_snapshot c) best least) out"
            using Suc.IH [OF c2(1)] c2(2) Suc.prems(2) by force
          ultimately show ?thesis
            using gathers_step [OF _ c2(2) _ c2(3), of "control = None" d rid best out] rid True
            by (auto simp: consider_head_eq [OF key])
        qed
      qed
    qed
  qed
qed

text \<open>What a row list in merge order emits.\<close>

function emit :: "snapshot \<Rightarrow> row list \<Rightarrow> row list" where
  "emit snap [] = []"
| "emit snap (r # rs) =
     (if visible_to snap r
      then the (foldl (supersede_visible snap) (Some r) (takeWhile (\<lambda>x. row_id x = row_id r) rs)) #
           emit snap (dropWhile (\<lambda>x. row_id x = row_id r) rs)
      else emit snap rs)"
  by pat_completeness auto
termination
  by (relation "measure (\<lambda>(snap, rs). length rs)") (auto simp: length_dropWhile_le le_imp_less_Suc)

lemma foldl_supersede_visible_Some: "\<exists>w. foldl (supersede_visible snap) (Some r) xs = Some w"
  by (induction xs arbitrary: r) (auto simp: supersede_visible_def)

definition advances ::
    "bool \<Rightarrow> nat \<Rightarrow> mem_cursor \<Rightarrow> (MongrelError + (RowId \<times> epoch \<times> row) option) \<times> mem_cursor \<times> 'h \<Rightarrow> bool" where
  "advances free d c out \<longleftrightarrow>
     (let c' = fst (snd out)
      in case fst out of
           Inl _ \<Rightarrow> \<not> free
         | Inr None \<Rightarrow> emit (mc_snapshot c) (rest {} c) = [] \<and> mc_finished c'
         | Inr (Some item) \<Rightarrow>
             (\<exists>w. item = (row_id w, committed_epoch w, w) \<and>
               emit (mc_snapshot c) (rest {} c) = w # emit (mc_snapshot c) (rest {} c') \<and>
               merge_ok d {} c' \<and> same_frame c c' \<and> length (rest {} c') < length (rest {} c)))"

lemma advances_skip:
  assumes "advances free d c1 out" and "rest {} c = r # rest {} c1" and "\<not> visible_to (mc_snapshot c) r"
    and "same_frame c c1"
  shows "advances free d c out"
  using assms same_frame_trans [OF assms(4)]
  by (auto simp: advances_def Let_def same_frame_def split: sum.splits option.splits)

lemma advance_loop_ok:
  assumes "merge_ok d {} c" and "length (rest {} c) \<le> n"
  shows "\<exists>out. advance_loop n control d c h = Some out \<and> advances (control = None) d c out"
  using assms
proof (induction n arbitrary: c h)
  case 0
  then have "mc_heap c = []" using pop_ok(2) [OF 0(1), of _ _ "c\<lparr>mc_heap := tl (mc_heap c)\<rparr>"]
    by (cases "mc_heap c") simp_all
  with 0 show ?case by (subst advance_loop.simps) (simp add: advances_def)
next
  case (Suc n)
  show ?case
  proof (cases "mc_heap c")
    case Nil
    with rest_empty [OF Suc.prems(1) Nil] show ?thesis by (subst advance_loop.simps) (simp add: advances_def)
  next
    case (Cons least others)
    let ?c = "c\<lparr>mc_heap := others, mc_last_examined := mc_last_examined c + 1\<rparr>"
    have key: "(mh_rid least, mh_epoch least) = vkey_of (mh_row least)"
      using Cons by (intro merge_okD(1) [OF Suc.prems(1)]) simp
    then have rid: "mh_rid least = row_id (mh_row least)"
      and vis: "observes_version (mc_snapshot c) (mh_epoch least) (commit_ts (mh_row least)) =
        visible_to (mc_snapshot c) (mh_row least)" by (simp_all add: vkey_of_def visible_to_def)
    obtain r1 c1 h1 where rf: "refill control d (mh_index least) ?c h = (r1, c1, h1)" by (metis prod_cases3)
    note T = take_ok [OF Suc.prems(1) Cons rf]
    show ?thesis
    proof (cases r1)
      case (Inl e)
      with Cons rf T show ?thesis by (subst advance_loop.simps) (simp add: advances_def)
    next
      case (Inr u)
      with T have c1: "merge_ok d {} c1" "rest {} c = mh_row least # rest {} c1" "same_frame c c1" by simp_all
      have le: "length (rest {} c1) \<le> n" using c1(2) Suc.prems(2) by simp
      show ?thesis
      proof (cases "visible_to (mc_snapshot c) (mh_row least)")
        case False
        then have step: "advance_loop (Suc n) control d c h = advance_loop n control d c1 h1"
          using Cons rf Inr vis by (subst advance_loop.simps) (simp add: advances_def)
        show ?thesis
          unfolding step using Suc.IH [OF c1(1) le, of h1] advances_skip [OF _ c1(2) False c1(3)] by blast
      next
        case True
        obtain res c2 h2 where g: "gather n control d (mh_rid least) (Some (mh_row least)) 0 c1 h1 = Some (res, c2, h2)"
          and "gathers (control = None) d c1 (mh_rid least) (Some (mh_row least)) (res, c2, h2)"
          using gather_ok [OF c1(1) le, of control "mh_rid least" "Some (mh_row least)" 0 h1] by auto
        note G = this(2) [unfolded gathers_def fst_conv snd_conv Let_def]
        show ?thesis
        proof (cases res)
          case (Inl e)
          with True Cons rf \<open>r1 = Inr u\<close> vis g G show ?thesis by (subst advance_loop.simps) (simp add: advances_def)
        next
          case (Inr b)
          obtain w where w: "foldl (supersede_visible (mc_snapshot c1)) (Some (mh_row least))
                (takeWhile (\<lambda>r. row_id r = mh_rid least) (rest {} c1)) = Some w"
            using foldl_supersede_visible_Some by blast
          let ?c3 = "c2\<lparr>mc_peak_examined := max (mc_peak_examined c2) (mc_last_examined c2)\<rparr>"
          have "b = Some w" using G Inr w by simp
          then have out: "advance_loop (Suc n) control d c h =
              Some (Inr (Some (row_id w, committed_epoch w, w)), ?c3, h2)"
            using True Cons rf \<open>r1 = Inr u\<close> vis g Inr by (subst advance_loop.simps) (simp add: advances_def)
          have c3: "rest {} ?c3 = rest {} c2" "merge_ok d {} ?c3 = merge_ok d {} c2"
            by (simp_all add: rest_cong [of ?c3 c2] merge_ok_cong [of ?c3 c2])
          have snap: "mc_snapshot c1 = mc_snapshot c" using c1(3) by (simp add: same_frame_def)
          have "emit (mc_snapshot c) (rest {} c) = w # emit (mc_snapshot c) (rest {} ?c3)"
            unfolding c3 using True w G Inr by (simp add: c1(2) rid snap)
          moreover have "length (rest {} ?c3) < length (rest {} c)"
            unfolding c3 using G Inr by (simp add: c1(2) length_dropWhile_le le_imp_less_Suc)
          moreover have "same_frame c ?c3" using G Inr c1(3) by (simp add: same_frame_def)
          ultimately show ?thesis unfolding out using G Inr c3 by (simp add: advances_def)
        qed
      qed
    qed
  qed
qed

section \<open>The whole iteration\<close>

lemma prime_ok:
  "merge_ok d (set is) c \<Longrightarrow> distinct is \<Longrightarrow> prime control d is c h = (res, c', h') \<Longrightarrow>
   (case res of Inl _ \<Rightarrow> control \<noteq> None
    | Inr _ \<Rightarrow> merge_ok d {} c' \<and> rest {} c' = rest (set is) c \<and> same_frame c c')"
proof (induction "is" arbitrary: c h)
  case Nil
  then show ?case by auto
next
  case (Cons i "is")
  obtain r1 c1 h1 where rf: "refill control d i c h = (r1, c1, h1)" by (metis prod_cases3)
  have "set (i # is) - {i} = set is" using Cons.prems(2) by auto
  note R = refill_ok [OF Cons.prems(1) _ rf, unfolded this]
  show ?case
  proof (cases r1)
    case (Inl e)
    with R rf Cons.prems(3) show ?thesis by auto
  next
    case (Inr u)
    then have c1: "merge_ok d (set is) c1" "rest (set is) c1 = rest (set (i # is)) c" "same_frame c c1"
      using R by simp_all
    have "prime control d is c1 h1 = (res, c', h')" using Inr rf Cons.prems(3) by simp
    from Cons.IH [OF c1(1) _ this] Cons.prems(2) c1 show ?thesis
      by (auto simp: same_frame_def split: sum.splits)
  qed
qed

text \<open>A cursor between two calls, before or after the first.\<close>

definition awaiting :: "mem_cursor \<Rightarrow> nat set" where
  "awaiting c = (if mc_primed c then {} else {..<length (mc_segments c)})"

definition ready :: "nat \<Rightarrow> mem_cursor \<Rightarrow> bool" where
  "ready d c \<longleftrightarrow> \<not> mc_finished c \<and> merge_ok d (awaiting c) c"

definition pending_rows :: "mem_cursor \<Rightarrow> row list" where
  "pending_rows c = rest (awaiting c) c"

lemma advance_impl_ok:
  assumes "ready d c" and "length (pending_rows c) \<le> n"
  shows "\<exists>res c' h'. advance_impl n control d c h = Some (res, c', h') \<and>
    (case res of
       Inl _ \<Rightarrow> control \<noteq> None
     | Inr None \<Rightarrow> emit (mc_snapshot c) (pending_rows c) = [] \<and> is_exhausted c'
     | Inr (Some item) \<Rightarrow>
         (\<exists>w. item = (row_id w, committed_epoch w, w) \<and>
           emit (mc_snapshot c) (pending_rows c) = w # emit (mc_snapshot c) (pending_rows c') \<and>
           ready d c' \<and> mc_snapshot c' = mc_snapshot c \<and> length (pending_rows c') < length (pending_rows c)))"
proof -
  have loop: "\<exists>res c' h'. advance_loop n control d (c1\<lparr>mc_last_examined := 0\<rparr>) h1 = Some (res, c', h') \<and>
    (case res of
       Inl _ \<Rightarrow> control \<noteq> None
     | Inr None \<Rightarrow> emit (mc_snapshot c) (pending_rows c) = [] \<and> is_exhausted c'
     | Inr (Some item) \<Rightarrow>
         (\<exists>w. item = (row_id w, committed_epoch w, w) \<and>
           emit (mc_snapshot c) (pending_rows c) = w # emit (mc_snapshot c) (pending_rows c') \<and>
           ready d c' \<and> mc_snapshot c' = mc_snapshot c \<and> length (pending_rows c') < length (pending_rows c)))"
    if "merge_ok d {} c1" "rest {} c1 = pending_rows c" "mc_primed c1" "\<not> mc_finished c1"
      "mc_snapshot c1 = mc_snapshot c" for c1 h1
  proof -
    let ?c = "c1\<lparr>mc_last_examined := 0\<rparr>"
    have eq: "merge_ok d {} ?c = merge_ok d {} c1" "rest {} ?c = rest {} c1"
      by (simp_all add: merge_ok_cong [of ?c c1] rest_cong [of ?c c1])
    have ok: "merge_ok d {} ?c" "length (rest {} ?c) \<le> n" using that(1,2) assms(2) by (simp_all only: eq)
    obtain out where "advance_loop n control d ?c h1 = Some out" "advances (control = None) d ?c out"
      using advance_loop_ok [OF ok, of control h1] by blast
    then show ?thesis
      using that by (cases out)
        (auto simp: advances_def eq Let_def is_exhausted_def ready_def pending_rows_def awaiting_def same_frame_def
          split: sum.splits option.splits)
  qed
  show ?thesis
  proof (cases "mc_primed c")
    case True
    then show ?thesis
      using loop [of c h] assms(1) by (simp add: advance_impl_def ready_def pending_rows_def awaiting_def)
  next
    case False
    obtain r1 c1 h1 where p: "prime control d [0..<length (mc_segments c)] c h = (r1, c1, h1)" by (metis prod_cases3)
    have set: "set [0..<length (mc_segments c)] = awaiting c" using False by (auto simp: awaiting_def)
    have ok: "merge_ok d (set [0..<length (mc_segments c)]) c" unfolding set using assms(1) by (simp add: ready_def)
    note P = prime_ok [OF ok distinct_upt p, unfolded set]
    show ?thesis
    proof (cases r1)
      case (Inl e)
      with False P p assms(1) show ?thesis by (simp add: advance_impl_def ready_def)
    next
      case (Inr u)
      let ?c = "c1\<lparr>mc_primed := True\<rparr>"
      have "merge_ok d {} ?c" "rest {} ?c = pending_rows c"
        using P Inr by (simp_all add: merge_ok_cong [of ?c c1] rest_cong [of ?c c1] pending_rows_def)
      moreover have "\<not> mc_finished ?c" "mc_snapshot ?c = mc_snapshot c"
        using P Inr assms(1) by (simp_all add: same_frame_def ready_def)
      ultimately show ?thesis
        using loop [of ?c h1] False p Inr assms(1) by (simp add: advance_impl_def ready_def)
    qed
  qed
qed

lemma mem_cursor_collect_ok:
  assumes "ready d c" and "length (pending_rows c) \<le> n" and "length (pending_rows c) < k"
  shows "mem_cursor_collect k n d c =
    Some (map (\<lambda>w. (row_id w, committed_epoch w, w)) (emit (mc_snapshot c) (pending_rows c)))"
  using assms
proof (induction k arbitrary: c)
  case 0
  then show ?case by simp
next
  case (Suc k)
  obtain res c' h' where a: "advance_impl n None d c () = Some (res, c', h')"
    and A: "case res of
       Inl _ \<Rightarrow> None \<noteq> (None :: unit control)
     | Inr None \<Rightarrow> emit (mc_snapshot c) (pending_rows c) = [] \<and> is_exhausted c'
     | Inr (Some item) \<Rightarrow>
         (\<exists>w. item = (row_id w, committed_epoch w, w) \<and>
           emit (mc_snapshot c) (pending_rows c) = w # emit (mc_snapshot c) (pending_rows c') \<and>
           ready d c' \<and> mc_snapshot c' = mc_snapshot c \<and> length (pending_rows c') < length (pending_rows c))"
    using advance_impl_ok [OF Suc.prems(1,2), of None "()"] by blast
  show ?case
  proof (cases res)
    case (Inl e)
    with A show ?thesis by simp
  next
    case (Inr o1)
    show ?thesis
    proof (cases o1)
      case None
      with a A Inr show ?thesis by simp
    next
      case (Some item)
      with A Inr obtain w where w: "item = (row_id w, committed_epoch w, w)"
        "emit (mc_snapshot c) (pending_rows c) = w # emit (mc_snapshot c) (pending_rows c')"
        "ready d c'" "mc_snapshot c' = mc_snapshot c" "length (pending_rows c') < length (pending_rows c)" by auto
      have "length (pending_rows c') \<le> n" "length (pending_rows c') < k" using w(5) Suc.prems(2,3) by simp_all
      from Suc.IH [OF w(3) this] a Inr Some w show ?thesis by simp
    qed
  qed
qed

lemma sort_concat_sorted: "sort_key f (concat (map (sort_key f) xss)) = sort_key f (concat xss)"
proof (rule properties_for_sort_key)
  show "mset (sort_key f (concat xss)) = mset (concat (map (sort_key f) xss))" by (induction xss) simp_all
  show "filter (\<lambda>x. f k = f x) (sort_key f (concat xss)) = filter (\<lambda>x. f k = f x) (concat (map (sort_key f) xss))" for k
    using sort_key_stable [of f "f k"] by (simp add: filter_concat comp_def eq_commute [of "f k"])
qed simp

lemma newest_visible_iter_ok:
  assumes "mem_inv m" and "\<forall>seg\<in>set (segments m). height (root (seg_tree seg)) \<le> d"
  shows "ready d (newest_visible_iter m snap)" and "pending_rows (newest_visible_iter m snap) = sort_key vkey_of (mem_rows m)"
proof -
  let ?c = "newest_visible_iter m snap"
  have segs: "mc_segments ?c = map (\<lambda>seg. leaf_versions_iter (seg_tree seg)) (segments m)"
    by (simp add: newest_visible_iter_def segments_def)
  have await: "awaiting ?c = {..<length (segments m)}" by (simp add: awaiting_def segs) (simp add: newest_visible_iter_def)
  have heap: "mc_heap ?c = []" "\<not> mc_finished ?c" by (simp_all add: newest_visible_iter_def)
  have rem: "remaining (leaf_versions_iter (seg_tree seg)) = sort_key vkey_of (versions (seg_tree seg))"
    if "seg \<in> set (segments m)" for seg
    using assms(1) that by (simp add: mem_inv_def leaf_versions_iter_def remaining_new versions_def be_inv_def node_stream_sort)
  have str: "streams (awaiting ?c) ?c = map (\<lambda>seg. sort_key vkey_of (versions (seg_tree seg))) (segments m)"
    by (rule nth_equalityI) (simp_all add: streams_nth segs await heap rem)
  have "wf_cursor (leaf_versions_iter (seg_tree seg)) \<and> fits d (leaf_versions_iter (seg_tree seg))"
    if "seg \<in> set (segments m)" for seg using assms(2) that by (simp add: leaf_versions_iter_def fits_new)
  then show "ready d ?c" unfolding ready_def merge_ok_def str by (simp add: heap await segs)
  show "pending_rows ?c = sort_key vkey_of (mem_rows m)"
    unfolding pending_rows_def rest_def str mem_rows_def
    using sort_concat_sorted [of vkey_of "map (\<lambda>seg. versions (seg_tree seg)) (segments m)"] by (simp add: comp_def)
qed

text \<open>The emission of a sorted list is the newest-version map of it, listed by row id.\<close>

lemma sorted_group:
  assumes "sorted (map vkey_of (r # rs))"
  shows "\<forall>x\<in>set (dropWhile (\<lambda>x. row_id x = row_id r) rs). row_id r < row_id x"
proof -
  let ?P = "\<lambda>x. row_id x = row_id r"
  have srt: "sorted (map row_id (r # rs))"
    using assms unfolding sorted_map by (rule sorted_wrt_mono_rel [rotated]) (auto simp: vkey_of_def)
  have mono: "sorted (map row_id (dropWhile ?P rs))"
    using srt by (simp add: dropWhile_map [symmetric, unfolded comp_def] sorted_map sorted_wrt_dropWhile)
  show ?thesis
  proof (cases "dropWhile ?P rs")
    case (Cons y ys)
    then have "row_id y \<noteq> row_id r" using hd_dropWhile [of ?P rs] by simp
    moreover have "y \<in> set rs" using Cons set_dropWhileD [of y ?P rs] by simp
    then have "row_id r \<le> row_id y" using srt by simp
    ultimately have "row_id r < row_id y" by simp
    with mono Cons show ?thesis by (auto intro: less_le_trans)
  next
    case Nil
    show ?thesis unfolding Nil by simp
  qed
qed

lemma emit_sorted:
  assumes "sorted (map vkey_of rs)"
  shows "sorted_wrt (<) (map row_id (emit snap rs)) \<and>
    row_id ` set (emit snap rs) = {rid. candidates snap rid rs \<noteq> []} \<and>
    (\<forall>w\<in>set (emit snap rs). fold_newest row_newer (candidates snap (row_id w) rs) = Some w)"
  using assms
proof (induction snap rs rule: emit.induct)
  case (1 snap)
  then show ?case by simp
next
  case (2 snap r rs)
  let ?P = "\<lambda>x. row_id x = row_id r"
  let ?g = "takeWhile ?P rs" and ?D = "dropWhile ?P rs"
  show ?case
  proof (cases "visible_to snap r")
    case False
    with 2 show ?thesis by simp
  next
    case True
    have "sorted (map vkey_of ?D)" using "2.prems" by (simp add: sorted_map sorted_wrt_dropWhile)
    note IH = "2.IH"(1) [OF True this]
    have gt: "\<forall>x\<in>set ?D. row_id r < row_id x" by (rule sorted_group [OF "2.prems"])
    have split: "rs = ?g @ ?D" by simp
    obtain w where w: "foldl (supersede_visible snap) (Some r) ?g = Some w"
      using foldl_supersede_visible_Some by blast
    have own: "candidates snap (row_id r) (r # rs) = r # filter (visible_to snap) ?g"
    proof -
      have "candidates snap (row_id r) ?D = []" using gt by (fastforce simp: filter_empty_conv)
      moreover have "candidates snap (row_id r) ?g = filter (visible_to snap) ?g"
        by (rule filter_cong) (auto dest: set_takeWhileD)
      ultimately show ?thesis using True by (subst split) (simp del: takeWhile_dropWhile_id)
    qed
    have other: "candidates snap rid (r # rs) = candidates snap rid ?D" if "rid \<noteq> row_id r" for rid
    proof -
      have "candidates snap rid ?g = []" using that by (auto simp: filter_empty_conv dest: set_takeWhileD)
      then show ?thesis using that by (subst split) (simp del: takeWhile_dropWhile_id)
    qed
    have fold: "fold_newest row_newer (candidates snap (row_id r) (r # rs)) = Some w"
      unfolding own using w by (simp add: fold_newest_def foldl_supersede_visible supersede_def)
    have rid: "row_id w = row_id r"
      using w foldl_supersede_mem [of row_newer "Some r" "filter (visible_to snap) ?g" w]
      by (auto simp: foldl_supersede_visible dest: set_takeWhileD)
    have e: "emit snap (r # rs) = w # emit snap ?D" using True w by simp
    have ids: "row_id ` set (emit snap ?D) = {rid. candidates snap rid ?D \<noteq> []}" using IH by blast
    then have above: "row_id r < row_id x" if "x \<in> set (emit snap ?D)" for x
    proof -
      have "candidates snap (row_id x) ?D \<noteq> []" using ids that by blast
      then obtain y where "y \<in> set ?D" "row_id y = row_id x" by (auto simp: filter_empty_conv)
      with gt show ?thesis by metis
    qed
    have "candidates snap rid (r # rs) \<noteq> [] \<longleftrightarrow> rid = row_id r \<or> candidates snap rid ?D \<noteq> []" for rid
    proof (cases "rid = row_id r")
      case True
      show ?thesis unfolding True own by simp
    next
      case False
      show ?thesis unfolding other [OF False] using False by simp
    qed
    then have "{rid. candidates snap rid (r # rs) \<noteq> []} = insert (row_id r) {rid. candidates snap rid ?D \<noteq> []}"
      by (intro set_eqI) (simp only: mem_Collect_eq insert_iff)
    then have "row_id ` set (emit snap (r # rs)) = {rid. candidates snap rid (r # rs) \<noteq> []}"
      unfolding e by (simp only: list.set image_insert ids rid)
    moreover have "sorted_wrt (<) (map row_id (emit snap (r # rs)))"
      unfolding e using IH [THEN conjunct1] above rid by simp
    moreover have "fold_newest row_newer (candidates snap (row_id x) (r # rs)) = Some x"
      if "x \<in> set (emit snap (r # rs))" for x
    proof (cases "x = w")
      case True
      then show ?thesis using fold rid by simp
    next
      case False
      then have x: "x \<in> set (emit snap ?D)" using that unfolding e by simp
      then have "row_id x \<noteq> row_id r" using above by fastforce
      then show ?thesis unfolding other [OF \<open>row_id x \<noteq> row_id r\<close>] using IH x by blast
    qed
    ultimately show ?thesis by blast
  qed
qed

text \<open>On coherently stamped versions of one row the fold selects the last version of the greatest epoch,
  so it does not depend on the order of versions with different keys.\<close>

lemma fold_newest_None: "fold_newest newer xs = None \<longleftrightarrow> xs = []"
  by (cases xs rule: rev_cases) (auto simp: fold_newest_def supersede_def split: option.splits)

lemma fold_newest_coherent:
  assumes "coherent_rows rs" and "fold_newest row_newer rs = Some w"
  shows "w = last (filter (\<lambda>r. committed_epoch r = committed_epoch w) rs)" and "w \<in> set rs"
    and "\<forall>r\<in>set rs. committed_epoch r \<le> committed_epoch w"
proof -
  have "w = last (filter (\<lambda>r. committed_epoch r = committed_epoch w) rs) \<and> w \<in> set rs \<and>
      (\<forall>r\<in>set rs. committed_epoch r \<le> committed_epoch w)"
    using assms
  proof (induction rs arbitrary: w rule: rev_induct)
    case Nil
    then show ?case by (simp add: fold_newest_def)
  next
    case (snoc x rs)
    have coh: "coherent_rows rs" using snoc.prems(1) by (auto simp: coherent_rows_def coherent_stamps_def)
    have step: "fold_newest row_newer (rs @ [x]) = supersede row_newer (fold_newest row_newer rs) x"
      by (simp add: fold_newest_def)
    show ?case
    proof (cases "fold_newest row_newer rs")
      case None
      then have "rs = []" by (simp add: fold_newest_None)
      with snoc.prems(2) show ?thesis by (simp add: fold_newest_def supersede_def)
    next
      case (Some v)
      note IH = snoc.IH [OF coh Some]
      have new: "row_newer v x \<longleftrightarrow> committed_epoch x < committed_epoch v"
        using IH by (intro coherent_row_newer [OF snoc.prems(1)]) auto
      show ?thesis
      proof (cases "committed_epoch x < committed_epoch v")
        case True
        then have "w = v" using snoc.prems(2) Some new by (simp add: step supersede_def)
        with True IH show ?thesis by auto
      next
        case False
        then have "w = x" using snoc.prems(2) Some new by (simp add: step supersede_def)
        with False IH show ?thesis by (auto simp: not_less intro: order_trans)
      qed
    qed
  qed
  then show "w = last (filter (\<lambda>r. committed_epoch r = committed_epoch w) rs)" "w \<in> set rs"
    "\<forall>r\<in>set rs. committed_epoch r \<le> committed_epoch w" by blast+
qed

lemma fold_newest_sorted:
  assumes "coherent_rows (filter (\<lambda>r. row_id r = rid) rs)"
  shows "fold_newest row_newer (candidates snap rid (sort_key vkey_of rs)) = fold_newest row_newer (candidates snap rid rs)"
proof -
  let ?xs = "candidates snap rid rs" and ?ys = "candidates snap rid (sort_key vkey_of rs)"
  have coh: "coherent_rows ?xs" "coherent_rows ?ys"
    using assms by (auto simp: coherent_rows_def coherent_stamps_def)
  have set: "set ?ys = set ?xs" by simp
  have parts: "filter (\<lambda>r. committed_epoch r = e) ?ys = filter (\<lambda>r. committed_epoch r = e) ?xs" for e
  proof -
    have f: "filter (\<lambda>r. committed_epoch r = e) (candidates snap rid zs) =
        filter (visible_to snap) (filter (\<lambda>r. vkey_of r = (rid, e)) zs)" for zs
      by (auto simp: vkey_of_def intro!: filter_cong)
    show ?thesis unfolding f by (simp only: sort_key_stable)
  qed
  show ?thesis
  proof (cases "fold_newest row_newer ?xs")
    case None
    then have "?ys = []" using set by (simp add: fold_newest_None filter_empty_conv)
    then show ?thesis using None by (simp add: fold_newest_def)
  next
    case (Some w)
    then have "?ys \<noteq> []" using set fold_newest_None [of row_newer ?xs] by (auto simp: filter_empty_conv)
    then obtain v where v: "fold_newest row_newer ?ys = Some v" using fold_newest_None [of row_newer ?ys] by blast
    note W = fold_newest_coherent [OF coh(1) Some] and V = fold_newest_coherent [OF coh(2) v]
    have "committed_epoch v = committed_epoch w" using W(2,3) V(2,3) unfolding set by (intro antisym) blast+
    then have "v = w" using W(1) V(1) parts by metis
    with v Some show ?thesis by simp
  qed
qed

lemma emit_visible_versions:
  assumes "\<And>rid. coherent_rows (filter (\<lambda>r. row_id r = rid) (mem_rows m))"
  shows "emit snap (sort_key vkey_of (mem_rows m)) = visible_versions_at m snap"
proof -
  let ?L = "sort_key vkey_of (mem_rows m)" and ?M = "newest_visible_map m snap"
  have M: "?M rid = fold_newest row_newer (candidates snap rid ?L)" for rid
    unfolding newest_visible_map_fold by (rule fold_newest_sorted [symmetric]) (rule assms)
  have "sorted (map vkey_of ?L)" by simp
  note E = emit_sorted [OF this, of snap]
  have dom: "dom ?M = row_id ` set (emit snap ?L)"
    unfolding E [THEN conjunct2, THEN conjunct1] dom_def M by (simp only: fold_newest_None simp_thms)
  have strict: "sorted_wrt (<) (map row_id (emit snap ?L))" using E by blast
  then have "sorted_list_of_set (dom ?M) = map row_id (emit snap ?L)"
    unfolding dom by (intro sorted_distinct_set_unique)
      (simp_all add: strict_sorted_iff strict_sorted_imp_sorted distinct_map)
  moreover have "map (\<lambda>w. the (?M (row_id w))) (emit snap ?L) = emit snap ?L"
    using E by (intro map_idI) (simp add: M)
  ultimately show ?thesis by (simp add: visible_versions_at_def comp_def)
qed

section \<open>Properties\<close>

definition mem_height :: "memtable \<Rightarrow> nat" where
  "mem_height m = Max (set (map (\<lambda>seg. height (root (seg_tree seg))) (segments m)))"

lemma mem_height_ge: "seg \<in> set (segments m) \<Longrightarrow> height (root (seg_tree seg)) \<le> mem_height m"
  by (simp add: mem_height_def)

lemma segments_bound: "length (segments (mem_run ops)) \<le> MAX_READ_GENERATION_LAYERS"
proof -
  have "length (mt_frozen (mem_run ops)) < MAX_READ_GENERATION_LAYERS"
  proof (induction ops rule: rev_induct)
    case (snoc op ops)
    then show ?case
      by (cases op) (simp_all add: tombstone_def upsert_def seal_def consolidate_def Let_def MAX_READ_GENERATION_LAYERS_def)
  qed (simp add: memtable_new_def MAX_READ_GENERATION_LAYERS_def)
  then show ?thesis by (simp add: segments_def)
qed

lemma length_mem_run: "length (mem_rows (mem_run ops)) = length (spec_run ops)"
proof -
  have "mset (mem_rows (mem_run ops)) = mset (spec_run ops)" by (rule klog_mset) (rule mem_run_log)
  then show ?thesis by (rule mset_eq_length)
qed

text \<open>C11: The streaming merge is the scan. After every sequence of upserts, tombstones and seals whose
  epochs and timestamps are ordered alike within each row, iterating the merge cursor to its end
  yields, for every snapshot, exactly the newest visible version of each row in ascending row id
  order; fuel for one step per stored version is enough for every loop to end.\<close>

theorem streaming_merge_is_scan:
  assumes "\<And>rid. coherent_rows (filter (\<lambda>r. row_id r = rid) (spec_run ops))"
    and "mem_height (mem_run ops) \<le> d" and "length (spec_run ops) < n"
  shows "mem_cursor_collect n n d (newest_visible_iter (mem_run ops) snap) =
    Some (map (\<lambda>r. (row_id r, committed_epoch r, r)) (visible_versions_at (mem_run ops) snap))"
proof -
  let ?m = "mem_run ops" and ?c = "newest_visible_iter (mem_run ops) snap"
  have coh: "coherent_rows (filter (\<lambda>r. row_id r = rid) (mem_rows ?m))" for rid
    using assms(1) [of rid] by (simp add: coherent_rows_def set_mem_run)
  have "\<forall>seg\<in>set (segments ?m). height (root (seg_tree seg)) \<le> d"
    using mem_height_ge assms(2) by (blast intro: order_trans)
  note C = newest_visible_iter_ok [OF mem_run_inv this, of snap]
  have "length (pending_rows ?c) < n" using assms(3) by (simp add: C(2) length_mem_run)
  then have "mem_cursor_collect n n d ?c =
      Some (map (\<lambda>w. (row_id w, committed_epoch w, w)) (emit (mc_snapshot ?c) (pending_rows ?c)))"
    by (intro mem_cursor_collect_ok C(1)) simp_all
  moreover have "mc_snapshot ?c = snap" by (simp add: newest_visible_iter_def)
  ultimately show ?thesis unfolding C(2) using emit_visible_versions [OF coh] by simp
qed

theorem streaming_merge_is_scan_witness:
  "mem_cursor_collect 4 4 (mem_height (mem_run sample_ops)) (newest_visible_iter (mem_run sample_ops) (snapshot_at 3)) =
    Some (map (\<lambda>r. (row_id r, committed_epoch r, r)) (visible_versions_at (mem_run sample_ops) (snapshot_at 3)))"
proof (rule streaming_merge_is_scan)
  show "coherent_rows (filter (\<lambda>r. row_id r = rid) (spec_run sample_ops))" for rid
    by (simp add: sample_ops_def row_new_with_hlc_def stamp_of_def spec_tombstone_def coherent_rows_def
        coherent_stamps_def less_HlcTimestamp_def hlc_key_def)
  show "length (spec_run sample_ops) < 4" by (simp add: sample_ops_def)
qed simp

end
