(* ===== verification/Pma.thy ===== *)
theory Pma
  imports Complex_Main Mongrel_Prelude "HOL-Library.While_Combinator" "HOL-Library.Multiset"
begin

text \<open>
  The packed memory array (\<open>crates/mongreldb-core/src/pma.rs\<close>): a buffer of slots that holds its
  elements in key order with gaps, rebalanced in windows. The spacing is computed in \<open>f64\<close>; \<open>f64\<close>
  rounds a real to 53 significant bits, ties to even. The operands lie between \<open>2\<^sup>-\<^sup>6\<^sup>4\<close> and \<open>2\<^sup>6\<^sup>4\<close>, so
  exponents need no bound. A \<open>usize\<close> is a natural number: arrays with \<open>2\<^sup>4\<^sup>0\<close> slots and more are outside
  the theorems, long before it would wrap.
\<close>

declare split_paired_All [simp del] split_paired_Ex [simp del]

section \<open>Double precision\<close>

definition round_even :: "real \<Rightarrow> int" where
  "round_even x =
     (let n = \<lfloor>x\<rfloor>; d = x - of_int n
      in if d < 1 / 2 then n else if 1 / 2 < d then n + 1 else if even n then n else n + 1)"

definition f64 :: "real \<Rightarrow> real" where
  "f64 x =
     (if x = 0 then 0
      else (let unit = 2 powr (of_int (\<lfloor>log 2 \<bar>x\<bar>\<rfloor> - 52)) in of_int (round_even (x / unit)) * unit))"

text \<open>\<open>a as f64 / b as f64\<close>\<close>

definition ratio :: "nat \<Rightarrow> nat \<Rightarrow> real" where
  "ratio a b = f64 (f64 (real a) / f64 (real b))"

section \<open>The array\<close>

definition LEAF_WINDOW :: nat where
  "LEAF_WINDOW = 8"

definition HIGH_WATERMARK :: real where
  "HIGH_WATERMARK = f64 (8 / 10)"

record ('k, 'v) pma =
  pma_buf :: "('k \<times> 'v) option list"
  pma_capacity :: nat
  pma_count :: nat

fun next_power_of_two_from :: "nat \<Rightarrow> nat \<Rightarrow> nat \<Rightarrow> nat" where
  "next_power_of_two_from 0 p n = p"
| "next_power_of_two_from (Suc k) p n = (if n \<le> p then p else next_power_of_two_from k (2 * p) n)"

definition next_power_of_two :: "nat \<Rightarrow> nat" where
  "next_power_of_two n = next_power_of_two_from n 1 n"

definition pma_with_capacity :: "nat \<Rightarrow> ('k, 'v) pma" where
  "pma_with_capacity n =
     (let capacity = max (next_power_of_two n) LEAF_WINDOW
      in \<lparr>pma_buf = replicate capacity None, pma_capacity = capacity, pma_count = 0\<rparr>)"

definition pma_new :: "('k, 'v) pma" where
  "pma_new = pma_with_capacity LEAF_WINDOW"

definition pma_is_empty :: "('k, 'v) pma \<Rightarrow> bool" where
  "pma_is_empty p \<longleftrightarrow> pma_count p = 0"

text \<open>\<open>buf.iter().flatten()\<close>\<close>

fun present :: "'a option list \<Rightarrow> 'a list" where
  "present [] = []"
| "present (None # os) = present os"
| "present (Some x # os) = x # present os"

definition pma_iter :: "('k, 'v) pma \<Rightarrow> ('k \<times> 'v) list" where
  "pma_iter p = present (pma_buf p)"

section \<open>Search\<close>

fun first_some :: "'a option list \<Rightarrow> nat option" where
  "first_some [] = None"
| "first_some (Some _ # os) = Some 0"
| "first_some (None # os) = map_option Suc (first_some os)"

definition first_present_in :: "'a option list \<Rightarrow> nat \<Rightarrow> nat \<Rightarrow> nat option" where
  "first_present_in buf from until = map_option ((+) from) (first_some (take (until - from) (drop from buf)))"

lemma first_some_bound: "first_some os = Some i \<Longrightarrow> i < length os"
  by (induction os arbitrary: i rule: first_some.induct) auto

lemma first_present_bounds:
  assumes "first_present_in buf from until = Some i"
  shows "from \<le> i" and "i < until" and "i < length buf"
proof -
  obtain j where "i = from + j" and j: "first_some (take (until - from) (drop from buf)) = Some j"
    using assms by (auto simp: first_present_in_def)
  moreover have "j < length (take (until - from) (drop from buf))" using j by (rule first_some_bound)
  ultimately show "from \<le> i" and "i < until" and "i < length buf" by auto
qed

function lower_bound_loop :: "('k::linorder \<times> 'v) option list \<Rightarrow> 'k \<Rightarrow> nat \<Rightarrow> nat \<Rightarrow> nat option \<Rightarrow> nat option" where
  "lower_bound_loop buf key lo hi best =
     (if lo < hi
      then (let mid = lo + (hi - lo) div 2
            in case first_present_in buf mid hi of
                 Some idx \<Rightarrow>
                   (let k = fst (the (buf ! idx))
                    in if k < key then lower_bound_loop buf key (idx + 1) hi best
                       else if k = key then Some idx
                       else lower_bound_loop buf key lo idx (Some idx))
               | None \<Rightarrow> lower_bound_loop buf key lo mid best)
      else best)"
  by pat_completeness auto
termination
  by (relation "measure (\<lambda>(_, _, lo, hi, _). hi - lo)")
    (auto dest: first_present_bounds)

declare lower_bound_loop.simps [simp del]

definition lower_bound_present :: "('k::linorder, 'v) pma \<Rightarrow> 'k \<Rightarrow> nat option" where
  "lower_bound_present p key =
     (if pma_count p = 0 then None else lower_bound_loop (pma_buf p) key 0 (pma_capacity p) None)"

definition find_insert_index :: "('k::linorder, 'v) pma \<Rightarrow> 'k \<Rightarrow> nat" where
  "find_insert_index p key = (case lower_bound_present p key of Some i \<Rightarrow> i | None \<Rightarrow> pma_capacity p)"

definition pma_get :: "('k::linorder, 'v) pma \<Rightarrow> 'k \<Rightarrow> 'v option" where
  "pma_get p key =
     (case lower_bound_present p key of
        None \<Rightarrow> None
      | Some i \<Rightarrow> (case the (pma_buf p ! i) of (k, v) \<Rightarrow> if k = key then Some v else None))"

definition pma_iter_from :: "('k::linorder, 'v) pma \<Rightarrow> 'k \<Rightarrow> ('k \<times> 'v) list" where
  "pma_iter_from p key = present (drop (find_insert_index p key) (pma_buf p))"

section \<open>Placement\<close>

text \<open>The slot of an element by its rank, the nudge past occupied slots, and the placement of the
  elements in turn: an element without a free slot below the limit is dropped.\<close>

definition even_slot :: "real \<Rightarrow> nat \<Rightarrow> nat" where
  "even_slot gap rank = nat \<lfloor>f64 (f64 (real rank) * gap)\<rfloor>"

function nudge :: "'a option list \<Rightarrow> nat \<Rightarrow> nat \<Rightarrow> nat" where
  "nudge buf limit i = (if i < limit \<and> buf ! i \<noteq> None then nudge buf limit (i + 1) else i)"
  by pat_completeness auto
termination by (relation "measure (\<lambda>(_, limit, i). limit - i)") auto

declare nudge.simps [simp del]

fun place_all :: "(nat \<Rightarrow> nat) \<Rightarrow> nat \<Rightarrow> nat \<Rightarrow> 'a list \<Rightarrow> 'a option list \<Rightarrow> 'a option list" where
  "place_all slot limit rank [] buf = buf"
| "place_all slot limit rank (e # es) buf =
     (let idx = nudge buf limit (slot rank)
      in place_all slot limit (rank + 1) es (if idx < limit then buf[idx := Some e] else buf))"

definition grow :: "('k::linorder, 'v) pma \<Rightarrow> ('k, 'v) pma" where
  "grow p =
     (let elems = sort_key fst (present (pma_buf p)); new_cap = pma_capacity p * 2; m = length elems;
          new_buf = replicate new_cap None
      in p\<lparr>pma_buf := (if 0 < m then place_all (even_slot (ratio new_cap m)) new_cap 0 elems new_buf else new_buf),
           pma_capacity := new_cap\<rparr>)"

definition redistribute :: "('k::linorder, 'v) pma \<Rightarrow> nat \<Rightarrow> nat \<Rightarrow> ('k \<times> 'v) option \<Rightarrow> ('k, 'v) pma" where
  "redistribute p start width new =
     (let elems = present (take width (drop start (pma_buf p)));
          elems = (case new of
                     None \<Rightarrow> elems
                   | Some n \<Rightarrow> vec_insert (partition_point (\<lambda>e. fst e < fst n) elems) n elems);
          cleared = take start (pma_buf p) @ replicate width None @ drop (start + width) (pma_buf p);
          gap = ratio width (length elems);
          buf = place_all (\<lambda>rank. start + min (even_slot gap rank) (width - 1)) (start + width) 0 elems cleared
      in p\<lparr>pma_buf := buf, pma_count := length (present buf)\<rparr>)"

definition window_threshold :: "nat \<Rightarrow> nat \<Rightarrow> real" where
  "window_threshold width capacity = f64 (f64 (55 / 100) + f64 (f64 (35 / 100) * ratio width capacity))"

function rebalance_window :: "('k, 'v) pma \<Rightarrow> nat \<Rightarrow> nat \<Rightarrow> nat \<times> nat" where
  "rebalance_window p pos width =
     (let start = (pos div width) * width;
          held = length (present (take width (drop start (pma_buf p))))
      in if ratio (held + 1) width \<le> window_threshold width (pma_capacity p) \<or> pma_capacity p < start + width
         then (start, min width (pma_capacity p - start))
         else if pma_capacity p < width * 2 \<or> width = 0 then (0, pma_capacity p)
         else rebalance_window p pos (width * 2))"
  by pat_completeness auto
termination by (relation "measure (\<lambda>(p, _, width). pma_capacity p - width)") auto

declare rebalance_window.simps [simp del]

definition rebalance_window_for :: "('k, 'v) pma \<Rightarrow> nat \<Rightarrow> nat \<times> nat" where
  "rebalance_window_for p pos = rebalance_window p pos LEAF_WINDOW"

section \<open>Insertion\<close>

definition pma_insert :: "('k::linorder, 'v) pma \<Rightarrow> 'k \<Rightarrow> 'v \<Rightarrow> ('k, 'v) pma" where
  "pma_insert p key val =
     (let p = (if HIGH_WATERMARK < ratio (pma_count p + 1) (pma_capacity p) then grow p else p);
          pos = min (find_insert_index p key) (pma_capacity p - 1)
      in if pma_buf p ! pos = None
         then p\<lparr>pma_buf := (pma_buf p)[pos := Some (key, val)], pma_count := pma_count p + 1\<rparr>
         else (case rebalance_window_for p pos of (start, width) \<Rightarrow> redistribute p start width (Some (key, val))))"

fun merge_sorted :: "('k::linorder \<times> 'v) list \<Rightarrow> ('k \<times> 'v) list \<Rightarrow> ('k \<times> 'v) list" where
  "merge_sorted [] bs = bs"
| "merge_sorted as [] = as"
| "merge_sorted (a # as) (b # bs) =
     (if fst a \<le> fst b then a # merge_sorted as (b # bs) else b # merge_sorted (a # as) bs)"

fun spread_from :: "real \<Rightarrow> nat \<Rightarrow> nat \<Rightarrow> nat \<Rightarrow> 'a list \<Rightarrow> 'a option list \<Rightarrow> 'a option list" where
  "spread_from gap cap last_idx rank [] buf = buf"
| "spread_from gap cap last_idx rank (e # es) buf =
     (let idx = nudge buf cap (even_slot gap rank)
      in if idx < cap then spread_from gap cap idx (rank + 1) es (buf[idx := Some e])
         else spread_from gap cap last_idx (rank + 1) es (buf[last_idx := Some e]))"

definition spread_evenly :: "'a list \<Rightarrow> 'a option list \<Rightarrow> 'a option list" where
  "spread_evenly elems buf =
     (if elems = [] then buf
      else spread_from (ratio (length buf) (length elems)) (length buf) 0 0 elems buf)"

text \<open>The loop that doubles the capacity; it would not end from a capacity of zero.\<close>

definition room_for :: "nat \<Rightarrow> nat \<Rightarrow> nat option" where
  "room_for held capacity =
     while_option (\<lambda>capacity. capacity < 2 \<or> f64 (5 / 10) < ratio held capacity) (\<lambda>capacity. capacity * 2) capacity"

definition extend_sorted :: "('k::linorder, 'v) pma \<Rightarrow> ('k \<times> 'v) list \<Rightarrow> ('k, 'v) pma option" where
  "extend_sorted p batch =
     (if batch = [] then Some p
      else (let merged = merge_sorted (present (pma_buf p)) batch
            in case room_for (length merged) (pma_capacity p) of
                 None \<Rightarrow> None
               | Some capacity \<Rightarrow>
                   Some \<lparr>pma_buf = spread_evenly merged (replicate capacity None), pma_capacity = capacity,
                         pma_count = length merged\<rparr>))"

definition pma_drain_sorted :: "('k::linorder, 'v) pma \<Rightarrow> ('k \<times> 'v) list \<times> ('k, 'v) pma" where
  "pma_drain_sorted p =
     (sort_key fst (present (pma_buf p)),
      \<lparr>pma_buf = replicate LEAF_WINDOW None, pma_capacity = LEAF_WINDOW, pma_count = 0\<rparr>)"

section \<open>Rounding errors\<close>

lemma round_even_error: "\<bar>of_int (round_even x) - x\<bar> \<le> 1 / 2"
proof -
  have "0 \<le> x - of_int \<lfloor>x\<rfloor>" "x - of_int \<lfloor>x\<rfloor> < 1" by linarith+
  then show ?thesis by (auto simp: round_even_def Let_def)
qed

lemma f64_error:
  assumes "0 \<le> x"
  shows "\<bar>f64 x - x\<bar> \<le> x / 2 ^ 53"
proof (cases "x = 0")
  case False
  define unit :: real where "unit = 2 powr (of_int (\<lfloor>log 2 \<bar>x\<bar>\<rfloor> - 52))"
  have pos: "0 < x" "0 < unit" using assms False by (simp_all add: unit_def)
  have "2 powr (of_int \<lfloor>log 2 x\<rfloor>) \<le> 2 powr (log 2 x)" by simp
  then have "2 powr (of_int \<lfloor>log 2 x\<rfloor>) \<le> x" using pos by simp
  moreover have "2 powr (of_int \<lfloor>log 2 x\<rfloor>) = unit * 2 ^ 52"
    using pos by (simp add: unit_def powr_diff)
  ultimately have small: "unit * 2 ^ 52 \<le> x" by simp
  have "f64 x = of_int (round_even (x / unit)) * unit" unfolding f64_def Let_def unit_def using False by simp
  then have "f64 x - x = (of_int (round_even (x / unit)) - x / unit) * unit" using pos by (simp add: field_simps)
  then have "\<bar>f64 x - x\<bar> = \<bar>of_int (round_even (x / unit)) - x / unit\<bar> * unit" using pos by (simp add: abs_mult)
  also have "\<dots> \<le> 1 / 2 * unit" by (rule mult_right_mono [OF round_even_error]) (use pos in simp)
  also have "\<dots> \<le> x / 2 ^ 53" using small by simp
  finally show ?thesis .
qed (simp add: f64_def)

text \<open>The unit roundoff, and one rounding as a pair of bounds.\<close>

abbreviation roundoff :: real where
  "roundoff \<equiv> 1 / 2 ^ 53"

lemma f64_bounds:
  assumes "0 \<le> x"
  shows "f64 x \<le> x * (1 + roundoff)" and "x * (1 - roundoff) \<le> f64 x" and "0 \<le> f64 x"
proof -
  have e: "f64 x - x \<le> x / 2 ^ 53" "x - f64 x \<le> x / 2 ^ 53" using f64_error [OF assms] by linarith+
  then show "f64 x \<le> x * (1 + roundoff)" and low: "x * (1 - roundoff) \<le> f64 x" by (simp_all add: algebra_simps)
  have "0 \<le> x * (1 - roundoff)" using assms by simp
  with low show "0 \<le> f64 x" by linarith
qed

lemma ratio_bounds:
  assumes "0 < b"
  shows "ratio a b \<le> real a / real b * (1 + 5 * roundoff)" and "real a / real b * (1 - 5 * roundoff) \<le> ratio a b"
    and "0 \<le> ratio a b"
proof -
  let ?a = "f64 (real a)" and ?b = "f64 (real b)" and ?q = "real a / real b"
  note a = f64_bounds [OF of_nat_0_le_iff [of a]] and b = f64_bounds [OF of_nat_0_le_iff [of b]]
  have b0: "0 < real b" using assms by simp
  then have bpos: "0 < real b * (1 - roundoff)" by simp
  with b(2) have fb: "0 < ?b" by linarith
  have "?a / ?b \<le> (real a * (1 + roundoff)) / (real b * (1 - roundoff))"
    using a b bpos by (intro frac_le) simp_all
  also have "\<dots> = ?q * ((1 + roundoff) / (1 - roundoff))" by simp
  also have "\<dots> \<le> ?q * (1 + 3 * roundoff)" by (rule mult_left_mono) (simp_all add: field_simps)
  finally have up: "?a / ?b \<le> ?q * (1 + 3 * roundoff)" .
  have "?q * (1 - 3 * roundoff) \<le> ?q * ((1 - roundoff) / (1 + roundoff))" by (rule mult_left_mono) (simp_all add: field_simps)
  also have "\<dots> = (real a * (1 - roundoff)) / (real b * (1 + roundoff))" by simp
  also have "\<dots> \<le> ?a / ?b" using a b fb by (intro frac_le) simp_all
  finally have low: "?q * (1 - 3 * roundoff) \<le> ?a / ?b" .
  have q0: "0 \<le> ?q" by simp
  have nonneg: "0 \<le> ?a / ?b" using a fb by simp
  note r = f64_bounds [OF nonneg]
  have "ratio a b \<le> ?a / ?b * (1 + roundoff)" unfolding ratio_def by (rule r(1))
  also have "\<dots> \<le> ?q * (1 + 3 * roundoff) * (1 + roundoff)" by (rule mult_right_mono [OF up]) simp
  also have "\<dots> \<le> ?q * (1 + 5 * roundoff)" unfolding mult.assoc by (rule mult_left_mono [OF _ q0]) simp
  finally show "ratio a b \<le> ?q * (1 + 5 * roundoff)" .
  have "?q * (1 - 5 * roundoff) \<le> ?q * ((1 - 3 * roundoff) * (1 - roundoff))" by (rule mult_left_mono [OF _ q0]) simp
  also have "\<dots> \<le> ?a / ?b * (1 - roundoff)" unfolding mult.assoc [symmetric] by (rule mult_right_mono [OF low]) simp
  also have "\<dots> \<le> ratio a b" unfolding ratio_def by (rule r(2))
  finally show "?q * (1 - 5 * roundoff) \<le> ratio a b" .
  show "0 \<le> ratio a b" unfolding ratio_def by (rule r(3))
qed

lemma slot_error:
  assumes "0 < m"
  shows "\<bar>f64 (f64 (real r) * ratio width m) - real r * (real width / real m)\<bar> \<le> real r * (real width / real m) * (8 * roundoff)"
proof -
  let ?q = "real width / real m" and ?x = "f64 (real r) * ratio width m"
  note g = ratio_bounds [OF assms, of width] and r = f64_bounds [OF of_nat_0_le_iff [of r]]
  have rq: "0 \<le> real r * ?q" by simp
  have "?x \<le> (real r * (1 + roundoff)) * (?q * (1 + 5 * roundoff))" by (rule mult_mono) (use g r in auto)
  also have "\<dots> = real r * ?q * ((1 + roundoff) * (1 + 5 * roundoff))" by (simp only: ac_simps)
  finally have up: "?x \<le> real r * ?q * ((1 + roundoff) * (1 + 5 * roundoff))" .
  have "real r * ?q * ((1 - roundoff) * (1 - 5 * roundoff)) = (real r * (1 - roundoff)) * (?q * (1 - 5 * roundoff))"
    by (simp only: ac_simps)
  also have "\<dots> \<le> ?x" by (rule mult_mono) (use g r in auto)
  finally have low: "real r * ?q * ((1 - roundoff) * (1 - 5 * roundoff)) \<le> ?x" .
  have "0 \<le> ?x" using g r by simp
  note f = f64_bounds [OF this]
  have "f64 ?x \<le> real r * ?q * ((1 + roundoff) * (1 + 5 * roundoff)) * (1 + roundoff)"
    by (rule order.trans [OF f(1) mult_right_mono [OF up]]) simp
  also have "\<dots> \<le> real r * ?q * (1 + 8 * roundoff)" unfolding mult.assoc [of "real r * ?q"] by (rule mult_left_mono [OF _ rq]) simp
  finally have "f64 ?x - real r * ?q \<le> real r * ?q * (8 * roundoff)" by (simp add: algebra_simps)
  moreover have "real r * ?q * (1 - 8 * roundoff) \<le> real r * ?q * ((1 - roundoff) * (1 - 5 * roundoff)) * (1 - roundoff)"
    unfolding mult.assoc [of "real r * ?q"] by (rule mult_left_mono [OF _ rq]) simp
  moreover have "real r * ?q * ((1 - roundoff) * (1 - 5 * roundoff)) * (1 - roundoff) \<le> f64 ?x"
    by (rule order.trans [OF mult_right_mono [OF low] f(2)]) simp
  ultimately show ?thesis by (simp add: algebra_simps abs_le_iff)
qed

text \<open>With a tenth of the window free, the slots of successive ranks differ and stay inside.\<close>

lemma even_slot_step:
  assumes "11 * m \<le> 10 * width" and "0 < m" and "width \<le> 2 ^ 40" and "Suc r < m"
  shows "even_slot (ratio width m) r < even_slot (ratio width m) (Suc r)"
    and "even_slot (ratio width m) (Suc r) < width"
proof -
  let ?q = "real width / real m" and ?x = "\<lambda>r. f64 (f64 (real r) * ratio width m)"
  have m0: "0 < real m" using assms(2) by simp
  have "11 * real m \<le> 10 * real width" using assms(1) by (metis of_nat_le_iff of_nat_mult of_nat_numeral)
  then have q: "11 / 10 \<le> ?q" using m0 by (simp add: field_simps)
  have w: "real width \<le> 2 ^ 40" using assms(3) by (metis of_nat_le_iff of_nat_numeral of_nat_power)
  have err: "\<bar>?x r - real r * ?q\<bar> \<le> 1 / 100" if "r \<le> m" for r
  proof -
    have "real r * ?q \<le> real m * ?q" using that by (intro mult_right_mono) simp_all
    also have "\<dots> = real width" using m0 by simp
    finally have "real r * ?q \<le> 2 ^ 40" using w by linarith
    then have "real r * ?q * (8 * roundoff) \<le> 2 ^ 40 * (8 * roundoff)" by (rule mult_right_mono) simp
    also have "\<dots> \<le> 1 / 100" by simp
    finally show ?thesis using slot_error [OF assms(2), of r width] by linarith
  qed
  have next_q: "real (Suc r) * ?q = real r * ?q + ?q" by (simp only: of_nat_Suc distrib_right mult_1_left add.commute)
  have e: "\<bar>?x r - real r * ?q\<bar> \<le> 1 / 100" "\<bar>?x (Suc r) - (real r * ?q + ?q)\<bar> \<le> 1 / 100"
    using err [of r] err [of "Suc r"] assms(4) unfolding next_q by simp_all
  have x0: "0 \<le> ?x r" by (intro f64_bounds(3) mult_nonneg_nonneg ratio_bounds(3) assms(2)) simp
  have step: "?x r + 1 \<le> ?x (Suc r)" using e q by linarith
  then have "\<lfloor>?x r\<rfloor> + 1 \<le> \<lfloor>?x (Suc r)\<rfloor>" by linarith
  moreover have "0 \<le> \<lfloor>?x r\<rfloor>" using x0 by simp
  ultimately show "even_slot (ratio width m) r < even_slot (ratio width m) (Suc r)" unfolding even_slot_def by linarith
  have "real (Suc r) + 1 \<le> real m" using assms(4) by linarith
  then have "(real (Suc r) + 1) * ?q \<le> real m * ?q" by (rule mult_right_mono) simp
  also have "\<dots> = real width" using m0 by simp
  finally have "real r * ?q + ?q + ?q \<le> real width" unfolding distrib_right mult_1_left next_q .
  with e q have "?x (Suc r) < real width" by linarith
  then have "\<lfloor>?x (Suc r)\<rfloor> < int width" by linarith
  moreover have "0 \<le> \<lfloor>?x (Suc r)\<rfloor>" using x0 step by linarith
  ultimately show "even_slot (ratio width m) (Suc r) < width" unfolding even_slot_def by linarith
qed

lemma even_slot_zero [simp]: "even_slot g 0 = 0"
  by (simp add: even_slot_def f64_def)

lemma even_slot_less:
  assumes "11 * m \<le> 10 * width" and "width \<le> 2 ^ 40" and "r < m"
  shows "even_slot (ratio width m) r < width"
proof (cases r)
  case 0
  with assms show ?thesis by simp
next
  case (Suc i)
  with even_slot_step(2) [OF assms(1) _ assms(2)] assms(3) show ?thesis by simp
qed

section \<open>Placement keeps the elements in order\<close>

lemma present_append [simp]: "present (xs @ ys) = present xs @ present ys"
  by (induction xs rule: present.induct) simp_all

lemma present_replicate [simp]: "present (replicate n None) = []"
  by (induction n) simp_all

lemma nudge_free: "i < length buf \<Longrightarrow> buf ! i = None \<Longrightarrow> nudge buf limit i = i"
  by (simp add: nudge.simps)

text \<open>Slots taken in increasing order inside a stretch of free slots.\<close>

definition rising :: "(nat \<Rightarrow> nat) \<Rightarrow> nat \<Rightarrow> nat \<Rightarrow> nat \<Rightarrow> bool" where
  "rising slot limit rank n \<longleftrightarrow>
     (\<forall>i. rank \<le> i \<and> i < rank + n \<longrightarrow> slot i < limit) \<and> (\<forall>i. rank \<le> i \<and> Suc i < rank + n \<longrightarrow> slot i < slot (Suc i))"

lemma rising_Suc: "rising slot limit rank (Suc n) \<Longrightarrow> rising slot limit (Suc rank) n"
  by (auto simp: rising_def)

lemma put_in_gap:
  assumes "length A \<le> i" and "i < length A + n"
  shows "(A @ replicate n None @ C)[i := Some e] =
    (A @ replicate (i - length A) None @ [Some e]) @ replicate (length A + n - Suc i) None @ C"
proof -
  let ?k = "i - length A"
  have "replicate n None = replicate ?k None @ None # replicate (n - Suc ?k) (None :: 'a option)"
    using assms by (metis Suc_diff_Suc add_diff_inverse_nat diff_Suc_1 less_diff_conv2 not_less replicate_Suc replicate_add
        add.commute le_add_diff_inverse2 less_imp_le)
  then have "(A @ replicate n None @ C)[i := Some e] = A @ (replicate ?k None @ None # replicate (n - Suc ?k) None @ C)[?k := Some e]"
    using assms by (simp add: list_update_append)
  also have "\<dots> = A @ replicate ?k None @ Some e # replicate (n - Suc ?k) None @ C" by (simp add: list_update_append)
  finally show ?thesis using assms by simp
qed

lemma place_all_gap:
  assumes "rising slot limit rank (length es)" and "limit = length A + n" and "es \<noteq> [] \<longrightarrow> length A \<le> slot rank"
  shows "present (place_all slot limit rank es (A @ replicate n None @ C)) = present A @ es @ present C \<and>
    length (place_all slot limit rank es (A @ replicate n None @ C)) = length A + n + length C"
  using assms
proof (induction es arbitrary: rank A n)
  case (Cons e es)
  let ?i = "slot rank" and ?buf = "A @ replicate n None @ C"
  have i: "length A \<le> ?i" "?i < length A + n" using Cons.prems by (auto simp: rising_def)
  then have "?i - length A < n" by linarith
  with i have free: "?i < length ?buf" "?buf ! ?i = None" by (simp_all add: nth_append)
  let ?A = "A @ replicate (?i - length A) None @ [Some e]"
  have len: "length ?A = Suc ?i" using i by simp
  have step: "place_all slot limit rank (e # es) ?buf =
      place_all slot limit (Suc rank) es (?A @ replicate (length A + n - Suc ?i) None @ C)"
    using nudge_free [OF free] i Cons.prems(2) put_in_gap [OF i, of C e] by (simp add: Let_def)
  have "es \<noteq> [] \<longrightarrow> length ?A \<le> slot (Suc rank)"
  proof
    assume "es \<noteq> []"
    then have "Suc rank < rank + length (e # es)" by (cases es) simp_all
    with Cons.prems(1) have "slot rank < slot (Suc rank)" unfolding rising_def by blast
    then show "length ?A \<le> slot (Suc rank)" unfolding len by simp
  qed
  moreover have "rising slot limit (Suc rank) (length es)" using rising_Suc Cons.prems(1) by simp
  moreover have "limit = length ?A + (length A + n - Suc ?i)" using len i Cons.prems(2) by simp
  ultimately have "present (place_all slot limit (Suc rank) es (?A @ replicate (length A + n - Suc ?i) None @ C)) =
      present ?A @ es @ present C \<and>
      length (place_all slot limit (Suc rank) es (?A @ replicate (length A + n - Suc ?i) None @ C)) =
      length ?A + (length A + n - Suc ?i) + length C"
    by (intro Cons.IH) simp_all
  with step len i show ?case by simp
qed simp

lemma spread_gap:
  assumes "rising (even_slot g) cap rank (length es)" and "cap = length A + n" and "es \<noteq> [] \<longrightarrow> length A \<le> even_slot g rank"
  shows "present (spread_from g cap l rank es (A @ replicate n None)) = present A @ es \<and>
    length (spread_from g cap l rank es (A @ replicate n None)) = cap"
proof -
  have "spread_from g cap l rank es buf = place_all (even_slot g) cap rank es buf"
    if "rising (even_slot g) cap rank (length es)" "buf = A @ replicate n None" "cap = length A + n"
      "es \<noteq> [] \<longrightarrow> length A \<le> even_slot g rank" for buf :: "'a option list" and A n l rank
    using that
  proof (induction es arbitrary: rank buf A n l)
    case (Cons e es)
    let ?i = "even_slot g rank"
    have i: "length A \<le> ?i" "?i < length A + n" "?i < cap" using Cons.prems by (auto simp: rising_def)
    then have "?i - length A < n" by linarith
    with i have "?i < length buf" "buf ! ?i = None" using Cons.prems(2) by (simp_all add: nth_append)
    note n = nudge_free [OF this, of cap]
    let ?A = "A @ replicate (?i - length A) None @ [Some e]"
    have len: "length ?A = Suc ?i" using i by simp
    have "es \<noteq> [] \<longrightarrow> length ?A \<le> even_slot g (Suc rank)"
    proof
      assume "es \<noteq> []"
      then have "Suc rank < rank + length (e # es)" by (cases es) simp_all
      with Cons.prems(1) have "?i < even_slot g (Suc rank)" unfolding rising_def by blast
      then show "length ?A \<le> even_slot g (Suc rank)" unfolding len by simp
    qed
    moreover have "buf[?i := Some e] = ?A @ replicate (length A + n - Suc ?i) None"
      using put_in_gap [OF i(1,2), of "[]" e] Cons.prems(2) by simp
    moreover have "cap = length ?A + (length A + n - Suc ?i)" using len i Cons.prems(3) by simp
    moreover have "rising (even_slot g) cap (Suc rank) (length es)" using rising_Suc Cons.prems(1) by simp
    ultimately have "spread_from g cap ?i (Suc rank) es (buf[?i := Some e]) =
        place_all (even_slot g) cap (Suc rank) es (buf[?i := Some e])" by (intro Cons.IH) assumption+
    with n i show ?case by (simp add: Let_def)
  qed simp
  from this [OF assms(1) refl assms(2,3)] place_all_gap [OF assms, of "[]"] assms(2) show ?thesis by simp
qed

lemma rising_even:
  assumes "11 * m \<le> 10 * width" and "width \<le> 2 ^ 40"
  shows "rising (even_slot (ratio width m)) width 0 m"
  unfolding rising_def using even_slot_less [OF assms] even_slot_step(1) [OF assms(1) _ assms(2)] by auto

lemma rising_window:
  assumes "11 * m \<le> 10 * width" and "width \<le> 2 ^ 40"
  shows "rising (\<lambda>rank. start + min (even_slot (ratio width m) rank) (width - 1)) (start + width) 0 m"
proof -
  have "min (even_slot (ratio width m) r) (width - 1) = even_slot (ratio width m) r" if "r < m" for r
    using even_slot_less [OF assms that] by simp
  then show ?thesis using rising_even [OF assms] by (simp add: rising_def)
qed

section \<open>Search\<close>

lemma set_present [simp]: "x \<in> set (present os) \<longleftrightarrow> Some x \<in> set os"
  by (induction os rule: present.induct) auto

lemma present_split: "i < length buf \<Longrightarrow> buf ! i = Some e \<Longrightarrow> present buf = present (take i buf) @ e # present (drop (Suc i) buf)"
  by (metis id_take_nth_drop present.simps(3) present_append)

abbreviation in_order :: "('k::linorder \<times> 'v) option list \<Rightarrow> bool" where
  "in_order buf \<equiv> sorted (map fst (present buf))"

lemma in_order_nth:
  assumes "in_order buf" and "i < j" and "j < length buf" and "buf ! i = Some a" and "buf ! j = Some b"
  shows "fst a \<le> fst b"
proof -
  have "take j buf ! i = Some a" "i < length (take j buf)" using assms(2,3,4) by simp_all
  then have "Some a \<in> set (take j buf)" by (metis nth_mem)
  then have "a \<in> set (present (take j buf))" by simp
  with assms(1) show ?thesis unfolding present_split [OF assms(3,5)] by (auto simp: sorted_append)
qed

lemma first_some_spec:
  "case first_some os of
     Some i \<Rightarrow> i < length os \<and> os ! i \<noteq> None \<and> (\<forall>j<i. os ! j = None)
   | None \<Rightarrow> \<forall>j<length os. os ! j = None"
  by (induction os rule: first_some.induct) (auto split: option.splits simp: less_Suc_eq_0_disj nth_Cons')

lemma first_present_spec:
  assumes "until \<le> length buf"
  shows "case first_present_in buf from until of
     Some i \<Rightarrow> buf ! i \<noteq> None \<and> (\<forall>j. from \<le> j \<and> j < i \<longrightarrow> buf ! j = None)
   | None \<Rightarrow> \<forall>j. from \<le> j \<and> j < until \<longrightarrow> buf ! j = None"
proof -
  let ?os = "take (until - from) (drop from buf)"
  have nth: "?os ! j = buf ! (from + j)" if "j < until - from" for j using that assms by simp
  have len: "length ?os = until - from" using assms by simp
  show ?thesis
  proof (cases "first_some ?os")
    case None
    then have "\<forall>j<length ?os. ?os ! j = None" using first_some_spec [of ?os] by (simp only: option.case)
    then have "buf ! j = None" if "from \<le> j" "j < until" for j
      unfolding len using nth [of "j - from"] that by (metis diff_less_mono le_add_diff_inverse)
    with None show ?thesis by (simp add: first_present_in_def)
  next
    case (Some i)
    then have spec: "i < length ?os \<and> ?os ! i \<noteq> None \<and> (\<forall>j<i. ?os ! j = None)"
      using first_some_spec [of ?os] unfolding Some option.case by blast
    have i: "i < until - from" "?os ! i \<noteq> None" "\<forall>j<i. ?os ! j = None" using spec unfolding len by blast+
    have "buf ! (from + i) \<noteq> None" using i(2) unfolding nth [OF i(1)] .
    moreover have "buf ! j = None" if "from \<le> j" "j < from + i" for j
    proof -
      have "j - from < i" using that by linarith
      with i(1,3) have "?os ! (j - from) = None" "j - from < until - from" by simp_all
      with nth that(1) show ?thesis by (metis le_add_diff_inverse)
    qed
    ultimately show ?thesis using Some by (simp add: first_present_in_def)
  qed
qed

text \<open>What the search promises. With duplicates of the key the index is that of some of them.\<close>

definition is_bound :: "('k::linorder \<times> 'v) option list \<Rightarrow> 'k \<Rightarrow> nat option \<Rightarrow> bool" where
  "is_bound buf key res \<longleftrightarrow>
     (case res of
        None \<Rightarrow> \<forall>e \<in> set (present buf). fst e < key
      | Some i \<Rightarrow> i < length buf \<and> (\<exists>e. buf ! i = Some e \<and> key \<le> fst e \<and>
          (\<forall>e' \<in> set (present (take i buf)). fst e' \<le> key \<and> (fst e \<noteq> key \<longrightarrow> fst e' < key))))"

definition search_inv :: "('k::linorder \<times> 'v) option list \<Rightarrow> 'k \<Rightarrow> nat \<Rightarrow> nat \<Rightarrow> nat option \<Rightarrow> bool" where
  "search_inv buf key lo hi best \<longleftrightarrow>
     hi \<le> length buf \<and> (\<forall>j e. j < lo \<and> j < length buf \<and> buf ! j = Some e \<longrightarrow> fst e < key) \<and>
     (case best of
        None \<Rightarrow> \<forall>j. hi \<le> j \<and> j < length buf \<longrightarrow> buf ! j = None
      | Some b \<Rightarrow> hi \<le> b \<and> b < length buf \<and> (\<exists>e. buf ! b = Some e \<and> key < fst e) \<and>
          (\<forall>j. hi \<le> j \<and> j < b \<longrightarrow> buf ! j = None))"

lemma take_present: "e \<in> set (present (take i buf)) \<longleftrightarrow> (\<exists>j<i. j < length buf \<and> buf ! j = Some e)"
  unfolding set_present by (auto simp: in_set_conv_nth)

lemma mem_present: "e \<in> set (present buf) \<longleftrightarrow> (\<exists>j<length buf. buf ! j = Some e)"
  unfolding set_present by (auto simp: in_set_conv_nth)

lemma search_done:
  assumes "search_inv buf key lo hi best" and "\<not> lo < hi"
  shows "is_bound buf key best"
proof (cases best)
  case None
  then have "fst e < key" if "j < length buf" "buf ! j = Some e" for j e
    using assms that by (cases "j < lo") (auto simp: search_inv_def)
  then have "fst e < key" if "e \<in> set (present buf)" for e using that unfolding mem_present by blast
  with None show ?thesis by (simp add: is_bound_def del: set_present)
next
  case (Some b)
  then obtain e where e: "b < length buf" "buf ! b = Some e" "key < fst e" using assms(1) by (auto simp: search_inv_def)
  have "fst e' < key" if "j < b" "j < length buf" "buf ! j = Some e'" for j e'
  proof (cases "j < lo")
    case True
    then show ?thesis using assms(1) that unfolding search_inv_def by blast
  next
    case False
    with assms that(1) Some have "buf ! j = None" unfolding search_inv_def by simp
    with that(3) show ?thesis by simp
  qed
  then have "fst e' < key" if "e' \<in> set (present (take b buf))" for e' using that unfolding take_present by blast
  with Some e show ?thesis by (auto simp: is_bound_def simp del: set_present intro: less_imp_le)
qed

lemma lower_bound_loop_ok:
  assumes "in_order buf" and "search_inv buf key lo hi best"
  shows "is_bound buf key (lower_bound_loop buf key lo hi best)"
  using assms
proof (induction buf key lo hi best rule: lower_bound_loop.induct)
  case (1 buf key lo hi best)
  show ?case
  proof (cases "lo < hi")
    case False
    with search_done [OF "1.prems"(2)] show ?thesis by (subst lower_bound_loop.simps) simp
  next
    case True
    define mid where "mid = lo + (hi - lo) div 2"
    have hi: "hi \<le> length buf" using "1.prems"(2) by (simp add: search_inv_def)
    note spec = first_present_spec [OF hi, of mid]
    show ?thesis
    proof (cases "first_present_in buf mid hi")
      case None
      then have free: "\<forall>j. mid \<le> j \<and> j < hi \<longrightarrow> buf ! j = None" using spec by simp
      have "mid \<le> length buf" using hi True by (simp add: mid_def)
      then have "search_inv buf key lo mid best"
        using "1.prems"(2) free True unfolding search_inv_def mid_def
        by (auto split: option.splits) (metis not_less)+
      then have "is_bound buf key (lower_bound_loop buf key lo mid best)" using "1.IH"(1) True mid_def None "1.prems"(1) by simp
      with True None show ?thesis by (subst lower_bound_loop.simps) (simp add: mid_def Let_def)
    next
      case (Some idx)
      then obtain e where e: "buf ! idx = Some e" using spec by auto
      note b = first_present_bounds [OF Some]
      have before: "fst e' \<le> fst e" if "j < idx" "buf ! j = Some e'" for j e'
        using in_order_nth [OF "1.prems"(1) that(1) b(3) that(2) e] .
      consider "fst e < key" | "fst e = key" | "key < fst e" by fastforce
      then show ?thesis
      proof cases
        case 1
        have "search_inv buf key (idx + 1) hi best"
          using "1.prems"(2) before e 1 unfolding search_inv_def by (fastforce simp: less_Suc_eq)
        with "1.IH"(2) [OF True mid_def Some refl] 1 e "1.prems"(1)
        have "is_bound buf key (lower_bound_loop buf key (idx + 1) hi best)" by simp
        with True Some e 1 show ?thesis by (subst lower_bound_loop.simps) (simp add: mid_def Let_def)
      next
        case 2
        have "fst e' \<le> key" if "e' \<in> set (present (take idx buf))" for e'
          using that before 2 unfolding take_present by blast
        with 2 b(3) e have "is_bound buf key (Some idx)" by (simp add: is_bound_def del: set_present)
        with True Some e 2 show ?thesis by (subst lower_bound_loop.simps) (simp add: mid_def Let_def)
      next
        case 3
        have "search_inv buf key lo idx (Some idx)"
          using "1.prems"(2) b e 3 unfolding search_inv_def by auto
        with "1.IH"(3) [OF True mid_def Some refl] 3 e "1.prems"(1)
        have "is_bound buf key (lower_bound_loop buf key lo idx (Some idx))" by simp
        with True Some e 3 show ?thesis by (subst lower_bound_loop.simps) (auto simp: mid_def Let_def)
      qed
    qed
  qed
qed

section \<open>Densities\<close>

text \<open>A computed density of at most nine tenths leaves a tenth of the slots free.\<close>

lemma density_room:
  assumes "0 < b" and "ratio a b \<le> 901 / 1000"
  shows "11 * a \<le> 10 * b"
proof -
  have b: "0 < real b" using assms(1) by simp
  have "real a / real b * (1 - 5 * roundoff) \<le> 901 / 1000" using ratio_bounds(2) [OF assms(1), of a] assms(2) by linarith
  then have "real a / real b \<le> 902 / 1000" by simp
  then have "real a \<le> 902 / 1000 * real b" using b by (simp add: field_simps)
  then show ?thesis by linarith
qed

lemma watermark_le: "HIGH_WATERMARK \<le> 901 / 1000" and watermark_ge: "799 / 1000 \<le> HIGH_WATERMARK"
  using f64_bounds [of "8 / 10"] by (simp_all add: HIGH_WATERMARK_def)

lemma half_le: "f64 (5 / 10) \<le> 901 / 1000" and half_ge: "499 / 1000 \<le> f64 (5 / 10)"
  using f64_bounds [of "5 / 10"] by simp_all

lemma threshold_le:
  assumes "width \<le> capacity" and "0 < capacity"
  shows "window_threshold width capacity \<le> 901 / 1000"
proof -
  have "real width / real capacity \<le> 1" using assms by simp
  then have "real width / real capacity * (1 + 5 * roundoff) \<le> 1 * (1 + 5 * roundoff)" by (rule mult_right_mono) simp
  then have r: "ratio width capacity \<le> 1 + 5 * roundoff"
    using order.trans [OF ratio_bounds(1) [OF assms(2), of width]] by (simp only: mult_1_left)
  have c: "0 \<le> f64 (35 / 100)" "f64 (35 / 100) \<le> 3501 / 10000" using f64_bounds [of "35 / 100"] by simp_all
  have "f64 (35 / 100) * ratio width capacity \<le> 3501 / 10000 * (1 + 5 * roundoff)"
    by (rule mult_mono) (use c r ratio_bounds(3) [OF assms(2), of width] in simp_all)
  also have "\<dots> \<le> 3502 / 10000" by simp
  finally have p: "f64 (35 / 100) * ratio width capacity \<le> 3502 / 10000" .
  have p0: "0 \<le> f64 (35 / 100) * ratio width capacity" using c ratio_bounds(3) [OF assms(2), of width] by simp
  have "f64 (f64 (35 / 100) * ratio width capacity) \<le> 3502 / 10000 * (1 + roundoff)"
    by (rule order.trans [OF f64_bounds(1) [OF p0] mult_right_mono [OF p]]) simp
  then have q: "f64 (f64 (35 / 100) * ratio width capacity) \<le> 3503 / 10000" by simp
  have d: "0 \<le> f64 (55 / 100)" "f64 (55 / 100) \<le> 5501 / 10000" using f64_bounds [of "55 / 100"] by simp_all
  let ?s = "f64 (55 / 100) + f64 (f64 (35 / 100) * ratio width capacity)"
  have s: "0 \<le> ?s" "?s \<le> 9004 / 10000" using d q f64_bounds(3) [OF p0] by linarith+
  have "f64 ?s \<le> 9004 / 10000 * (1 + roundoff)" by (rule order.trans [OF f64_bounds(1) [OF s(1)] mult_right_mono [OF s(2)]]) simp
  then show ?thesis unfolding window_threshold_def by simp
qed

lemma dense_capacity:
  assumes "0 < b" and "499 / 1000 \<le> ratio a b"
  shows "2 * b \<le> 5 * a"
proof -
  have b: "0 < real b" using assms(1) by simp
  have "499 / 1000 \<le> real a / real b * (1 + 5 * roundoff)" using ratio_bounds(1) [OF assms(1), of a] assms(2) by linarith
  then have "498 / 1000 \<le> real a / real b" by simp
  then have "498 / 1000 * real b \<le> real a" using b by (simp add: field_simps)
  then show ?thesis by linarith
qed

end
