(* ===== verification/Pma_Runs.thy ===== *)
theory Pma_Runs
  imports Pma
begin

text \<open>
  The invariant of the packed memory array, that every operation keeps it, and what reads return after
  every sequence of operations.
\<close>

declare split_paired_All [simp del] split_paired_Ex [simp del]

section \<open>The invariant\<close>

definition pma_ok :: "nat \<Rightarrow> ('k::linorder, 'v) pma \<Rightarrow> bool" where
  "pma_ok n p \<longleftrightarrow>
     length (pma_buf p) = pma_capacity p \<and> (\<exists>k\<ge>3. pma_capacity p = 2 ^ k) \<and> pma_count p = length (pma_iter p) \<and>
     in_order (pma_buf p) \<and> 11 * pma_count p \<le> 10 * pma_capacity p \<and> pma_count p \<le> n \<and> pma_capacity p \<le> 8 + 5 * n"

lemma pma_okD:
  assumes "pma_ok n p"
  shows "length (pma_buf p) = pma_capacity p" and "8 \<le> pma_capacity p" and "pma_count p = length (present (pma_buf p))"
    and "in_order (pma_buf p)" and "11 * pma_count p \<le> 10 * pma_capacity p" and "pma_count p \<le> n" and "pma_capacity p \<le> 8 + 5 * n"
proof -
  obtain k where "3 \<le> k" "pma_capacity p = 2 ^ k" using assms by (auto simp: pma_ok_def)
  then show "8 \<le> pma_capacity p" using power_increasing [of 3 k "2 :: nat"] by simp
qed (use assms in \<open>auto simp: pma_ok_def pma_iter_def\<close>)

lemma leaf_window_power: "LEAF_WINDOW = 2 ^ 3"
  by (simp add: LEAF_WINDOW_def)

lemma pma_new_eq: "pma_new = \<lparr>pma_buf = replicate LEAF_WINDOW None, pma_capacity = LEAF_WINDOW, pma_count = 0\<rparr>"
  by (simp add: pma_new_def pma_with_capacity_def next_power_of_two_def LEAF_WINDOW_def numeral_eq_Suc)

lemma pma_new_ok [simp]: "pma_ok n pma_new" and pma_iter_new [simp]: "pma_iter pma_new = []"
  unfolding pma_new_eq by (auto simp: pma_ok_def pma_iter_def leaf_window_power)

lemma pma_drain_ok:
  assumes "pma_ok n p"
  shows "fst (pma_drain_sorted p) = pma_iter p" and "snd (pma_drain_sorted p) = pma_new"
  using pma_okD(4) [OF assms] by (simp_all add: pma_drain_sorted_def pma_new_eq pma_iter_def sort_key_id_if_sorted)

section \<open>Operations keep the invariant\<close>

lemma grow_ok:
  assumes "pma_ok n p" and "pma_capacity p * 2 \<le> 2 ^ 40"
  shows "pma_iter (grow p) = pma_iter p" and "length (pma_buf (grow p)) = pma_capacity (grow p)"
    and "pma_capacity (grow p) = pma_capacity p * 2" and "pma_count (grow p) = pma_count p"
proof -
  let ?es = "sort_key fst (present (pma_buf p))" and ?cap = "pma_capacity p * 2"
  let ?free = "replicate ?cap None :: ('a \<times> 'b) option list"
  note ok = pma_okD [OF assms(1)]
  have es: "?es = present (pma_buf p)" using ok(4) by (simp add: sort_key_id_if_sorted)
  have "11 * length ?es \<le> 10 * ?cap" using ok(3,5) unfolding es by simp
  note rise = rising_even [OF this assms(2)]
  have placed: "present (place_all (even_slot (ratio ?cap (length ?es))) ?cap 0 ?es ?free) = ?es"
    "length (place_all (even_slot (ratio ?cap (length ?es))) ?cap 0 ?es ?free) = ?cap"
    using place_all_gap [OF rise, of "[]" ?cap "[]"] by simp_all
  show "pma_iter (grow p) = pma_iter p" "length (pma_buf (grow p)) = pma_capacity (grow p)"
    using placed es by (simp_all add: grow_def pma_iter_def Let_def)
qed (simp_all add: grow_def Let_def)

lemma grow_inv:
  assumes "pma_ok n p" and "pma_capacity p * 2 \<le> 2 ^ 40" and "pma_capacity p * 2 \<le> 8 + 5 * n'" and "n \<le> n'"
  shows "pma_ok n' (grow p)" and "11 * (pma_count (grow p) + 1) \<le> 10 * pma_capacity (grow p)"
proof -
  note g = grow_ok [OF assms(1,2)] and ok = pma_okD [OF assms(1)]
  obtain k where "3 \<le> k" "pma_capacity p = 2 ^ k" using assms(1) by (auto simp: pma_ok_def)
  then have "3 \<le> Suc k" "pma_capacity (grow p) = 2 ^ Suc k" using g(3) by simp_all
  then have "\<exists>k\<ge>3. pma_capacity (grow p) = 2 ^ k" by blast
  then show "pma_ok n' (grow p)" using g ok assms(3,4) unfolding pma_ok_def pma_iter_def by auto
  show "11 * (pma_count (grow p) + 1) \<le> 10 * pma_capacity (grow p)" using g(3,4) ok(2,5) by simp
qed

text \<open>The window of a rebalance holds the position, lies in the array and has room for one more.\<close>

lemma present_length_take: "length (present (take i xs)) \<le> length (present xs)"
  by (metis append_take_drop_id le_add1 length_append present_append)

lemma rebalance_window_ok:
  assumes "length (pma_buf p) = pma_capacity p" and "pma_capacity p = 2 ^ k" and "width = 2 ^ j" and "j \<le> k"
    and "pos < pma_capacity p" and "11 * (length (present (pma_buf p)) + 1) \<le> 10 * pma_capacity p"
    and "rebalance_window p pos width = (start, w)"
  shows "start \<le> pos \<and> pos < start + w \<and> start + w \<le> pma_capacity p \<and>
    11 * (length (present (take w (drop start (pma_buf p)))) + 1) \<le> 10 * w"
  using assms
proof (induction p pos width arbitrary: j rule: rebalance_window.induct)
  case (1 p pos width)
  let ?s = "(pos div width) * width" and ?held = "length (present (take width (drop ((pos div width) * width) (pma_buf p))))"
  have w0: "0 < width" using "1.prems"(3) by simp
  have "width dvd pma_capacity p" using "1.prems"(2,3,4) by (simp add: le_imp_power_dvd)
  then obtain c where c: "pma_capacity p = c * width" by (metis dvdE mult.commute)
  have "pos div width < c" using "1.prems"(5) w0 unfolding c by (simp add: less_mult_imp_div_less)
  then have "Suc (pos div width) * width \<le> c * width" by (intro mult_right_mono) simp_all
  then have inside: "?s + width \<le> pma_capacity p" unfolding c by simp
  have around: "?s \<le> pos" "pos < ?s + width" using w0 div_mult_mod_eq [of pos width] mod_less_divisor [OF w0, of pos] by linarith+
  show ?case
  proof (cases "ratio (?held + 1) width \<le> window_threshold width (pma_capacity p)")
    case True
    then have "(start, w) = (?s, width)" using "1.prems"(7) inside by (subst (asm) rebalance_window.simps) (auto simp: Let_def)
    moreover have "11 * (?held + 1) \<le> 10 * width"
      using density_room [OF w0 order.trans [OF True threshold_le]] inside w0 by simp
    ultimately show ?thesis using inside around by simp
  next
    case False
    note dense = False
    show ?thesis
    proof (cases "pma_capacity p < width * 2")
      case True
      then have "(start, w) = (0, pma_capacity p)"
        using "1.prems"(7) inside dense by (subst (asm) rebalance_window.simps) (auto simp: Let_def)
      then show ?thesis using "1.prems"(1,5,6) by simp
    next
      case False
      then have again: "rebalance_window p pos (width * 2) = (start, w)"
        using "1.prems"(7) inside dense w0 by (subst (asm) rebalance_window.simps) (auto simp: Let_def)
      have double: "width * 2 = 2 ^ Suc j" using "1.prems"(3) by simp
      have below: "Suc j \<le> k"
      proof -
        have "(2::nat) ^ Suc j \<le> 2 ^ k" using False "1.prems"(2,3) by simp
        then show ?thesis by (simp only: power_increasing_iff one_less_numeral_iff semiring_norm)
      qed
      show ?thesis
        by (rule "1.IH" [OF refl refl _ _ "1.prems"(1,2) double below "1.prems"(5,6) again]) (use inside dense False w0 in auto)
    qed
  qed
qed

lemma redistribute_ok:
  assumes "length (pma_buf p) = pma_capacity p" and "start + w \<le> pma_capacity p"
    and "11 * (length (present (take w (drop start (pma_buf p)))) + 1) \<le> 10 * w" and "w \<le> 2 ^ 40"
  shows "pma_iter (redistribute p start w (Some n)) =
      present (take start (pma_buf p)) @
      vec_insert (partition_point (\<lambda>e. fst e < fst n) (present (take w (drop start (pma_buf p))))) n
        (present (take w (drop start (pma_buf p)))) @
      present (drop (start + w) (pma_buf p))" (is "_ = ?pre @ ?es @ ?post")
    and "length (pma_buf (redistribute p start w (Some n))) = pma_capacity p"
    and "pma_count (redistribute p start w (Some n)) = length (pma_iter (redistribute p start w (Some n)))"
    and "pma_capacity (redistribute p start w (Some n)) = pma_capacity p"
proof -
  let ?A = "take start (pma_buf p)" and ?C = "drop (start + w) (pma_buf p)"
  have len: "length ?es = length (present (take w (drop start (pma_buf p)))) + 1" by simp
  have A: "length ?A = start" using assms(1,2) by simp
  have "11 * length ?es \<le> 10 * w" using assms(3) unfolding len .
  note rise = rising_window [OF this assms(4), of start]
  let ?buf = "place_all (\<lambda>rank. start + min (even_slot (ratio w (length ?es)) rank) (w - 1)) (start + w) 0 ?es (?A @ replicate w None @ ?C)"
  have placed: "present ?buf = present ?A @ ?es @ present ?C" "length ?buf = pma_capacity p"
    using place_all_gap [OF rise, of ?A w ?C] A assms(1,2) by simp_all
  have result: "redistribute p start w (Some n) = p\<lparr>pma_buf := ?buf, pma_count := length (present ?buf)\<rparr>"
    by (simp add: redistribute_def Let_def)
  show "pma_iter (redistribute p start w (Some n)) = ?pre @ ?es @ ?post"
    unfolding result pma_iter_def using placed(1) by simp
  show "length (pma_buf (redistribute p start w (Some n))) = pma_capacity p" unfolding result using placed(2) by simp
  show "pma_count (redistribute p start w (Some n)) = length (pma_iter (redistribute p start w (Some n)))"
    unfolding result pma_iter_def by simp
  show "pma_capacity (redistribute p start w (Some n)) = pma_capacity p" unfolding result by simp
qed

lemma sorted_insert_middle:
  assumes "sorted (map fst (pre @ es @ post))" and "\<And>e. e \<in> set pre \<Longrightarrow> fst e \<le> fst n" and "\<And>e. e \<in> set post \<Longrightarrow> fst n \<le> fst e"
  shows "sorted (map fst (pre @ vec_insert (partition_point (\<lambda>e. fst e < fst n) es) n es @ post))"
proof -
  have es: "takeWhile (\<lambda>e. fst e < fst n) es @ dropWhile (\<lambda>e. fst e < fst n) es = es" by simp
  have "sorted (map fst es)" using assms(1) by (simp add: sorted_append)
  then have above: "fst n \<le> fst e" if "e \<in> set (dropWhile (\<lambda>e. fst e < fst n) es)" for e
    using sorted_dropWhile_less [of fst es] that by blast
  have below: "fst e \<le> fst n" if "e \<in> set (takeWhile (\<lambda>e. fst e < fst n) es)" for e
    using set_takeWhileD [OF that] by (simp add: less_imp_le)
  have "sorted (map fst ((pre @ takeWhile (\<lambda>e. fst e < fst n) es) @ n # (dropWhile (\<lambda>e. fst e < fst n) es @ post)))"
  proof (rule sorted_insert_between)
    show "sorted (map fst ((pre @ takeWhile (\<lambda>e. fst e < fst n) es) @ dropWhile (\<lambda>e. fst e < fst n) es @ post))"
      using assms(1) by (metis es append_assoc)
  qed (use assms(2,3) above below in auto)
  then show ?thesis unfolding vec_insert_partition_point by simp
qed

lemma mset_vec_insert: "mset (vec_insert i x xs) = add_mset x (mset xs)"
  by (metis (no_types, lifting) append_take_drop_id mset.simps(2) mset_append union_mset_add_mset_right vec_insert_def)

lemma lower_bound_ok:
  assumes "pma_ok n p"
  shows "is_bound (pma_buf p) key (lower_bound_present p key)"
proof -
  note ok = pma_okD [OF assms]
  show ?thesis
  proof (cases "pma_count p = 0")
    case True
    then show ?thesis using ok(3) by (simp add: lower_bound_present_def is_bound_def del: set_present)
  next
    case False
    have "search_inv (pma_buf p) key 0 (pma_capacity p) None" using ok(1) by (auto simp: search_inv_def)
    from lower_bound_loop_ok [OF ok(4) this] False show ?thesis by (simp add: lower_bound_present_def)
  qed
qed

lemma pma_ok_mono: "pma_ok n p \<Longrightarrow> n \<le> n' \<Longrightarrow> pma_ok n' p"
  by (auto simp: pma_ok_def)

text \<open>The insertion after the growth check.\<close>

definition pma_put :: "('k::linorder, 'v) pma \<Rightarrow> 'k \<Rightarrow> 'v \<Rightarrow> ('k, 'v) pma" where
  "pma_put p key val =
     (let pos = min (find_insert_index p key) (pma_capacity p - 1)
      in if pma_buf p ! pos = None
         then p\<lparr>pma_buf := (pma_buf p)[pos := Some (key, val)], pma_count := pma_count p + 1\<rparr>
         else (case rebalance_window_for p pos of (start, w) \<Rightarrow> redistribute p start w (Some (key, val))))"

lemma put_tail:
  assumes ok: "pma_ok n p" and none: "lower_bound_present p key = None" and free: "pma_buf p ! (pma_capacity p - 1) = None"
  shows "present ((pma_buf p)[pma_capacity p - 1 := Some (key, val)]) = pma_iter p @ [(key, val)]"
proof -
  let ?i = "pma_capacity p - 1"
  have i: "?i < length (pma_buf p)" "Suc ?i = length (pma_buf p)" using pma_okD(1,2) [OF ok] by simp_all
  have "pma_buf p = take ?i (pma_buf p) @ pma_buf p ! ?i # drop (Suc ?i) (pma_buf p)" using id_take_nth_drop [OF i(1)] .
  then have "pma_iter p = present (take ?i (pma_buf p))"
    unfolding pma_iter_def using free i(2) by (metis append_Nil2 drop_all order_refl present.simps(1,2) present_append)
  moreover have "(pma_buf p)[?i := Some (key, val)] = take ?i (pma_buf p) @ [Some (key, val)]"
    using i by (simp add: upd_conv_take_nth_drop)
  ultimately show ?thesis by simp
qed

lemma put_ok:
  assumes ok: "pma_ok n p" and room: "11 * (pma_count p + 1) \<le> 10 * pma_capacity p" and small: "pma_capacity p \<le> 2 ^ 40"
    and limit: "Suc (pma_count p) \<le> m" "pma_capacity p \<le> 8 + 5 * m"
  shows "pma_ok m (pma_put p key val)" and "mset (pma_iter (pma_put p key val)) = add_mset (key, val) (mset (pma_iter p))"
proof -
  note p = pma_okD [OF ok] and bound = lower_bound_ok [OF ok, of key]
  obtain k where k: "3 \<le> k" "pma_capacity p = 2 ^ k" using ok by (auto simp: pma_ok_def)
  define pos where "pos = min (find_insert_index p key) (pma_capacity p - 1)"
  have pos: "pos < pma_capacity p" using p(2) by (simp add: pos_def)
  have "pma_ok m (pma_put p key val) \<and> mset (pma_iter (pma_put p key val)) = add_mset (key, val) (mset (pma_iter p))"
  proof (cases "pma_buf p ! pos = None")
    case True
    have none: "lower_bound_present p key = None"
    proof (rule ccontr)
      assume "lower_bound_present p key \<noteq> None"
      then obtain i where i: "lower_bound_present p key = Some i" by blast
      with bound p(1) obtain e where e: "i < pma_capacity p" "pma_buf p ! i = Some e" by (auto simp: is_bound_def)
      from i e(1) have "pos = i" by (simp add: pos_def find_insert_index_def)
      with e(2) True show False by simp
    qed
    then have tail: "pos = pma_capacity p - 1" by (simp add: pos_def find_insert_index_def)
    have put: "pma_put p key val = p\<lparr>pma_buf := (pma_buf p)[pos := Some (key, val)], pma_count := pma_count p + 1\<rparr>"
      unfolding pma_put_def Let_def pos_def [symmetric] using True by simp
    have iter: "pma_iter (pma_put p key val) = pma_iter p @ [(key, val)]"
      using put_tail [OF ok none] True unfolding put tail pma_iter_def by simp
    have "\<forall>e \<in> set (present (pma_buf p)). fst e < key" using bound none by (simp add: is_bound_def del: set_present)
    then have "in_order (pma_buf (pma_put p key val))"
      using iter p(4) by (auto simp: pma_iter_def sorted_append less_imp_le simp del: set_present)
    moreover have "pma_capacity (pma_put p key val) = pma_capacity p" "length (pma_buf (pma_put p key val)) = pma_capacity p"
      "pma_count (pma_put p key val) = length (pma_iter (pma_put p key val))" using put iter p(1,3) by (simp_all add: pma_iter_def)
    ultimately show ?thesis using k iter p(3) room limit by (auto simp: pma_ok_def pma_iter_def)
  next
    case False
    obtain start w where window: "rebalance_window_for p pos = (start, w)" by (cases "rebalance_window_for p pos")
    have "start \<le> pos \<and> pos < start + w \<and> start + w \<le> pma_capacity p \<and>
        11 * (length (present (take w (drop start (pma_buf p)))) + 1) \<le> 10 * w"
      by (rule rebalance_window_ok [OF p(1) k(2) leaf_window_power k(1) pos])
        (use room p(3) window in \<open>simp_all add: rebalance_window_for_def\<close>)
    then have w: "start \<le> pos" "pos < start + w" "start + w \<le> pma_capacity p"
      "11 * (length (present (take w (drop start (pma_buf p)))) + 1) \<le> 10 * w" by blast+
    let ?pre = "present (take start (pma_buf p))" and ?es = "present (take w (drop start (pma_buf p)))"
      and ?post = "present (drop (start + w) (pma_buf p))"
    have "w \<le> 2 ^ 40" using w(3) small by linarith
    note r = redistribute_ok [OF p(1) w(3,4) this, of "(key, val)"]
    have put: "pma_put p key val = redistribute p start w (Some (key, val))"
      unfolding pma_put_def Let_def pos_def [symmetric] using False window by auto
    have "pma_buf p = take start (pma_buf p) @ take w (drop start (pma_buf p)) @ drop (start + w) (pma_buf p)"
      by (metis append_take_drop_id drop_drop add.commute)
    then have split: "present (pma_buf p) = ?pre @ ?es @ ?post" by (metis present_append)
    have "fst e \<le> key" if "e \<in> set ?pre" for e
    proof (cases "lower_bound_present p key")
      case None
      have "e \<in> set (present (pma_buf p))" unfolding split using that by (simp del: set_present)
      with bound None show ?thesis by (auto simp: is_bound_def simp del: set_present intro: less_imp_le)
    next
      case (Some i)
      then have "pos = i" using bound p(1) by (auto simp: is_bound_def pos_def find_insert_index_def)
      with w(1) that have "e \<in> set (present (take i (pma_buf p)))" unfolding take_present by (meson order.strict_trans2)
      with bound Some show ?thesis by (auto simp: is_bound_def simp del: set_present)
    qed
    moreover have "key \<le> fst e" if "e \<in> set ?post" for e
    proof -
      obtain j where j: "start + w \<le> j" "j < length (pma_buf p)" "pma_buf p ! j = Some e"
      proof -
        obtain i where "i < length (drop (start + w) (pma_buf p))" "drop (start + w) (pma_buf p) ! i = Some e"
          using \<open>e \<in> set ?post\<close> unfolding mem_present by blast
        then show thesis using that [of "start + w + i"] by simp
      qed
      show ?thesis
      proof (cases "lower_bound_present p key")
        case None
        then have "pos = pma_capacity p - 1" by (simp add: pos_def find_insert_index_def)
        with w(2) j(1,2) p(1) show ?thesis by linarith
      next
        case (Some i)
        then obtain e0 where e0: "pos = i" "pma_buf p ! i = Some e0" "key \<le> fst e0"
          using bound p(1) by (auto simp: is_bound_def pos_def find_insert_index_def)
        then have "i < j" using w(2) j(1) by linarith
        from in_order_nth [OF p(4) this j(2) e0(2) j(3)] e0(3) show ?thesis by (rule order.trans [rotated])
      qed
    qed
    ultimately have "in_order (pma_buf (pma_put p key val))"
      using sorted_insert_middle [of ?pre ?es ?post "(key, val)"] p(4) r(1) unfolding put split by (simp add: pma_iter_def)
    moreover have "mset (pma_iter (pma_put p key val)) = add_mset (key, val) (mset (pma_iter p))"
      unfolding put r(1) by (simp add: pma_iter_def split mset_vec_insert)
    moreover from this have "length (pma_iter (pma_put p key val)) = Suc (pma_count p)"
      using p(3) by (metis pma_iter_def size_add_mset size_mset)
    ultimately show ?thesis using k room limit r(2,3,4) unfolding put by (auto simp: pma_ok_def)
  qed
  then show "pma_ok m (pma_put p key val)" and "mset (pma_iter (pma_put p key val)) = add_mset (key, val) (mset (pma_iter p))" by blast+
qed

lemma pma_insert_ok:
  assumes ok: "pma_ok n p" and small: "13 + 5 * n \<le> 2 ^ 40"
  shows "pma_ok (Suc n) (pma_insert p key val)" and "mset (pma_iter (pma_insert p key val)) = add_mset (key, val) (mset (pma_iter p))"
proof -
  note p = pma_okD [OF ok]
  define q where "q = (if HIGH_WATERMARK < ratio (pma_count p + 1) (pma_capacity p) then grow p else p)"
  have put: "pma_insert p key val = pma_put q key val"
    unfolding pma_insert_def pma_put_def q_def [symmetric] Let_def ..
  have cap: "0 < pma_capacity p" using p(2) by simp
  have "(pma_ok n q \<or> pma_ok (Suc n) q) \<and> pma_count q \<le> n \<and> pma_iter q = pma_iter p \<and>
      11 * (pma_count q + 1) \<le> 10 * pma_capacity q \<and> pma_capacity q \<le> 13 + 5 * n"
  proof (cases "HIGH_WATERMARK < ratio (pma_count p + 1) (pma_capacity p)")
    case False
    then have "ratio (pma_count p + 1) (pma_capacity p) \<le> 901 / 1000" using watermark_le by linarith
    from density_room [OF cap this] ok p(6,7) False show ?thesis by (simp add: q_def)
  next
    case True
    then have "499 / 1000 \<le> ratio (pma_count p + 1) (pma_capacity p)" using watermark_ge by linarith
    from dense_capacity [OF cap this] p(6) have c: "pma_capacity p * 2 \<le> 5 * (n + 1)" by simp
    with small have c40: "pma_capacity p * 2 \<le> 2 ^ 40" by simp
    have "pma_capacity p * 2 \<le> 8 + 5 * Suc n" using c by simp
    note g = grow_inv [OF ok c40 this le_SucI [OF order_refl]] and g' = grow_ok [OF ok c40]
    show ?thesis using True g g' p(6) c by (simp add: q_def)
  qed
  then have q: "pma_ok (Suc n) q" "pma_count q \<le> n" "pma_iter q = pma_iter p" "11 * (pma_count q + 1) \<le> 10 * pma_capacity q"
    "pma_capacity q \<le> 13 + 5 * n" using pma_ok_mono [of n q "Suc n"] by auto
  have small_q: "pma_capacity q \<le> 2 ^ 40" using q(5) small by simp
  have "Suc (pma_count q) \<le> Suc n" "pma_capacity q \<le> 8 + 5 * Suc n" using q(2,5) by simp_all
  note placed = put_ok [OF q(1,4) small_q this, of key val]
  show "pma_ok (Suc n) (pma_insert p key val)" unfolding put by (rule placed(1))
  show "mset (pma_iter (pma_insert p key val)) = add_mset (key, val) (mset (pma_iter p))" unfolding put placed(2) q(3) ..
qed

lemma merge_sorted_ok:
  assumes "sorted (map fst as)" and "sorted (map fst bs)"
  shows "mset (merge_sorted as bs) = mset as + mset bs" and "sorted (map fst (merge_sorted as bs))"
    and "length (merge_sorted as bs) = length as + length bs"
proof -
  have set: "set (merge_sorted as bs) = set as \<union> set bs" for as bs :: "('a \<times> 'b) list"
    by (induction as bs rule: merge_sorted.induct) auto
  show "mset (merge_sorted as bs) = mset as + mset bs" by (induction as bs rule: merge_sorted.induct) simp_all
  then show "length (merge_sorted as bs) = length as + length bs" by (metis size_mset size_union)
  show "sorted (map fst (merge_sorted as bs))" using assms by (induction as bs rule: merge_sorted.induct) (auto simp: set)
qed

text \<open>The merge is the stable sort of the elements followed by the batch.\<close>

lemma merge_sorted_stable:
  assumes "sorted (map fst as)" and "sorted (map fst bs)"
  shows "merge_sorted as bs = sort_key fst (as @ bs)"
proof -
  have "filter (\<lambda>e. k = fst e) (merge_sorted as bs) = filter (\<lambda>e. k = fst e) as @ filter (\<lambda>e. k = fst e) bs" for k
    using assms
  proof (induction as bs rule: merge_sorted.induct)
    case (3 a as b bs)
    have "filter (\<lambda>e. k = fst e) (a # as) = []" if "fst b = k" "\<not> fst a \<le> fst b"
      using "3.prems"(1) that by (auto simp: filter_empty_conv)
    with 3 show ?case by auto
  qed simp_all
  then show ?thesis
    by (intro properties_for_sort_key [symmetric]) (use merge_sorted_ok [OF assms] in simp_all)
qed

lemma room_for_ok:
  assumes "0 < held" and "\<exists>k\<ge>3. capacity = 2 ^ k"
  obtains cap where "room_for held capacity = Some cap" and "\<exists>k\<ge>3. cap = 2 ^ k" and "11 * held \<le> 10 * cap"
    and "cap \<le> max capacity (5 * held)" and "capacity \<le> cap"
proof -
  let ?b = "\<lambda>capacity. capacity < 2 \<or> f64 (5 / 10) < ratio held capacity" and ?c = "\<lambda>capacity :: nat. capacity * 2"
  let ?B = "max capacity (5 * held)"
  let ?P = "\<lambda>x. (\<exists>k\<ge>3. x = 2 ^ k) \<and> x \<le> ?B \<and> capacity \<le> x"
  have ge8: "8 \<le> x" if "\<exists>k\<ge>3. x = 2 ^ k" for x :: nat using that power_increasing [of 3 _ "2 :: nat"] by auto
  have step: "?P (?c x) \<and> ?B - ?c x < ?B - x" if "?P x" "?b x" for x
  proof -
    have power: "\<exists>k\<ge>3. x = 2 ^ k" using that(1) by blast
    have x: "8 \<le> x" using ge8 [OF power] .
    with that(2) have "499 / 1000 \<le> ratio held x" using half_ge by linarith
    moreover have "0 < x" using x by simp
    ultimately have two: "2 * x \<le> 5 * held" by (rule dense_capacity [rotated])
    obtain k where "3 \<le> k" "x = 2 ^ k" using power by blast
    then have "3 \<le> Suc k" "?c x = 2 ^ Suc k" by simp_all
    then have "\<exists>k\<ge>3. ?c x = 2 ^ k" by blast
    moreover have "?c x \<le> ?B" using two by simp
    moreover have "capacity \<le> ?c x" using that(1) by simp
    moreover have "?B - ?c x < ?B - x" by (rule diff_less_mono2) (use x two in simp_all)
    ultimately show ?thesis by blast
  qed
  have "?P capacity" using assms(2) by simp
  with measure_while_option_Some [of ?P ?b ?c "\<lambda>x. ?B - x"] step obtain cap where run: "while_option ?b ?c capacity = Some cap" by blast
  have P: "?P cap" by (rule while_option_rule [where P = ?P, OF _ run]) (use step \<open>?P capacity\<close> in blast)+
  have "\<not> ?b cap" by (rule while_option_stop [OF run])
  then have "ratio held cap \<le> 901 / 1000" using half_le by linarith
  then have "11 * held \<le> 10 * cap" using density_room ge8 P by (metis less_le_trans zero_less_numeral)
  with P run that show ?thesis unfolding room_for_def by blast
qed

lemma extend_sorted_ok:
  assumes ok: "pma_ok n p" and sorted: "sorted (map fst batch)" and small: "8 + 5 * (n + length batch) \<le> 2 ^ 40"
  obtains q where "extend_sorted p batch = Some q" and "pma_ok (n + length batch) q"
    and "pma_iter q = merge_sorted (pma_iter p) batch"
proof (cases "batch = []")
  case True
  moreover have "merge_sorted xs [] = xs" for xs :: "('a \<times> 'b) list" by (cases xs) simp_all
  ultimately show ?thesis using that ok by (simp add: extend_sorted_def)
next
  case False
  note p = pma_okD [OF ok]
  let ?merged = "merge_sorted (present (pma_buf p)) batch"
  note m = merge_sorted_ok [OF p(4) sorted]
  have len: "length ?merged = pma_count p + length batch" using m(3) p(3) by simp
  then have pos: "0 < length ?merged" using False by simp
  have power: "\<exists>k\<ge>3. pma_capacity p = 2 ^ k" using ok by (simp add: pma_ok_def)
  obtain cap where cap: "room_for (length ?merged) (pma_capacity p) = Some cap" "\<exists>k\<ge>3. cap = 2 ^ k" "11 * length ?merged \<le> 10 * cap"
    "cap \<le> max (pma_capacity p) (5 * length ?merged)" using room_for_ok [OF pos power] by blast
  have small_cap: "cap \<le> 8 + 5 * (n + length batch)" using cap(4) p(6,7) unfolding len by (simp add: max_def split: if_splits)
  let ?buf = "spread_evenly ?merged (replicate cap None)"
  have "rising (even_slot (ratio cap (length ?merged))) cap 0 (length ?merged)"
    by (rule rising_even [OF cap(3)]) (use small_cap small in simp)
  note spread = spread_gap [OF this, of "[]" cap 0]
  have buf: "present ?buf = ?merged" "length ?buf = cap"
    using spread False pos by (auto simp: spread_evenly_def)
  let ?q = "\<lparr>pma_buf = ?buf, pma_capacity = cap, pma_count = length ?merged\<rparr>"
  have "extend_sorted p batch = Some ?q" using False cap(1) by (simp add: extend_sorted_def Let_def)
  moreover have "pma_ok (n + length batch) ?q"
    using buf cap(2,3) m(2) len p(6) small_cap by (simp add: pma_ok_def pma_iter_def)
  ultimately show ?thesis using that buf(1) by (simp add: pma_iter_def)
qed

section \<open>Reads\<close>

lemma pma_get_ok:
  assumes "pma_ok n p"
  shows "pma_get p key = None \<longleftrightarrow> key \<notin> fst ` set (pma_iter p)" and "pma_get p key = Some v \<Longrightarrow> (key, v) \<in> set (pma_iter p)"
proof -
  note bound = lower_bound_ok [OF assms, of key] and ok = pma_okD [OF assms]
  have "(pma_get p key = None \<longleftrightarrow> key \<notin> fst ` set (pma_iter p)) \<and> (\<forall>v. pma_get p key = Some v \<longrightarrow> (key, v) \<in> set (pma_iter p))"
  proof (cases "lower_bound_present p key")
    case None
    then have "\<forall>e \<in> set (pma_iter p). fst e < key" using bound by (simp add: is_bound_def pma_iter_def del: set_present)
    then have "key \<notin> fst ` set (pma_iter p)" by auto
    with None show ?thesis by (simp add: pma_get_def)
  next
    case (Some i)
    then obtain e where e: "i < length (pma_buf p)" "pma_buf p ! i = Some e" "key \<le> fst e"
      "\<forall>e' \<in> set (present (take i (pma_buf p))). fst e' \<le> key \<and> (fst e \<noteq> key \<longrightarrow> fst e' < key)"
      using bound by (auto simp: is_bound_def simp del: set_present)
    have mem: "e \<in> set (pma_iter p)" using e(1,2) unfolding pma_iter_def mem_present by blast
    have get: "pma_get p key = (if fst e = key then Some (snd e) else None)"
      using Some e(2) by (simp add: pma_get_def split: prod.splits)
    have "fst a \<noteq> key" if "fst e \<noteq> key" "a \<in> set (pma_iter p)" for a
    proof -
      have split: "pma_iter p = present (take i (pma_buf p)) @ e # present (drop (Suc i) (pma_buf p))"
        unfolding pma_iter_def by (rule present_split [OF e(1,2)])
      have "fst e \<le> fst b" if "b \<in> set (present (drop (Suc i) (pma_buf p)))" for b
        using ok(4) that unfolding pma_iter_def [symmetric] split by (simp add: sorted_append del: set_present)
      with e(3,4) that split show ?thesis by (fastforce simp del: set_present)
    qed
    with get mem show ?thesis by (cases e) (auto simp del: set_present intro: rev_image_eqI)
  qed
  then show "pma_get p key = None \<longleftrightarrow> key \<notin> fst ` set (pma_iter p)" and "pma_get p key = Some v \<Longrightarrow> (key, v) \<in> set (pma_iter p)" by blast+
qed

text \<open>Iteration from a key starts at an entry with that key, if there is one, and delivers everything after
  it; what it passes over are other entries with the same key.\<close>

lemma pma_iter_from_ok:
  assumes "pma_ok n p"
  obtains before passed where "pma_iter p = before @ passed @ pma_iter_from p key"
    and "\<forall>e \<in> set before. fst e < key" and "\<forall>e \<in> set passed. fst e = key" and "\<forall>e \<in> set (pma_iter_from p key). key \<le> fst e"
proof (cases "lower_bound_present p key")
  case None
  then have all: "\<forall>e \<in> set (pma_iter p). fst e < key"
    using lower_bound_ok [OF assms, of key] by (simp add: is_bound_def pma_iter_def del: set_present)
  have "pma_iter_from p key = []" using None pma_okD(1) [OF assms] by (simp add: pma_iter_from_def find_insert_index_def)
  with all that [of "pma_iter p" "[]"] show ?thesis by simp
next
  case (Some i)
  let ?pre = "present (take i (pma_buf p))"
  obtain e where e: "i < length (pma_buf p)" "pma_buf p ! i = Some e" "key \<le> fst e" and le: "\<forall>e' \<in> set ?pre. fst e' \<le> key"
    using lower_bound_ok [OF assms, of key] Some by (auto simp: is_bound_def simp del: set_present)
  have from_i: "pma_iter_from p key = present (drop i (pma_buf p))" using Some by (simp add: pma_iter_from_def find_insert_index_def)
  have split: "pma_iter p = ?pre @ pma_iter_from p key"
    unfolding from_i pma_iter_def by (metis append_take_drop_id present_append)
  have sorted: "sorted (map fst (?pre @ pma_iter_from p key))" using pma_okD(4) [OF assms] unfolding split [symmetric] pma_iter_def .
  have "drop i (pma_buf p) = Some e # drop (Suc i) (pma_buf p)" using e(1,2) by (simp add: Cons_nth_drop_Suc [symmetric])
  then have "pma_iter_from p key = e # present (drop (Suc i) (pma_buf p))" unfolding from_i by simp
  then have ge: "\<forall>e' \<in> set (pma_iter_from p key). key \<le> fst e'"
    using sorted e(3) by (auto simp: sorted_append simp del: set_present)
  have pre: "sorted (map fst ?pre)" using sorted by (simp add: sorted_append del: set_present)
  let ?before = "takeWhile (\<lambda>e. fst e < key) ?pre" and ?passed = "dropWhile (\<lambda>e. fst e < key) ?pre"
  have passed: "\<forall>e \<in> set ?passed. fst e = key"
  proof
    fix a assume a: "a \<in> set ?passed"
    have "key \<le> fst a" by (rule sorted_dropWhile_less [OF pre a])
    moreover have "fst a \<le> key" using le set_dropWhileD [OF a] by blast
    ultimately show "fst a = key" by simp
  qed
  show ?thesis
  proof (rule that [of ?before ?passed])
    show "pma_iter p = ?before @ ?passed @ pma_iter_from p key" using split by (simp only: append_assoc [symmetric] takeWhile_dropWhile_id)
    show "\<forall>e \<in> set ?before. fst e < key" by (meson set_takeWhileD)
  qed (rule passed, rule ge)
qed

section \<open>Runs\<close>

datatype ('k, 'v) pma_op = PmaInsert 'k 'v | PmaExtend "('k \<times> 'v) list" | PmaDrain

fun pma_step :: "('k::linorder, 'v) pma \<Rightarrow> ('k, 'v) pma_op \<Rightarrow> ('k, 'v) pma option" where
  "pma_step p (PmaInsert k v) = Some (pma_insert p k v)"
| "pma_step p (PmaExtend batch) = extend_sorted p batch"
| "pma_step p PmaDrain = Some (snd (pma_drain_sorted p))"

fun pma_run :: "('k::linorder, 'v) pma \<Rightarrow> ('k, 'v) pma_op list \<Rightarrow> ('k, 'v) pma option" where
  "pma_run p [] = Some p"
| "pma_run p (x # xs) = (case pma_step p x of None \<Rightarrow> None | Some q \<Rightarrow> pma_run q xs)"

fun op_size :: "('k, 'v) pma_op \<Rightarrow> nat" where
  "op_size (PmaInsert _ _) = 1"
| "op_size (PmaExtend batch) = length batch"
| "op_size PmaDrain = 0"

fun op_sorted :: "('k::linorder, 'v) pma_op \<Rightarrow> bool" where
  "op_sorted (PmaExtend batch) = sorted (map fst batch)"
| "op_sorted _ = True"

fun bag_step :: "('k \<times> 'v) multiset \<Rightarrow> ('k, 'v) pma_op \<Rightarrow> ('k \<times> 'v) multiset" where
  "bag_step M (PmaInsert k v) = add_mset (k, v) M"
| "bag_step M (PmaExtend batch) = M + mset batch"
| "bag_step M PmaDrain = {#}"

lemma pma_step_ok:
  assumes "pma_ok n p" and "op_sorted x" and "8 + 5 * (n + op_size x) \<le> 2 ^ 40"
  obtains q where "pma_step p x = Some q" and "pma_ok (n + op_size x) q" and "mset (pma_iter q) = bag_step (mset (pma_iter p)) x"
proof (cases x)
  case (PmaInsert k v)
  have "13 + 5 * n \<le> 2 ^ 40" using assms(3) PmaInsert by simp
  from pma_insert_ok [OF assms(1) this, of k v] show ?thesis using that PmaInsert by simp
next
  case (PmaExtend batch)
  have "sorted (map fst batch)" "8 + 5 * (n + length batch) \<le> 2 ^ 40" using assms(2,3) PmaExtend by simp_all
  from extend_sorted_ok [OF assms(1) this] obtain q where q: "extend_sorted p batch = Some q" "pma_ok (n + length batch) q"
    "pma_iter q = merge_sorted (pma_iter p) batch" by blast
  have "mset (pma_iter q) = mset (pma_iter p) + mset batch"
    unfolding q(3) using merge_sorted_ok(1) [of "pma_iter p" batch] pma_okD(4) [OF assms(1)] assms(2) PmaExtend by (simp add: pma_iter_def)
  with q that PmaExtend show ?thesis by simp
next
  case PmaDrain
  with that pma_drain_ok(2) [OF assms(1)] show ?thesis by simp
qed

lemma pma_run_ok:
  assumes "pma_ok n p" and "list_all op_sorted xs" and "8 + 5 * (n + sum_list (map op_size xs)) \<le> 2 ^ 40"
  shows "\<exists>q. pma_run p xs = Some q \<and> pma_ok (n + sum_list (map op_size xs)) q \<and> mset (pma_iter q) = foldl bag_step (mset (pma_iter p)) xs"
  using assms
proof (induction xs arbitrary: n p)
  case (Cons x xs)
  have "op_sorted x" "8 + 5 * (n + op_size x) \<le> 2 ^ 40" using Cons.prems(2,3) by simp_all
  from pma_step_ok [OF Cons.prems(1) this] obtain q where q: "pma_step p x = Some q" "pma_ok (n + op_size x) q"
    "mset (pma_iter q) = bag_step (mset (pma_iter p)) x" by blast
  have "8 + 5 * (n + op_size x + sum_list (map op_size xs)) \<le> 2 ^ 40" "list_all op_sorted xs" using Cons.prems(2,3) by simp_all
  with Cons.IH [OF q(2)] q(1,3) show ?case by (simp add: add.assoc)
qed simp

text \<open>C9: The packed memory array is a sorted multiset. After every sequence of insertions, sorted bulk
  insertions and drains, with all growth and window rebalancing these cause and the spacing computed in
  double precision, the loops have ended, the entries are in key order and are exactly those inserted
  since the last drain, the count is right, and a lookup finds a key exactly if it is present and returns
  one of its values.\<close>

theorem pma_refines_multiset:
  assumes "list_all op_sorted xs" and "8 + 5 * sum_list (map op_size xs) \<le> 2 ^ 40"
  shows "\<exists>p. pma_run pma_new xs = Some p \<and> sorted (map fst (pma_iter p)) \<and> mset (pma_iter p) = foldl bag_step {#} xs \<and>
    pma_count p = size (foldl bag_step {#} xs) \<and>
    (\<forall>key. case pma_get p key of
             None \<Rightarrow> key \<notin> fst ` set (pma_iter p)
           | Some v \<Rightarrow> (key, v) \<in> set (pma_iter p))"
proof -
  obtain p where p: "pma_run pma_new xs = Some p" "pma_ok (sum_list (map op_size xs)) p" "mset (pma_iter p) = foldl bag_step {#} xs"
    using pma_run_ok [of 0 pma_new xs] assms by auto
  have "pma_count p = size (foldl bag_step {#} xs)" using pma_okD(3) [OF p(2)] p(3) by (metis pma_iter_def size_mset)
  moreover have "case pma_get p key of None \<Rightarrow> key \<notin> fst ` set (pma_iter p) | Some v \<Rightarrow> (key, v) \<in> set (pma_iter p)" for key
    using pma_get_ok [OF p(2), of key] by (simp split: option.splits)
  ultimately show ?thesis using p(1,3) pma_okD(4) [OF p(2)] by (auto simp: pma_iter_def simp del: set_present)
qed

theorem pma_refines_multiset_witness:
  "\<exists>p. pma_run pma_new [PmaExtend [(1, ''a''), (4, ''b'')], PmaInsert (3 :: nat) ''c'', PmaDrain, PmaInsert 2 ''d'', PmaInsert 1 ''e''] = Some p \<and>
     map fst (pma_iter p) = [1, 2] \<and> pma_count p = 2"
proof -
  let ?xs = "[PmaExtend [(1, ''a''), (4, ''b'')], PmaInsert (3 :: nat) ''c'', PmaDrain, PmaInsert 2 ''d'', PmaInsert 1 ''e'']"
  have "list_all op_sorted ?xs" "8 + 5 * sum_list (map op_size ?xs) \<le> 2 ^ 40" by simp_all
  from pma_refines_multiset [OF this] obtain p where p: "pma_run pma_new ?xs = Some p" "sorted (map fst (pma_iter p))"
    "mset (pma_iter p) = {#(2, ''d''), (1, ''e'')#}" "pma_count p = 2" by auto
  have "mset (map fst (pma_iter p)) = {#2, 1#}" using p(3) by (metis (no_types) fst_conv image_mset_add_mset image_mset_empty mset_map)
  then have "mset (map fst (pma_iter p)) = mset [1, 2]" by simp
  from properties_for_sort [OF this p(2)] have keys: "map fst (pma_iter p) = [1, 2]" by simp
  show ?thesis by (rule exI [of _ p]) (intro conjI p(1) keys p(4))
qed

section \<open>Duplicate keys\<close>

lemma f64_nat:
  assumes "n < 2 ^ 53"
  shows "f64 (real n) = real n"
proof (cases "n = 0")
  case False
  define l where "l = \<lfloor>log 2 (real n)\<rfloor>"
  have "log 2 (real n) < log 2 (2 ^ 53)"
    using assms False by (metis log_less_cancel_iff one_less_numeral_iff of_nat_0_less_iff of_nat_less_numeral_power_cancel_iff gr0I
        semiring_norm(76) zero_less_numeral zero_less_power)
  also have "\<dots> = 53" using log_pow_cancel [of 2 53] by (simp only: of_nat_numeral)
  finally have "log 2 (real n) < 53" .
  then have l: "l \<le> 52" unfolding l_def by linarith
  then have "of_int (l - 52) = - real (nat (52 - l))" by simp
  then have "(2 :: real) powr (of_int (l - 52)) = 1 / 2 ^ nat (52 - l)"
    by (simp only: powr_minus_divide powr_realpow zero_less_numeral)
  then have unit: "2 powr (of_int (\<lfloor>log 2 \<bar>real n\<bar>\<rfloor> - 52)) = 1 / (2 :: real) ^ nat (52 - l)" by (simp add: l_def)
  have "real n / (1 / 2 ^ nat (52 - l)) = of_int (int (n * 2 ^ nat (52 - l)))" by simp
  moreover have "round_even (of_int m) = m" for m by (simp add: round_even_def)
  ultimately have "of_int (round_even (real n / (1 / 2 ^ nat (52 - l)))) * (1 / (2 :: real) ^ nat (52 - l)) = real n" by (simp only:) simp
  then show ?thesis unfolding f64_def Let_def unit using False by simp
qed (simp add: f64_def)

text \<open>Two entries with one key, inserted in bulk: lookup and iteration from the key find the second.\<close>

lemma duplicate_is_passed_over:
  "map_option (\<lambda>p. (pma_iter p, pma_get p (1 :: nat), pma_iter_from p 1)) (extend_sorted pma_new [(1, ''first''), (1, ''second'')]) =
   Some ([(1, ''first''), (1, ''second'')], Some ''second'', [(1, ''second'')])"
proof -
  have exact: "f64 0 = 0" "f64 1 = 1" "f64 2 = 2" "f64 4 = 4" "f64 8 = 8"
    using f64_nat [of 0] f64_nat [of 1] f64_nat [of 2] f64_nat [of 4] f64_nat [of 8] by simp_all
  have quarter: "ratio 2 8 \<le> f64 (5 / 10)"
    using ratio_bounds(1) [of 8 2] half_ge by simp
  have room: "room_for 2 8 = Some 8" using quarter unfolding room_for_def by (subst while_option_unfold) simp
  have gap: "ratio 8 2 = 4" by (simp add: ratio_def exact)
  have slots: "even_slot 4 0 = 0" "even_slot 4 (Suc 0) = 4" by (simp_all add: even_slot_def exact)
  let ?row = "[(1 :: nat, ''first''), (1, ''second'')]"
  let ?buf = "[Some (1 :: nat, ''first''), None, None, None, Some (1, ''second''), None, None, None]"
  have eight: "replicate 8 None = [None, None, None, None, None, None, None, None]" by (simp add: numeral_eq_Suc)
  have len: "length ?row = 2" by simp
  have "spread_evenly ?row (replicate 8 None) = spread_from 4 8 0 0 ?row (replicate 8 None)"
    unfolding spread_evenly_def length_replicate len gap by (simp only: list.distinct if_False)
  also have "\<dots> = spread_from 4 8 0 0 ?row [None, None, None, None, None, None, None, None]" unfolding eight ..
  also have "\<dots> = ?buf" by (simp add: slots nudge.simps)
  finally have spread: "spread_evenly ?row (replicate 8 None) = ?buf" .
  let ?p = "\<lparr>pma_buf = ?buf, pma_capacity = 8, pma_count = 2\<rparr>"
  have "extend_sorted pma_new ?row = Some ?p"
    using room spread by (simp add: extend_sorted_def pma_new_eq LEAF_WINDOW_def Let_def numeral_2_eq_2)
  moreover have "lower_bound_present ?p 1 = Some 4"
    by (simp add: lower_bound_present_def lower_bound_loop.simps first_present_in_def)
  ultimately show ?thesis by (simp add: pma_iter_def pma_get_def pma_iter_from_def find_insert_index_def)
qed

end
