(* ===== verification/Mutable_Run.thy ===== *)
theory Mutable_Run
  imports Memtable_Cursor Pma_Runs
begin

text \<open>
  The mutable run tier (\<open>crates/mongreldb-core/src/mutable_run.rs\<close>): the layer between the memtable and
  the immutable sorted runs. A flush folds the drained rows into one packed memory array; sealing
  freezes it and opens a new one, and eight frozen arrays are merged into one. The operations that
  extend an array return \<open>option\<close> because the loop that sizes the array does; below the bound of
  \<open>Pma_Runs\<close> they always return. The streaming cursor is in \<open>Run_Cursor\<close>.
\<close>

declare split_paired_All [simp del] split_paired_Ex [simp del]

section \<open>The tier\<close>

record mutable_run_segment =
  rs_pma :: "(vkey, row) pma"
  rs_byte_size :: u64

record mutable_run =
  mr_frozen :: "mutable_run_segment list"
  mr_active :: mutable_run_segment
  mr_byte_size :: u64

definition run_segment_new :: mutable_run_segment where
  "run_segment_new = \<lparr>rs_pma = pma_new, rs_byte_size = 0\<rparr>"

definition mutable_run_new :: mutable_run where
  "mutable_run_new = \<lparr>mr_frozen = [], mr_active = run_segment_new, mr_byte_size = 0\<rparr>"

definition add_row_bytes :: "u64 \<Rightarrow> row \<Rightarrow> u64" where
  "add_row_bytes acc r = sat_add acc (row_estimated_bytes r)"

definition keyed :: "row list \<Rightarrow> (vkey \<times> row) list" where
  "keyed rows = map (\<lambda>r. ((row_id r, committed_epoch r), r)) rows"

definition insert_many :: "mutable_run \<Rightarrow> row list \<Rightarrow> mutable_run option" where
  "insert_many m rows =
     (case extend_sorted (rs_pma (mr_active m)) (keyed rows) of
        None \<Rightarrow> None
      | Some pma \<Rightarrow>
          Some (m\<lparr>mr_byte_size := foldl add_row_bytes (mr_byte_size m) rows,
                  mr_active := \<lparr>rs_pma = pma, rs_byte_size = foldl add_row_bytes (rs_byte_size (mr_active m)) rows\<rparr>\<rparr>))"

definition mr_len :: "mutable_run \<Rightarrow> nat" where
  "mr_len m = pma_count (rs_pma (mr_active m)) + sum_list (map (\<lambda>seg. pma_count (rs_pma seg)) (mr_frozen m))"

definition mr_is_empty :: "mutable_run \<Rightarrow> bool" where
  "mr_is_empty m \<longleftrightarrow> pma_is_empty (rs_pma (mr_active m)) \<and> mr_frozen m = []"

definition approx_bytes :: "mutable_run \<Rightarrow> u64" where
  "approx_bytes m = mr_byte_size m"

text \<open>The arrays in the order of \<open>frozen.iter().chain(once(active))\<close>.\<close>

definition run_arrays :: "mutable_run \<Rightarrow> (vkey, row) pma list" where
  "run_arrays m = map rs_pma (mr_frozen m) @ [rs_pma (mr_active m)]"

text \<open>The inner loop of \<open>get_version_at\<close> over \<open>iter_from\<close>.\<close>

fun seek_versions :: "snapshot \<Rightarrow> RowId \<Rightarrow> row option \<Rightarrow> (vkey \<times> row) list \<Rightarrow> row option" where
  "seek_versions snap rid best [] = best"
| "seek_versions snap rid best (((r_id, _), r) # es) =
     (if r_id \<noteq> rid then best
      else if \<not> uses_hlc_authority snap \<and> snap_epoch snap < committed_epoch r then best
      else seek_versions snap rid (supersede_visible snap best r) es)"

definition run_get_version_at :: "mutable_run \<Rightarrow> RowId \<Rightarrow> snapshot \<Rightarrow> (epoch \<times> row) option" where
  "run_get_version_at m rid snap =
     map_option (\<lambda>r. (committed_epoch r, r))
       (foldl (\<lambda>best pma. seek_versions snap rid best (pma_iter_from pma (rid, 0))) None (run_arrays m))"

definition run_get_version :: "mutable_run \<Rightarrow> RowId \<Rightarrow> epoch \<Rightarrow> (epoch \<times> row) option" where
  "run_get_version m rid e = run_get_version_at m rid (snapshot_at e)"

definition run_insert_newest :: "snapshot \<Rightarrow> (RowId \<rightharpoonup> row) \<Rightarrow> vkey \<times> row \<Rightarrow> (RowId \<rightharpoonup> row)" where
  "run_insert_newest snap by_row e =
     (let r = snd e
      in if \<not> observes_row snap (committed_epoch r) (commit_ts r) then by_row
         else case by_row (row_id r) of
                None \<Rightarrow> by_row(row_id r \<mapsto> r)
              | Some existing \<Rightarrow>
                  if version_supersedes (committed_epoch r) (commit_ts r) (committed_epoch existing) (commit_ts existing)
                  then by_row(row_id r \<mapsto> r) else by_row)"

definition run_newest_visible_map :: "mutable_run \<Rightarrow> snapshot \<Rightarrow> (RowId \<rightharpoonup> row)" where
  "run_newest_visible_map m snap =
     foldl (\<lambda>by_row pma. foldl (run_insert_newest snap) by_row (pma_iter pma)) Map.empty (run_arrays m)"

definition run_visible_versions_at :: "mutable_run \<Rightarrow> snapshot \<Rightarrow> row list" where
  "run_visible_versions_at m snap =
     (let by_row = run_newest_visible_map m snap in map (\<lambda>rid. the (by_row rid)) (sorted_list_of_set (dom by_row)))"

definition run_visible_versions :: "mutable_run \<Rightarrow> epoch \<Rightarrow> row list" where
  "run_visible_versions m e = run_visible_versions_at m (snapshot_at e)"

definition frozen_rows :: "mutable_run \<Rightarrow> row list" where
  "frozen_rows m = concat (map (\<lambda>seg. map snd (pma_iter (rs_pma seg))) (mr_frozen m))"

definition run_consolidate :: "mutable_run \<Rightarrow> mutable_run option" where
  "run_consolidate m =
     (let rows = sort_key (\<lambda>r. (row_id r, committed_epoch r)) (frozen_rows m)
      in case extend_sorted pma_new (keyed rows) of
           None \<Rightarrow> None
         | Some pma \<Rightarrow> Some (m\<lparr>mr_frozen := [\<lparr>rs_pma = pma, rs_byte_size = mr_byte_size m\<rparr>]\<rparr>))"

definition run_seal :: "mutable_run \<Rightarrow> mutable_run option" where
  "run_seal m =
     (if pma_is_empty (rs_pma (mr_active m)) then Some m
      else let m' = m\<lparr>mr_active := run_segment_new, mr_frozen := mr_frozen m @ [mr_active m]\<rparr>
           in if MAX_READ_GENERATION_LAYERS \<le> length (mr_frozen m') then run_consolidate m' else Some m')"

definition run_drain_sorted :: "mutable_run \<Rightarrow> row list \<times> mutable_run" where
  "run_drain_sorted m =
     (sort_key (\<lambda>r. (row_id r, committed_epoch r)) (frozen_rows m @ map snd (pma_iter (rs_pma (mr_active m)))),
      m\<lparr>mr_frozen := [], mr_active := run_segment_new, mr_byte_size := 0\<rparr>)"

section \<open>The log of a run\<close>

definition array_rows :: "(vkey, row) pma \<Rightarrow> row list" where
  "array_rows p = map snd (pma_iter p)"

definition run_rows :: "mutable_run \<Rightarrow> row list" where
  "run_rows m = concat (map array_rows (run_arrays m))"

definition array_ok :: "nat \<Rightarrow> (vkey, row) pma \<Rightarrow> bool" where
  "array_ok n p \<longleftrightarrow> pma_ok n p \<and> pma_iter p = keyed (array_rows p)"

definition run_ok :: "nat \<Rightarrow> mutable_run \<Rightarrow> bool" where
  "run_ok n m \<longleftrightarrow> (\<forall>p\<in>set (run_arrays m). array_ok n p) \<and> length (run_rows m) \<le> n \<and>
     length (mr_frozen m) < MAX_READ_GENERATION_LAYERS \<and> (\<forall>seg\<in>set (mr_frozen m). array_rows (rs_pma seg) \<noteq> [])"

lemma keyed_vkey: "keyed rows = map (\<lambda>r. (vkey_of r, r)) rows"
  by (simp add: keyed_def vkey_of_def)

lemma keyed_props [simp]: "map fst (keyed rows) = map vkey_of rows" "map snd (keyed rows) = rows" "length (keyed rows) = length rows"
  "keyed [] = []" "keyed (xs @ ys) = keyed xs @ keyed ys"
  by (simp_all add: keyed_vkey comp_def)

lemma frozen_rows_arrays: "frozen_rows m = concat (map array_rows (map rs_pma (mr_frozen m)))"
  by (simp add: frozen_rows_def array_rows_def [abs_def] comp_def)

lemma run_rows_eq: "run_rows m = frozen_rows m @ array_rows (rs_pma (mr_active m))"
  by (simp add: run_rows_def run_arrays_def frozen_rows_arrays)

lemma array_rows_new [simp]: "array_rows pma_new = []"
  by (simp add: array_rows_def)

lemma array_ok_new [simp]: "array_ok n pma_new"
  by (simp add: array_ok_def)

lemma run_ok_new [simp]: "run_ok n mutable_run_new" and run_rows_new [simp]: "run_rows mutable_run_new = []"
  by (simp_all add: run_ok_def run_rows_def run_arrays_def mutable_run_new_def run_segment_new_def MAX_READ_GENERATION_LAYERS_def)

lemma array_ok_mono: "array_ok n p \<Longrightarrow> n \<le> n' \<Longrightarrow> array_ok n' p"
  using pma_ok_mono by (auto simp: array_ok_def)

lemma array_sorted: "array_ok n p \<Longrightarrow> sorted (map vkey_of (array_rows p))"
  using pma_okD(4) [of n p] keyed_props(1) [of "array_rows p"] unfolding array_ok_def pma_iter_def [symmetric] by metis

lemma keyed_sort: "sort_key fst (keyed rows) = keyed (sort_key vkey_of rows)"
proof (rule properties_for_sort_key)
  show "filter (\<lambda>x. fst k = fst x) (keyed (sort_key vkey_of rows)) = filter (\<lambda>x. fst k = fst x) (keyed rows)" for k
    using sort_key_stable [of vkey_of "fst k" rows] by (simp add: keyed_vkey filter_map comp_def eq_commute [of "fst k"])
qed (simp_all add: keyed_vkey mset_map comp_def)

lemma klog_sort [simp]: "klog (sort_key vkey_of xs) k = klog xs k"
  by (simp add: klog_def sort_key_stable)

lemma extend_array_ok:
  assumes "array_ok n p" and "sorted (map vkey_of rows)" and "8 + 5 * (n + length rows) \<le> 2 ^ 40"
  obtains q where "extend_sorted p (keyed rows) = Some q" and "array_ok (n + length rows) q"
    and "array_rows q = sort_key vkey_of (array_rows p @ rows)"
proof -
  have ok: "pma_ok n p" and key: "pma_iter p = keyed (array_rows p)" using assms(1) by (simp_all add: array_ok_def)
  from extend_sorted_ok [OF ok, of "keyed rows"] assms(2,3) obtain q where q: "extend_sorted p (keyed rows) = Some q"
    "pma_ok (n + length rows) q" "pma_iter q = merge_sorted (pma_iter p) (keyed rows)" by auto
  have "pma_iter q = sort_key fst (pma_iter p @ keyed rows)"
    unfolding q(3) using array_sorted [OF assms(1)] assms(2) by (intro merge_sorted_stable) (simp_all add: key)
  also have "\<dots> = keyed (sort_key vkey_of (array_rows p @ rows))"
    unfolding key keyed_props(5) [symmetric] by (rule keyed_sort)
  finally have it: "pma_iter q = keyed (sort_key vkey_of (array_rows p @ rows))" .
  then have "array_rows q = sort_key vkey_of (array_rows p @ rows)" by (simp add: array_rows_def)
  with q it that show ?thesis by (simp add: array_ok_def)
qed

lemma array_count: "array_ok n p \<Longrightarrow> pma_count p = length (array_rows p)"
  using pma_okD(3) [of n p] by (simp add: array_ok_def array_rows_def pma_iter_def)

lemma array_is_empty: "array_ok n p \<Longrightarrow> pma_is_empty p \<longleftrightarrow> array_rows p = []"
  using array_count [of n p] by (simp add: pma_is_empty_def)

lemma insert_many_ok:
  assumes "run_ok n m" and "sorted (map vkey_of rows)" and "8 + 5 * (n + length rows) \<le> 2 ^ 40"
  obtains m' where "insert_many m rows = Some m'" and "run_ok (n + length rows) m'"
    and "\<And>k. klog (run_rows m') k = klog (run_rows m @ rows) k" and "mr_byte_size m' = foldl add_row_bytes (mr_byte_size m) rows"
proof -
  have "array_ok n (rs_pma (mr_active m))" using assms(1) by (simp add: run_ok_def run_arrays_def)
  from extend_array_ok [OF this assms(2,3)] obtain q where q: "extend_sorted (rs_pma (mr_active m)) (keyed rows) = Some q"
    "array_ok (n + length rows) q" "array_rows q = sort_key vkey_of (array_rows (rs_pma (mr_active m)) @ rows)" by blast
  let ?m = "m\<lparr>mr_byte_size := foldl add_row_bytes (mr_byte_size m) rows,
      mr_active := \<lparr>rs_pma = q, rs_byte_size = foldl add_row_bytes (rs_byte_size (mr_active m)) rows\<rparr>\<rparr>"
  have rows: "run_rows ?m = frozen_rows m @ array_rows q" by (simp add: run_rows_eq frozen_rows_def)
  have log: "klog (run_rows ?m) k = klog (run_rows m @ rows) k" for k
    unfolding rows q(3) by (simp add: run_rows_eq klog_append)
  have "run_ok (n + length rows) ?m"
    using assms(1) q(2,3) array_ok_mono [of n _ "n + length rows"] unfolding run_ok_def rows
    by (auto simp: run_arrays_def run_rows_eq)
  with that [of ?m] q(1) log show ?thesis by (simp add: insert_many_def)
qed

lemma run_consolidate_ok:
  assumes "\<forall>p\<in>set (run_arrays m). array_ok n p" and "length (run_rows m) \<le> n" and "8 + 5 * n \<le> 2 ^ 40"
    and "frozen_rows m \<noteq> []"
  obtains m' where "run_consolidate m = Some m'" and "run_ok n m'"
    and "\<And>k. klog (run_rows m') k = klog (run_rows m) k" and "mr_byte_size m' = mr_byte_size m"
proof -
  let ?rows = "sort_key vkey_of (frozen_rows m)"
  have len: "length (frozen_rows m) \<le> n" using assms(2) by (simp add: run_rows_eq)
  have "sorted (map vkey_of ?rows)" "8 + 5 * (0 + length ?rows) \<le> 2 ^ 40" using len assms(3) by simp_all
  from extend_array_ok [OF array_ok_new this] obtain q where q: "extend_sorted pma_new (keyed ?rows) = Some q"
    "array_ok (length (frozen_rows m)) q" "array_rows q = sort_key vkey_of ?rows" by auto
  let ?m = "m\<lparr>mr_frozen := [\<lparr>rs_pma = q, rs_byte_size = mr_byte_size m\<rparr>]\<rparr>"
  have rows: "run_rows ?m = array_rows q @ array_rows (rs_pma (mr_active m))" by (simp add: run_rows_eq frozen_rows_arrays)
  have "array_rows q \<noteq> []" using assms(4) unfolding q(3) by (metis length_0_conv length_sort)
  then have "run_ok n ?m"
    using assms(1,2) array_ok_mono [OF q(2) len] q(3) unfolding run_ok_def rows
    by (simp add: run_arrays_def run_rows_eq MAX_READ_GENERATION_LAYERS_def)
  moreover have "klog (run_rows ?m) k = klog (run_rows m) k" for k
    unfolding rows q(3) by (simp add: run_rows_eq klog_append)
  ultimately show ?thesis using that [of ?m] q(1) by (simp add: run_consolidate_def vkey_of_def [abs_def])
qed

lemma run_seal_ok:
  assumes "run_ok n m" and "8 + 5 * n \<le> 2 ^ 40"
  obtains m' where "run_seal m = Some m'" and "run_ok n m'"
    and "\<And>k. klog (run_rows m') k = klog (run_rows m) k" and "mr_byte_size m' = mr_byte_size m"
proof (cases "pma_is_empty (rs_pma (mr_active m))")
  case True
  with that [of m] assms(1) show ?thesis by (simp add: run_seal_def)
next
  case False
  let ?m = "m\<lparr>mr_active := run_segment_new, mr_frozen := mr_frozen m @ [mr_active m]\<rparr>"
  have act: "array_ok n (rs_pma (mr_active m))" using assms(1) by (simp add: run_ok_def run_arrays_def)
  have held: "array_rows (rs_pma (mr_active m)) \<noteq> []" using False array_is_empty [OF act] by simp
  have arrays: "\<forall>p\<in>set (run_arrays ?m). array_ok n p" using assms(1) by (simp add: run_ok_def run_arrays_def run_segment_new_def)
  have rows: "run_rows ?m = run_rows m" by (simp add: run_rows_eq frozen_rows_arrays run_segment_new_def)
  show ?thesis
  proof (cases "MAX_READ_GENERATION_LAYERS \<le> length (mr_frozen ?m)")
    case True
    have "frozen_rows ?m \<noteq> []" using held by (simp add: frozen_rows_arrays)
    moreover have "length (run_rows ?m) \<le> n" using assms(1) rows by (simp add: run_ok_def)
    ultimately obtain m' where "run_consolidate ?m = Some m'" "run_ok n m'" "\<And>k. klog (run_rows m') k = klog (run_rows ?m) k"
      "mr_byte_size m' = mr_byte_size ?m" using run_consolidate_ok [OF arrays _ assms(2)] by metis
    with that [of m'] True False rows show ?thesis by (simp add: run_seal_def)
  next
    case small: False
    then have "run_ok n ?m" using assms(1) arrays rows held by (auto simp: run_ok_def)
    moreover have "run_seal m = Some ?m" using False small by (simp add: run_seal_def)
    ultimately show ?thesis using that [of ?m] rows by simp
  qed
qed

lemma run_drain_ok:
  "fst (run_drain_sorted m) = sort_key vkey_of (run_rows m)" "run_rows (snd (run_drain_sorted m)) = []" "run_ok n (snd (run_drain_sorted m))"
  by (simp_all add: run_drain_sorted_def run_rows_eq frozen_rows_def array_rows_def vkey_of_def [abs_def] run_segment_new_def
      run_ok_def run_arrays_def MAX_READ_GENERATION_LAYERS_def)
section \<open>The reads\<close>

lemma run_insert_newest_eq: "run_insert_newest snap M e = insert_newest snap M (snd e)"
  by (simp add: run_insert_newest_def insert_newest_def observes_row_def Let_def)

lemma run_map_fold:
  "run_newest_visible_map m snap rid = fold_newest row_newer (candidates snap rid (run_rows m))"
proof -
  have one: "foldl (run_insert_newest snap) M es = foldl (insert_newest snap) M (map snd es)" for M es
    by (simp add: foldl_map run_insert_newest_eq [abs_def])
  have "foldl (\<lambda>M p. foldl (run_insert_newest snap) M (pma_iter p)) M ps =
      foldl (insert_newest snap) M (concat (map array_rows ps))" for M ps
    by (induction ps arbitrary: M) (simp_all add: one array_rows_def)
  then show ?thesis by (simp add: run_newest_visible_map_def run_rows_def foldl_insert_newest fold_newest_def)
qed

abbreviation in_reach :: "snapshot \<Rightarrow> RowId \<Rightarrow> row \<Rightarrow> bool" where
  "in_reach snap rid r \<equiv> row_id r = rid \<and> (uses_hlc_authority snap \<or> committed_epoch r \<le> snap_epoch snap)"

lemma seek_versions_fold:
  "seek_versions snap rid best (keyed rows) = foldl (supersede_visible snap) best (takeWhile (in_reach snap rid) rows)"
  by (induction rows arbitrary: best) (auto simp: keyed_def not_less)

lemma visible_epoch: "\<not> uses_hlc_authority snap \<Longrightarrow> visible_to snap r \<longleftrightarrow> committed_epoch r \<le> snap_epoch snap"
  by (simp add: visible_to_def observes_version_def split: option.splits)

lemma seek_candidates:
  assumes "sorted (map vkey_of rows)" and "\<forall>r\<in>set rows. rid \<le> row_id r"
  shows "filter (visible_to snap) (takeWhile (in_reach snap rid) rows) = candidates snap rid rows"
  using assms
proof (induction rows)
  case (Cons r rows)
  show ?case
  proof (cases "in_reach snap rid r")
    case True
    with Cons show ?thesis by simp
  next
    case False
    have "\<not> (row_id x = rid \<and> visible_to snap x)" if "x \<in> set (r # rows)" for x
    proof
      assume x: "row_id x = rid \<and> visible_to snap x"
      have le: "vkey_of r \<le> vkey_of x" using Cons.prems(1) that by auto
      then have "row_id r = rid" using Cons.prems(2) x by (auto simp: vkey_of_def)
      with False have "\<not> uses_hlc_authority snap" "snap_epoch snap < committed_epoch r" by auto
      then show False using le x \<open>row_id r = rid\<close> visible_epoch [of snap x] by (auto simp: vkey_of_def)
    qed
    then have "candidates snap rid (r # rows) = []" by (simp only: filter_empty_conv) blast
    with False show ?thesis by (simp only: takeWhile.simps if_False filter.simps(1))
  qed
qed simp

lemma seek_array:
  assumes "array_ok n p" and "\<forall>r\<in>set (array_rows p). vkey_of r \<noteq> (rid, 0)"
  shows "seek_versions snap rid best (pma_iter_from p (rid, 0)) = foldl (supersede row_newer) best (candidates snap rid (array_rows p))"
proof -
  have ok: "pma_ok n p" and key: "pma_iter p = keyed (array_rows p)" using assms(1) by (simp_all add: array_ok_def)
  obtain before passed where it: "pma_iter p = before @ passed @ pma_iter_from p (rid, 0)"
    and lt: "\<forall>e\<in>set before. fst e < (rid, 0)" and eq: "\<forall>e\<in>set passed. fst e = (rid, 0)"
    and ge: "\<forall>e\<in>set (pma_iter_from p (rid, 0)). (rid, 0) \<le> fst e" using pma_iter_from_ok [OF ok] by metis
  have keys: "fst e = vkey_of (snd e)" if "e \<in> set (pma_iter p)" for e using that unfolding key by (auto simp: keyed_vkey)
  have mem: "snd e \<in> set (array_rows p)" if "e \<in> set (pma_iter p)" for e using that by (simp add: array_rows_def)
  have "passed = []"
  proof (cases passed)
    case (Cons e es)
    then have "e \<in> set (pma_iter p)" "fst e = (rid, 0)" using it eq by simp_all
    with keys mem assms(2) show ?thesis by metis
  qed simp
  let ?rest = "map snd (pma_iter_from p (rid, 0))"
  have rows: "array_rows p = map snd before @ ?rest" unfolding array_rows_def using it \<open>passed = []\<close> by simp
  have "keyed ?rest = pma_iter_from p (rid, 0)"
    unfolding keyed_vkey map_map by (rule map_idI) (use keys it in force)
  then have seek: "seek_versions snap rid best (pma_iter_from p (rid, 0)) =
      foldl (supersede_visible snap) best (takeWhile (in_reach snap rid) ?rest)"
    using seek_versions_fold [of snap rid best ?rest] by simp
  have "sorted (map vkey_of ?rest)" using array_sorted [OF assms(1)] unfolding rows by (simp add: sorted_append)
  moreover have "\<forall>r\<in>set ?rest. rid \<le> row_id r"
  proof
    fix r assume "r \<in> set ?rest"
    then obtain e where e: "e \<in> set (pma_iter_from p (rid, 0))" "r = snd e" by auto
    then have "(rid, 0) \<le> vkey_of r" using ge keys [of e] it by auto
    then show "rid \<le> row_id r" by (auto simp: vkey_of_def)
  qed
  ultimately have cand: "filter (visible_to snap) (takeWhile (in_reach snap rid) ?rest) = candidates snap rid ?rest"
    by (rule seek_candidates)
  have "row_id r \<noteq> rid" if r: "r \<in> set (map snd before)" for r
  proof -
    obtain e where e: "e \<in> set before" "r = snd e" using r by auto
    then have "vkey_of r < (rid, 0)" using lt keys [of e] it by auto
    then show ?thesis by (auto simp: vkey_of_def)
  qed
  then have "candidates snap rid (map snd before) = []" by (simp only: filter_empty_conv) blast
  then have "candidates snap rid (array_rows p) = candidates snap rid ?rest" unfolding rows by (simp only: filter_append append_Nil)
  then show ?thesis unfolding seek foldl_supersede_visible cand by simp
qed

lemma run_get_fold:
  assumes "run_ok n m" and "\<forall>r\<in>set (run_rows m). vkey_of r \<noteq> (rid, 0)"
  shows "run_get_version_at m rid snap =
    map_option (\<lambda>r. (committed_epoch r, r)) (fold_newest row_newer (candidates snap rid (run_rows m)))"
proof -
  have "foldl (\<lambda>best p. seek_versions snap rid best (pma_iter_from p (rid, 0))) best ps =
      foldl (supersede row_newer) best (candidates snap rid (concat (map array_rows ps)))"
    if "\<forall>p\<in>set ps. array_ok n p \<and> (\<forall>r\<in>set (array_rows p). vkey_of r \<noteq> (rid, 0))" for best ps
    using that by (induction ps arbitrary: best) (simp_all add: seek_array [where n = n])
  moreover have "\<forall>p\<in>set (run_arrays m). array_ok n p \<and> (\<forall>r\<in>set (array_rows p). vkey_of r \<noteq> (rid, 0))"
    using assms by (auto simp: run_ok_def run_rows_def)
  ultimately show ?thesis by (simp add: run_get_version_at_def fold_newest_def run_rows_def)
qed

text \<open>Two logs with the same writes under every key have the same newest versions of coherently
  stamped rows.\<close>

lemma fold_newest_klog:
  assumes "coherent_rows (filter (\<lambda>r. row_id r = rid) xs)" and "\<And>k. klog ys k = klog xs k"
  shows "fold_newest row_newer (candidates snap rid ys) = fold_newest row_newer (candidates snap rid xs)"
proof -
  have "set ys = set xs" by (rule klog_set) (rule assms(2))
  then have coh: "coherent_rows (filter (\<lambda>r. row_id r = rid) ys)" using assms(1) by (simp add: coherent_rows_def)
  have "sort_key vkey_of ys = sort_key vkey_of xs" by (rule sort_by_logs) (simp_all add: assms(2))
  then show ?thesis using fold_newest_sorted [OF coh, of snap] fold_newest_sorted [OF assms(1), of snap] by simp
qed
section \<open>Sequences of operations\<close>

datatype run_op = RunInsert "row list" | RunSeal | RunDrain

fun run_step :: "mutable_run \<Rightarrow> run_op \<Rightarrow> mutable_run option" where
  "run_step m (RunInsert rows) = insert_many m rows"
| "run_step m RunSeal = run_seal m"
| "run_step m RunDrain = Some (snd (run_drain_sorted m))"

fun run_steps :: "mutable_run \<Rightarrow> run_op list \<Rightarrow> mutable_run option" where
  "run_steps m [] = Some m"
| "run_steps m (x # xs) = (case run_step m x of None \<Rightarrow> None | Some m' \<Rightarrow> run_steps m' xs)"

fun run_op_rows :: "run_op \<Rightarrow> row list" where
  "run_op_rows (RunInsert rows) = rows"
| "run_op_rows _ = []"

fun log_step :: "row list \<Rightarrow> run_op \<Rightarrow> row list" where
  "log_step hist (RunInsert rows) = hist @ rows"
| "log_step hist RunSeal = hist"
| "log_step hist RunDrain = []"

abbreviation run_log :: "run_op list \<Rightarrow> row list" where
  "run_log ops \<equiv> foldl log_step [] ops"

abbreviation batches_sorted :: "run_op list \<Rightarrow> bool" where
  "batches_sorted ops \<equiv> list_all (\<lambda>x. sorted (map vkey_of (run_op_rows x))) ops"

abbreviation rows_inserted :: "run_op list \<Rightarrow> nat" where
  "rows_inserted ops \<equiv> sum_list (map (\<lambda>x. length (run_op_rows x)) ops)"

definition run_models :: "nat \<Rightarrow> row list \<Rightarrow> mutable_run \<Rightarrow> bool" where
  "run_models n hist m \<longleftrightarrow>
     run_ok n m \<and> (\<forall>k. klog (run_rows m) k = klog hist k) \<and> mr_byte_size m = foldl add_row_bytes 0 hist"

lemma run_step_ok:
  assumes "run_models n hist m" and "sorted (map vkey_of (run_op_rows x))" and "8 + 5 * (n + length (run_op_rows x)) \<le> 2 ^ 40"
  obtains m' where "run_step m x = Some m'" and "run_models (n + length (run_op_rows x)) (log_step hist x) m'"
proof (cases x)
  case (RunInsert rows)
  have ok: "run_ok n m" using assms(1) by (simp add: run_models_def)
  have "sorted (map vkey_of rows)" "8 + 5 * (n + length rows) \<le> 2 ^ 40" using assms(2,3) RunInsert by simp_all
  from insert_many_ok [OF ok this] obtain m' where "insert_many m rows = Some m'" "run_ok (n + length rows) m'"
    "\<And>k. klog (run_rows m') k = klog (run_rows m @ rows) k" "mr_byte_size m' = foldl add_row_bytes (mr_byte_size m) rows" by metis
  with that [of m'] assms(1) RunInsert show ?thesis by (simp add: run_models_def klog_append)
next
  case RunSeal
  have "run_ok n m" "8 + 5 * n \<le> 2 ^ 40" using assms(1,3) by (simp_all add: run_models_def)
  from run_seal_ok [OF this] obtain m' where "run_seal m = Some m'" "run_ok n m'"
    "\<And>k. klog (run_rows m') k = klog (run_rows m) k" "mr_byte_size m' = mr_byte_size m" by metis
  with that [of m'] assms(1) RunSeal show ?thesis by (simp add: run_models_def)
next
  case RunDrain
  have "mr_byte_size (snd (run_drain_sorted m)) = 0" by (simp add: run_drain_sorted_def)
  with that [of "snd (run_drain_sorted m)"] RunDrain show ?thesis by (simp add: run_models_def run_drain_ok)
qed

lemma run_steps_ok:
  assumes "run_models n hist m" and "batches_sorted xs" and "8 + 5 * (n + rows_inserted xs) \<le> 2 ^ 40"
  shows "\<exists>m'. run_steps m xs = Some m' \<and> run_models (n + rows_inserted xs) (foldl log_step hist xs) m'"
  using assms
proof (induction xs arbitrary: n hist m)
  case (Cons x xs)
  have "sorted (map vkey_of (run_op_rows x))" "8 + 5 * (n + length (run_op_rows x)) \<le> 2 ^ 40" using Cons.prems(2,3) by simp_all
  from run_step_ok [OF Cons.prems(1) this] obtain m1 where m1: "run_step m x = Some m1"
    "run_models (n + length (run_op_rows x)) (log_step hist x) m1" by metis
  have "batches_sorted xs" "8 + 5 * (n + length (run_op_rows x) + rows_inserted xs) \<le> 2 ^ 40" using Cons.prems(2,3) by simp_all
  from Cons.IH [OF m1(2) this] m1(1) show ?case by (simp add: add.assoc)
qed simp

lemma run_models_new: "run_models 0 [] mutable_run_new"
  by (simp add: run_models_def) (simp add: mutable_run_new_def)

lemma run_models_facts:
  assumes "run_models n hist m"
  shows "fst (run_drain_sorted m) = sort_key vkey_of hist" and "mr_len m = length hist" and "mr_is_empty m \<longleftrightarrow> hist = []"
    and "set (run_rows m) = set hist"
proof -
  have ok: "run_ok n m" and log: "\<And>k. klog (run_rows m) k = klog hist k" using assms by (simp_all add: run_models_def)
  show "fst (run_drain_sorted m) = sort_key vkey_of hist"
    unfolding run_drain_ok by (rule sort_by_logs) (simp_all add: log)
  show set: "set (run_rows m) = set hist" by (rule klog_set) (rule log)
  have "mset (run_rows m) = mset hist" by (rule klog_mset) (rule log)
  then have len: "length (run_rows m) = length hist" by (rule mset_eq_length)
  have arrays: "array_ok n p" if "p \<in> set (run_arrays m)" for p using ok that by (simp add: run_ok_def)
  have count: "sum_list (map (\<lambda>p. pma_count p) ps) = length (concat (map array_rows ps))" if "\<forall>p\<in>set ps. array_ok n p" for ps
    using that by (induction ps) (simp_all add: array_count [where n = n])
  have "mr_len m = sum_list (map (\<lambda>p. pma_count p) (run_arrays m))" by (simp add: mr_len_def run_arrays_def comp_def)
  then show "mr_len m = length hist" using count [of "run_arrays m"] arrays len by (simp add: run_rows_def)
  have "array_ok n (rs_pma (mr_active m))" by (rule arrays) (simp add: run_arrays_def)
  then have "mr_is_empty m \<longleftrightarrow> run_rows m = []"
    using ok array_is_empty [of n "rs_pma (mr_active m)"]
    by (cases "mr_frozen m") (auto simp: mr_is_empty_def run_rows_eq frozen_rows_arrays run_ok_def)
  then show "mr_is_empty m \<longleftrightarrow> hist = []" using set by (metis set_empty)
qed

section \<open>Properties\<close>

text \<open>C10: The mutable run refines a list of rows. After every sequence of bulk insertions of rows sorted by
  row id and epoch, seals and drains, with all consolidations these cause, the operations have returned;
  the tier counts the rows inserted since the last drain and reports itself empty exactly if there are
  none; its byte count is the saturating sum of their estimates; and the drain returns their stable sort
  by row id and epoch and leaves nothing behind.\<close>

theorem mutable_run_refines_log:
  assumes "batches_sorted ops" and "8 + 5 * rows_inserted ops \<le> 2 ^ 40"
  shows "\<exists>m. run_steps mutable_run_new ops = Some m \<and>
    mr_len m = length (run_log ops) \<and> (mr_is_empty m \<longleftrightarrow> run_log ops = []) \<and>
    approx_bytes m = foldl add_row_bytes 0 (run_log ops) \<and>
    fst (run_drain_sorted m) = sort_key vkey_of (run_log ops) \<and> mr_len (snd (run_drain_sorted m)) = 0"
proof -
  obtain m where m: "run_steps mutable_run_new ops = Some m" "run_models (rows_inserted ops) (run_log ops) m"
    using run_steps_ok [OF run_models_new assms(1)] assms(2) by auto
  have "mr_len (snd (run_drain_sorted m)) = 0"
    by (simp add: run_drain_sorted_def mr_len_def run_segment_new_def pma_new_eq)
  with m run_models_facts [OF m(2)] show ?thesis by (auto simp: approx_bytes_def run_models_def)
qed

theorem mutable_run_refines_log_witness:
  "\<exists>m. run_steps mutable_run_new [RunInsert [row_new 2 1, row_new 7 1], RunSeal, RunInsert [row_new 2 3]] = Some m \<and>
     map vkey_of (fst (run_drain_sorted m)) = [(2, 1), (2, 3), (7, 1)]"
proof -
  let ?ops = "[RunInsert [row_new 2 1, row_new 7 1], RunSeal, RunInsert [row_new 2 3]]"
  have "batches_sorted ?ops" "8 + 5 * rows_inserted ?ops \<le> 2 ^ 40" by (simp_all add: vkey_of_def row_new_def)
  from mutable_run_refines_log [OF this] obtain m where "run_steps mutable_run_new ?ops = Some m"
    "fst (run_drain_sorted m) = sort_key vkey_of (run_log ?ops)" by metis
  moreover have "map vkey_of (sort_key vkey_of (run_log ?ops)) = [(2, 1), (2, 3), (7, 1)]"
    by (simp add: vkey_of_def row_new_def)
  ultimately show ?thesis by metis
qed

text \<open>C15: Point read and scan of the mutable run agree for every snapshot: if no version of the row was
  written at epoch 0, \<open>get_version_at\<close>, which seeks with the gapped binary search and stops at the first
  version past an epoch snapshot, returns what the newest-version map holds for the row.\<close>

theorem run_point_read_matches_scan:
  assumes "batches_sorted ops" and "8 + 5 * rows_inserted ops \<le> 2 ^ 40" and "\<forall>r\<in>set (run_log ops). vkey_of r \<noteq> (rid, 0)"
  shows "\<exists>m. run_steps mutable_run_new ops = Some m \<and>
    run_get_version_at m rid snap = map_option (\<lambda>r. (committed_epoch r, r)) (run_newest_visible_map m snap rid)"
proof -
  obtain m where m: "run_steps mutable_run_new ops = Some m" "run_models (rows_inserted ops) (run_log ops) m"
    using run_steps_ok [OF run_models_new assms(1)] assms(2) by auto
  have "run_ok (rows_inserted ops) m" using m(2) by (simp add: run_models_def)
  from run_get_fold [OF this, of rid snap] show ?thesis
    using m(1) assms(3) run_models_facts(4) [OF m(2)] by (simp add: run_map_fold)
qed

theorem run_point_read_matches_scan_witness:
  "\<exists>m. run_steps mutable_run_new [RunInsert [row_new 2 1, row_new 2 4], RunSeal, RunInsert [row_new 2 3]] = Some m \<and>
     run_get_version_at m 2 (snapshot_at 3) = map_option (\<lambda>r. (committed_epoch r, r)) (run_newest_visible_map m (snapshot_at 3) 2)"
  by (rule run_point_read_matches_scan) (simp_all add: vkey_of_def row_new_def)
end
