(* ===== verification/Run_Cursor.thy ===== *)
theory Run_Cursor
  imports Mutable_Run
begin

text \<open>
  The streaming cursor of the mutable run (\<open>MutableRunVisibleVersionCursor\<close> of \<open>mutable_run.rs\<close>): a heap
  with one head per array, ordered by row id and array index. \<open>None\<close> as the outcome of a step is an index
  out of range, which the cursor never meets (\<open>run_refill_ok\<close>). The \<open>BinaryHeap\<close> is a list in the order
  in which the heap pops; heads differ in their index, so the order is determined. A step ends because
  every pop consumes a stored version.
\<close>

declare split_paired_All [simp del] split_paired_Ex [simp del]

section \<open>The cursor\<close>

record pma_head =
  ph_rid :: RowId
  ph_index :: nat
  ph_row :: row

definition ph_key :: "pma_head \<Rightarrow> RowId \<times> nat" where
  "ph_key h = (ph_rid h, ph_index h)"

record run_cursor =
  rc_sources :: "(vkey \<times> row) list list"
  rc_heap :: "pma_head list"
  rc_snapshot :: snapshot
  rc_current :: "(RowId \<times> epoch \<times> row) option"
  rc_last_examined :: nat
  rc_peak_examined :: nat

text \<open>Take the next entry of a source and push it.\<close>

definition run_refill :: "nat \<Rightarrow> run_cursor \<Rightarrow> run_cursor option" where
  "run_refill i c =
     (if i < length (rc_sources c)
      then Some (case rc_sources c ! i of
                   [] \<Rightarrow> c
                 | (key, r) # es \<Rightarrow>
                     c\<lparr>rc_sources := (rc_sources c)[i := es],
                       rc_heap := insort_key ph_key \<lparr>ph_rid = fst key, ph_index = i, ph_row = r\<rparr> (rc_heap c)\<rparr>)
      else None)"

fun run_prime :: "nat list \<Rightarrow> run_cursor \<Rightarrow> run_cursor option" where
  "run_prime [] c = Some c"
| "run_prime (i # is) c = (case run_refill i c of None \<Rightarrow> None | Some c' \<Rightarrow> run_prime is c')"

definition run_newest_visible_iter :: "mutable_run \<Rightarrow> snapshot \<Rightarrow> run_cursor option" where
  "run_newest_visible_iter m snap =
     (let sources = map (\<lambda>seg. pma_iter (rs_pma seg)) (mr_frozen m) @ [pma_iter (rs_pma (mr_active m))]
      in run_prime [0..<length sources]
           \<lparr>rc_sources = sources, rc_heap = [], rc_snapshot = snap, rc_current = None,
            rc_last_examined = 0, rc_peak_examined = 0\<rparr>)"

definition run_pop :: "pma_head \<Rightarrow> pma_head list \<Rightarrow> run_cursor \<Rightarrow> run_cursor option" where
  "run_pop h hs c = run_refill (ph_index h) (c\<lparr>rc_heap := hs, rc_last_examined := rc_last_examined c + 1\<rparr>)"

lemma run_pop_shrinks:
  assumes "run_pop h hs c = Some c'" and "rc_heap c = h # hs"
  shows "length (rc_heap c') + sum_list (map length (rc_sources c')) < length (rc_heap c) + sum_list (map length (rc_sources c))"
proof (cases "rc_sources c ! ph_index h")
  case Nil
  with assms show ?thesis by (auto simp: run_pop_def run_refill_def split: if_splits)
next
  case (Cons e es)
  let ?i = "ph_index h" and ?f = "\<lambda>ss. sum_list (map length (ss :: (vkey \<times> row) list list))"
  have i: "?i < length (rc_sources c)" using assms by (auto simp: run_pop_def run_refill_def split: if_splits)
  have "?f ((rc_sources c)[?i := es]) + length (rc_sources c ! ?i) = ?f (rc_sources c) + length es"
    using i elem_le_sum_list [of ?i "map length (rc_sources c)"] by (simp add: map_update sum_list_update)
  with assms i Cons show ?thesis by (auto simp: run_pop_def run_refill_def split: if_splits prod.splits)
qed

function run_gather :: "RowId \<Rightarrow> row option \<Rightarrow> run_cursor \<Rightarrow> (row option \<times> run_cursor) option" where
  "run_gather rid best c =
     (case rc_heap c of
        [] \<Rightarrow> Some (best, c)
      | h # hs \<Rightarrow>
          if ph_rid h \<noteq> rid then Some (best, c)
          else (case run_pop h hs c of
                  None \<Rightarrow> None
                | Some c' \<Rightarrow>
                    run_gather rid
                      (if observes_row (rc_snapshot c) (committed_epoch (ph_row h)) (commit_ts (ph_row h)) \<and>
                          (case best of
                             None \<Rightarrow> True
                           | Some current \<Rightarrow>
                               version_supersedes (committed_epoch (ph_row h)) (commit_ts (ph_row h))
                                 (committed_epoch current) (commit_ts current))
                       then Some (ph_row h) else best)
                      c'))"
  by pat_completeness auto
termination
  by (relation "measure (\<lambda>(rid, best, c). length (rc_heap c) + sum_list (map length (rc_sources c)))")
    (auto dest: run_pop_shrinks)

declare run_gather.simps [simp del]

definition run_next :: "run_cursor \<Rightarrow> ((RowId \<times> epoch \<times> row) option \<times> run_cursor) option" where
  "run_next c =
     (case rc_current c of
        Some current \<Rightarrow> Some (Some current, c\<lparr>rc_current := None\<rparr>)
      | None \<Rightarrow>
          (let c0 = c\<lparr>rc_last_examined := 0\<rparr>
           in case rc_heap c0 of
                [] \<Rightarrow> Some (None, c0)
              | h # hs \<Rightarrow>
                  (case run_pop h hs c0 of
                     None \<Rightarrow> None
                   | Some c1 \<Rightarrow>
                       (case run_gather (ph_rid h)
                               (if observes_row (rc_snapshot c) (committed_epoch (ph_row h)) (commit_ts (ph_row h))
                                then Some (ph_row h) else None) c1 of
                          None \<Rightarrow> None
                        | Some (best, c2) \<Rightarrow>
                            Some (map_option (\<lambda>r. (row_id r, committed_epoch r, r)) best,
                              c2\<lparr>rc_peak_examined := max (rc_peak_examined c2) (rc_last_examined c2)\<rparr>)))))"

text \<open>The iterator run until it answers \<open>None\<close>, for at most \<open>n\<close> calls.\<close>

fun run_cursor_collect :: "nat \<Rightarrow> run_cursor \<Rightarrow> (RowId \<times> epoch \<times> row) list option" where
  "run_cursor_collect 0 c = None"
| "run_cursor_collect (Suc n) c =
     (case run_next c of
        None \<Rightarrow> None
      | Some (None, _) \<Rightarrow> Some []
      | Some (Some item, c') \<Rightarrow> map_option ((#) item) (run_cursor_collect n c'))"

section \<open>What the cursor still delivers\<close>

definition run_streams :: "run_cursor \<Rightarrow> row list list" where
  "run_streams c =
     map (\<lambda>i. map ph_row (filter (\<lambda>h. ph_index h = i) (rc_heap c)) @ map snd (rc_sources c ! i)) [0..<length (rc_sources c)]"

definition run_rest :: "run_cursor \<Rightarrow> row list" where
  "run_rest c = sort_key row_id (concat (run_streams c))"

definition run_merge_ok :: "nat set \<Rightarrow> run_cursor \<Rightarrow> bool" where
  "run_merge_ok I c \<longleftrightarrow>
     distinct (map ph_index (rc_heap c)) \<and> sorted (map ph_key (rc_heap c)) \<and>
     (\<forall>h\<in>set (rc_heap c). ph_rid h = row_id (ph_row h) \<and> ph_index h < length (rc_sources c)) \<and>
     (\<forall>j<length (rc_sources c). j \<notin> ph_index ` set (rc_heap c) \<longrightarrow> j \<in> I \<or> rc_sources c ! j = []) \<and>
     (\<forall>es\<in>set (rc_sources c). \<forall>e\<in>set es. fst (fst e) = row_id (snd e)) \<and>
     (\<forall>s\<in>set (run_streams c). sorted (map row_id s))"

lemma run_merge_okD:
  assumes "run_merge_ok I c"
  shows "distinct (map ph_index (rc_heap c))" and "sorted (map ph_key (rc_heap c))"
    and "h \<in> set (rc_heap c) \<Longrightarrow> ph_rid h = row_id (ph_row h)" and "h \<in> set (rc_heap c) \<Longrightarrow> ph_index h < length (rc_sources c)"
    and "j < length (rc_sources c) \<Longrightarrow> j \<notin> ph_index ` set (rc_heap c) \<Longrightarrow> j \<notin> I \<Longrightarrow> rc_sources c ! j = []"
    and "j < length (rc_sources c) \<Longrightarrow> e \<in> set (rc_sources c ! j) \<Longrightarrow> fst (fst e) = row_id (snd e)"
    and "s \<in> set (run_streams c) \<Longrightarrow> sorted (map row_id s)"
  using assms nth_mem unfolding run_merge_ok_def by blast+

lemma length_run_streams [simp]: "length (run_streams c) = length (rc_sources c)"
  by (simp add: run_streams_def)

lemma run_streams_nth:
  "i < length (rc_sources c) \<Longrightarrow> run_streams c ! i =
     map ph_row (filter (\<lambda>h. ph_index h = i) (rc_heap c)) @ map snd (rc_sources c ! i)"
  by (simp add: run_streams_def)

lemma no_run_head: "i \<notin> ph_index ` set hs \<Longrightarrow> filter (\<lambda>h. ph_index h = i) hs = []"
  by (auto simp: filter_empty_conv)

lemma run_refill_ok:
  assumes ok: "run_merge_ok I c" and i: "i < length (rc_sources c)" and free: "i \<notin> ph_index ` set (rc_heap c)"
  obtains c' where "run_refill i c = Some c'" and "run_merge_ok (I - {i}) c'" and "run_streams c' = run_streams c"
    and "rc_snapshot c' = rc_snapshot c" and "rc_current c' = rc_current c" and "length (rc_sources c') = length (rc_sources c)"
proof (cases "rc_sources c ! i")
  case Nil
  then have "run_merge_ok (I - {i}) c" using ok unfolding run_merge_ok_def by (metis Diff_iff singletonD)
  with that [of c] Nil i show ?thesis by (simp add: run_refill_def)
next
  case (Cons e es)
  obtain key r where e: "e = (key, r)" by (cases e)
  let ?h = "\<lparr>ph_rid = fst key, ph_index = i, ph_row = r\<rparr>"
  let ?c = "c\<lparr>rc_sources := (rc_sources c)[i := es], rc_heap := insort_key ph_key ?h (rc_heap c)\<rparr>"
  have run: "run_refill i c = Some ?c" using i Cons e by (simp add: run_refill_def)
  note D = run_merge_okD [OF ok]
  have heads: "filter (\<lambda>x. ph_index x = j) (insort_key ph_key ?h (rc_heap c)) =
      (if j = i then [?h] else filter (\<lambda>x. ph_index x = j) (rc_heap c))" for j
    using D(2) free by (simp add: filter_insort filter_insort_triv no_run_head)
  have streams: "run_streams ?c = run_streams c"
  proof (rule nth_equalityI)
    fix j assume "j < length (run_streams ?c)"
    then show "run_streams ?c ! j = run_streams c ! j"
      using Cons e i free by (cases "j = i") (simp_all add: run_streams_nth heads no_run_head)
  qed simp
  have "mset (map ph_index (rc_heap ?c)) = mset (i # map ph_index (rc_heap c))" by simp
  moreover have "distinct (i # map ph_index (rc_heap c))" using D(1) free by simp
  ultimately have dist: "distinct (map ph_index (rc_heap ?c))" by (metis mset_eq_imp_distinct_iff)
  have rid: "fst key = row_id r" using D(6) [OF i, of e] Cons e by simp
  have heap: "\<forall>h\<in>set (rc_heap ?c). ph_rid h = row_id (ph_row h) \<and> ph_index h < length (rc_sources ?c)"
    using D(3,4) rid i by (auto simp: set_insort_key)
  have primed: "\<forall>j<length (rc_sources ?c). j \<notin> ph_index ` set (rc_heap ?c) \<longrightarrow> j \<in> I - {i} \<or> rc_sources ?c ! j = []"
    using D(5) by (auto simp: set_insort_key)
  have src: "\<forall>xs\<in>set (rc_sources ?c). \<forall>x\<in>set xs. fst (fst x) = row_id (snd x)"
  proof (intro ballI)
    fix xs x assume "xs \<in> set (rc_sources ?c)" and x: "x \<in> set xs"
    then have "xs = es \<or> xs \<in> set (rc_sources c)" using set_update_subset_insert [of "rc_sources c" i es] by auto
    then obtain j where "j < length (rc_sources c)" "x \<in> set (rc_sources c ! j)"
      using x Cons i by (metis in_set_conv_nth list.set_intros(2))
    then show "fst (fst x) = row_id (snd x)" by (rule D(6))
  qed
  have "run_merge_ok (I - {i}) ?c"
    unfolding run_merge_ok_def streams using dist heap primed src D(2,7) by (simp add: sorted_insort_key)
  with that [of ?c] run streams show ?thesis by simp
qed

lemma run_prime_ok:
  assumes "run_merge_ok (set is) c" and "distinct is" and "\<forall>i\<in>set is. i < length (rc_sources c) \<and> i \<notin> ph_index ` set (rc_heap c)"
  shows "\<exists>c'. run_prime is c = Some c' \<and> run_merge_ok {} c' \<and> run_streams c' = run_streams c \<and>
    rc_snapshot c' = rc_snapshot c \<and> rc_current c' = rc_current c"
  using assms
proof (induction "is" arbitrary: c)
  case (Cons i "is")
  have i: "i < length (rc_sources c)" "i \<notin> ph_index ` set (rc_heap c)" using Cons.prems(3) by simp_all
  from run_refill_ok [OF Cons.prems(1) i] obtain c1 where c1: "run_refill i c = Some c1" "run_merge_ok (set (i # is) - {i}) c1"
    "run_streams c1 = run_streams c" "rc_snapshot c1 = rc_snapshot c" "rc_current c1 = rc_current c"
    "length (rc_sources c1) = length (rc_sources c)" by metis
  have "set (i # is) - {i} = set is" using Cons.prems(2) by auto
  moreover have "ph_index ` set (rc_heap c1) \<subseteq> insert i (ph_index ` set (rc_heap c))"
    using c1(1) by (auto simp: run_refill_def set_insort_key split: if_splits list.splits)
  then have "\<forall>j\<in>set is. j < length (rc_sources c1) \<and> j \<notin> ph_index ` set (rc_heap c1)"
    using Cons.prems(2,3) c1(6) by auto
  ultimately show ?case using Cons.IH [of c1] Cons.prems(2) c1 by auto
qed simp

lemma run_stream_bound:
  assumes "run_merge_ok {} c" and "j < length (rc_sources c)" and "y \<in> set (run_streams c ! j)"
  obtains h where "h \<in> set (rc_heap c)" and "ph_index h = j" and "row_id (ph_row h) \<le> row_id y"
proof -
  have "filter (\<lambda>h. ph_index h = j) (rc_heap c) \<noteq> []"
  proof
    assume none: "filter (\<lambda>h. ph_index h = j) (rc_heap c) = []"
    then have "j \<notin> ph_index ` set (rc_heap c)" by (auto simp: filter_empty_conv)
    then have "rc_sources c ! j = []" using run_merge_okD(5) [OF assms(1,2)] by simp
    with none assms(3) run_streams_nth [OF assms(2)] show False by simp
  qed
  then obtain h hs where hs: "filter (\<lambda>h. ph_index h = j) (rc_heap c) = h # hs" by (auto simp: neq_Nil_conv)
  then have "h \<in> set (filter (\<lambda>h. ph_index h = j) (rc_heap c))" by simp
  then have h: "h \<in> set (rc_heap c)" "ph_index h = j" by simp_all
  have "run_streams c ! j \<in> set (run_streams c)" using assms(2) by simp
  then have "sorted (map row_id (run_streams c ! j))" by (rule run_merge_okD(7) [OF assms(1)])
  then have "row_id (ph_row h) \<le> row_id y" using assms(3) unfolding run_streams_nth [OF assms(2)] hs by auto
  with h that show ?thesis by blast
qed

lemma run_pop_ok:
  assumes ok: "run_merge_ok {} c" and heap: "rc_heap c = h # hs"
  obtains c' where "run_pop h hs c = Some c'" and "run_merge_ok {} c'" and "run_rest c = ph_row h # run_rest c'"
    and "rc_snapshot c' = rc_snapshot c" and "rc_current c' = rc_current c"
proof -
  let ?i = "ph_index h" and ?c = "c\<lparr>rc_heap := hs, rc_last_examined := rc_last_examined c + 1\<rparr>"
  note D = run_merge_okD [OF ok]
  have i: "?i < length (rc_sources c)" and fresh: "?i \<notin> ph_index ` set hs" using D(1,4) heap by auto
  have least: "\<forall>x\<in>set hs. ph_key h \<le> ph_key x" using D(2) heap by auto
  have str: "run_streams c = (run_streams ?c)[?i := ph_row h # run_streams ?c ! ?i]"
  proof (rule nth_equalityI)
    fix j assume "j < length (run_streams c)"
    then show "run_streams c ! j = (run_streams ?c)[?i := ph_row h # run_streams ?c ! ?i] ! j"
      using fresh by (cases "j = ?i") (auto simp: run_streams_nth heap no_run_head nth_list_update)
  qed simp
  have "sorted (map row_id (run_streams ?c ! j))" if "j < length (rc_sources c)" for j
  proof -
    have "run_streams c ! j \<in> set (run_streams c)" using that by simp
    then have "sorted (map row_id (run_streams c ! j))" by (rule D(7))
    then show ?thesis using that by (cases "j = ?i") (simp_all add: str nth_list_update)
  qed
  then have "\<forall>s\<in>set (run_streams ?c). sorted (map row_id s)" by (auto simp: in_set_conv_nth)
  then have popped: "run_merge_ok {?i} ?c" using ok heap fresh by (auto simp: run_merge_ok_def)
  have i': "?i < length (rc_sources ?c)" "?i \<notin> ph_index ` set (rc_heap ?c)" using i fresh by simp_all
  have order: "row_id (ph_row h) \<le> row_id (ph_row x)" "ph_index x < ?i \<Longrightarrow> row_id (ph_row h) < row_id (ph_row x)"
    if "x \<in> set (rc_heap c)" for x
    using that D(3) least heap by (auto simp: ph_key_def)
  have rest: "run_rest c = ph_row h # run_rest ?c"
    unfolding run_rest_def str
  proof (rule sort_concat_pull)
    show "?i < length (run_streams ?c)" using i by simp
  next
    fix j y assume j: "j < ?i" and y: "y \<in> set (run_streams ?c ! j)"
    then have "j < length (rc_sources c)" "y \<in> set (run_streams c ! j)" using i unfolding str by simp_all
    then obtain x where x: "x \<in> set (rc_heap c)" "ph_index x = j" "row_id (ph_row x) \<le> row_id y" by (rule run_stream_bound [OF ok])
    then show "row_id (ph_row h) < row_id y" using order(2) [OF x(1)] j by simp
  next
    fix j y assume j: "?i \<le> j" "j < length (run_streams ?c)" and y: "y \<in> set (run_streams ?c ! j)"
    then have "j < length (rc_sources c)" "y \<in> set (run_streams c ! j)" unfolding str by (cases "j = ?i"; simp)+
    then obtain x where x: "x \<in> set (rc_heap c)" "ph_index x = j" "row_id (ph_row x) \<le> row_id y" by (rule run_stream_bound [OF ok])
    then show "row_id (ph_row h) \<le> row_id y" using order(1) [OF x(1)] by simp
  qed
  obtain c' where "run_refill ?i ?c = Some c'" "run_merge_ok ({?i} - {?i}) c'" "run_streams c' = run_streams ?c"
    "rc_snapshot c' = rc_snapshot ?c" "rc_current c' = rc_current ?c" using run_refill_ok [OF popped i'] by metis
  with that [of c'] rest show ?thesis by (simp add: run_pop_def run_rest_def)
qed
lemma run_rest_empty:
  assumes "run_merge_ok {} c" and "rc_heap c = []"
  shows "run_rest c = []"
proof -
  have "concat (run_streams c) = []"
    using assms run_merge_okD(5) [OF assms(1)] by (simp add: run_streams_def concat_eq_Nil_conv)
  then show ?thesis by (simp only: run_rest_def sort_key_simps)
qed

lemma run_gather_ok:
  assumes "run_merge_ok {} c"
  shows "\<exists>c'. run_gather rid best c =
      Some (foldl (supersede_visible (rc_snapshot c)) best (takeWhile (\<lambda>r. row_id r = rid) (run_rest c)), c') \<and>
    run_merge_ok {} c' \<and> run_rest c' = dropWhile (\<lambda>r. row_id r = rid) (run_rest c) \<and>
    rc_snapshot c' = rc_snapshot c \<and> rc_current c' = rc_current c"
  using assms
proof (induction rid best c rule: run_gather.induct)
  case (1 rid best c)
  show ?case
  proof (cases "rc_heap c")
    case Nil
    then show ?thesis using "1.prems" run_rest_empty [OF "1.prems" Nil] by (subst run_gather.simps) simp
  next
    case (Cons h hs)
    obtain c1 where c1: "run_pop h hs c = Some c1" "run_merge_ok {} c1" "run_rest c = ph_row h # run_rest c1"
      "rc_snapshot c1 = rc_snapshot c" "rc_current c1 = rc_current c" using run_pop_ok [OF "1.prems" Cons] by metis
    have rid: "ph_rid h = row_id (ph_row h)" using Cons by (intro run_merge_okD(3) [OF "1.prems"]) simp
    show ?thesis
    proof (cases "ph_rid h = rid")
      case False
      then show ?thesis using Cons c1(3) rid "1.prems" by (subst run_gather.simps) simp
    next
      case True
      let ?best = "if observes_row (rc_snapshot c) (committed_epoch (ph_row h)) (commit_ts (ph_row h)) \<and>
          (case best of None \<Rightarrow> True | Some current \<Rightarrow>
             version_supersedes (committed_epoch (ph_row h)) (commit_ts (ph_row h)) (committed_epoch current) (commit_ts current))
        then Some (ph_row h) else best"
      have best: "?best = supersede_visible (rc_snapshot c) best (ph_row h)"
        by (auto simp: supersede_visible_def split: option.splits)
      have "run_gather rid best c = run_gather rid ?best c1" using Cons c1(1) True by (subst run_gather.simps) simp
      moreover from "1.IH" [OF Cons _ c1(1,2)] True obtain c' where "run_gather rid ?best c1 =
          Some (foldl (supersede_visible (rc_snapshot c1)) ?best (takeWhile (\<lambda>r. row_id r = rid) (run_rest c1)), c')"
        "run_merge_ok {} c'" "run_rest c' = dropWhile (\<lambda>r. row_id r = rid) (run_rest c1)"
        "rc_snapshot c' = rc_snapshot c1" "rc_current c' = rc_current c1" by blast
      ultimately show ?thesis using c1(3,4,5) True rid unfolding best by simp
    qed
  qed
qed

lemma run_merge_ok_cong: "rc_heap c' = rc_heap c \<Longrightarrow> rc_sources c' = rc_sources c \<Longrightarrow> run_merge_ok I c' = run_merge_ok I c"
  by (simp add: run_merge_ok_def run_streams_def)

lemma run_rest_cong: "rc_heap c' = rc_heap c \<Longrightarrow> rc_sources c' = rc_sources c \<Longrightarrow> run_rest c' = run_rest c"
  by (simp add: run_rest_def run_streams_def)

text \<open>One call answers for the group of the least row id, and with \<open>None\<close> if no version of it is visible.\<close>

definition group_newest :: "snapshot \<Rightarrow> row list \<Rightarrow> row option" where
  "group_newest snap rs =
     (case rs of [] \<Rightarrow> None | r # _ \<Rightarrow> foldl (supersede_visible snap) None (takeWhile (\<lambda>x. row_id x = row_id r) rs))"

definition later_groups :: "row list \<Rightarrow> row list" where
  "later_groups rs = (case rs of [] \<Rightarrow> [] | r # _ \<Rightarrow> dropWhile (\<lambda>x. row_id x = row_id r) rs)"

lemma run_next_ok:
  assumes ok: "run_merge_ok {} c" and "rc_current c = None"
  obtains c' where "run_next c = Some (map_option (\<lambda>r. (row_id r, committed_epoch r, r)) (group_newest (rc_snapshot c) (run_rest c)), c')"
    and "run_merge_ok {} c'" and "run_rest c' = later_groups (run_rest c)" and "rc_snapshot c' = rc_snapshot c" and "rc_current c' = None"
proof (cases "rc_heap c")
  case Nil
  let ?c = "c\<lparr>rc_last_examined := 0\<rparr>"
  have "run_rest c = []" "run_rest ?c = []" using run_rest_empty [OF ok Nil] run_rest_cong [of ?c c] by simp_all
  with that [of ?c] Nil ok assms(2) run_merge_ok_cong [of ?c c "{}"] show ?thesis
    by (simp add: run_next_def group_newest_def later_groups_def)
next
  case (Cons h hs)
  let ?c = "c\<lparr>rc_last_examined := 0\<rparr>"
  have ok0: "run_merge_ok {} ?c" and heap0: "rc_heap ?c = h # hs" using ok Cons run_merge_ok_cong [of ?c c "{}"] by simp_all
  obtain c1 where c1: "run_pop h hs ?c = Some c1" "run_merge_ok {} c1" "run_rest ?c = ph_row h # run_rest c1"
    "rc_snapshot c1 = rc_snapshot ?c" "rc_current c1 = rc_current ?c" using run_pop_ok [OF ok0 heap0] by metis
  have rest: "run_rest c = ph_row h # run_rest c1" using c1(3) run_rest_cong [of ?c c] by simp
  have rid: "ph_rid h = row_id (ph_row h)" using Cons by (intro run_merge_okD(3) [OF ok]) simp
  let ?b = "if observes_row (rc_snapshot c) (committed_epoch (ph_row h)) (commit_ts (ph_row h)) then Some (ph_row h) else None"
  have b: "?b = supersede_visible (rc_snapshot c) None (ph_row h)" by (simp add: supersede_visible_def)
  from run_gather_ok [OF c1(2), of "ph_rid h" ?b] obtain c2 where c2: "run_gather (ph_rid h) ?b c1 =
      Some (foldl (supersede_visible (rc_snapshot c1)) ?b (takeWhile (\<lambda>r. row_id r = ph_rid h) (run_rest c1)), c2)"
    "run_merge_ok {} c2" "run_rest c2 = dropWhile (\<lambda>r. row_id r = ph_rid h) (run_rest c1)"
    "rc_snapshot c2 = rc_snapshot c1" "rc_current c2 = rc_current c1" by blast
  let ?c' = "c2\<lparr>rc_peak_examined := max (rc_peak_examined c2) (rc_last_examined c2)\<rparr>"
  have "group_newest (rc_snapshot c) (run_rest c) =
      foldl (supersede_visible (rc_snapshot c1)) ?b (takeWhile (\<lambda>r. row_id r = ph_rid h) (run_rest c1))"
    unfolding rest b using c1(4) rid by (simp add: group_newest_def)
  then have "run_next c = Some (map_option (\<lambda>r. (row_id r, committed_epoch r, r)) (group_newest (rc_snapshot c) (run_rest c)), ?c')"
    using assms(2) Cons c1(1) c2(1) by (simp add: run_next_def)
  moreover have "run_rest ?c' = later_groups (run_rest c)"
    using run_rest_cong [of ?c' c2] c2(3) rid unfolding rest by (simp add: later_groups_def)
  moreover have "run_merge_ok {} ?c'" using run_merge_ok_cong [of ?c' c2 "{}"] c2(2) by simp
  ultimately show ?thesis using that [of ?c'] c1(4,5) c2(4,5) assms(2) by simp
qed

lemma later_groups_length: "rs \<noteq> [] \<Longrightarrow> length (later_groups rs) < length rs"
  by (cases rs) (simp_all add: later_groups_def le_imp_less_Suc length_dropWhile_le)

text \<open>What a list in row order yields: the groups up to the first without a visible version.\<close>

lemma group_newest_later:
  assumes "group_newest snap rs = Some w"
  shows "length (later_groups rs) < length rs"
proof (rule later_groups_length)
  show "rs \<noteq> []" using assms by (auto simp: group_newest_def)
qed

function run_emit :: "snapshot \<Rightarrow> row list \<Rightarrow> row list" where
  "run_emit snap rs = (case group_newest snap rs of None \<Rightarrow> [] | Some w \<Rightarrow> w # run_emit snap (later_groups rs))"
  by pat_completeness auto
termination
  by (relation "measure (\<lambda>(snap, rs). length rs)") (simp_all add: group_newest_later)

declare run_emit.simps [simp del]



lemma run_cursor_collect_ok:
  assumes "run_merge_ok {} c" and "rc_current c = None" and "length (run_rest c) < n"
  shows "run_cursor_collect n c = Some (map (\<lambda>r. (row_id r, committed_epoch r, r)) (run_emit (rc_snapshot c) (run_rest c)))"
  using assms
proof (induction n arbitrary: c)
  case (Suc n)
  obtain c' where c': "run_next c =
      Some (map_option (\<lambda>r. (row_id r, committed_epoch r, r)) (group_newest (rc_snapshot c) (run_rest c)), c')"
    "run_merge_ok {} c'" "run_rest c' = later_groups (run_rest c)" "rc_snapshot c' = rc_snapshot c" "rc_current c' = None"
    by (rule run_next_ok [OF Suc.prems(1,2)])
  show ?case
  proof (cases "group_newest (rc_snapshot c) (run_rest c)")
    case None
    with c'(1) show ?thesis by (subst run_emit.simps) simp
  next
    case (Some w)
    then have "run_rest c \<noteq> []" by (auto simp: group_newest_def)
    then have "length (run_rest c') < n" using later_groups_length [of "run_rest c"] Suc.prems(3) c'(3) by simp
    from Suc.IH [OF c'(2,5) this] c' Some show ?thesis by (subst run_emit.simps) simp
  qed
qed simp
lemma sorted_list_insert_least:
  assumes "finite A" and "\<And>a. a \<in> A \<Longrightarrow> x < a"
  shows "sorted_list_of_set (insert x A) = x # sorted_list_of_set A"
proof -
  have "sorted (x # sorted_list_of_set A)" "distinct (x # sorted_list_of_set A)" "set (x # sorted_list_of_set A) = insert x A"
    using assms by (auto intro: less_imp_le)
  then show ?thesis using sorted_list_of_set.idem_if_sorted_distinct [of "x # sorted_list_of_set A"] by simp
qed

lemma run_emit_ids:
  assumes "sorted (map row_id rs)"
  shows "run_emit snap rs =
    map (\<lambda>rid. the (fold_newest row_newer (candidates snap rid rs)))
      (takeWhile (\<lambda>rid. fold_newest row_newer (candidates snap rid rs) \<noteq> None) (sorted_list_of_set (row_id ` set rs)))"
  using assms
proof (induction snap rs rule: run_emit.induct)
  case (1 snap rs)
  let ?M = "\<lambda>rs rid. fold_newest row_newer (candidates snap rid rs)"
  show ?case
  proof (cases rs)
    case Nil
    then show ?thesis by (subst run_emit.simps) (simp add: group_newest_def)
  next
    case (Cons r rs')
    let ?P = "\<lambda>x. row_id x = row_id r"
    let ?g = "takeWhile ?P rs" and ?D = "dropWhile ?P rs"
    have later: "later_groups rs = ?D" using Cons by (simp add: later_groups_def)
    have parts: "filter Q rs = filter Q ?g @ filter Q ?D" for Q by (simp only: filter_append [symmetric] takeWhile_dropWhile_id)
    have sorted_D: "sorted (map row_id ?D)" using "1.prems" by (simp add: sorted_map sorted_wrt_dropWhile)
    have gt: "row_id r < row_id x" if x: "x \<in> set ?D" for x
    proof -
      have le: "row_id r \<le> row_id y" if "y \<in> set rs" for y using "1.prems" that Cons by auto
      obtain y ys where D: "?D = y # ys" using x by (metis list.set_cases)
      then have "row_id y \<noteq> row_id r" using hd_dropWhile [of ?P rs] by simp
      moreover have "y \<in> set rs" using D set_dropWhileD [of y ?P rs] by simp
      ultimately have "row_id r < row_id y" using le by fastforce
      moreover have "row_id y \<le> row_id x" using sorted_D x unfolding D by auto
      ultimately show ?thesis by simp
    qed
    have group: "row_id x = row_id r" if "x \<in> set ?g" for x using set_takeWhileD [OF that] by simp
    have "set rs = set ?g \<union> set ?D" by (simp only: set_append [symmetric] takeWhile_dropWhile_id)
    moreover have "row_id r \<in> row_id ` set ?g" using Cons by simp
    then have "row_id ` set ?g = {row_id r}" using group by fast
    ultimately have all_ids: "row_id ` set rs = insert (row_id r) (row_id ` set ?D)" by (metis image_Un insert_is_Un)
    have ids: "sorted_list_of_set (row_id ` set rs) = row_id r # sorted_list_of_set (row_id ` set ?D)"
      unfolding all_ids by (rule sorted_list_insert_least) (auto dest: gt)
    have none: "candidates snap (row_id r) ?D = []"
      unfolding filter_empty_conv by (intro ballI notI) (auto dest!: gt)
    have all: "candidates snap (row_id r) ?g = filter (visible_to snap) ?g" by (rule filter_cong) (auto dest: group)
    have "group_newest snap rs = foldl (supersede_visible snap) None ?g" using Cons by (simp add: group_newest_def)
    then have own: "?M rs (row_id r) = group_newest snap rs"
      unfolding parts none all append_Nil2 fold_newest_def foldl_supersede_visible by simp
    have other: "?M rs rid = ?M ?D rid" if "rid \<noteq> row_id r" for rid
    proof -
      have none: "candidates snap rid ?g = []"
        unfolding filter_empty_conv using that by (intro ballI notI) (auto dest!: group)
      show ?thesis unfolding parts none append_Nil ..
    qed
    show ?thesis
    proof (cases "group_newest snap rs")
      case None
      then show ?thesis unfolding ids using own by (subst run_emit.simps) simp
    next
      case (Some w)
      have ne: "rid \<noteq> row_id r" if "rid \<in> set (sorted_list_of_set (row_id ` set ?D))" for rid
        using that by (auto dest: gt)
      have tw: "takeWhile (\<lambda>rid. ?M rs rid \<noteq> None) (sorted_list_of_set (row_id ` set ?D)) =
          takeWhile (\<lambda>rid. ?M ?D rid \<noteq> None) (sorted_list_of_set (row_id ` set ?D))"
        by (rule takeWhile_cong [OF refl]) (simp only: other [OF ne] simp_thms)
      have mp: "map (\<lambda>rid. the (?M rs rid)) (takeWhile (\<lambda>rid. ?M ?D rid \<noteq> None) (sorted_list_of_set (row_id ` set ?D))) =
          map (\<lambda>rid. the (?M ?D rid)) (takeWhile (\<lambda>rid. ?M ?D rid \<noteq> None) (sorted_list_of_set (row_id ` set ?D)))"
        by (rule map_cong [OF refl]) (rule arg_cong [of _ _ the], rule other, rule ne, drule set_takeWhileD, erule conjunct1)
      have here: "?M rs (row_id r) = Some w" unfolding own Some ..
      have "run_emit snap rs = w # run_emit snap ?D" using Some later by (subst run_emit.simps) simp
      also have "run_emit snap ?D = map (\<lambda>rid. the (?M ?D rid))
          (takeWhile (\<lambda>rid. ?M ?D rid \<noteq> None) (sorted_list_of_set (row_id ` set ?D)))"
        using "1.IH" [OF Some] sorted_D unfolding later by blast
      also have "\<dots> = map (\<lambda>rid. the (?M rs rid)) (takeWhile (\<lambda>rid. ?M rs rid \<noteq> None) (sorted_list_of_set (row_id ` set ?D)))"
        unfolding tw mp ..
      finally have "run_emit snap rs = w # map (\<lambda>rid. the (?M rs rid)) (takeWhile (\<lambda>rid. ?M rs rid \<noteq> None)
          (sorted_list_of_set (row_id ` set ?D)))" .
      then show ?thesis unfolding ids by (simp add: here)
    qed
  qed
qed
lemma run_iter_ok:
  assumes "run_ok n m"
  obtains c where "run_newest_visible_iter m snap = Some c" and "run_merge_ok {} c" and "rc_current c = None"
    and "rc_snapshot c = snap" and "run_rest c = sort_key row_id (run_rows m)"
proof -
  let ?srcs = "map pma_iter (run_arrays m)"
  let ?c = "\<lparr>rc_sources = ?srcs, rc_heap = [], rc_snapshot = snap, rc_current = None, rc_last_examined = 0, rc_peak_examined = 0\<rparr>"
  have arrays: "array_ok n p" if "p \<in> set (run_arrays m)" for p using assms that by (simp add: run_ok_def)
  have "map (\<lambda>seg. pma_iter (rs_pma seg)) (mr_frozen m) @ [pma_iter (rs_pma (mr_active m))] = ?srcs"
    by (simp add: run_arrays_def comp_def)
  then have iter: "run_newest_visible_iter m snap = run_prime [0..<length ?srcs] ?c"
    by (simp only: run_newest_visible_iter_def Let_def)
  have streams: "run_streams ?c = map array_rows (run_arrays m)"
    by (rule nth_equalityI) (simp_all add: run_streams_nth array_rows_def)
  have "sorted (map row_id (array_rows p))" if "p \<in> set (run_arrays m)" for p
    using array_sorted [OF arrays [OF that]] unfolding sorted_map by (rule sorted_wrt_mono_rel [rotated]) (auto simp: vkey_of_def)
  moreover have "fst (fst e) = row_id (snd e)" if p: "p \<in> set (run_arrays m)" and e: "e \<in> set (pma_iter p)" for p e
  proof -
    have "pma_iter p = keyed (array_rows p)" using arrays [OF p] by (simp add: array_ok_def)
    then show ?thesis using e by (metis (no_types, lifting) fst_conv imageE keyed_def list.set_map snd_conv)
  qed
  ultimately have "run_merge_ok (set [0..<length ?srcs]) ?c" unfolding run_merge_ok_def streams by auto
  from run_prime_ok [OF this] obtain c where c: "run_prime [0..<length ?srcs] ?c = Some c" "run_merge_ok {} c"
    "run_streams c = run_streams ?c" "rc_snapshot c = snap" "rc_current c = None" by auto
  have "run_rest c = sort_key row_id (run_rows m)" unfolding run_rest_def c(3) streams run_rows_def ..
  with c that [of c] show ?thesis unfolding iter by simp
qed

lemma candidates_row_sort: "candidates snap rid (sort_key row_id rs) = candidates snap rid rs"
proof -
  have "candidates snap rid xs = filter (visible_to snap) (filter (\<lambda>r. row_id r = rid) xs)" for xs by (simp add: conj_commute)
  then show ?thesis by (simp only: sort_key_stable)
qed

section \<open>Properties\<close>

text \<open>C16: The cursor of the mutable run yields, in ascending order of row ids, the versions that the
  newest-version map holds, up to the first stored row of which the snapshot sees no version, and
  there it ends. So it drains the map exactly if no such row precedes a visible one.\<close>

theorem run_cursor_ends_at_unseen_row:
  assumes "batches_sorted ops" and "8 + 5 * rows_inserted ops \<le> 2 ^ 40" and "length (run_log ops) < k"
  shows "\<exists>m c. run_steps mutable_run_new ops = Some m \<and> run_newest_visible_iter m snap = Some c \<and>
    run_cursor_collect k c =
      Some (map (\<lambda>rid. let r = the (run_newest_visible_map m snap rid) in (row_id r, committed_epoch r, r))
        (takeWhile (\<lambda>rid. run_newest_visible_map m snap rid \<noteq> None) (sorted_list_of_set (row_id ` set (run_log ops)))))"
proof -
  obtain m where m: "run_steps mutable_run_new ops = Some m" "run_models (rows_inserted ops) (run_log ops) m"
    using run_steps_ok [OF run_models_new assms(1)] assms(2) by auto
  then have "run_ok (rows_inserted ops) m" by (simp add: run_models_def)
  then obtain c where c: "run_newest_visible_iter m snap = Some c" "run_merge_ok {} c" "rc_current c = None"
    "rc_snapshot c = snap" "run_rest c = sort_key row_id (run_rows m)" by (rule run_iter_ok)
  have log: "set (run_rows m) = set (run_log ops)" by (rule run_models_facts(4) [OF m(2)])
  have "mset (run_rows m) = mset (run_log ops)" by (rule klog_mset) (use m(2) in \<open>simp add: run_models_def\<close>)
  then have "length (run_rest c) < k" using assms(3) c(5) by (metis length_sort mset_eq_length)
  note collect = run_cursor_collect_ok [OF c(2,3) this]
  have "sorted (map row_id (run_rest c))" unfolding c(5) by simp
  note emit = run_emit_ids [OF this, of snap]
  have "run_cursor_collect k c =
      Some (map (\<lambda>rid. let r = the (run_newest_visible_map m snap rid) in (row_id r, committed_epoch r, r))
        (takeWhile (\<lambda>rid. run_newest_visible_map m snap rid \<noteq> None) (sorted_list_of_set (row_id ` set (run_log ops)))))"
    unfolding collect c(4) emit unfolding c(5) candidates_row_sort run_map_fold [symmetric] set_sort log by (simp add: comp_def Let_def)
  with m(1) c(1) show ?thesis by blast
qed

theorem run_cursor_ends_at_unseen_row_witness:
  "\<exists>m c. run_steps mutable_run_new [RunInsert [row_new 1 5, row_new 2 1]] = Some m \<and>
    run_newest_visible_iter m (snapshot_at 5) = Some c \<and>
    run_cursor_collect 3 c =
      Some (map (\<lambda>rid. let r = the (run_newest_visible_map m (snapshot_at 5) rid) in (row_id r, committed_epoch r, r))
        (takeWhile (\<lambda>rid. run_newest_visible_map m (snapshot_at 5) rid \<noteq> None)
          (sorted_list_of_set (row_id ` set (run_log [RunInsert [row_new 1 5, row_new 2 1]])))))"
  by (rule run_cursor_ends_at_unseen_row) (simp_all add: vkey_of_def row_new_def)

text \<open>Row 1 was written at epoch 5 and row 2 at epoch 1. A snapshot at epoch 1 sees row 2, the map
  holds it and the point read returns it, but the cursor yields nothing.\<close>

lemma run_cursor_loses_row:
  "\<exists>m c. run_steps mutable_run_new [RunInsert [row_new 1 5, row_new 2 1]] = Some m \<and>
    run_newest_visible_map m (snapshot_at 1) 2 = Some (row_new 2 1) \<and>
    run_get_version_at m 2 (snapshot_at 1) = Some (1, row_new 2 1) \<and>
    run_newest_visible_iter m (snapshot_at 1) = Some c \<and> run_cursor_collect 3 c = Some []"
proof -
  let ?ops = "[RunInsert [row_new 1 5, row_new 2 1]]" and ?s = "snapshot_at 1"
  have "batches_sorted ?ops" "8 + 5 * (0 + rows_inserted ?ops) \<le> 2 ^ 40" by (simp_all add: vkey_of_def row_new_def)
  from run_steps_ok [OF run_models_new this] obtain m where m: "run_steps mutable_run_new ?ops = Some m"
    "run_models (0 + rows_inserted ?ops) (run_log ?ops) m" by blast
  have two: "0 + rows_inserted ?ops = 2" by simp
  have ok: "run_ok 2 m" and log: "klog (run_rows m) k = klog [row_new 1 5, row_new 2 1] k" for k
    using m(2) unfolding two by (simp_all add: run_models_def)
  obtain c where c: "run_newest_visible_iter m ?s = Some c" "run_merge_ok {} c" "rc_current c = None"
    "rc_snapshot c = ?s" "run_rest c = sort_key row_id (run_rows m)" by (rule run_iter_ok [OF ok])
  have "array_ok 2 (rs_pma (mr_active m)) \<and> mr_frozen m = []"
    using m(1) ok by (auto simp: insert_many_def mutable_run_new_def run_ok_def run_arrays_def split: option.splits)
  then have "sorted (map vkey_of (run_rows m))" using array_sorted [of 2 "rs_pma (mr_active m)"] by (simp add: run_rows_eq frozen_rows_def)
  then have "run_rows m = sort_key vkey_of [row_new 1 5, row_new 2 1]" by (rule sort_by_logs) (rule log)
  then have rows: "run_rows m = [row_new 1 5, row_new 2 1]" by (simp add: vkey_of_def row_new_def)
  have unseen: "\<not> visible_to ?s (row_new 1 5)" and seen: "visible_to ?s (row_new 2 1)"
    by (simp_all add: visible_epoch row_new_def word_le_nat_alt)
  have map2: "run_newest_visible_map m ?s 2 = Some (row_new 2 1)"
    unfolding run_map_fold rows using seen by (simp add: fold_newest_def supersede_def row_new_def)
  have "\<forall>r\<in>set (run_rows m). vkey_of r \<noteq> (2, 0)" unfolding rows by (simp add: vkey_of_def row_new_def)
  from run_get_fold [OF ok this, of ?s] have "run_get_version_at m 2 ?s = Some (1, row_new 2 1)"
    unfolding run_map_fold [symmetric] map2 by (simp add: row_new_def)
  have rest: "run_rest c = [row_new 1 5, row_new 2 1]" unfolding c(5) rows by (simp add: row_new_def)
  have "group_newest ?s (run_rest c) = None" unfolding rest using unseen
    by (simp add: group_newest_def supersede_visible_eq) (simp add: row_new_def)
  then have "run_emit ?s (run_rest c) = []" by (subst run_emit.simps) simp
  then have "run_cursor_collect 3 c = Some []" using run_cursor_collect_ok [OF c(2,3), of 3] c(4) rest by simp
  with m(1) c(1) map2 \<open>run_get_version_at m 2 ?s = Some (1, row_new 2 1)\<close> show ?thesis by blast
qed
end
