(* ===== verification/Wait_Graph.thy ===== *)
theory Wait_Graph
  imports Mongrel_Prelude
begin

text \<open>
  Cycle search and victim selection of the lock manager (\<open>find_cycle\<close> and \<open>choose_victim\<close> of
  \<open>crates/mongreldb-core/src/locks.rs\<close>). The graph is the list of the entries of a \<open>BTreeMap\<close>, in
  the order of its keys. The explicit stack of frames is a list with the last frame first.
\<close>

section \<open>Cycle search\<close>

type_synonym txn_id = u64
type_synonym wait_graph = "(txn_id \<times> txn_id list) list"

datatype Mark = Visiting | Done

definition edges_of :: "wait_graph \<Rightarrow> txn_id \<Rightarrow> txn_id list" where
  "edges_of g n = (case map_of g n of None \<Rightarrow> [] | Some es \<Rightarrow> es)"

definition graph_nodes :: "wait_graph \<Rightarrow> txn_id set" where
  "graph_nodes g = set (concat (map snd g))"

lemma edges_of_nodes: "i < length (edges_of g n) \<Longrightarrow> edges_of g n ! i \<in> graph_nodes g"
  by (auto simp: edges_of_def graph_nodes_def split: option.splits dest!: map_of_SomeD intro!: bexI nth_mem)

lemma finite_graph_nodes [simp]: "finite (graph_nodes g)"
  by (simp add: graph_nodes_def)

function dfs ::
    "wait_graph \<Rightarrow> (txn_id \<rightharpoonup> Mark) \<Rightarrow> txn_id list \<Rightarrow> (txn_id \<times> nat) list \<Rightarrow>
     txn_id list option \<times> (txn_id \<rightharpoonup> Mark) \<times> txn_id list" where
  "dfs g marks stack [] = (None, marks, stack)"
| "dfs g marks stack ((node, index) # frames) =
     (let edges = edges_of g node
      in if index < length edges then
           (let succ = edges ! index
            in case marks succ of
                 None \<Rightarrow> dfs g (marks(succ \<mapsto> Visiting)) (stack @ [succ]) ((succ, 0) # (node, index + 1) # frames)
               | Some Visiting \<Rightarrow> (Some (dropWhile (\<lambda>member. member \<noteq> succ) stack), marks, stack)
               | Some Done \<Rightarrow> dfs g marks stack ((node, index + 1) # frames))
         else dfs g (marks(node \<mapsto> Done)) (butlast stack) frames)"
  by pat_completeness auto
termination
proof (relation "measures [\<lambda>(g, marks, stack, frames). card (graph_nodes g - dom marks),
    \<lambda>(g, marks, stack, frames). \<Sum>(n, i)\<leftarrow>frames. Suc (length (edges_of g n) - i)]", goal_cases)
  case (2 g marks stack node index frames edges succ)
  then have "succ \<in> graph_nodes g - dom marks" using edges_of_nodes by auto
  then have "card (graph_nodes g - insert succ (dom marks)) < card (graph_nodes g - dom marks)"
    by (intro psubset_card_mono) auto
  then show ?case by simp
next
  case (4 g marks stack node index frames)
  have "card (graph_nodes g - insert node (dom marks)) \<le> card (graph_nodes g - dom marks)"
    by (intro card_mono) auto
  then show ?case by auto
qed auto

declare dfs.simps(2) [simp del]

fun find_cycle_from :: "wait_graph \<Rightarrow> (txn_id \<rightharpoonup> Mark) \<Rightarrow> txn_id list \<Rightarrow> txn_id list \<Rightarrow> txn_id list option" where
  "find_cycle_from g marks stack [] = None"
| "find_cycle_from g marks stack (start # starts) =
     (if marks start \<noteq> None then find_cycle_from g marks stack starts
      else
        (case dfs g (marks(start \<mapsto> Visiting)) (stack @ [start]) [(start, 0)] of
           (Some cycle, _, _) \<Rightarrow> Some cycle
         | (None, marks', stack') \<Rightarrow> find_cycle_from g marks' stack' starts))"

definition find_cycle :: "wait_graph \<Rightarrow> txn_id list option" where
  "find_cycle g = find_cycle_from g Map.empty [] (map fst g)"

section \<open>Victim selection\<close>

definition DEFAULT_PRIORITY :: u64 where
  "DEFAULT_PRIORITY = 0"

definition priority_of :: "(txn_id \<rightharpoonup> u64) \<Rightarrow> txn_id \<Rightarrow> u64" where
  "priority_of priorities a = (case priorities a of None \<Rightarrow> DEFAULT_PRIORITY | Some p \<Rightarrow> p)"

definition dies_before :: "(txn_id \<rightharpoonup> u64) \<Rightarrow> txn_id \<Rightarrow> txn_id \<Rightarrow> bool" where
  "dies_before priorities a b \<longleftrightarrow>
     priority_of priorities a < priority_of priorities b \<or>
     priority_of priorities a = priority_of priorities b \<and> b < a"

text \<open>\<open>min_by\<close> keeps the first of equal minima; on an empty slice \<open>expect\<close> panics.\<close>

fun choose_victim :: "txn_id list \<Rightarrow> (txn_id \<rightharpoonup> u64) \<Rightarrow> txn_id option" where
  "choose_victim [] priorities = None"
| "choose_victim (c # cs) priorities =
     Some (foldl (\<lambda>x y. if dies_before priorities y x then y else x) c cs)"

section \<open>Correctness of the search\<close>

definition wait_edges :: "wait_graph \<Rightarrow> (txn_id \<times> txn_id) set" where
  "wait_edges g = {(a, b). b \<in> set (edges_of g a)}"

definition is_cycle :: "wait_graph \<Rightarrow> txn_id list \<Rightarrow> bool" where
  "is_cycle g c \<longleftrightarrow>
     c \<noteq> [] \<and> distinct c \<and> successively (\<lambda>a b. (a, b) \<in> wait_edges g) c \<and> (last c, hd c) \<in> wait_edges g"

text \<open>Below the last frame every frame waits for the frame above it and has left its earlier edges
  behind.\<close>

fun below :: "wait_graph \<Rightarrow> (txn_id \<rightharpoonup> Mark) \<Rightarrow> txn_id \<Rightarrow> (txn_id \<times> nat) list \<Rightarrow> bool" where
  "below g marks v [] = True"
| "below g marks v ((u, i) # fs) =
     (0 < i \<and> i \<le> length (edges_of g u) \<and> edges_of g u ! (i - 1) = v \<and>
      (\<forall>k<i - 1. marks (edges_of g u ! k) = Some Done) \<and> below g marks u fs)"

fun frames_ok :: "wait_graph \<Rightarrow> (txn_id \<rightharpoonup> Mark) \<Rightarrow> (txn_id \<times> nat) list \<Rightarrow> bool" where
  "frames_ok g marks [] = True"
| "frames_ok g marks ((u, i) # fs) =
     (i \<le> length (edges_of g u) \<and> (\<forall>k<i. marks (edges_of g u ! k) = Some Done) \<and> below g marks u fs)"

definition done_edges :: "wait_graph \<Rightarrow> (txn_id \<rightharpoonup> Mark) \<Rightarrow> (txn_id \<times> txn_id) set" where
  "done_edges g marks = {(a, b). (a, b) \<in> wait_edges g \<and> marks a = Some Done}"

definition search_inv :: "wait_graph \<Rightarrow> (txn_id \<rightharpoonup> Mark) \<Rightarrow> txn_id list \<Rightarrow> (txn_id \<times> nat) list \<Rightarrow> bool" where
  "search_inv g marks stack frames \<longleftrightarrow>
     stack = rev (map fst frames) \<and> distinct stack \<and> (\<forall>v. marks v = Some Visiting \<longleftrightarrow> v \<in> set stack) \<and>
     (\<forall>a b. (a, b) \<in> done_edges g marks \<longrightarrow> marks b = Some Done) \<and> acyclic (done_edges g marks) \<and>
     frames_ok g marks frames"

lemma below_mono:
  "below g marks v fs \<Longrightarrow> (\<And>w. marks w = Some Done \<Longrightarrow> marks' w = Some Done) \<Longrightarrow> below g marks' v fs"
  by (induction g marks v fs rule: below.induct) auto

lemma below_frames_ok:
  "below g marks v fs \<Longrightarrow> marks v = Some Done \<Longrightarrow> frames_ok g marks fs"
proof (cases fs)
  case (Cons f fs')
  obtain u i where f: "f = (u, i)" by fastforce
  assume b: "below g marks v fs" and v: "marks v = Some Done"
  have "marks (edges_of g u ! k) = Some Done" if "k < i" for k
    using b v that Cons f by (cases "k = i - 1") auto
  with b show ?thesis by (simp add: Cons f)
qed simp

lemma below_path:
  "below g marks v fs \<Longrightarrow> successively (\<lambda>a b. (a, b) \<in> wait_edges g) (rev (map fst fs) @ [v])"
  by (induction g marks v fs rule: below.induct)
    (auto simp: successively_append_iff wait_edges_def intro!: nth_mem)

lemma acyclic_add_source:
  assumes "acyclic r" and "\<And>a b. (a, b) \<in> r \<union> s \<Longrightarrow> b \<noteq> n" and "\<And>a b. (a, b) \<in> s \<Longrightarrow> a = n"
  shows "acyclic (r \<union> s)"
proof (rule acyclicI, rule allI, rule notI)
  have enter: "b \<noteq> n" if "(a, b) \<in> (r \<union> s)\<^sup>+" for a b using that assms(2) by (cases rule: trancl.cases) auto
  have keep: "(a, b) \<in> r\<^sup>+" if "(a, b) \<in> (r \<union> s)\<^sup>+" "a \<noteq> n" for a b
    using that
  proof (induction rule: trancl_induct)
    case (base y)
    then show ?case using assms(3) by auto
  next
    case (step y z)
    then show ?case using assms(3) enter [OF step.hyps(1)] by (auto intro: trancl_into_trancl)
  qed
  fix x assume "(x, x) \<in> (r \<union> s)\<^sup>+"
  with keep [OF this enter [OF this]] assms(1) show False by (auto simp: acyclic_def)
qed

lemma search_push:
  assumes "search_inv g marks stack ((node, index) # frames)" and "index < length (edges_of g node)"
    and "marks (edges_of g node ! index) = None"
  shows "search_inv g (marks(edges_of g node ! index \<mapsto> Visiting)) (stack @ [edges_of g node ! index])
    ((edges_of g node ! index, 0) # (node, index + 1) # frames)"
proof -
  let ?v = "edges_of g node ! index" and ?marks = "marks(edges_of g node ! index \<mapsto> Visiting)"
  have same: "?marks w = Some Done \<longleftrightarrow> marks w = Some Done" for w using assms(3) by simp
  have edges: "done_edges g ?marks = done_edges g marks" unfolding done_edges_def same ..
  have vis: "\<forall>v. marks v = Some Visiting \<longleftrightarrow> v \<in> set stack" using assms(1) by (simp add: search_inv_def)
  then have fresh: "?v \<notin> set stack" using assms(3) by (metis option.distinct(1))
  have "below g ?marks node frames"
    by (rule below_mono) (use assms(1) same in \<open>auto simp: search_inv_def\<close>)
  moreover have "\<forall>k<index. ?marks (edges_of g node ! k) = Some Done"
    using assms(1) unfolding same by (simp add: search_inv_def)
  ultimately have frames: "frames_ok g ?marks ((?v, 0) # (node, index + 1) # frames)"
    using assms(2) by (simp del: fun_upd_apply)
  have "?marks w = Some Visiting \<longleftrightarrow> w \<in> set (stack @ [?v])" for w using vis by simp
  moreover have "distinct (stack @ [?v])" "stack @ [?v] = rev (map fst ((?v, 0) # (node, index + 1) # frames))"
    and "\<forall>a b. (a, b) \<in> done_edges g marks \<longrightarrow> marks b = Some Done" "acyclic (done_edges g marks)"
    using assms(1) fresh unfolding search_inv_def by (auto simp: rev_image_eqI)
  ultimately show ?thesis unfolding search_inv_def edges same using frames by blast
qed

lemma search_pop:
  assumes "search_inv g marks stack ((node, index) # frames)" and "\<not> index < length (edges_of g node)"
  shows "search_inv g (marks(node \<mapsto> Done)) (butlast stack) frames"
proof -
  let ?marks = "marks(node \<mapsto> Done)"
  have inv: "stack = rev (map fst frames) @ [node]" "distinct stack" "\<And>v. marks v = Some Visiting \<longleftrightarrow> v \<in> set stack"
    "\<And>a b. (a, b) \<in> done_edges g marks \<Longrightarrow> marks b = Some Done" "acyclic (done_edges g marks)"
    "index = length (edges_of g node)" "\<forall>k<index. marks (edges_of g node ! k) = Some Done" "below g marks node frames"
    using assms by (auto simp: search_inv_def rev_image_eqI)
  have node: "marks node = Some Visiting" using inv(1,3) by simp
  have out: "marks b = Some Done" if "(node, b) \<in> wait_edges g" for b
    using that inv(6,7) by (auto simp: wait_edges_def in_set_conv_nth)
  have split: "done_edges g ?marks = done_edges g marks \<union> {(a, b). a = node \<and> (a, b) \<in> wait_edges g}"
    using node by (auto simp: done_edges_def)
  have into: "marks b = Some Done" if "(a, b) \<in> done_edges g ?marks" for a b
    using that inv(4) out unfolding split by auto
  have "acyclic (done_edges g ?marks)"
    unfolding split
  proof (rule acyclic_add_source [of _ _ node])
    show "b \<noteq> node" if "(a, b) \<in> done_edges g marks \<union> {(a, b). a = node \<and> (a, b) \<in> wait_edges g}" for a b
      using into that node unfolding split by fastforce
  qed (use inv(5) in auto)
  moreover have "frames_ok g ?marks frames"
    by (rule below_frames_ok [of _ _ node], rule below_mono [OF inv(8)]) simp_all
  moreover have "?marks v = Some Visiting \<longleftrightarrow> v \<in> set (butlast stack)" for v
    using inv(2) inv(3) [of v] by (auto simp: inv(1))
  moreover have "?marks b = Some Done" if "(a, b) \<in> done_edges g ?marks" for a b using into [OF that] by simp
  ultimately show ?thesis using inv(1,2) unfolding search_inv_def by simp
qed

lemma search_hit:
  assumes "search_inv g marks stack ((node, index) # frames)" and "index < length (edges_of g node)"
    and "marks (edges_of g node ! index) = Some Visiting"
  shows "is_cycle g (dropWhile (\<lambda>m. m \<noteq> edges_of g node ! index) stack)"
proof -
  let ?v = "edges_of g node ! index" and ?P = "\<lambda>m. m \<noteq> edges_of g node ! index"
  have inv: "stack = rev (map fst frames) @ [node]" "distinct stack" "?v \<in> set stack" "below g marks node frames"
    using assms by (auto simp: search_inv_def rev_image_eqI)
  have path: "successively (\<lambda>a b. (a, b) \<in> wait_edges g) stack" unfolding inv(1) by (rule below_path [OF inv(4)])
  have ne: "dropWhile ?P stack \<noteq> []" using inv(3) by (simp add: dropWhile_eq_Nil_conv)
  have "last (takeWhile ?P stack @ dropWhile ?P stack) = last (dropWhile ?P stack)" using ne by (rule last_appendR)
  then have "last (dropWhile ?P stack) = node" by (simp add: inv(1) del: last_append)
  moreover have "hd (dropWhile ?P stack) = ?v" using hd_dropWhile [OF ne] by simp
  moreover have "successively (\<lambda>a b. (a, b) \<in> wait_edges g) (takeWhile ?P stack @ dropWhile ?P stack)"
    using path by simp
  then have "successively (\<lambda>a b. (a, b) \<in> wait_edges g) (dropWhile ?P stack)"
    by (simp only: successively_append_iff)
  ultimately show ?thesis
    using ne inv(2) assms(2) by (simp add: is_cycle_def distinct_dropWhile wait_edges_def)
qed

lemma dfs_ok:
  "search_inv g marks stack frames \<Longrightarrow> dfs g marks stack frames = (r, marks', stack') \<Longrightarrow>
   (case r of Some c \<Rightarrow> is_cycle g c | None \<Rightarrow> search_inv g marks' stack' [] \<and> dom marks \<subseteq> dom marks')"
proof (induction g marks stack frames rule: dfs.induct)
  case (1 g marks stack)
  then show ?case by auto
next
  case (2 g marks stack node index frames)
  let ?v = "edges_of g node ! index"
  show ?case
  proof (cases "index < length (edges_of g node)")
    case True
    show ?thesis
    proof (cases "marks ?v")
      case None
      with True "2.prems"(2) have "dfs g (marks(?v \<mapsto> Visiting)) (stack @ [?v]) ((?v, 0) # (node, index + 1) # frames) =
          (r, marks', stack')" by (subst (asm) dfs.simps(2)) (simp add: Let_def)
      from "2.IH"(1) [OF refl True refl None search_push [OF "2.prems"(1) True None] this] show ?thesis
        by (simp split: option.splits del: fun_upd_apply)
    next
      case (Some m)
      show ?thesis
      proof (cases m)
        case Visiting
        with Some True "2.prems"(2) search_hit [OF "2.prems"(1) True] show ?thesis
          by (subst (asm) dfs.simps(2)) (auto simp: Let_def)
      next
        case Done
        with Some True "2.prems"(2) have d: "dfs g marks stack ((node, index + 1) # frames) = (r, marks', stack')"
          by (subst (asm) dfs.simps(2)) (simp add: Let_def)
        have "search_inv g marks stack ((node, index + 1) # frames)"
          using "2.prems"(1) Some Done True by (auto simp: search_inv_def less_Suc_eq rev_image_eqI)
        from "2.IH"(2) [OF refl True refl _ _ this d] Some Done show ?thesis by simp
      qed
    qed
  next
    case False
    with "2.prems"(2) have "dfs g (marks(node \<mapsto> Done)) (butlast stack) frames = (r, marks', stack')"
      by (subst (asm) dfs.simps(2)) (simp add: Let_def)
    from "2.IH"(3) [OF refl False search_pop [OF "2.prems"(1) False] this] show ?thesis
      by (simp split: option.splits del: fun_upd_apply)
  qed
qed

lemma find_cycle_from_ok:
  assumes "search_inv g marks stack []"
  shows "case find_cycle_from g marks stack starts of
      Some c \<Rightarrow> is_cycle g c
    | None \<Rightarrow> (\<exists>marks'. search_inv g marks' [] [] \<and> dom marks \<union> set starts \<subseteq> dom marks')"
  using assms
proof (induction starts arbitrary: marks stack)
  case Nil
  then have "stack = []" by (simp add: search_inv_def)
  with Nil show ?case by auto
next
  case (Cons start starts)
  show ?case
  proof (cases "marks start")
    case (Some m)
    then have eq: "dom marks \<union> set (start # starts) = dom marks \<union> set starts" by auto
    have step: "find_cycle_from g marks stack (start # starts) = find_cycle_from g marks stack starts" using Some by simp
    show ?thesis unfolding eq step by (rule Cons.IH [OF Cons.prems])
  next
    case None
    obtain r marks' stack' where d: "dfs g (marks(start \<mapsto> Visiting)) (stack @ [start]) [(start, 0)] = (r, marks', stack')"
      by (metis prod_cases3)
    have same: "done_edges g (marks(start \<mapsto> Visiting)) = done_edges g marks"
      using None by (auto simp: done_edges_def split: if_splits)
    have "(marks(start \<mapsto> Visiting)) b = Some Done" if "(a, b) \<in> done_edges g marks" for a b
    proof -
      have "marks b = Some Done" using that Cons.prems unfolding search_inv_def by blast
      with None show ?thesis by auto
    qed
    then have "search_inv g (marks(start \<mapsto> Visiting)) (stack @ [start]) [(start, 0)]"
      using Cons.prems unfolding search_inv_def same by simp
    note D = dfs_ok [OF this d]
    show ?thesis
    proof (cases r)
      case None
      with D have inv: "search_inv g marks' stack' []" and "dom (marks(start \<mapsto> Visiting)) \<subseteq> dom marks'"
        by (simp_all del: fun_upd_apply)
      then have sub: "dom marks \<union> set (start # starts) \<subseteq> dom marks' \<union> set starts" by (auto simp del: fun_upd_apply)
      have step: "find_cycle_from g marks stack (start # starts) = find_cycle_from g marks' stack' starts"
        using \<open>marks start = None\<close> d None by simp
      show ?thesis
      proof (cases "find_cycle_from g marks' stack' starts")
        case None
        with Cons.IH [OF inv] obtain m where "search_inv g m [] []" "dom marks' \<union> set starts \<subseteq> dom m" by auto
        with sub have "search_inv g m [] [] \<and> dom marks \<union> set (start # starts) \<subseteq> dom m" by blast
        with None show ?thesis unfolding step by auto
      next
        case (Some c)
        with Cons.IH [OF inv] show ?thesis unfolding step by simp
      qed
    next
      case (Some c)
      with D d \<open>marks start = None\<close> show ?thesis by simp
    qed
  qed
qed

lemma find_cycle_ok: "case find_cycle g of Some c \<Rightarrow> is_cycle g c | None \<Rightarrow> acyclic (wait_edges g)"
proof -
  have "search_inv g Map.empty [] []" by (simp add: search_inv_def done_edges_def acyclic_def)
  note F = find_cycle_from_ok [OF this, of "map fst g", folded find_cycle_def]
  show ?thesis
  proof (cases "find_cycle g")
    case None
    with F obtain marks where m: "search_inv g marks [] []" "fst ` set g \<subseteq> dom marks" by auto
    have "marks a = Some Done" if "(a, b) \<in> wait_edges g" for a b
    proof -
      have "map_of g a \<noteq> None" using that by (cases "map_of g a") (simp_all add: wait_edges_def edges_of_def)
      then have "a \<in> dom marks" using m(2) by (auto simp: map_of_eq_None_iff)
      moreover have "marks a \<noteq> Some Visiting" using m(1) by (simp add: search_inv_def)
      ultimately obtain m where "marks a = Some m" "m \<noteq> Visiting" by auto
      then show ?thesis by (cases m) simp_all
    qed
    then have "done_edges g marks = wait_edges g" by (auto simp: done_edges_def)
    with m(1) None show ?thesis by (simp add: search_inv_def)
  qed (use F in simp)
qed

text \<open>A cycle refutes acyclicity, so the search finds a cycle exactly if there is one.\<close>

lemma successively_trancl:
  "successively (\<lambda>a b. (a, b) \<in> r) (x # xs) \<Longrightarrow> xs \<noteq> [] \<Longrightarrow> (x, last xs) \<in> r\<^sup>+"
proof (induction xs arbitrary: x)
  case (Cons y ys)
  then have "(x, y) \<in> r" by simp
  with Cons show ?case by (cases ys) (auto intro: trancl_into_trancl2)
qed simp

lemma is_cycle_not_acyclic: "is_cycle g c \<Longrightarrow> \<not> acyclic (wait_edges g)"
proof -
  assume c: "is_cycle g c"
  then obtain x xs where x: "c = x # xs" by (cases c) (auto simp: is_cycle_def)
  have "(x, x) \<in> (wait_edges g)\<^sup>+"
  proof (cases "xs = []")
    case True
    with c x show ?thesis by (auto simp: is_cycle_def)
  next
    case False
    then have "(x, last xs) \<in> (wait_edges g)\<^sup>+" using c x by (intro successively_trancl) (auto simp: is_cycle_def)
    with False c x show ?thesis by (auto simp: is_cycle_def intro: trancl_into_trancl)
  qed
  then show ?thesis by (auto simp: acyclic_def)
qed

section \<open>Correctness of the selection\<close>

lemma dies_before_total: "a \<noteq> b \<Longrightarrow> dies_before ps a b \<or> dies_before ps b a"
  by (auto simp: dies_before_def)

lemma dies_before_trans: "dies_before ps a b \<Longrightarrow> dies_before ps b c \<Longrightarrow> dies_before ps a c"
  by (auto simp: dies_before_def)

lemma fold_victim:
  "let v = foldl (\<lambda>x y. if dies_before ps y x then y else x) c cs
   in v \<in> set (c # cs) \<and> (\<forall>x\<in>set (c # cs). x \<noteq> v \<longrightarrow> dies_before ps v x)"
proof (induction cs rule: rev_induct)
  case (snoc y cs)
  let ?v = "foldl (\<lambda>x y. if dies_before ps y x then y else x) c cs"
  have "dies_before ps y x" if "dies_before ps y ?v" "x \<in> set (c # cs)" for x
    using snoc that dies_before_trans [of ps y ?v x] by (cases "x = ?v") (auto simp: Let_def)
  moreover have "y = ?v \<or> dies_before ps ?v y" if "\<not> dies_before ps y ?v" using dies_before_total that by blast
  ultimately show ?case using snoc by (auto simp: Let_def)
qed simp

lemma choose_victim_ok:
  assumes "cycle \<noteq> []"
  obtains v where "choose_victim cycle ps = Some v" and "v \<in> set cycle"
    and "\<And>x. x \<in> set cycle \<Longrightarrow> x \<noteq> v \<Longrightarrow> dies_before ps v x"
  using assms fold_victim [of ps "hd cycle" "tl cycle"] by (cases cycle) (auto simp: Let_def)

section \<open>Properties\<close>

text \<open>C21: The deadlock search is exact. It finds a cycle of the graph exactly if the graph has one, and
  the victim is the member of the cycle with the lowest priority, the youngest among equals.\<close>

theorem deadlock_search_exact:
  "case find_cycle g of
     None \<Rightarrow> acyclic (wait_edges g)
   | Some c \<Rightarrow> \<not> acyclic (wait_edges g) \<and> is_cycle g c \<and>
       (\<exists>v. choose_victim c priorities = Some v \<and> set c - {v} \<subseteq> {x. dies_before priorities v x} \<and> v \<in> set c)"
proof (cases "find_cycle g")
  case None
  then show ?thesis using find_cycle_ok [of g] by simp
next
  case (Some c)
  then have c: "is_cycle g c" using find_cycle_ok [of g] by simp
  then obtain v where "choose_victim c priorities = Some v" "v \<in> set c"
    "\<And>x. x \<in> set c \<Longrightarrow> x \<noteq> v \<Longrightarrow> dies_before priorities v x"
    using choose_victim_ok [of c priorities] by (auto simp: is_cycle_def)
  with Some c is_cycle_not_acyclic [OF c] show ?thesis by auto
qed

end
