(* ===== verification/Locks.thy ===== *)
theory Locks
  imports Wait_Graph Rows Execution "HOL-Library.AList"
begin

text \<open>
  The key and predicate lock manager (\<open>crates/mongreldb-core/src/locks.rs\<close>): modes, keys, requests and
  errors, the per-key state of holders and waiters, granting, releasing and deadlock resolution.

  The state behind the mutex is a record, and one critical section is one function on it and on the
  hierarchy of the controls; the instant is read once per critical section. A hash map whose entries
  are iterated is the list of its entries, in the order of the iteration; a hash set of keys is a list
  without repetitions. A blocked \<open>acquire\<close> gives up the mutex between two turns of its loop: \<open>acquire\<close>
  runs up to the first wait, \<open>acquire_resume\<close> is one turn after a wake-up, and both return \<open>None\<close> when
  the caller keeps waiting.
\<close>

section \<open>Modes, keys and requests\<close>

datatype LockMode = Shared | Exclusive

fun compatible :: "LockMode \<Rightarrow> LockMode \<Rightarrow> bool" where
  "compatible Shared Shared = True"
| "compatible _ _ = False"

datatype 'a Bound = Included 'a | Excluded 'a | Unbounded

datatype LockKey =
    RowLock u64 RowId
  | KeyLock u64 "u8 list"
  | RangeLock u64 "u8 list Bound" "u8 list Bound"
  | Barrier string

definition schema_barrier :: LockKey where
  "schema_barrier = Barrier ''schema''"

definition sequence_barrier :: "string \<Rightarrow> LockKey" where
  "sequence_barrier sequence = Barrier (''sequence:'' @ sequence)"

record lock_request =
  req_txn :: txn_id
  req_mode :: LockMode
  req_deadline :: "instant option"
  req_control :: execution_control
  req_priority :: "u64 option"

definition request_new :: "txn_id \<Rightarrow> LockMode \<Rightarrow> execution_control \<Rightarrow> lock_request" where
  "request_new t m c = \<lparr>req_txn = t, req_mode = m, req_deadline = None, req_control = c, req_priority = None\<rparr>"

definition request_with_deadline :: "lock_request \<Rightarrow> instant \<Rightarrow> lock_request" where
  "request_with_deadline r dl = r\<lparr>req_deadline := Some dl\<rparr>"

definition request_with_timeout :: "lock_request \<Rightarrow> instant \<Rightarrow> instant \<Rightarrow> nat \<Rightarrow> lock_request" where
  "request_with_timeout r limit now timeout = request_with_deadline r (deadline_after limit now timeout)"

definition with_priority :: "lock_request \<Rightarrow> u64 \<Rightarrow> lock_request" where
  "with_priority r p = r\<lparr>req_priority := Some p\<rparr>"

section \<open>Errors\<close>

text \<open>The message of an invalid request is formatted from the transaction and the key it carries.\<close>

datatype LockError =
    LockDeadlock u64 string
  | LockDeadlineExceeded
  | LockCancelled
  | LockInvalidRequest txn_id LockKey

fun lock_error_category :: "LockError \<Rightarrow> ErrorCategory" where
  "lock_error_category (LockDeadlock _ _) = CatDeadlock"
| "lock_error_category LockDeadlineExceeded = CatDeadlineExceeded"
| "lock_error_category LockCancelled = CatCancelled"
| "lock_error_category (LockInvalidRequest _ _) = CatClusterVersionMismatch"

text \<open>The cycle as the detector prints it: the separator is a space, the three
  UTF-8 bytes of the arrow U+2192 and a space.\<close>

definition arrow :: string where
  "arrow = [char_of (0x20 :: nat), char_of (0xE2 :: nat), char_of (0x86 :: nat), char_of (0x92 :: nat), char_of (0x20 :: nat)]"

fun render_cycle :: "txn_id list \<Rightarrow> string" where
  "render_cycle [] = []"
| "render_cycle [t] = decimal (unat t)"
| "render_cycle (t # ts) = decimal (unat t) @ arrow @ render_cycle ts"

fun lock_error_into :: "(LockKey \<Rightarrow> string) \<Rightarrow> LockError \<Rightarrow> MongrelError" where
  "lock_error_into debug (LockDeadlock victim cycle) = Deadlock victim cycle"
| "lock_error_into debug LockDeadlineExceeded = DeadlineExceeded"
| "lock_error_into debug LockCancelled = Cancelled"
| "lock_error_into debug (LockInvalidRequest t k) =
     InvalidArgument (''transaction '' @ decimal (unat t) @ '' already has a pending wait on '' @ debug k)"

section \<open>The lock table\<close>

record holder =
  h_txn :: txn_id
  h_mode :: LockMode

record waiter =
  w_txn :: txn_id
  w_deadline :: "instant option"
  w_control :: execution_control
  w_mode :: LockMode

record lock_state =
  holders :: "holder list"
  queue :: "waiter list"

datatype Fate = FateDeadlock u64 string | FateDeadlineExceeded | FateCancelled

fun into_error :: "Fate \<Rightarrow> LockError" where
  "into_error (FateDeadlock victim cycle) = LockDeadlock victim cycle"
| "into_error FateDeadlineExceeded = LockDeadlineExceeded"
| "into_error FateCancelled = LockCancelled"

record inner =
  locks :: "(LockKey \<times> lock_state) list"
  txn_keys :: "txn_id \<rightharpoonup> LockKey list"
  queued_waiters :: nat
  fates :: "txn_id \<rightharpoonup> Fate"
  priorities :: "txn_id \<rightharpoonup> u64"

definition inner_new :: inner where
  "inner_new = \<lparr>locks = [], txn_keys = Map.empty, queued_waiters = 0, fates = Map.empty, priorities = Map.empty\<rparr>"

abbreviation lock_of :: "inner \<Rightarrow> LockKey \<Rightarrow> lock_state option" where
  "lock_of s k \<equiv> map_of (locks s) k"

definition put_lock :: "inner \<Rightarrow> LockKey \<Rightarrow> lock_state \<Rightarrow> inner" where
  "put_lock s k st = s\<lparr>locks := AList.update k st (locks s)\<rparr>"

definition holds_in :: "lock_state \<Rightarrow> txn_id \<Rightarrow> bool" where
  "holds_in st t \<longleftrightarrow> t \<in> h_txn ` set (holders st)"

definition waits_in :: "lock_state \<Rightarrow> txn_id \<Rightarrow> bool" where
  "waits_in st t \<longleftrightarrow> t \<in> w_txn ` set (queue st)"

definition holds :: "inner \<Rightarrow> txn_id \<Rightarrow> LockKey \<Rightarrow> bool" where
  "holds s t k \<longleftrightarrow> (case lock_of s k of None \<Rightarrow> False | Some st \<Rightarrow> holds_in st t)"

definition transaction_touches_key :: "inner \<Rightarrow> LockKey \<Rightarrow> txn_id \<Rightarrow> bool" where
  "transaction_touches_key s k t \<longleftrightarrow>
     (case lock_of s k of None \<Rightarrow> False | Some st \<Rightarrow> holds_in st t \<or> waits_in st t)"

definition untrack :: "inner \<Rightarrow> LockKey \<Rightarrow> txn_id \<Rightarrow> inner" where
  "untrack s k t =
     (if transaction_touches_key s k t then s
      else case txn_keys s t of
             None \<Rightarrow> s
           | Some ks \<Rightarrow>
               (let ks' = remove1 k ks
                in s\<lparr>txn_keys := (txn_keys s)(t := (if ks' = [] then None else Some ks'))\<rparr>))"

definition prune_if_idle :: "inner \<Rightarrow> LockKey \<Rightarrow> inner" where
  "prune_if_idle s k =
     (case lock_of s k of
        None \<Rightarrow> s
      | Some st \<Rightarrow> if holders st = [] \<and> queue st = [] then s\<lparr>locks := AList.delete k (locks s)\<rparr> else s)"

text \<open>Remove the first entry of a transaction from a queue.\<close>

fun remove_txn :: "txn_id \<Rightarrow> waiter list \<Rightarrow> waiter list" where
  "remove_txn t [] = []"
| "remove_txn t (w # ws) = (if w_txn w = t then ws else w # remove_txn t ws)"

definition take_waiter :: "inner \<Rightarrow> LockKey \<Rightarrow> lock_state \<Rightarrow> txn_id \<Rightarrow> inner" where
  "take_waiter s k st t =
     (put_lock s k (st\<lparr>queue := remove_txn t (queue st)\<rparr>))\<lparr>queued_waiters := queued_waiters s - 1\<rparr>"

definition remove_waiter :: "inner \<Rightarrow> LockKey \<Rightarrow> txn_id \<Rightarrow> inner" where
  "remove_waiter s k t =
     (case lock_of s k of
        None \<Rightarrow> s
      | Some st \<Rightarrow> if waits_in st t then untrack (take_waiter s k st t) k t else s)"

section \<open>Granting\<close>

text \<open>The scan of the queue for waiters that can never proceed. Asking a control whether it is
  cancelled lets an expired one cancel itself.\<close>

fun dead_waiters :: "instant \<Rightarrow> waiter list \<Rightarrow> hierarchy \<Rightarrow> txn_id list \<times> hierarchy" where
  "dead_waiters now [] h = ([], h)"
| "dead_waiters now (w # ws) h =
     (let (cancelled, h1) = is_cancelled h (w_control w) now;
          expired = (case w_deadline w of None \<Rightarrow> False | Some d \<Rightarrow> d \<le> now);
          (rest, h2) = dead_waiters now ws h1
      in (if cancelled \<or> expired then w_txn w # rest else rest, h2))"

definition fate_of :: "hierarchy \<Rightarrow> execution_control \<Rightarrow> instant \<Rightarrow> Fate \<times> hierarchy" where
  "fate_of h c now =
     (case checkpoint h c now of
        (Inl DeadlineExceeded, h') \<Rightarrow> (FateDeadlineExceeded, h')
      | (Inl _, h') \<Rightarrow> (FateCancelled, h')
      | (Inr _, h') \<Rightarrow> (FateDeadlineExceeded, h'))"

fun purge ::
    "instant \<Rightarrow> LockKey \<Rightarrow> txn_id list \<Rightarrow> inner \<Rightarrow> hierarchy \<Rightarrow> txn_id list \<Rightarrow> inner \<times> hierarchy \<times> txn_id list" where
  "purge now k [] s h removed = (s, h, removed)"
| "purge now k (t # ts) s h removed =
     (case lock_of s k of
        None \<Rightarrow> purge now k ts s h removed
      | Some st \<Rightarrow>
          (case List.find (\<lambda>w. w_txn w = t) (queue st) of
             None \<Rightarrow> purge now k ts s h removed
           | Some w \<Rightarrow>
               (let s1 = take_waiter s k st t;
                    (fate, h1) = fate_of h (w_control w) now;
                    s2 = (case fates s1 t of None \<Rightarrow> s1\<lparr>fates := (fates s1)(t \<mapsto> fate)\<rparr> | Some _ \<Rightarrow> s1)
                in purge now k ts s2 h1 (removed @ [t]))))"

definition grantable :: "holder list \<Rightarrow> waiter \<Rightarrow> bool" where
  "grantable hs w \<longleftrightarrow> list_all (\<lambda>h. h_txn h = w_txn w \<or> compatible (w_mode w) (h_mode h)) hs"

text \<open>Set the mode of the transaction's hold, the first in the list.\<close>

fun make_exclusive :: "txn_id \<Rightarrow> holder list \<Rightarrow> holder list" where
  "make_exclusive t [] = []"
| "make_exclusive t (h # hs) = (if h_txn h = t then h\<lparr>h_mode := Exclusive\<rparr> # hs else h # make_exclusive t hs)"

definition grant_to :: "holder list \<Rightarrow> waiter \<Rightarrow> holder list" where
  "grant_to hs w =
     (if w_txn w \<in> h_txn ` set hs then make_exclusive (w_txn w) hs
      else hs @ [\<lparr>h_txn = w_txn w, h_mode = w_mode w\<rparr>])"

fun grant_queue :: "holder list \<Rightarrow> waiter list \<Rightarrow> nat \<Rightarrow> holder list \<times> waiter list \<times> nat" where
  "grant_queue hs [] n = (hs, [], n)"
| "grant_queue hs (w # ws) n =
     (if grantable hs w then grant_queue (grant_to hs w) ws (n - 1) else (hs, w # ws, n))"

definition grant_front :: "inner \<Rightarrow> LockKey \<Rightarrow> inner" where
  "grant_front s k =
     (case lock_of s k of
        None \<Rightarrow> s
      | Some st \<Rightarrow>
          (let (hs, q, n) = grant_queue (holders st) (queue st) (queued_waiters s)
           in (put_lock s k \<lparr>holders = hs, queue = q\<rparr>)\<lparr>queued_waiters := n\<rparr>))"

definition process_key :: "instant \<Rightarrow> LockKey \<Rightarrow> inner \<Rightarrow> hierarchy \<Rightarrow> inner \<times> hierarchy" where
  "process_key now k s h =
     (case lock_of s k of
        None \<Rightarrow> (s, h)
      | Some st \<Rightarrow>
          (let (dead, h1) = dead_waiters now (queue st) h;
               (s1, h2, removed) = purge now k dead s h1 [];
               s2 = grant_front s1 k
           in (foldl (\<lambda>s t. untrack s k t) s2 removed, h2)))"

section \<open>Deadlock resolution\<close>

definition waiter_edges :: "holder list \<Rightarrow> waiter list \<Rightarrow> waiter \<Rightarrow> txn_id list" where
  "waiter_edges hs ahead w =
     map h_txn (filter (\<lambda>h. h_txn h \<noteq> w_txn w \<and> \<not> compatible (w_mode w) (h_mode h)) hs) @
     map w_txn (filter (\<lambda>a. w_txn a \<noteq> w_txn w \<and> \<not> compatible (w_mode w) (w_mode a)) ahead)"

definition add_edges :: "wait_graph \<Rightarrow> txn_id \<times> txn_id list \<Rightarrow> wait_graph" where
  "add_edges g we = (case we of (w, es) \<Rightarrow> AList.update w (edges_of g w @ es) g)"

definition state_edges :: "lock_state \<Rightarrow> (txn_id \<times> txn_id list) list" where
  "state_edges st =
     map (\<lambda>i. (w_txn (queue st ! i), waiter_edges (holders st) (take i (queue st)) (queue st ! i)))
       [0..<length (queue st)]"

definition build_wait_for_graph :: "inner \<Rightarrow> wait_graph" where
  "build_wait_for_graph s =
     map (\<lambda>(w, es). (w, remdups_adj (sort es)))
       (sort_key fst (foldl add_edges [] (concat (map (\<lambda>(k, st). state_edges st) (locks s)))))"

definition doom :: "inner \<Rightarrow> LockKey \<Rightarrow> lock_state \<Rightarrow> txn_id \<Rightarrow> txn_id list \<Rightarrow> inner" where
  "doom s k st victim cycle =
     (let s1 = untrack (take_waiter s k st victim) k victim
      in s1\<lparr>fates := (fates s1)(victim \<mapsto> FateDeadlock victim (render_cycle cycle))\<rparr>)"

definition waiting_key :: "inner \<Rightarrow> txn_id \<Rightarrow> LockKey option" where
  "waiting_key s t =
     List.find (\<lambda>k. case lock_of s k of None \<Rightarrow> False | Some st \<Rightarrow> waits_in st t) (map fst (locks s))"

definition total_waiting :: "inner \<Rightarrow> nat" where
  "total_waiting s = (\<Sum>(k, st)\<leftarrow>locks s. length (queue st))"

lemma length_remove_txn: "t \<in> w_txn ` set q \<Longrightarrow> length q = Suc (length (remove_txn t q))"
  by (induction q) auto

lemma sum_update:
  "map_of ls k = Some st \<Longrightarrow>
   (\<Sum>(k, st)\<leftarrow>AList.update k st' ls. length (queue st)) + length (queue st) =
   (\<Sum>(k, st)\<leftarrow>ls. length (queue st)) + length (queue st')"
  by (induction ls) (auto split: if_splits)

lemma locks_untrack [simp]: "locks (untrack s k t) = locks s"
  by (simp add: untrack_def Let_def split: option.splits)

lemma total_take_waiter:
  assumes "lock_of s k = Some st" and "waits_in st t"
  shows "total_waiting s = Suc (total_waiting (take_waiter s k st t))"
  using sum_update [OF assms(1), of "st\<lparr>queue := remove_txn t (queue st)\<rparr>"]
    length_remove_txn [of t "queue st"] assms(2)
  by (simp add: total_waiting_def take_waiter_def put_lock_def waits_in_def)

function detect_deadlocks :: "inner \<Rightarrow> inner" where
  "detect_deadlocks s =
     (if queued_waiters s = 0 then s
      else
        (case find_cycle (build_wait_for_graph s) of
           None \<Rightarrow> s
         | Some cycle \<Rightarrow>
             (case choose_victim cycle (priorities s) of
                None \<Rightarrow> s
              | Some victim \<Rightarrow>
                  (case waiting_key s victim of
                     None \<Rightarrow> s
                   | Some k \<Rightarrow> detect_deadlocks (doom s k (the (lock_of s k)) victim cycle)))))"
  by pat_completeness auto
termination
proof (relation "measure total_waiting", goal_cases)
  case (2 s cycle victim k)
  then obtain st where "lock_of s k = Some st" "waits_in st victim"
    by (auto simp: waiting_key_def find_Some_iff split: option.splits)
  then have "total_waiting s = Suc (total_waiting (take_waiter s k st victim))" by (rule total_take_waiter)
  then show ?case using \<open>lock_of s k = Some st\<close> by (simp add: doom_def Let_def total_waiting_def)
qed simp

declare detect_deadlocks.simps [simp del]

section \<open>The operations\<close>

definition check_request_live ::
    "instant \<Rightarrow> execution_control \<Rightarrow> instant option \<Rightarrow> hierarchy \<Rightarrow> (LockError + unit) \<times> hierarchy" where
  "check_request_live now c dl h =
     (case checkpoint h c now of
        (Inl DeadlineExceeded, h') \<Rightarrow> (Inl LockDeadlineExceeded, h')
      | (Inl _, h') \<Rightarrow> (Inl LockCancelled, h')
      | (Inr _, h') \<Rightarrow>
          (if (case dl of None \<Rightarrow> False | Some d \<Rightarrow> d \<le> now) then Inl LockDeadlineExceeded else Inr (), h'))"

definition track :: "inner \<Rightarrow> txn_id \<Rightarrow> LockKey \<Rightarrow> inner" where
  "track s t k =
     s\<lparr>txn_keys := (txn_keys s)(t \<mapsto> List.insert k (case txn_keys s t of None \<Rightarrow> [] | Some ks \<Rightarrow> ks))\<rparr>"

definition state_or_default :: "inner \<Rightarrow> LockKey \<Rightarrow> lock_state" where
  "state_or_default s k = (case lock_of s k of None \<Rightarrow> \<lparr>holders = [], queue = []\<rparr> | Some st \<Rightarrow> st)"

definition enqueue ::
    "inner \<Rightarrow> LockKey \<Rightarrow> lock_state \<Rightarrow> lock_request \<Rightarrow> (LockError + unit) option \<times> inner" where
  "enqueue s k st r =
     (if waits_in st (req_txn r) then (Some (Inl (LockInvalidRequest (req_txn r) k)), s)
      else
        (let w = \<lparr>w_txn = req_txn r, w_deadline = req_deadline r, w_control = req_control r, w_mode = req_mode r\<rparr>;
             s1 = (put_lock s k (st\<lparr>queue := queue st @ [w]\<rparr>))\<lparr>queued_waiters := queued_waiters s + 1\<rparr>
         in (None, detect_deadlocks s1)))"

definition acquire_start ::
    "instant \<Rightarrow> LockKey \<Rightarrow> lock_request \<Rightarrow> inner \<Rightarrow> hierarchy \<Rightarrow> (LockError + unit) option \<times> inner \<times> hierarchy" where
  "acquire_start now k r s h =
     (case check_request_live now (req_control r) (req_deadline r) h of
        (Inl e, h1) \<Rightarrow> (Some (Inl e), s, h1)
      | (Inr _, h1) \<Rightarrow>
          (let t = req_txn r; mode = req_mode r;
               s1 = (case req_priority r of None \<Rightarrow> s | Some p \<Rightarrow> s\<lparr>priorities := (priorities s)(t \<mapsto> p)\<rparr>);
               s2 = track s1 t k;
               st = state_or_default s2 k;
               s3 = put_lock s2 k st
           in case List.find (\<lambda>h. h_txn h = t) (holders st) of
                Some hold \<Rightarrow>
                  (if h_mode hold = Exclusive \<or> mode = Shared then (Some (Inr ()), s3, h1)
                   else if length (holders st) = 1 \<and> queue st = []
                   then (Some (Inr ()), put_lock s3 k (st\<lparr>holders := make_exclusive t (holders st)\<rparr>), h1)
                   else (case enqueue s3 k st r of (res, s4) \<Rightarrow> (res, s4, h1)))
              | None \<Rightarrow>
                  (if queue st = [] \<and> list_all (\<lambda>h. compatible mode (h_mode h)) (holders st)
                   then (Some (Inr ()),
                     put_lock s3 k (st\<lparr>holders := holders st @ [\<lparr>h_txn = t, h_mode = mode\<rparr>]\<rparr>), h1)
                   else (case enqueue s3 k st r of (res, s4) \<Rightarrow> (res, s4, h1)))))"

text \<open>One turn of the loop in \<open>wait_for_grant\<close>.\<close>

definition wait_for_grant ::
    "instant \<Rightarrow> LockKey \<Rightarrow> lock_request \<Rightarrow> inner \<Rightarrow> hierarchy \<Rightarrow> (LockError + unit) option \<times> inner \<times> hierarchy" where
  "wait_for_grant now k r s h =
     (let t = req_txn r
      in case fates s t of
           Some fate \<Rightarrow> (Some (Inl (into_error fate)), s\<lparr>fates := (fates s)(t := None)\<rparr>, h)
         | None \<Rightarrow>
             (let (queued, held) =
                    (case lock_of s k of Some st \<Rightarrow> (waits_in st t, holds_in st t) | None \<Rightarrow> (False, False))
              in if \<not> queued then (if held then (Some (Inr ()), s, h) else (Some (Inl LockCancelled), s, h))
                 else
                   (case check_request_live now (req_control r) (req_deadline r) h of
                      (Inl e, h1) \<Rightarrow> (Some (Inl e), remove_waiter s k t, h1)
                    | (Inr _, h1) \<Rightarrow> (None, s, h1))))"

definition acquire_resume ::
    "instant \<Rightarrow> LockKey \<Rightarrow> lock_request \<Rightarrow> inner \<Rightarrow> hierarchy \<Rightarrow> (LockError + unit) option \<times> inner \<times> hierarchy" where
  "acquire_resume now k r s h =
     (case wait_for_grant now k r s h of
        (None, s1, h1) \<Rightarrow> (None, s1, h1)
      | (Some (Inr u), s1, h1) \<Rightarrow> (Some (Inr u), prune_if_idle s1 k, h1)
      | (Some (Inl e), s1, h1) \<Rightarrow>
          (let (s2, h2) = process_key now k s1 h1;
               s3 = untrack (detect_deadlocks s2) k (req_txn r)
           in (Some (Inl e), prune_if_idle s3 k, h2)))"

definition acquire ::
    "instant \<Rightarrow> LockKey \<Rightarrow> lock_request \<Rightarrow> inner \<Rightarrow> hierarchy \<Rightarrow> (LockError + unit) option \<times> inner \<times> hierarchy" where
  "acquire now k r s h =
     (case acquire_start now k r s h of
        (Some res, s1, h1) \<Rightarrow> (Some res, s1, h1)
      | (None, s1, h1) \<Rightarrow> acquire_resume now k r s1 h1)"

definition release :: "instant \<Rightarrow> txn_id \<Rightarrow> LockKey \<Rightarrow> inner \<Rightarrow> hierarchy \<Rightarrow> inner \<times> hierarchy" where
  "release now t k s h =
     (case lock_of s k of
        None \<Rightarrow> (s, h)
      | Some st \<Rightarrow>
          if \<not> holds_in st t then (s, h)
          else
            (let s1 = put_lock s k (st\<lparr>holders := filter (\<lambda>x. h_txn x \<noteq> t) (holders st)\<rparr>);
                 (s2, h2) = process_key now k s1 h;
                 s3 = untrack (detect_deadlocks s2) k t
             in (prune_if_idle s3 k, h2)))"

definition withdraw :: "txn_id \<Rightarrow> inner \<Rightarrow> LockKey \<Rightarrow> inner" where
  "withdraw t s k =
     (case lock_of s k of
        None \<Rightarrow> s
      | Some st \<Rightarrow>
          (let q = filter (\<lambda>w. w_txn w \<noteq> t) (queue st)
           in (put_lock s k \<lparr>holders = filter (\<lambda>x. h_txn x \<noteq> t) (holders st), queue = q\<rparr>)
                \<lparr>queued_waiters := queued_waiters s - (length (queue st) - length q)\<rparr>))"

fun process_keys :: "instant \<Rightarrow> LockKey list \<Rightarrow> inner \<Rightarrow> hierarchy \<Rightarrow> inner \<times> hierarchy" where
  "process_keys now [] s h = (s, h)"
| "process_keys now (k # ks) s h = (let (s1, h1) = process_key now k s h in process_keys now ks s1 h1)"

definition release_all :: "instant \<Rightarrow> txn_id \<Rightarrow> inner \<Rightarrow> hierarchy \<Rightarrow> inner \<times> hierarchy" where
  "release_all now t s h =
     (let s1 = s\<lparr>fates := (fates s)(t := None), priorities := (priorities s)(t := None)\<rparr>
      in case txn_keys s1 t of
           None \<Rightarrow> (s1, h)
         | Some keys \<Rightarrow>
             (let s2 = s1\<lparr>txn_keys := (txn_keys s1)(t := None)\<rparr>;
                  s3 = foldl (withdraw t) s2 keys;
                  (s4, h4) = process_keys now keys s3 h
              in (foldl prune_if_idle (detect_deadlocks s4) keys, h4)))"

end
