(* ===== verification/Lock_Safety.thy ===== *)
theory Lock_Safety
  imports Locks
begin

text \<open>
  Safety of the lock table: after every critical section the holders of a key are compatible, the
  counter of waiters is exact, every hold and wait is tracked for its transaction, and no transactions
  wait for each other in a cycle.
\<close>

section \<open>The invariant\<close>

definition state_ok :: "lock_state \<Rightarrow> bool" where
  "state_ok st \<longleftrightarrow>
     distinct (map h_txn (holders st)) \<and> distinct (map w_txn (queue st)) \<and>
     (\<forall>a\<in>set (holders st). \<forall>b\<in>set (holders st). h_txn a \<noteq> h_txn b \<longrightarrow> compatible (h_mode a) (h_mode b)) \<and>
     (\<forall>w\<in>set (queue st). \<forall>x\<in>set (holders st). h_txn x = w_txn w \<longrightarrow> w_mode w = Exclusive)"

definition tracks :: "inner \<Rightarrow> txn_id \<Rightarrow> LockKey \<Rightarrow> bool" where
  "tracks s t k \<longleftrightarrow> (\<exists>ks. txn_keys s t = Some ks \<and> k \<in> set ks)"

text \<open>The transactions in \<open>T\<close> are exempt from tracking, as the one that is being released.\<close>

definition lock_inv :: "txn_id set \<Rightarrow> inner \<Rightarrow> bool" where
  "lock_inv T s \<longleftrightarrow>
     distinct (map fst (locks s)) \<and> (\<forall>k st. lock_of s k = Some st \<longrightarrow> state_ok st) \<and>
     queued_waiters s = total_waiting s \<and>
     (\<forall>t k. t \<notin> T \<longrightarrow> transaction_touches_key s k t \<longrightarrow> tracks s t k) \<and>
     (\<forall>t ks. txn_keys s t = Some ks \<longrightarrow> distinct ks)"

lemma lock_inv_fates [simp]: "lock_inv T (s\<lparr>fates := f\<rparr>) = lock_inv T s"
  by (simp add: lock_inv_def total_waiting_def transaction_touches_key_def tracks_def)

lemma lock_inv_priorities [simp]: "lock_inv T (s\<lparr>priorities := p\<rparr>) = lock_inv T s"
  by (simp add: lock_inv_def total_waiting_def transaction_touches_key_def tracks_def)

lemma lock_invD:
  assumes "lock_inv T s"
  shows "distinct (map fst (locks s))" and "lock_of s k = Some st \<Longrightarrow> state_ok st"
    and "queued_waiters s = total_waiting s"
    and "t \<notin> T \<Longrightarrow> transaction_touches_key s k t \<Longrightarrow> tracks s t k"
    and "txn_keys s t = Some ks \<Longrightarrow> distinct ks"
  using assms unfolding lock_inv_def by blast+

lemma lock_of_put [simp]:
  "lock_of (put_lock s k st) k' = (if k' = k then Some st else lock_of s k')"
  by (simp add: put_lock_def update_conv')

lemma put_lock_fields [simp]:
  "txn_keys (put_lock s k st) = txn_keys s" "queued_waiters (put_lock s k st) = queued_waiters s"
  "fates (put_lock s k st) = fates s" "priorities (put_lock s k st) = priorities s"
  by (simp_all add: put_lock_def)

lemma sum_update_new:
  "map_of ls k = None \<Longrightarrow>
   (\<Sum>(k, st)\<leftarrow>AList.update k st' ls. length (queue st)) = (\<Sum>(k, st)\<leftarrow>ls. length (queue st)) + length (queue st')"
  by (induction ls) (auto split: if_splits)

lemma total_put:
  "total_waiting (put_lock s k st') + length (queue (state_or_default s k)) = total_waiting s + length (queue st')"
  using sum_update [of "locks s" k _ st'] sum_update_new [of "locks s" k st']
  by (cases "lock_of s k") (auto simp: total_waiting_def put_lock_def state_or_default_def)

lemma total_ge: "lock_of s k = Some st \<Longrightarrow> length (queue st) \<le> total_waiting s"
  using total_put [of s k "st\<lparr>queue := []\<rparr>"] by (simp add: state_or_default_def)

lemma state_ok_default: "lock_inv T s \<Longrightarrow> state_ok (state_or_default s k)"
proof (cases "lock_of s k")
  case None
  then show ?thesis by (simp add: state_or_default_def state_ok_def)
next
  case (Some st)
  assume "lock_inv T s"
  from lock_invD(2) [OF this Some] Some show ?thesis by (simp add: state_or_default_def)
qed

lemma inv_put:
  assumes inv: "lock_inv T s" and ok: "state_ok st'"
    and n: "n + length (queue (state_or_default s k)) = queued_waiters s + length (queue st')"
    and tracked: "\<And>t. t \<notin> T \<Longrightarrow> holds_in st' t \<or> waits_in st' t \<Longrightarrow> tracks s t k"
  shows "lock_inv T ((put_lock s k st')\<lparr>queued_waiters := n\<rparr>)"
proof -
  let ?s = "(put_lock s k st')\<lparr>queued_waiters := n\<rparr>"
  have total: "total_waiting ?s = total_waiting (put_lock s k st')" by (simp add: total_waiting_def)
  have "tracks s t k'" if "t \<notin> T" "transaction_touches_key ?s k' t" for t k'
  proof (cases "k' = k")
    case True
    with that tracked show ?thesis by (simp add: transaction_touches_key_def)
  next
    case False
    with that lock_invD(4) [OF inv] show ?thesis by (simp add: transaction_touches_key_def)
  qed
  moreover have "n = total_waiting ?s" unfolding total using n total_put [of s k st'] lock_invD(3) [OF inv] by simp
  moreover have "distinct (map fst (locks ?s))"
    using lock_invD(1) [OF inv] by (simp add: put_lock_def distinct_update)
  ultimately show ?thesis
    using lock_invD(2,5) [OF inv] ok unfolding lock_inv_def by (auto simp: tracks_def)
qed

lemma inv_put_same:
  assumes "lock_inv T s" and "state_ok st'" and "length (queue st') = length (queue (state_or_default s k))"
    and "\<And>t. t \<notin> T \<Longrightarrow> holds_in st' t \<or> waits_in st' t \<Longrightarrow> tracks s t k"
  shows "lock_inv T (put_lock s k st')"
proof -
  have "put_lock s k st' = (put_lock s k st')\<lparr>queued_waiters := queued_waiters s\<rparr>" by (simp add: put_lock_def)
  with inv_put [OF assms(1,2) _ assms(4), where n = "queued_waiters s"] assms(3) show ?thesis by simp
qed

lemma touches_tracked:
  "lock_inv T s \<Longrightarrow> lock_of s k = Some st \<Longrightarrow> t \<notin> T \<Longrightarrow> holds_in st t \<or> waits_in st t \<Longrightarrow> tracks s t k"
  using lock_invD(4) by (simp add: transaction_touches_key_def)

section \<open>The helper operations\<close>

lemma untrack_fields [simp]:
  "queued_waiters (untrack s k t) = queued_waiters s" "fates (untrack s k t) = fates s"
  "priorities (untrack s k t) = priorities s"
  by (simp_all add: untrack_def Let_def split: option.splits)

lemma touches_untrack [simp]: "transaction_touches_key (untrack s k t) = transaction_touches_key s"
  by (simp add: transaction_touches_key_def fun_eq_iff)

lemma inv_untrack:
  assumes inv: "lock_inv T s"
  shows "lock_inv T (untrack s k t)"
proof (cases "transaction_touches_key s k t \<or> txn_keys s t = None")
  case True
  then show ?thesis using inv by (auto simp: untrack_def)
next
  case False
  then obtain ks where ks: "txn_keys s t = Some ks" and idle: "\<not> transaction_touches_key s k t" by auto
  have keys: "txn_keys (untrack s k t) = (txn_keys s)(t := (if remove1 k ks = [] then None else Some (remove1 k ks)))"
    using ks idle by (simp add: untrack_def Let_def)
  have dist: "distinct ks" by (rule lock_invD(5) [OF inv ks])
  have "tracks (untrack s k t) t' k'" if "t' \<notin> T" "transaction_touches_key s k' t'" for t' k'
  proof -
    have "tracks s t' k'" using that by (rule lock_invD(4) [OF inv])
    then obtain ks' where ks': "txn_keys s t' = Some ks'" "k' \<in> set ks'" by (auto simp: tracks_def)
    show ?thesis
    proof (cases "t' = t")
      case True
      then have "k' \<noteq> k" using that(2) idle by auto
      then have "k' \<in> set (remove1 k ks)" using ks' ks True by simp
      then show ?thesis using True unfolding tracks_def keys by (cases "remove1 k ks = []") auto
    next
      case False
      then show ?thesis using ks' unfolding tracks_def keys by simp
    qed
  qed
  moreover have "distinct ks'" if "txn_keys (untrack s k t) t' = Some ks'" for t' ks'
    using that dist lock_invD(5) [OF inv] unfolding keys by (auto split: if_splits)
  ultimately show ?thesis
    using lock_invD(1-3) [OF inv] unfolding lock_inv_def touches_untrack by (auto simp: total_waiting_def)
qed

lemma remove_txn_filter: "distinct (map w_txn q) \<Longrightarrow> remove_txn t q = filter (\<lambda>w. w_txn w \<noteq> t) q"
proof (induction q)
  case (Cons w q)
  then have "filter (\<lambda>x. w_txn x \<noteq> w_txn w) q = q" by (auto simp: filter_id_conv rev_image_eqI)
  with Cons show ?case by auto
qed simp

lemma state_ok_sub:
  assumes "state_ok st"
  shows "state_ok \<lparr>holders = filter P (holders st), queue = filter Q (queue st)\<rparr>"
  using assms by (auto simp: state_ok_def distinct_map_filter)

lemma take_waiter_eq:
  assumes "lock_inv T s" and "lock_of s k = Some st"
  shows "take_waiter s k st t =
    (put_lock s k (st\<lparr>queue := filter (\<lambda>w. w_txn w \<noteq> t) (queue st)\<rparr>))\<lparr>queued_waiters := queued_waiters s - 1\<rparr>"
  using lock_invD(2) [OF assms] by (simp add: take_waiter_def remove_txn_filter state_ok_def)

lemma inv_take_waiter:
  assumes inv: "lock_inv T s" and st: "lock_of s k = Some st" and "waits_in st t"
  shows "lock_inv T (take_waiter s k st t)"
  unfolding take_waiter_eq [OF inv st]
proof (rule inv_put [OF inv])
  let ?st = "st\<lparr>queue := filter (\<lambda>w. w_txn w \<noteq> t) (queue st)\<rparr>"
  have ok: "state_ok st" by (rule lock_invD(2) [OF inv st])
  show "state_ok ?st" using state_ok_sub [OF ok, of "\<lambda>_. True" "\<lambda>w. w_txn w \<noteq> t"] by (simp add: state_ok_def)
  have "length (queue st) = Suc (length (queue ?st))"
    using length_remove_txn [of t "queue st"] assms(3) ok by (simp add: remove_txn_filter state_ok_def waits_in_def)
  moreover have "length (queue st) \<le> queued_waiters s" using total_ge [OF st] lock_invD(3) [OF inv] by simp
  ultimately show "queued_waiters s - 1 + length (queue (state_or_default s k)) = queued_waiters s + length (queue ?st)"
    using st by (simp add: state_or_default_def)
  show "tracks s t' k" if "t' \<notin> T" "holds_in ?st t' \<or> waits_in ?st t'" for t'
    using that by (intro touches_tracked [OF inv st]) (auto simp: holds_in_def waits_in_def)
qed

lemma inv_remove_waiter: "lock_inv T s \<Longrightarrow> lock_inv T (remove_waiter s k t)"
  by (auto simp: remove_waiter_def inv_untrack inv_take_waiter split: option.splits)

lemma find_SomeD: "List.find P xs = Some x \<Longrightarrow> x \<in> set xs \<and> P x"
  by (auto simp: find_Some_iff)

lemma inv_purge:
  "lock_inv T s \<Longrightarrow> purge now k ts s h removed = (s', h', removed') \<Longrightarrow> lock_inv T s'"
proof (induction now k ts s h removed rule: purge.induct)
  case (2 now k t ts s h removed)
  show ?case
  proof (cases "lock_of s k")
    case None
    with 2 show ?thesis by simp
  next
    case (Some st)
    show ?thesis
    proof (cases "List.find (\<lambda>w. w_txn w = t) (queue st)")
      case None
      with 2 Some show ?thesis by simp
    next
      case (Some w)
      then have "waits_in st t" using find_SomeD [OF Some] by (auto simp: waits_in_def)
      then have inv: "lock_inv T (take_waiter s k st t)" using "2.prems"(1) \<open>lock_of s k = Some st\<close> by (intro inv_take_waiter)
      obtain fate h1 where f: "fate_of h (w_control w) now = (fate, h1)" by fastforce
      let ?s2 = "case fates (take_waiter s k st t) t of
          None \<Rightarrow> (take_waiter s k st t)\<lparr>fates := (fates (take_waiter s k st t))(t \<mapsto> fate)\<rparr>
        | Some _ \<Rightarrow> take_waiter s k st t"
      have "lock_inv T ?s2" using inv by (simp split: option.splits)
      moreover have "purge now k ts ?s2 h1 (removed @ [t]) = (s', h', removed')"
        using "2.prems"(2) \<open>lock_of s k = Some st\<close> Some f by (simp add: Let_def)
      ultimately show ?thesis using "2.IH"(3) [OF \<open>lock_of s k = Some st\<close> Some refl f [symmetric]] by auto
    qed
  qed
qed simp

lemma lock_of_take_waiter:
  assumes "lock_inv T s" and "lock_of s k = Some st"
  shows "lock_of (take_waiter s k st t) k' =
    (if k' = k then Some (st\<lparr>queue := filter (\<lambda>w. w_txn w \<noteq> t) (queue st)\<rparr>) else lock_of s k')"
  unfolding take_waiter_eq [OF assms] by simp

lemma purge_state:
  "lock_inv T s \<Longrightarrow> lock_of s k = Some st \<Longrightarrow> purge now k ts s h removed = (s', h', removed') \<Longrightarrow>
   lock_of s' k = Some (st\<lparr>queue := filter (\<lambda>w. w_txn w \<notin> set ts) (queue st)\<rparr>) \<and>
   (\<forall>k'. k' \<noteq> k \<longrightarrow> lock_of s' k' = lock_of s k')"
proof (induction ts arbitrary: s st h removed)
  case (Cons t ts)
  show ?case
  proof (cases "List.find (\<lambda>w. w_txn w = t) (queue st)")
    case None
    then have "filter (\<lambda>w. w_txn w \<notin> set (t # ts)) (queue st) = filter (\<lambda>w. w_txn w \<notin> set ts) (queue st)"
      by (intro filter_cong) (auto simp: find_None_iff)
    with None Cons show ?thesis by simp
  next
    case (Some w)
    have "waits_in st t" using find_SomeD [OF Some] by (auto simp: waits_in_def)
    then have inv: "lock_inv T (take_waiter s k st t)" using Cons.prems by (intro inv_take_waiter)
    let ?st = "st\<lparr>queue := filter (\<lambda>w. w_txn w \<noteq> t) (queue st)\<rparr>"
    obtain fate h1 where f: "fate_of h (w_control w) now = (fate, h1)" by fastforce
    let ?s2 = "case fates (take_waiter s k st t) t of
        None \<Rightarrow> (take_waiter s k st t)\<lparr>fates := (fates (take_waiter s k st t))(t \<mapsto> fate)\<rparr>
      | Some _ \<Rightarrow> take_waiter s k st t"
    have s2: "lock_inv T ?s2" "locks ?s2 = locks (take_waiter s k st t)" using inv by (simp_all split: option.splits)
    have st2: "lock_of ?s2 k = Some ?st"
      unfolding s2(2) lock_of_take_waiter [OF Cons.prems(1,2)] by simp
    have p: "purge now k ts ?s2 h1 (removed @ [t]) = (s', h', removed')"
      using Cons.prems(2,3) Some f by (simp add: Let_def)
    have q: "filter (\<lambda>w. w_txn w \<notin> set ts) (queue ?st) = filter (\<lambda>w. w_txn w \<notin> set (t # ts)) (queue st)"
      by (auto intro!: filter_cong)
    have other: "lock_of ?s2 k' = lock_of s k'" if "k' \<noteq> k" for k'
      unfolding s2(2) lock_of_take_waiter [OF Cons.prems(1,2)] using that by simp
    have "?st\<lparr>queue := filter (\<lambda>w. w_txn w \<notin> set ts) (queue ?st)\<rparr> =
        st\<lparr>queue := filter (\<lambda>w. w_txn w \<notin> set (t # ts)) (queue st)\<rparr>" unfolding q by simp
    with Cons.IH [OF s2(1) st2 p] other show ?thesis by simp
  qed
qed simp

section \<open>Granting\<close>

lemma set_make_exclusive: "h_txn ` set (make_exclusive t hs) = h_txn ` set hs"
  by (induction hs) auto

lemma map_make_exclusive: "map h_txn (make_exclusive t hs) = map h_txn hs"
  by (induction hs) auto

lemma grantable_exclusive:
  "grantable hs w \<Longrightarrow> w_mode w = Exclusive \<Longrightarrow> x \<in> set hs \<Longrightarrow> h_txn x = w_txn w"
  by (auto simp: grantable_def list_all_iff)

lemma compatible_iff: "compatible a b \<longleftrightarrow> a = Shared \<and> b = Shared"
  by (cases a; cases b) simp_all

lemma grant_to_ok:
  assumes ok: "state_ok \<lparr>holders = hs, queue = w # ws\<rparr>" and grant: "grantable hs w"
  shows "state_ok \<lparr>holders = grant_to hs w, queue = ws\<rparr>" and "h_txn ` set (grant_to hs w) = insert (w_txn w) (h_txn ` set hs)"
proof -
  have d: "distinct (map h_txn hs)" "distinct (map w_txn ws)" "w_txn w \<notin> w_txn ` set ws"
    and up: "\<And>v x. v \<in> set (w # ws) \<Longrightarrow> x \<in> set hs \<Longrightarrow> h_txn x = w_txn v \<Longrightarrow> w_mode v = Exclusive"
    and comp: "\<And>a b. a \<in> set hs \<Longrightarrow> b \<in> set hs \<Longrightarrow> h_txn a \<noteq> h_txn b \<Longrightarrow> compatible (h_mode a) (h_mode b)"
    using ok by (auto simp: state_ok_def)
  show ids: "h_txn ` set (grant_to hs w) = insert (w_txn w) (h_txn ` set hs)"
    by (auto simp: grant_to_def set_make_exclusive)
  have upg: "w_mode v = Exclusive" if "v \<in> set ws" "x \<in> set (grant_to hs w)" "h_txn x = w_txn v" for v x
  proof -
    have "h_txn x \<noteq> w_txn w" using that d(3) by (metis image_eqI)
    moreover have "h_txn x \<in> insert (w_txn w) (h_txn ` set hs)" unfolding ids [symmetric] using that(2) by simp
    ultimately obtain y where "y \<in> set hs" "h_txn y = h_txn x" by auto
    with up [of v y] that show ?thesis by simp
  qed
  show "state_ok \<lparr>holders = grant_to hs w, queue = ws\<rparr>"
  proof (cases "w_txn w \<in> h_txn ` set hs")
    case True
    then have excl: "w_mode w = Exclusive" using up [of w] by auto
    have only: "h_txn x = w_txn w" if "x \<in> set (grant_to hs w)" for x
    proof -
      have "h_txn x \<in> insert (w_txn w) (h_txn ` set hs)" unfolding ids [symmetric] using that by simp
      then show ?thesis using grantable_exclusive [OF grant excl] by auto
    qed
    have "distinct (map h_txn (grant_to hs w))" using True d(1) by (simp add: grant_to_def map_make_exclusive)
    with only upg d show ?thesis by (simp add: state_ok_def)
  next
    case False
    let ?new = "\<lparr>h_txn = w_txn w, h_mode = w_mode w\<rparr>"
    have g: "grant_to hs w = hs @ [?new]" using False by (simp add: grant_to_def)
    have new: "compatible (h_mode x) (w_mode w) \<and> compatible (w_mode w) (h_mode x)" if "x \<in> set hs" for x
    proof -
      have "h_txn x \<noteq> w_txn w" using False that by (metis image_eqI)
      then have "compatible (w_mode w) (h_mode x)" using grant that by (auto simp: grantable_def list_all_iff)
      then show ?thesis by (simp add: compatible_iff)
    qed
    have "distinct (map h_txn (grant_to hs w))" using False d(1) by (simp add: g)
    moreover have "compatible (h_mode a) (h_mode b)"
      if "a \<in> set (grant_to hs w)" "b \<in> set (grant_to hs w)" "h_txn a \<noteq> h_txn b" for a b
      using that comp new by (auto simp: g)
    ultimately show ?thesis using upg d(2) by (simp add: state_ok_def)
  qed
qed

text \<open>Granting takes waiters off the front, in their order, until one is not grantable.\<close>

lemma grant_queue_ok:
  assumes "state_ok \<lparr>holders = hs, queue = q\<rparr>" and "length q \<le> n" and "grant_queue hs q n = (hs', q', n')"
  shows "\<exists>granted. q = granted @ q' \<and> hs' = foldl grant_to hs granted \<and> n' + length q = n + length q' \<and>
      state_ok \<lparr>holders = hs', queue = q'\<rparr> \<and> h_txn ` set hs' = h_txn ` set hs \<union> w_txn ` set granted \<and>
      (q' = [] \<or> \<not> grantable hs' (hd q'))"
  using assms
proof (induction hs q n rule: grant_queue.induct)
  case (1 hs n)
  then show ?case by simp
next
  case (2 hs w ws n)
  show ?case
  proof (cases "grantable hs w")
    case True
    note G = grant_to_ok [OF "2.prems"(1) True]
    have le: "length ws \<le> n - 1" using "2.prems"(2) by simp
    have g: "grant_queue (grant_to hs w) ws (n - 1) = (hs', q', n')" using "2.prems"(3) True by simp
    from "2.IH" [OF True G(1) le g] obtain granted where
      "ws = granted @ q'" "hs' = foldl grant_to (grant_to hs w) granted" "n' + length ws = n - 1 + length q'"
      "state_ok \<lparr>holders = hs', queue = q'\<rparr>" "h_txn ` set hs' = h_txn ` set (grant_to hs w) \<union> w_txn ` set granted"
      "q' = [] \<or> \<not> grantable hs' (hd q')" by blast
    with G(2) "2.prems"(2) show ?thesis by (intro exI [of _ "w # granted"]) auto
  next
    case False
    with 2 show ?thesis by auto
  qed
qed

lemma grant_front_ok:
  assumes inv: "lock_inv T s" and st: "lock_of s k = Some st"
  obtains granted q' where "queue st = granted @ q'" and "lock_inv T (grant_front s k)"
    and "lock_of (grant_front s k) k = Some \<lparr>holders = foldl grant_to (holders st) granted, queue = q'\<rparr>"
    and "q' = [] \<or> \<not> grantable (foldl grant_to (holders st) granted) (hd q')"
proof -
  obtain hs' q' n' where g: "grant_queue (holders st) (queue st) (queued_waiters s) = (hs', q', n')" by (metis prod_cases3)
  have ok: "state_ok \<lparr>holders = holders st, queue = queue st\<rparr>" using lock_invD(2) [OF inv st] by (simp add: state_ok_def)
  have le: "length (queue st) \<le> queued_waiters s" using total_ge [OF st] lock_invD(3) [OF inv] by simp
  from grant_queue_ok [OF ok le g] obtain granted where G: "queue st = granted @ q'"
    "hs' = foldl grant_to (holders st) granted" "n' + length (queue st) = queued_waiters s + length q'"
    "state_ok \<lparr>holders = hs', queue = q'\<rparr>" "h_txn ` set hs' = h_txn ` set (holders st) \<union> w_txn ` set granted"
    "q' = [] \<or> \<not> grantable hs' (hd q')" by blast
  have s': "grant_front s k = (put_lock s k \<lparr>holders = hs', queue = q'\<rparr>)\<lparr>queued_waiters := n'\<rparr>"
    using st g by (simp add: grant_front_def)
  have "lock_inv T (grant_front s k)"
    unfolding s'
  proof (rule inv_put [OF inv G(4)])
    show "n' + length (queue (state_or_default s k)) = queued_waiters s + length (queue \<lparr>holders = hs', queue = q'\<rparr>)"
      using st G(3) by (simp add: state_or_default_def)
    fix t assume "t \<notin> T" "holds_in \<lparr>holders = hs', queue = q'\<rparr> t \<or> waits_in \<lparr>holders = hs', queue = q'\<rparr> t"
    then show "tracks s t k"
      by (intro touches_tracked [OF inv st]) (auto simp: holds_in_def waits_in_def G(1,5))
  qed
  with G(1,2,6) that show ?thesis by (simp add: s')
qed

lemma grant_front_other: "k' \<noteq> k \<Longrightarrow> lock_of (grant_front s k) k' = lock_of s k'"
  by (auto simp: grant_front_def split: option.splits prod.splits)

lemma foldl_untrack [simp]: "locks (foldl (\<lambda>s t. untrack s k t) s ts) = locks s"
  by (induction ts arbitrary: s) simp_all

lemma inv_foldl_untrack: "lock_inv T s \<Longrightarrow> lock_inv T (foldl (\<lambda>s t. untrack s k t) s ts)"
  by (induction ts arbitrary: s) (simp_all add: inv_untrack)

lemma process_key_ok:
  assumes inv: "lock_inv T s" and out: "process_key now k s h = (s', h')"
  shows "lock_inv T s'" and "k' \<noteq> k \<Longrightarrow> lock_of s' k' = lock_of s k'" and "lock_of s k = None \<Longrightarrow> s' = s"
    and "lock_of s k = Some st \<Longrightarrow>
      (\<exists>granted q'. filter (\<lambda>w. w_txn w \<notin> set (fst (dead_waiters now (queue st) h))) (queue st) = granted @ q' \<and>
         lock_of s' k = Some \<lparr>holders = foldl grant_to (holders st) granted, queue = q'\<rparr> \<and>
         (q' = [] \<or> \<not> grantable (foldl grant_to (holders st) granted) (hd q')))"
proof -
  have all: "lock_inv T s' \<and> (\<forall>k'. k' \<noteq> k \<longrightarrow> lock_of s' k' = lock_of s k') \<and>
      (\<exists>granted q'. filter (\<lambda>w. w_txn w \<notin> set (fst (dead_waiters now (queue st) h))) (queue st) = granted @ q' \<and>
         lock_of s' k = Some \<lparr>holders = foldl grant_to (holders st) granted, queue = q'\<rparr> \<and>
         (q' = [] \<or> \<not> grantable (foldl grant_to (holders st) granted) (hd q')))"
    if st: "lock_of s k = Some st" for st
  proof -
    obtain dead h1 where d: "dead_waiters now (queue st) h = (dead, h1)" by fastforce
    obtain s1 h2 removed where p: "purge now k dead s h1 [] = (s1, h2, removed)" by (metis prod_cases3)
    have s': "s' = foldl (\<lambda>s t. untrack s k t) (grant_front s1 k) removed"
      using out st d p by (simp add: process_key_def)
    have inv1: "lock_inv T s1" by (rule inv_purge [OF inv p])
    let ?st = "st\<lparr>queue := filter (\<lambda>w. w_txn w \<notin> set dead) (queue st)\<rparr>"
    have st1: "lock_of s1 k = Some ?st" and other: "\<forall>k'. k' \<noteq> k \<longrightarrow> lock_of s1 k' = lock_of s k'"
      using purge_state [OF inv st p] by blast+
    obtain granted q' where "queue ?st = granted @ q'" "lock_inv T (grant_front s1 k)"
      "lock_of (grant_front s1 k) k = Some \<lparr>holders = foldl grant_to (holders ?st) granted, queue = q'\<rparr>"
      "q' = [] \<or> \<not> grantable (foldl grant_to (holders ?st) granted) (hd q')"
      by (rule grant_front_ok [OF inv1 st1])
    with other show ?thesis by (auto simp: s' d inv_foldl_untrack grant_front_other)
  qed
  show "lock_inv T s'" using all inv out by (cases "lock_of s k") (auto simp: process_key_def)
  show "lock_of s' k' = lock_of s k'" if "k' \<noteq> k" for k'
    using all that out by (cases "lock_of s k") (auto simp: process_key_def)
  show "s' = s" if "lock_of s k = None" using that out by (simp add: process_key_def)
  show "lock_of s k = Some st \<Longrightarrow>
      (\<exists>granted q'. filter (\<lambda>w. w_txn w \<notin> set (fst (dead_waiters now (queue st) h))) (queue st) = granted @ q' \<and>
         lock_of s' k = Some \<lparr>holders = foldl grant_to (holders st) granted, queue = q'\<rparr> \<and>
         (q' = [] \<or> \<not> grantable (foldl grant_to (holders st) granted) (hd q')))"
    using all by blast
qed

section \<open>The wait-for graph\<close>

text \<open>Who waits for whom on one key: a waiter for the incompatible holders and the incompatible waiters
  ahead of it.\<close>

definition state_waits :: "lock_state \<Rightarrow> (txn_id \<times> txn_id) set" where
  "state_waits st = {(a, b). \<exists>es. (a, es) \<in> set (state_edges st) \<and> b \<in> set es}"

definition waits_for :: "inner \<Rightarrow> (txn_id \<times> txn_id) set" where
  "waits_for s = {(a, b). \<exists>k st. lock_of s k = Some st \<and> (a, b) \<in> state_waits st}"

lemma edges_of_add:
  "edges_of (add_edges g (w, es)) a = (if a = w then edges_of g w @ es else edges_of g a)"
  by (simp add: add_edges_def edges_of_def update_conv')

lemma distinct_add_edges: "distinct (map fst g) \<Longrightarrow> distinct (map fst (foldl add_edges g ps))"
  by (induction ps arbitrary: g) (auto simp: add_edges_def distinct_update split: prod.splits)

lemma edges_of_foldl:
  "set (edges_of (foldl add_edges g ps) a) = set (edges_of g a) \<union> {b. \<exists>es. (a, es) \<in> set ps \<and> b \<in> set es}"
  by (induction ps arbitrary: g) (auto simp: edges_of_add split: if_splits)

lemma edges_of_sorted:
  assumes "distinct (map fst g)"
  shows "set (edges_of (map (\<lambda>(w, es). (w, remdups_adj (sort es))) (sort_key fst g)) a) = set (edges_of g a)"
proof -
  have "map_of (sort_key fst g) = map_of g"
    using assms by (intro map_of_inject_set [THEN iffD2]) (simp_all add: distinct_map)
  then show ?thesis
    by (auto simp: edges_of_def map_of_map split: option.splits)
qed

lemma wait_edges_build:
  assumes "distinct (map fst (locks s))"
  shows "wait_edges (build_wait_for_graph s) = waits_for s"
proof -
  let ?ps = "concat (map (\<lambda>(k, st). state_edges st) (locks s))"
  have "set (edges_of (build_wait_for_graph s) a) = {b. \<exists>es. (a, es) \<in> set ?ps \<and> b \<in> set es}" for a
    unfolding build_wait_for_graph_def
    using distinct_add_edges [of "[]" ?ps] by (simp add: edges_of_sorted edges_of_foldl) (simp add: edges_of_def)
  moreover have "lock_of s k = Some st \<longleftrightarrow> (k, st) \<in> set (locks s)" for k st
    using assms by simp
  ultimately show ?thesis by (fastforce simp: wait_edges_def waits_for_def state_waits_def)
qed

lemma state_waits_empty: "queue st = [] \<Longrightarrow> state_waits st = {}"
  by (simp add: state_waits_def state_edges_def)

lemma state_waits_waiter: "(a, b) \<in> state_waits st \<Longrightarrow> waits_in st a"
  by (auto simp: state_waits_def state_edges_def waits_in_def)

text \<open>A waiter that is blocked at the front blocks all behind it.\<close>

lemma blocked_queue_waits:
  assumes ok: "state_ok st" and q: "queue st = f # q" and blocked: "\<not> grantable (holders st) f"
    and w: "w \<in> set (queue st)"
  shows "\<exists>b. (w_txn w, b) \<in> state_waits st"
proof -
  obtain i where i: "i < length (queue st)" "queue st ! i = w" using w by (auto simp: in_set_conv_nth)
  have wait: "(w_txn w, b) \<in> state_waits st"
    if "b \<in> set (waiter_edges (holders st) (take i (queue st)) w)" for b
    unfolding state_waits_def state_edges_def using i that by force
  obtain x where x: "x \<in> set (holders st)" "h_txn x \<noteq> w_txn f" "\<not> compatible (w_mode f) (h_mode x)"
    using blocked by (auto simp: grantable_def list_all_iff)
  show ?thesis
  proof (cases "i = 0")
    case True
    then have "w = f" using i q by simp
    with x have "h_txn x \<in> set (waiter_edges (holders st) (take i (queue st)) w)" by (auto simp: waiter_edges_def)
    with wait show ?thesis by blast
  next
    case False
    then have f: "f \<in> set (take i (queue st))" using q by (cases i) auto
    have ne: "w_txn f \<noteq> w_txn w"
    proof
      assume "w_txn f = w_txn w"
      moreover have "map w_txn (queue st) ! i = w_txn w" using i by simp
      moreover have "map w_txn (queue st) ! 0 = w_txn f" using q by simp
      ultimately have "map w_txn (queue st) ! 0 = map w_txn (queue st) ! i" by simp
      moreover have "distinct (map w_txn (queue st))" using ok by (simp add: state_ok_def)
      ultimately have "0 = i" using i(1) q by (subst (asm) nth_eq_iff_index_eq) auto
      with False show False by simp
    qed
    show ?thesis
    proof (cases "compatible (w_mode w) (w_mode f)")
      case True
      then have modes: "w_mode w = Shared" "w_mode f = Shared" by (simp_all add: compatible_iff)
      then have "h_mode x = Exclusive" using x(3) by (cases "h_mode x") auto
      moreover have "h_txn x \<noteq> w_txn w" using ok w x(1) modes(1) by (auto simp: state_ok_def)
      ultimately have "h_txn x \<in> set (waiter_edges (holders st) (take i (queue st)) w)"
        using x(1) modes by (auto simp: waiter_edges_def)
      with wait show ?thesis by blast
    next
      case False
      then have "w_txn f \<in> set (waiter_edges (holders st) (take i (queue st)) w)"
        using f ne by (auto simp: waiter_edges_def)
      with wait show ?thesis by blast
    qed
  qed
qed

section \<open>Deadlock resolution\<close>

definition no_deadlock :: "inner \<Rightarrow> bool" where
  "no_deadlock s \<longleftrightarrow> acyclic (waits_for s)"

lemma no_deadlock_locks: "locks s' = locks s \<Longrightarrow> no_deadlock s' = no_deadlock s"
  by (simp add: no_deadlock_def waits_for_def)

lemma no_deadlock_mono:
  assumes "no_deadlock s" and "\<And>k st. lock_of s' k = Some st \<Longrightarrow> queue st = [] \<or> lock_of s k = Some st"
  shows "no_deadlock s'"
proof -
  have "waits_for s' \<subseteq> waits_for s" unfolding waits_for_def using assms(2) state_waits_empty by fastforce
  with assms(1) show ?thesis unfolding no_deadlock_def by (rule acyclic_subset)
qed

lemma no_deadlock_idle:
  assumes inv: "lock_inv T s" and "queued_waiters s = 0"
  shows "no_deadlock s"
proof -
  have "queue st = []" if "lock_of s k = Some st" for k st
    using total_ge [OF that] lock_invD(3) [OF inv] assms(2) by simp
  then have "waits_for s = {}" using state_waits_empty by (fastforce simp: waits_for_def)
  then show ?thesis by (simp add: no_deadlock_def acyclic_def)
qed

lemma waiting_keyD:
  assumes "waiting_key s t = Some k"
  obtains st where "lock_of s k = Some st" and "waits_in st t"
  using find_SomeD [OF assms [unfolded waiting_key_def]] by (auto split: option.splits)

lemma waiting_key_ex:
  assumes "lock_of s k = Some st" and "waits_in st t"
  obtains k' where "waiting_key s t = Some k'"
proof -
  have "k \<in> set (map fst (locks s))" using map_of_SomeD [OF assms(1)] by force
  then have "waiting_key s t \<noteq> None" unfolding waiting_key_def find_None_iff using assms by force
  with that show ?thesis by blast
qed

text \<open>A cycle names waiting transactions only, so a victim is always found in some queue.\<close>

lemma cycle_member_waits:
  assumes "is_cycle g c" and "v \<in> set c"
  shows "\<exists>b. (v, b) \<in> wait_edges g"
proof -
  obtain xs ys where c: "c = xs @ v # ys" using assms(2) by (auto simp: in_set_conv_decomp)
  show ?thesis
  proof (cases ys)
    case Nil
    with c assms(1) show ?thesis by (auto simp: is_cycle_def)
  next
    case (Cons y zs)
    with c assms(1) show ?thesis by (auto simp: is_cycle_def successively_append_iff)
  qed
qed

lemma detect_step:
  assumes inv: "lock_inv T s" and cycle: "find_cycle (build_wait_for_graph s) = Some cycle"
  obtains victim k st where "choose_victim cycle (priorities s) = Some victim" and "victim \<in> set cycle"
    and "waiting_key s victim = Some k" and "lock_of s k = Some st" and "waits_in st victim"
proof -
  have c: "is_cycle (build_wait_for_graph s) cycle"
    using find_cycle_ok [of "build_wait_for_graph s"] cycle by simp
  then have "cycle \<noteq> []" by (simp add: is_cycle_def)
  then obtain v where v: "choose_victim cycle (priorities s) = Some v" "v \<in> set cycle"
    by (rule choose_victim_ok [of cycle "priorities s"])
  obtain b where "(v, b) \<in> waits_for s"
    using cycle_member_waits [OF c v(2)] wait_edges_build [OF lock_invD(1) [OF inv]] by auto
  then obtain k st where "lock_of s k = Some st" "waits_in st v"
    using state_waits_waiter by (fastforce simp: waits_for_def)
  then obtain k' where k': "waiting_key s v = Some k'" by (rule waiting_key_ex)
  then obtain st' where "lock_of s k' = Some st'" "waits_in st' v" by (rule waiting_keyD)
  with v k' that show ?thesis by blast
qed

lemma inv_doom:
  "lock_inv T s \<Longrightarrow> lock_of s k = Some st \<Longrightarrow> waits_in st v \<Longrightarrow> lock_inv T (doom s k st v cycle)"
  by (simp add: doom_def Let_def inv_untrack inv_take_waiter)

lemma detect_deadlocks_ok:
  assumes "lock_inv T s"
  shows "lock_inv T (detect_deadlocks s) \<and> no_deadlock (detect_deadlocks s)"
  using assms
proof (induction s rule: detect_deadlocks.induct)
  case (1 s)
  show ?case
  proof (cases "queued_waiters s = 0")
    case True
    then show ?thesis using 1 no_deadlock_idle by (subst (1 2) detect_deadlocks.simps) simp
  next
    case False
    show ?thesis
    proof (cases "find_cycle (build_wait_for_graph s)")
      case None
      then have "no_deadlock s"
        using find_cycle_ok [of "build_wait_for_graph s"] wait_edges_build [OF lock_invD(1) [OF "1.prems"]]
        by (simp add: no_deadlock_def)
      with None False "1.prems" show ?thesis by (subst (1 2) detect_deadlocks.simps) simp
    next
      case (Some cycle)
      obtain v k st where D: "choose_victim cycle (priorities s) = Some v" "v \<in> set cycle"
        "waiting_key s v = Some k" "lock_of s k = Some st" "waits_in st v"
        by (rule detect_step [OF "1.prems" Some])
      have "detect_deadlocks s = detect_deadlocks (doom s k st v cycle)"
        using False Some D by (subst detect_deadlocks.simps) simp
      moreover have "lock_inv T (doom s k st v cycle)" using "1.prems" D(4,5) by (rule inv_doom)
      ultimately show ?thesis using "1.IH" [OF False Some D(1,3)] D(4) by simp
    qed
  qed
qed

section \<open>No operation but acquire adds a hold or a wait\<close>

definition sheds :: "inner \<Rightarrow> inner \<Rightarrow> bool" where
  "sheds s s' \<longleftrightarrow> (\<forall>k t. transaction_touches_key s' k t \<longrightarrow> transaction_touches_key s k t)"

lemma sheds_refl [simp]: "sheds s s"
  by (simp add: sheds_def)

lemma sheds_trans: "sheds a b \<Longrightarrow> sheds b c \<Longrightarrow> sheds a c"
  by (simp add: sheds_def)

lemma sheds_locks: "locks s' = locks s \<Longrightarrow> sheds s s'"
  by (simp add: sheds_def transaction_touches_key_def)

lemma foldl_grant_ids: "h_txn ` set (foldl grant_to hs ws) = h_txn ` set hs \<union> w_txn ` set ws"
  by (induction ws arbitrary: hs) (auto simp: grant_to_def set_make_exclusive)

lemma sheds_process_key:
  assumes inv: "lock_inv T s" and out: "process_key now k s h = (s', h')"
  shows "sheds s s'"
  unfolding sheds_def
proof (intro allI impI)
  fix k' t assume touch: "transaction_touches_key s' k' t"
  show "transaction_touches_key s k' t"
  proof (cases "k' = k")
    case False
    with touch process_key_ok(2) [OF inv out] show ?thesis by (simp add: transaction_touches_key_def)
  next
    case True
    show ?thesis
    proof (cases "lock_of s k")
      case None
      with process_key_ok(3) [OF inv out] touch show ?thesis by simp
    next
      case (Some st)
      from process_key_ok(4) [OF inv out Some] obtain granted q' where
        f: "filter (\<lambda>w. w_txn w \<notin> set (fst (dead_waiters now (queue st) h))) (queue st) = granted @ q'"
        and l: "lock_of s' k = Some \<lparr>holders = foldl grant_to (holders st) granted, queue = q'\<rparr>" by blast
      have "set (granted @ q') \<subseteq> set (queue st)" unfolding f [symmetric] by auto
      then show ?thesis
        using touch True Some l by (auto simp: transaction_touches_key_def holds_in_def waits_in_def foldl_grant_ids)
    qed
  qed
qed

lemma sheds_take_waiter:
  assumes "lock_inv T s" and "lock_of s k = Some st"
  shows "sheds s (take_waiter s k st t)"
  using assms(2) unfolding sheds_def transaction_touches_key_def lock_of_take_waiter [OF assms]
  by (auto simp: holds_in_def waits_in_def)

lemma sheds_untrack [simp]: "sheds s (untrack s k t)"
  by (simp add: sheds_locks)

lemma sheds_detect:
  assumes "lock_inv T s"
  shows "sheds s (detect_deadlocks s)"
  using assms
proof (induction s rule: detect_deadlocks.induct)
  case (1 s)
  show ?case
  proof (cases "queued_waiters s = 0 \<or> find_cycle (build_wait_for_graph s) = None")
    case True
    then show ?thesis by (subst detect_deadlocks.simps) auto
  next
    case False
    then obtain cycle where c: "find_cycle (build_wait_for_graph s) = Some cycle" and q: "queued_waiters s \<noteq> 0" by auto
    obtain v k st where D: "choose_victim cycle (priorities s) = Some v" "v \<in> set cycle"
      "waiting_key s v = Some k" "lock_of s k = Some st" "waits_in st v"
      by (rule detect_step [OF "1.prems" c])
    have step: "detect_deadlocks s = detect_deadlocks (doom s k st v cycle)"
      using q c D by (subst detect_deadlocks.simps) simp
    have "sheds s (take_waiter s k st v)" by (rule sheds_take_waiter [OF "1.prems" D(4)])
    moreover have "sheds (take_waiter s k st v) (doom s k st v cycle)" by (simp add: sheds_locks doom_def Let_def)
    moreover have "sheds (doom s k st v cycle) (detect_deadlocks (doom s k st v cycle))"
      using "1.IH" [OF q c D(1,3)] inv_doom [OF "1.prems" D(4,5)] D(4) by simp
    ultimately show ?thesis unfolding step by (blast intro: sheds_trans)
  qed
qed

lemma lock_of_prune:
  "lock_of (prune_if_idle s k) k' =
    (if k' = k \<and> lock_of s k = Some \<lparr>holders = [], queue = []\<rparr> then None else lock_of s k')"
  by (auto simp: prune_if_idle_def delete_conv' split: option.splits)

lemma sheds_prune [simp]: "sheds s (prune_if_idle s k)"
  by (simp add: sheds_def transaction_touches_key_def lock_of_prune)

lemma inv_prune:
  assumes inv: "lock_inv T s"
  shows "lock_inv T (prune_if_idle s k)"
proof (cases "prune_if_idle s k = s")
  case True
  with inv show ?thesis by simp
next
  case False
  then obtain st where st: "lock_of s k = Some st" "queue st = []"
    and s': "prune_if_idle s k = s\<lparr>locks := AList.delete k (locks s)\<rparr>"
    by (auto simp: prune_if_idle_def split: option.splits if_splits)
  have del: "map_of ls k = Some st \<Longrightarrow> distinct (map fst ls) \<Longrightarrow>
      (\<Sum>(k, st)\<leftarrow>AList.delete k ls. length (queue st)) = (\<Sum>(k, st)\<leftarrow>ls. length (queue st))" for ls
  proof (induction ls)
    case (Cons l ls)
    obtain k' st' where l: "l = (k', st')" by fastforce
    show ?case
    proof (cases "k' = k")
      case True
      then have "AList.delete k ls = ls" using Cons.prems(2) l by (auto simp: AList.delete_eq filter_id_conv rev_image_eqI)
      with True Cons.prems(1) l st(2) show ?thesis by simp
    next
      case False
      with Cons l show ?thesis by simp
    qed
  qed simp
  have "total_waiting (prune_if_idle s k) = total_waiting s"
    using del [OF st(1) lock_invD(1) [OF inv]] by (simp add: total_waiting_def s')
  moreover have "distinct (map fst (locks (prune_if_idle s k)))"
    using lock_invD(1) [OF inv] by (simp add: s' distinct_delete)
  moreover have "tracks (prune_if_idle s k) = tracks s" "txn_keys (prune_if_idle s k) = txn_keys s"
    "queued_waiters (prune_if_idle s k) = queued_waiters s" by (simp_all add: s' tracks_def fun_eq_iff)
  moreover have "tracks s t k'" if "t \<notin> T" "transaction_touches_key (prune_if_idle s k) k' t" for t k'
    using that lock_invD(4) [OF inv] sheds_prune [of s k] unfolding sheds_def by blast
  ultimately show ?thesis
    using lock_invD(2,3,5) [OF inv] unfolding lock_inv_def by (auto simp: lock_of_prune split: if_splits)
qed

lemma no_deadlock_prune: "no_deadlock s \<Longrightarrow> no_deadlock (prune_if_idle s k)"
  by (rule no_deadlock_mono) (auto simp: lock_of_prune split: if_splits)

end
