(* ===== verification/Lock_Protocol.thy ===== *)
theory Lock_Protocol
  imports Lock_Safety
begin

text \<open>
  Every critical section of the lock manager keeps the table safe, for every interleaving of the
  transactions and every state of their controls.
\<close>

section \<open>Acquisition\<close>

definition lock_ok :: "inner \<Rightarrow> bool" where
  "lock_ok s \<longleftrightarrow> lock_inv {} s \<and> no_deadlock s"

lemma track_fields [simp]:
  "locks (track s t k) = locks s" "queued_waiters (track s t k) = queued_waiters s"
  "fates (track s t k) = fates s" "priorities (track s t k) = priorities s"
  by (simp_all add: track_def)

lemma tracks_track: "tracks s t' k' \<Longrightarrow> tracks (track s t k) t' k'"
  by (cases "t' = t") (auto simp: tracks_def track_def)

lemma tracks_track_self [simp]: "tracks (track s t k) t k"
  by (simp add: tracks_def track_def)

lemma inv_track:
  assumes inv: "lock_inv {} s"
  shows "lock_inv {} (track s t k)"
proof -
  have "distinct ks" if "txn_keys (track s t k) t' = Some ks" for t' ks
    using that lock_invD(5) [OF inv] by (auto simp: track_def split: if_splits option.splits)
  then show ?thesis
    using lock_invD(1-4) [OF inv] tracks_track
    by (auto simp: lock_inv_def total_waiting_def transaction_touches_key_def)
qed

lemma enqueue_ok:
  assumes inv: "lock_inv {} s" and nd: "no_deadlock s" and st: "lock_of s k = Some st"
    and tr: "tracks s (req_txn r) k" and up: "holds_in st (req_txn r) \<Longrightarrow> req_mode r = Exclusive"
    and out: "enqueue s k st r = (res, s')"
  shows "lock_ok s'"
proof (cases "waits_in st (req_txn r)")
  case True
  with out inv nd show ?thesis by (auto simp: enqueue_def lock_ok_def)
next
  case False
  let ?w = "\<lparr>w_txn = req_txn r, w_deadline = req_deadline r, w_control = req_control r, w_mode = req_mode r\<rparr>"
  let ?st = "st\<lparr>queue := queue st @ [?w]\<rparr>"
  let ?s = "(put_lock s k ?st)\<lparr>queued_waiters := queued_waiters s + 1\<rparr>"
  have s': "s' = detect_deadlocks ?s" using False out by (simp add: enqueue_def Let_def)
  have "lock_inv {} ?s"
  proof (rule inv_put [OF inv])
    have "req_mode r = Exclusive" if "x \<in> set (holders st)" "h_txn x = req_txn r" for x
      using up that by (auto simp: holds_in_def rev_image_eqI)
    then show "state_ok ?st" using lock_invD(2) [OF inv st] False by (auto simp: state_ok_def waits_in_def)
    show "queued_waiters s + 1 + length (queue (state_or_default s k)) = queued_waiters s + length (queue ?st)"
      using st by (simp add: state_or_default_def)
    fix t assume "t \<notin> {}" "holds_in ?st t \<or> waits_in ?st t"
    then have "t = req_txn r \<or> holds_in st t \<or> waits_in st t" by (auto simp: holds_in_def waits_in_def)
    then show "tracks s t k" using tr touches_tracked [OF inv st] by blast
  qed
  from detect_deadlocks_ok [OF this] show ?thesis by (simp add: s' lock_ok_def)
qed

lemma lock_ok_put:
  assumes inv: "lock_inv {} s" and nd: "no_deadlock s" and ok: "state_ok st'"
    and len: "length (queue st') = length (queue (state_or_default s k))"
    and tr: "\<And>t. holds_in st' t \<or> waits_in st' t \<Longrightarrow> tracks s t k"
    and q: "queue st' = [] \<or> lock_of s k = Some st'"
  shows "lock_ok (put_lock s k st')"
proof -
  have "lock_inv {} (put_lock s k st')" using inv_put_same [OF inv ok len] tr by blast
  moreover have "no_deadlock (put_lock s k st')"
    by (rule no_deadlock_mono [OF nd]) (use q in \<open>auto split: if_splits\<close>)
  ultimately show ?thesis by (simp add: lock_ok_def)
qed

lemma default_tracked:
  "lock_inv {} s \<Longrightarrow> holds_in (state_or_default s k) t \<or> waits_in (state_or_default s k) t \<Longrightarrow> tracks s t k"
  using touches_tracked [of "{}" s k] by (cases "lock_of s k") (auto simp: state_or_default_def holds_in_def waits_in_def)

lemma acquire_start_ok:
  assumes ok: "lock_ok s" and out: "acquire_start now k r s h = (res, s', h')"
  shows "lock_ok s'"
proof -
  obtain live h1 where c: "check_request_live now (req_control r) (req_deadline r) h = (live, h1)" by fastforce
  define s1 where "s1 = (case req_priority r of None \<Rightarrow> s | Some p \<Rightarrow> s\<lparr>priorities := (priorities s)(req_txn r \<mapsto> p)\<rparr>)"
  define s2 where "s2 = track s1 (req_txn r) k"
  define st where "st = state_or_default s2 k"
  define s3 where "s3 = put_lock s2 k st"
  have inv1: "lock_inv {} s1" using ok by (simp add: s1_def lock_ok_def split: option.splits)
  have inv2: "lock_inv {} s2" unfolding s2_def by (rule inv_track [OF inv1])
  have l2: "locks s2 = locks s" by (simp add: s2_def s1_def split: option.splits)
  have nd2: "no_deadlock s2" using ok no_deadlock_locks [OF l2] by (simp add: lock_ok_def)
  have sok: "state_ok st" unfolding st_def by (rule state_ok_default [OF inv2])
  have tr2: "tracks s2 t k" if "holds_in st t \<or> waits_in st t" for t
    using default_tracked [OF inv2] that unfolding st_def by blast
  have "queue st = [] \<or> lock_of s2 k = Some st" by (simp add: st_def state_or_default_def split: option.splits)
  then have ok3: "lock_ok s3"
    unfolding s3_def using inv2 nd2 sok tr2 by (intro lock_ok_put) (simp_all add: st_def)
  then have inv3: "lock_inv {} s3" and nd3: "no_deadlock s3" by (simp_all add: lock_ok_def)
  have st3: "lock_of s3 k = Some st" "state_or_default s3 k = st" by (simp_all add: s3_def state_or_default_def)
  have tr3: "tracks s3 (req_txn r) k" by (simp add: s3_def s2_def tracks_def track_def)
  have tr3': "tracks s3 t k" if "t = req_txn r \<or> holds_in st t \<or> waits_in st t" for t
    using that tr3 touches_tracked [OF inv3 st3(1)] by blast
  have grant: "lock_ok (put_lock s3 k st')"
    if "state_ok st'" "queue st = []" "queue st' = []" "\<And>t. holds_in st' t \<Longrightarrow> t = req_txn r \<or> holds_in st t" for st'
    using that tr3' by (intro lock_ok_put [OF inv3 nd3]) (auto simp: st3 waits_in_def)
  show ?thesis
  proof (cases live)
    case (Inl e)
    with out c ok show ?thesis by (simp add: acquire_start_def)
  next
    case (Inr u)
    have acq: "acquire_start now k r s h =
        (case List.find (\<lambda>h. h_txn h = req_txn r) (holders st) of
           Some hold \<Rightarrow>
             (if h_mode hold = Exclusive \<or> req_mode r = Shared then (Some (Inr ()), s3, h1)
              else if length (holders st) = 1 \<and> queue st = []
              then (Some (Inr ()), put_lock s3 k (st\<lparr>holders := make_exclusive (req_txn r) (holders st)\<rparr>), h1)
              else (case enqueue s3 k st r of (res, s4) \<Rightarrow> (res, s4, h1)))
         | None \<Rightarrow>
             (if queue st = [] \<and> list_all (\<lambda>h. compatible (req_mode r) (h_mode h)) (holders st)
              then (Some (Inr ()),
                put_lock s3 k (st\<lparr>holders := holders st @ [\<lparr>h_txn = req_txn r, h_mode = req_mode r\<rparr>]\<rparr>), h1)
              else (case enqueue s3 k st r of (res, s4) \<Rightarrow> (res, s4, h1))))"
      unfolding acquire_start_def c Inr prod.case sum.case Let_def s3_def st_def s2_def s1_def ..
    show ?thesis
    proof (cases "List.find (\<lambda>h. h_txn h = req_txn r) (holders st)")
      case None
      then have free: "\<not> holds_in st (req_txn r)" by (auto simp: find_None_iff holds_in_def)
      let ?st = "st\<lparr>holders := holders st @ [\<lparr>h_txn = req_txn r, h_mode = req_mode r\<rparr>]\<rparr>"
      show ?thesis
      proof (cases "queue st = [] \<and> list_all (\<lambda>h. compatible (req_mode r) (h_mode h)) (holders st)")
        case True
        then have "s' = put_lock s3 k ?st" using out None by (simp add: acq)
        moreover have "state_ok ?st"
          using True sok free by (auto simp: state_ok_def holds_in_def list_all_iff compatible_iff)
        ultimately show ?thesis using True grant [of ?st] by (auto simp: holds_in_def)
      next
        case False
        obtain res4 s4 where e: "enqueue s3 k st r = (res4, s4)" by fastforce
        have "s' = s4" using out None e unfolding acq if_not_P [OF False] by simp
        with enqueue_ok [OF inv3 nd3 st3(1) tr3 _ e] free show ?thesis by simp
      qed
    next
      case (Some hold)
      then have hold: "hold \<in> set (holders st)" "h_txn hold = req_txn r" using find_SomeD by fastforce+
      let ?st = "st\<lparr>holders := make_exclusive (req_txn r) (holders st)\<rparr>"
      consider (covered) "h_mode hold = Exclusive \<or> req_mode r = Shared"
        | (sole) "\<not> (h_mode hold = Exclusive \<or> req_mode r = Shared)" "length (holders st) = 1" "queue st = []"
        | (wait) "\<not> (h_mode hold = Exclusive \<or> req_mode r = Shared)" "\<not> (length (holders st) = 1 \<and> queue st = [])"
        by blast
      then show ?thesis
      proof cases
        case covered
        then have "s' = s3" using out Some by (simp add: acq)
        with ok3 show ?thesis by simp
      next
        case sole
        then have "s' = put_lock s3 k ?st" using out Some by (simp add: acq)
        moreover obtain x where "holders st = [x]" using sole(2) by (auto simp: length_Suc_conv)
        then have "state_ok ?st" "\<And>t. holds_in ?st t \<Longrightarrow> holds_in st t"
          using sole by (auto simp: state_ok_def holds_in_def split: if_splits)
        ultimately show ?thesis using sole grant [of ?st] by simp
      next
        case wait
        obtain res4 s4 where e: "enqueue s3 k st r = (res4, s4)" by fastforce
        have "s' = s4" using out Some wait(1) e unfolding acq if_not_P [OF wait(2)] by simp
        moreover have "req_mode r = Exclusive" using wait(1) by (cases "req_mode r") auto
        ultimately show ?thesis using enqueue_ok [OF inv3 nd3 st3(1) tr3 _ e] by simp
      qed
    qed
  qed
qed

lemma settle_ok:
  assumes "lock_inv {} s" and "process_key now k s h = (s1, h1)"
  shows "lock_ok (prune_if_idle (untrack (detect_deadlocks s1) k t) k)"
  using detect_deadlocks_ok [OF process_key_ok(1) [OF assms]] no_deadlock_locks [OF locks_untrack]
  by (simp add: lock_ok_def inv_prune inv_untrack no_deadlock_prune)

lemma wait_for_grant_ok:
  assumes ok: "lock_ok s" and out: "wait_for_grant now k r s h = (res, s', h')"
  shows "lock_inv {} s' \<and> (no_deadlock s' \<or> (\<exists>e. res = Some (Inl e)))"
proof -
  have inv: "lock_inv {} s" "no_deadlock s" "no_deadlock (s\<lparr>fates := f\<rparr>)" for f
    using ok no_deadlock_locks [of "s\<lparr>fates := f\<rparr>" s] by (simp_all add: lock_ok_def)
  obtain live h1 where c: "check_request_live now (req_control r) (req_deadline r) h = (live, h1)" by fastforce
  show ?thesis
    using out inv inv_remove_waiter [OF inv(1)] c
    by (cases live) (auto simp: wait_for_grant_def Let_def split: option.splits if_splits)
qed

lemma acquire_resume_ok:
  assumes ok: "lock_ok s" and out: "acquire_resume now k r s h = (res, s', h')"
  shows "lock_ok s'"
proof -
  obtain res1 s1 h1 where w: "wait_for_grant now k r s h = (res1, s1, h1)" by (metis prod_cases3)
  note W = wait_for_grant_ok [OF ok w]
  obtain s2 h2 where p: "process_key now k s1 h1 = (s2, h2)" by fastforce
  show ?thesis
  proof (cases res1)
    case None
    with W w out show ?thesis by (auto simp: acquire_resume_def lock_ok_def)
  next
    case (Some r1)
    show ?thesis
    proof (cases r1)
      case (Inl e)
      with Some w out p settle_ok [OF _ p] W show ?thesis by (auto simp: acquire_resume_def Let_def)
    next
      case (Inr u)
      with Some w out W show ?thesis by (auto simp: acquire_resume_def lock_ok_def inv_prune no_deadlock_prune)
    qed
  qed
qed

lemma acquire_ok:
  assumes "lock_ok s" and "acquire now k r s h = (res, s', h')"
  shows "lock_ok s'"
proof -
  obtain res1 s1 h1 where a: "acquire_start now k r s h = (res1, s1, h1)" by (metis prod_cases3)
  have "lock_ok s1" by (rule acquire_start_ok [OF assms(1) a])
  then show ?thesis
    using assms(2) a acquire_resume_ok [of s1 now k r h1 res s' h'] by (cases res1) (auto simp: acquire_def)
qed

section \<open>Release\<close>

lemma release_ok:
  assumes ok: "lock_ok s" and out: "release now t k s h = (s', h')"
  shows "lock_ok s'"
proof (cases "holds s t k")
  case False
  with ok out show ?thesis by (auto simp: release_def holds_def split: option.splits if_splits)
next
  case True
  then obtain st where st: "lock_of s k = Some st" "holds_in st t" by (auto simp: holds_def split: option.splits)
  let ?st = "st\<lparr>holders := filter (\<lambda>x. h_txn x \<noteq> t) (holders st)\<rparr>"
  have inv: "lock_inv {} s" using ok by (simp add: lock_ok_def)
  obtain s2 h2 where p: "process_key now k (put_lock s k ?st) h = (s2, h2)" by fastforce
  have "state_ok ?st"
    using state_ok_sub [OF lock_invD(2) [OF inv st(1)], of "\<lambda>x. h_txn x \<noteq> t" "\<lambda>_. True"] by (simp add: state_ok_def)
  then have "lock_inv {} (put_lock s k ?st)"
    using touches_tracked [OF inv st(1)] st
    by (intro inv_put_same [OF inv]) (auto simp: state_or_default_def holds_in_def waits_in_def)
  from settle_ok [OF this p, of t] st out p show ?thesis by (auto simp: release_def Let_def)
qed

lemma withdraw_ok:
  assumes inv: "lock_inv {t} s"
  shows "lock_inv {t} (withdraw t s k)" and "sheds s (withdraw t s k)" and "\<not> transaction_touches_key (withdraw t s k) k t"
    and "txn_keys (withdraw t s k) = txn_keys s"
proof -
  have all: "lock_inv {t} (withdraw t s k) \<and> sheds s (withdraw t s k) \<and> \<not> transaction_touches_key (withdraw t s k) k t"
    if st: "lock_of s k = Some st" for st
  proof -
    let ?q = "filter (\<lambda>w. w_txn w \<noteq> t) (queue st)"
    let ?st = "\<lparr>holders = filter (\<lambda>x. h_txn x \<noteq> t) (holders st), queue = ?q\<rparr>"
    let ?n = "queued_waiters s - (length (queue st) - length ?q)"
    have w: "withdraw t s k = (put_lock s k ?st)\<lparr>queued_waiters := ?n\<rparr>" using st by (simp add: withdraw_def Let_def)
    have sub: "holds_in ?st t' \<or> waits_in ?st t' \<Longrightarrow> holds_in st t' \<or> waits_in st t'" for t'
      by (auto simp: holds_in_def waits_in_def)
    have le: "length ?q \<le> length (queue st)" "length (queue st) \<le> queued_waiters s"
      using total_ge [OF st] lock_invD(3) [OF inv] by simp_all
    have "lock_inv {t} (withdraw t s k)"
      unfolding w
    proof (rule inv_put [OF inv])
      show "state_ok ?st" by (rule state_ok_sub [OF lock_invD(2) [OF inv st]])
      show "?n + length (queue (state_or_default s k)) = queued_waiters s + length (queue ?st)"
        using le st by (simp add: state_or_default_def)
      show "tracks s t' k" if "t' \<notin> {t}" "holds_in ?st t' \<or> waits_in ?st t'" for t'
        using that sub touches_tracked [OF inv st] by blast
    qed
    moreover have "sheds s (withdraw t s k)"
      unfolding w sheds_def using sub st by (simp add: transaction_touches_key_def)
    moreover have "\<not> transaction_touches_key (withdraw t s k) k t"
      unfolding w by (auto simp: transaction_touches_key_def holds_in_def waits_in_def)
    ultimately show ?thesis by blast
  qed
  have none: "withdraw t s k = s" "\<not> transaction_touches_key s k t" if "lock_of s k = None"
    using that by (simp_all add: withdraw_def transaction_touches_key_def)
  show "lock_inv {t} (withdraw t s k)" "sheds s (withdraw t s k)" "\<not> transaction_touches_key (withdraw t s k) k t"
    using all none inv by (cases "lock_of s k"; fastforce)+
  show "txn_keys (withdraw t s k) = txn_keys s" by (simp add: withdraw_def Let_def split: option.splits)
qed

lemma withdraw_all_ok:
  assumes "lock_inv {t} s"
  shows "lock_inv {t} (foldl (withdraw t) s ks) \<and> sheds s (foldl (withdraw t) s ks) \<and>
    (\<forall>k\<in>set ks. \<not> transaction_touches_key (foldl (withdraw t) s ks) k t)"
  using assms
proof (induction ks arbitrary: s)
  case (Cons k ks)
  note W = withdraw_ok [OF Cons.prems, of k]
  have IH: "lock_inv {t} (foldl (withdraw t) (withdraw t s k) ks)"
    "sheds (withdraw t s k) (foldl (withdraw t) (withdraw t s k) ks)"
    "\<forall>k'\<in>set ks. \<not> transaction_touches_key (foldl (withdraw t) (withdraw t s k) ks) k' t"
    using Cons.IH [OF W(1)] by blast+
  moreover have "\<not> transaction_touches_key (foldl (withdraw t) (withdraw t s k) ks) k t"
    using IH(2) W(3) unfolding sheds_def by blast
  ultimately show ?case using sheds_trans [OF W(2)] by auto
qed simp

lemma process_keys_ok:
  "lock_inv T s \<Longrightarrow> process_keys now ks s h = (s', h') \<Longrightarrow> lock_inv T s' \<and> sheds s s'"
proof (induction ks arbitrary: s h)
  case (Cons k ks)
  obtain s1 h1 where p: "process_key now k s h = (s1, h1)" by fastforce
  with Cons.prems have "process_keys now ks s1 h1 = (s', h')" by simp
  with Cons.IH [OF process_key_ok(1) [OF Cons.prems(1) p]] sheds_process_key [OF Cons.prems(1) p]
  show ?case by (blast intro: sheds_trans)
qed simp

lemma prune_all_ok:
  "lock_inv T s \<Longrightarrow> lock_inv T (foldl prune_if_idle s ks) \<and> sheds s (foldl prune_if_idle s ks) \<and>
   (no_deadlock s \<longrightarrow> no_deadlock (foldl prune_if_idle s ks))"
proof (induction ks arbitrary: s)
  case (Cons k ks)
  from Cons.IH [OF inv_prune [OF Cons.prems, of k]] show ?case
    using no_deadlock_prune sheds_trans [OF sheds_prune [of s k]] by auto
qed simp

lemma release_all_ok:
  assumes ok: "lock_ok s" and out: "release_all now t s h = (s', h')"
  shows "lock_ok s'" and "\<not> transaction_touches_key s' k t"
proof -
  let ?s1 = "s\<lparr>fates := (fates s)(t := None), priorities := (priorities s)(t := None)\<rparr>"
  have inv: "lock_inv {} s" "no_deadlock s" using ok by (simp_all add: lock_ok_def)
  have "lock_ok s' \<and> (\<forall>k. \<not> transaction_touches_key s' k t)"
  proof (cases "txn_keys s t")
    case None
    then have s': "s' = ?s1" using out by (simp add: release_all_def)
    have "\<not> transaction_touches_key s k t" for k using lock_invD(4) [OF inv(1), of t k] None by (auto simp: tracks_def)
    then have "\<not> transaction_touches_key s' k t" for k by (simp add: s' transaction_touches_key_def)
    moreover have "lock_ok s'" using inv no_deadlock_locks [of ?s1 s] by (simp add: s' lock_ok_def)
    ultimately show ?thesis by blast
  next
    case (Some keys)
    let ?s2 = "?s1\<lparr>txn_keys := (txn_keys s)(t := None)\<rparr>"
    let ?s3 = "foldl (withdraw t) ?s2 keys"
    obtain s4 h4 where p: "process_keys now keys ?s3 h = (s4, h4)" by fastforce
    have s': "s' = foldl prune_if_idle (detect_deadlocks s4) keys"
      using out Some p by (simp add: release_all_def Let_def)
    have same: "transaction_touches_key ?s2 = transaction_touches_key s" by (simp add: transaction_touches_key_def fun_eq_iff)
    have "lock_inv {t} ?s2"
      using lock_invD [OF inv(1)] unfolding lock_inv_def same by (auto simp: total_waiting_def tracks_def split: if_splits)
    note W = withdraw_all_ok [OF this, of keys]
    note P = process_keys_ok [OF _ p, of "{t}"]
    have gone: "\<not> transaction_touches_key ?s3 k t" for k
    proof
      assume touch: "transaction_touches_key ?s3 k t"
      then have "transaction_touches_key s k t" using W unfolding sheds_def same by blast
      then have "k \<in> set keys" using lock_invD(4) [OF inv(1), of t k] Some by (auto simp: tracks_def)
      with touch W show False by blast
    qed
    have inv4: "lock_inv {t} s4" "sheds ?s3 s4" using P W by blast+
    note D = detect_deadlocks_ok [OF inv4(1)]
    note Q = prune_all_ok [of "{t}" "detect_deadlocks s4" keys]
    have "sheds ?s3 s'" unfolding s' using inv4 sheds_detect [OF inv4(1)] D Q by (blast intro: sheds_trans)
    then have gone': "\<not> transaction_touches_key s' k t" for k using gone unfolding sheds_def by blast
    have inv': "lock_inv {t} s'" "no_deadlock s'" unfolding s' using D Q by blast+
    have "tracks s' t' k" if "transaction_touches_key s' k t'" for t' k
    proof -
      have "t' \<noteq> t" using gone' that by blast
      then show ?thesis using lock_invD(4) [OF inv'(1)] that by blast
    qed
    then have "lock_inv {} s'" using lock_invD(1-3,5) [OF inv'(1)] unfolding lock_inv_def by blast
    with gone' \<open>no_deadlock s'\<close> show ?thesis by (simp add: lock_ok_def)
  qed
  then show "lock_ok s'" and "\<not> transaction_touches_key s' k t" by blast+
qed

section \<open>All interleavings\<close>

text \<open>One critical section of any transaction, at any instant and with the controls in any state.\<close>

definition lock_init :: "inner \<Rightarrow> bool" where
  "lock_init s \<longleftrightarrow> s = inner_new"

inductive lock_step :: "inner \<Rightarrow> inner \<Rightarrow> bool" where
  step_acquire: "acquire now k r s h = (res, s', h') \<Longrightarrow> lock_step s s'"
| step_resume: "acquire_resume now k r s h = (res, s', h') \<Longrightarrow> lock_step s s'"
| step_release: "release now t k s h = (s', h') \<Longrightarrow> lock_step s s'"
| step_release_all: "release_all now t s h = (s', h') \<Longrightarrow> lock_step s s'"

interpretation table: guarded_system lock_init lock_step lock_ok
proof
  show "lock_ok s" if "lock_init s" for s
    using that by (simp add: lock_init_def inner_new_def lock_ok_def lock_inv_def no_deadlock_def waits_for_def
        total_waiting_def transaction_touches_key_def acyclic_def)
  show "lock_ok t" if "lock_step s t" "lock_ok s" for s t
    using that by (cases rule: lock_step.cases)
      (auto intro: acquire_ok acquire_resume_ok release_ok release_all_ok(1))
qed

lemmas reach_inv = table.reach_inv [unfolded lock_ok_def, THEN conjunct1]

section \<open>Properties\<close>

text \<open>A table in which one transaction holds a key exclusively and two more wait for it.\<close>

definition sample_control :: execution_control where
  "sample_control = snd (control_new None)"

definition sample_hierarchy :: hierarchy where
  "sample_hierarchy = fst (control_new None)"

definition lock_once :: "txn_id \<Rightarrow> LockMode \<Rightarrow> inner \<Rightarrow> inner" where
  "lock_once t m s = fst (snd (acquire 0 schema_barrier (request_new t m sample_control) s sample_hierarchy))"

definition contended :: inner where
  "contended = lock_once 3 Shared (lock_once 2 Shared (lock_once 1 Exclusive inner_new))"

lemma lock_once_reach: "reach lock_init lock_step s \<Longrightarrow> reach lock_init lock_step (lock_once t m s)"
proof -
  assume r: "reach lock_init lock_step s"
  obtain res s' h' where a: "acquire 0 schema_barrier (request_new t m sample_control) s sample_hierarchy = (res, s', h')"
    by (metis prod_cases3)
  then have "lock_once t m s = s'" by (simp add: lock_once_def)
  with reach_step [OF r step_acquire [OF a]] show ?thesis by simp
qed

lemma contended_reach: "reach lock_init lock_step contended"
  unfolding contended_def by (intro lock_once_reach reach_init) (simp add: lock_init_def)

lemma sample_live: "checkpoint sample_hierarchy sample_control 0 = (Inr (), sample_hierarchy)"
  by (simp add: checkpoint_def expire_def sample_hierarchy_def sample_control_def control_new_def reason_def
      visible_events_def fresh_cell_def reason_from_u8_def reason_to_u8.simps)

definition held_by_1 :: inner where
  "held_by_1 =
     \<lparr>locks = [(schema_barrier, \<lparr>holders = [\<lparr>h_txn = 1, h_mode = Exclusive\<rparr>], queue = []\<rparr>)],
      txn_keys = [1 \<mapsto> [schema_barrier]], queued_waiters = 0, fates = Map.empty, priorities = Map.empty\<rparr>"

definition shared_waiter :: "txn_id \<Rightarrow> waiter" where
  "shared_waiter t = \<lparr>w_txn = t, w_deadline = None, w_control = sample_control, w_mode = Shared\<rparr>"

definition waiting_behind_1 :: "txn_id list \<Rightarrow> inner" where
  "waiting_behind_1 ts =
     held_by_1\<lparr>locks := [(schema_barrier, \<lparr>holders = [\<lparr>h_txn = 1, h_mode = Exclusive\<rparr>], queue = map shared_waiter ts\<rparr>)],
       txn_keys := foldl (\<lambda>m t. m(t \<mapsto> [schema_barrier])) [1 \<mapsto> [schema_barrier]] ts, queued_waiters := length ts\<rparr>"

lemmas sample_simps = lock_once_def acquire_def acquire_start_def check_request_live_def sample_live request_new_def
  Let_def track_def state_or_default_def put_lock_def enqueue_def waits_in_def holds_in_def

lemma sample_held: "lock_once 1 Exclusive inner_new = held_by_1"
  by (simp add: sample_simps inner_new_def held_by_1_def)

lemmas search_simps = find_cycle_def dfs.simps(2) edges_of_def build_wait_for_graph_def state_edges_def
  waiter_edges_def add_edges_def Let_def

lemma detect_waiting:
  "detect_deadlocks (waiting_behind_1 [2]) = waiting_behind_1 [2]"
  "detect_deadlocks (waiting_behind_1 [2, 3]) = waiting_behind_1 [2, 3]"
  by (subst detect_deadlocks.simps; simp add: waiting_behind_1_def shared_waiter_def search_simps)+

lemma sample_resume:
  "acquire_resume 0 schema_barrier (request_new 2 Shared sample_control) (waiting_behind_1 [2]) sample_hierarchy =
     (None, waiting_behind_1 [2], sample_hierarchy)"
  "acquire_resume 0 schema_barrier (request_new 3 Shared sample_control) (waiting_behind_1 [2, 3]) sample_hierarchy =
     (None, waiting_behind_1 [2, 3], sample_hierarchy)"
  by (simp_all add: acquire_resume_def wait_for_grant_def waiting_behind_1_def held_by_1_def shared_waiter_def sample_simps)

lemma sample_start:
  "acquire_start 0 schema_barrier (request_new 2 Shared sample_control) held_by_1 sample_hierarchy =
     (None, detect_deadlocks (waiting_behind_1 [2]), sample_hierarchy)"
  "acquire_start 0 schema_barrier (request_new 3 Shared sample_control) (waiting_behind_1 [2]) sample_hierarchy =
     (None, detect_deadlocks (waiting_behind_1 [2, 3]), sample_hierarchy)"
  by (simp_all add: waiting_behind_1_def held_by_1_def shared_waiter_def sample_simps)

lemma contended_eq: "contended = waiting_behind_1 [2, 3]"
  unfolding contended_def sample_held
  by (simp add: lock_once_def acquire_def sample_start sample_resume detect_waiting)

text \<open>C24: An exclusive hold is the only hold of its key: in every reachable table a transaction that holds
  a key exclusively shares it with no one.\<close>

theorem exclusive_hold_is_sole:
  assumes "reach lock_init lock_step s" and "lock_of s k = Some st"
    and "a \<in> set (holders st)" and "b \<in> set (holders st)" and "h_mode a = Exclusive"
  shows "b = a"
proof -
  have ok: "state_ok st" by (rule lock_invD(2) [OF reach_inv [OF assms(1)] assms(2)])
  have "h_txn b = h_txn a"
  proof (rule ccontr)
    assume "h_txn b \<noteq> h_txn a"
    then have "compatible (h_mode a) (h_mode b)" using ok assms(3,4) unfolding state_ok_def by metis
    with assms(5) show False by simp
  qed
  moreover have "inj_on h_txn (set (holders st))" using ok by (simp add: state_ok_def distinct_map)
  ultimately show ?thesis using assms(3,4) by (simp add: inj_on_eq_iff)
qed

theorem exclusive_hold_is_sole_witness:
  "reach lock_init lock_step contended \<and>
   (\<exists>st. lock_of contended schema_barrier = Some st \<and> \<lparr>h_txn = 1, h_mode = Exclusive\<rparr> \<in> set (holders st) \<and>
     map w_txn (queue st) = [2, 3] \<and> list_all (\<lambda>b. b = \<lparr>h_txn = 1, h_mode = Exclusive\<rparr>) (holders st))"
proof -
  let ?st = "\<lparr>holders = [\<lparr>h_txn = 1, h_mode = Exclusive\<rparr>], queue = map shared_waiter [2, 3]\<rparr>"
  have st: "lock_of contended schema_barrier = Some ?st" by (simp add: contended_eq waiting_behind_1_def)
  have "list_all (\<lambda>b. b = \<lparr>h_txn = 1, h_mode = Exclusive\<rparr>) (holders ?st)"
    unfolding list_all_iff by (intro ballI exclusive_hold_is_sole [OF contended_reach st]) simp_all
  then show ?thesis using contended_reach st by (auto simp: shared_waiter_def)
qed

text \<open>C18: No deadlock survives a critical section. In every reachable table the relation of who waits for
  whom has no cycle, the counter of waiters is the number of queue entries, and every hold and wait
  is recorded under its transaction, so that its release finds it.\<close>

theorem no_wait_cycle:
  assumes "reach lock_init lock_step s"
  shows "acyclic (waits_for s) \<and> queued_waiters s = total_waiting s \<and>
    {(t, k). transaction_touches_key s k t} \<subseteq> {(t, k). tracks s t k}"
  using table.reach_inv [OF assms] lock_invD(3,4) [of "{}" s] unfolding lock_ok_def no_deadlock_def by auto

theorem no_wait_cycle_witness: "acyclic (waits_for contended) \<and> queued_waiters contended = total_waiting contended"
  using no_wait_cycle [OF contended_reach] by blast

text \<open>C26: Grants are first come, first served. Processing a key removes the waiters that are cancelled or
  expired, grants a prefix of the others in their order, and leaves a queue in which every waiter
  waits for some other transaction.\<close>

theorem grants_are_fifo:
  assumes "reach lock_init lock_step s" and "lock_of s k = Some st" and "process_key now k s h = (s', h')"
  shows "\<exists>granted waiting.
    filter (\<lambda>w. w_txn w \<notin> set (fst (dead_waiters now (queue st) h))) (queue st) = granted @ waiting \<and>
    lock_of s' k = Some \<lparr>holders = foldl grant_to (holders st) granted, queue = waiting\<rparr> \<and>
    w_txn ` set waiting \<subseteq> Domain (waits_for s')"
proof -
  note P = process_key_ok [OF reach_inv [OF assms(1)] assms(3)]
  obtain granted waiting where g:
    "filter (\<lambda>w. w_txn w \<notin> set (fst (dead_waiters now (queue st) h))) (queue st) = granted @ waiting"
    "lock_of s' k = Some \<lparr>holders = foldl grant_to (holders st) granted, queue = waiting\<rparr>"
    "waiting = [] \<or> \<not> grantable (foldl grant_to (holders st) granted) (hd waiting)"
    using P(4) [OF assms(2)] by blast
  have "w_txn w \<in> Domain (waits_for s')" if w: "w \<in> set waiting" for w
  proof -
    let ?st = "\<lparr>holders = foldl grant_to (holders st) granted, queue = waiting\<rparr>"
    obtain f q where q: "waiting = f # q" using w by (cases waiting) auto
    have "state_ok ?st" by (rule lock_invD(2) [OF P(1) g(2)])
    then obtain b where "(w_txn w, b) \<in> state_waits ?st"
      using blocked_queue_waits [of ?st f q w] g(3) q w by auto
    with g(2) show ?thesis by (auto simp: waits_for_def)
  qed
  with g(1,2) show ?thesis by blast
qed

theorem grants_are_fifo_witness:
  "\<exists>granted waiting.
    filter (\<lambda>w. w_txn w \<notin> set (fst (dead_waiters 0 (map shared_waiter [2, 3]) sample_hierarchy))) (map shared_waiter [2, 3]) =
      granted @ waiting \<and>
    lock_of (fst (process_key 0 schema_barrier contended sample_hierarchy)) schema_barrier =
      Some \<lparr>holders = foldl grant_to [\<lparr>h_txn = 1, h_mode = Exclusive\<rparr>] granted, queue = waiting\<rparr> \<and>
    w_txn ` set waiting \<subseteq> Domain (waits_for (fst (process_key 0 schema_barrier contended sample_hierarchy)))"
proof -
  have "lock_of contended schema_barrier =
      Some \<lparr>holders = [\<lparr>h_txn = 1, h_mode = Exclusive\<rparr>], queue = map shared_waiter [2, 3]\<rparr>"
    by (simp add: contended_eq waiting_behind_1_def)
  from grants_are_fifo [OF contended_reach this prod.collapse [symmetric]] show ?thesis by simp
qed

text \<open>C28: Releasing everything leaves nothing behind. In every reachable table, after \<open>release_all\<close> for a
  transaction it neither holds nor awaits any key, although only the keys recorded for it are
  visited.\<close>

theorem release_all_leaves_nothing:
  assumes "reach lock_init lock_step s"
  shows "\<not> transaction_touches_key (fst (release_all now t s h)) k t"
  by (rule release_all_ok(2) [OF table.reach_inv [OF assms] prod.collapse [symmetric]])

theorem release_all_leaves_nothing_witness:
  "transaction_touches_key contended schema_barrier 1 \<and>
   \<not> transaction_touches_key (fst (release_all 0 1 contended sample_hierarchy)) schema_barrier 1"
proof -
  have "transaction_touches_key contended schema_barrier 1"
    by (simp add: contended_eq waiting_behind_1_def transaction_touches_key_def holds_in_def)
  then show ?thesis using release_all_leaves_nothing [OF contended_reach] by blast
qed

end
