(* ===== verification/Conflict_Index.thy ===== *)
theory Conflict_Index
  imports Errors Epochs
begin

text \<open>
  The conflict index and the registry of active transactions (\<open>ConflictIndex\<close> and \<open>ActiveTxns\<close> of
  \<open>crates/mongreldb-core/src/txn.rs\<close>), the read sets that serializable certification probes against the
  index, and the two-phase validation of the commit path in \<open>database.rs\<close>. The hash that selects a
  shard is a parameter: the results hold for every hash. A \<open>BTreeMap\<close> is the list of its entries in
  the order of the keys.
\<close>

unbundle bit_operations_syntax

section \<open>The conflict index\<close>

datatype WriteKey = RowKey u64 u64 | UniqueKey u64 u16 u64 | TableKey u64

definition CONFLICT_SHARDS :: nat where
  "CONFLICT_SHARDS = 16"

record conflict_index =
  ci_shards :: "(WriteKey \<rightharpoonup> u64) list"
  ci_truncates :: "u64 \<rightharpoonup> u64"
  ci_writes :: "u64 \<rightharpoonup> u64"
  ci_version :: u64
  ci_floor :: u64

definition conflict_index_new :: conflict_index where
  "conflict_index_new =
     \<lparr>ci_shards = replicate CONFLICT_SHARDS Map.empty, ci_truncates = Map.empty, ci_writes = Map.empty,
      ci_version = 0, ci_floor = 0\<rparr>"

definition shard :: "(WriteKey \<Rightarrow> u64) \<Rightarrow> WriteKey \<Rightarrow> nat" where
  "shard hash k = unat (hash k AND of_nat (CONFLICT_SHARDS - 1))"

definition after_epoch :: "epoch \<Rightarrow> u64 option \<Rightarrow> bool" where
  "after_epoch read ce = (case ce of None \<Rightarrow> False | Some e \<Rightarrow> read < e)"

definition conflicts :: "(WriteKey \<Rightarrow> u64) \<Rightarrow> conflict_index \<Rightarrow> WriteKey list \<Rightarrow> epoch \<Rightarrow> bool" where
  "conflicts hash ci keys read \<longleftrightarrow>
     list_ex (\<lambda>k. after_epoch read ((ci_shards ci ! shard hash k) k)) keys \<or>
     list_ex (\<lambda>k. case k of
         RowKey t _ \<Rightarrow> after_epoch read (ci_truncates ci t)
       | UniqueKey t _ _ \<Rightarrow> after_epoch read (ci_truncates ci t)
       | TableKey t \<Rightarrow> after_epoch read (ci_writes ci t)) keys"

definition shard_insert ::
    "(WriteKey \<Rightarrow> u64) \<Rightarrow> u64 \<Rightarrow> (WriteKey \<rightharpoonup> u64) list \<Rightarrow> WriteKey \<Rightarrow> (WriteKey \<rightharpoonup> u64) list" where
  "shard_insert hash e shards k = shards[shard hash k := (shards ! shard hash k)(k \<mapsto> e)]"

definition raise_entry :: "u64 \<Rightarrow> (u64 \<rightharpoonup> u64) \<Rightarrow> u64 \<Rightarrow> (u64 \<rightharpoonup> u64)" where
  "raise_entry e m t = m(t \<mapsto> (case m t of None \<Rightarrow> e | Some ce \<Rightarrow> max ce e))"

definition record_tables :: "u64 \<Rightarrow> (u64 \<rightharpoonup> u64) \<times> (u64 \<rightharpoonup> u64) \<Rightarrow> WriteKey \<Rightarrow> (u64 \<rightharpoonup> u64) \<times> (u64 \<rightharpoonup> u64)" where
  "record_tables e maps k =
     (case maps of (truncates, writes) \<Rightarrow>
        (case k of
           TableKey t \<Rightarrow> (raise_entry e truncates t, writes)
         | RowKey t _ \<Rightarrow> (truncates, raise_entry e writes t)
         | UniqueKey t _ _ \<Rightarrow> (truncates, raise_entry e writes t)))"

definition record_keys :: "(WriteKey \<Rightarrow> u64) \<Rightarrow> conflict_index \<Rightarrow> WriteKey list \<Rightarrow> epoch \<Rightarrow> conflict_index" where
  "record_keys hash ci keys e =
     (let (truncates, writes) = foldl (record_tables e) (ci_truncates ci, ci_writes ci) keys
      in ci\<lparr>ci_shards := foldl (shard_insert hash e) (ci_shards ci) keys, ci_truncates := truncates,
            ci_writes := writes, ci_version := ci_version ci + 1\<rparr>)"

definition retain_from :: "u64 \<Rightarrow> ('k \<rightharpoonup> u64) \<Rightarrow> ('k \<rightharpoonup> u64)" where
  "retain_from f m = (\<lambda>x. case m x of None \<Rightarrow> None | Some e \<Rightarrow> if f \<le> e then Some e else None)"

definition prune_below :: "conflict_index \<Rightarrow> epoch \<Rightarrow> conflict_index" where
  "prune_below ci min_active =
     (let previous = ci_floor ci; ci' = ci\<lparr>ci_floor := max previous min_active\<rparr>
      in if min_active \<le> previous then ci'
         else ci'\<lparr>ci_shards := map (retain_from min_active) (ci_shards ci),
                  ci_truncates := retain_from min_active (ci_truncates ci),
                  ci_writes := retain_from min_active (ci_writes ci)\<rparr>)"

section \<open>Active transactions\<close>

type_synonym active_txns = "(u64 \<times> nat) list"

fun register :: "u64 \<Rightarrow> active_txns \<Rightarrow> active_txns" where
  "register e [] = [(e, 1)]"
| "register e ((x, n) # xs) =
     (if e = x then (x, n + 1) # xs else if e < x then (e, 1) # (x, n) # xs else (x, n) # register e xs)"

fun deregister :: "u64 \<Rightarrow> active_txns \<Rightarrow> active_txns" where
  "deregister e [] = []"
| "deregister e ((x, n) # xs) =
     (if e = x then (if n - 1 = 0 then xs else (x, n - 1) # xs) else (x, n) # deregister e xs)"

definition min_read_epoch :: "active_txns \<Rightarrow> u64" where
  "min_read_epoch xs = (case xs of [] \<Rightarrow> max_u64 | (e, _) # _ \<Rightarrow> e)"

section \<open>Read sets\<close>

datatype IsolationLevel = RepeatableRead | SnapshotLevel | ReadCommitted | Serializable

fun canonical :: "IsolationLevel \<Rightarrow> IsolationLevel" where
  "canonical SnapshotLevel = RepeatableRead"
| "canonical level = level"

text \<open>A \<open>BTreeSet\<close> is a list in ascending order without repetitions.\<close>

type_synonym read_set = "(u64 \<times> u64) list"
type_synonym predicate_set = "u64 list"

definition record_row :: "read_set \<Rightarrow> u64 \<Rightarrow> u64 \<Rightarrow> read_set" where
  "record_row rs t r = (if (t, r) \<in> set rs then rs else insort (t, r) rs)"

definition record_table :: "predicate_set \<Rightarrow> u64 \<Rightarrow> predicate_set" where
  "record_table ps t = (if t \<in> set ps then ps else insort t ps)"

definition ssi_validation_keys :: "read_set \<Rightarrow> predicate_set \<Rightarrow> WriteKey list" where
  "ssi_validation_keys rs ps = map (\<lambda>(t, r). RowKey t r) rs @ map TableKey ps"

definition ssi_keys_of :: "IsolationLevel \<Rightarrow> read_set \<Rightarrow> predicate_set \<Rightarrow> WriteKey list" where
  "ssi_keys_of level rs ps = (case canonical level of Serializable \<Rightarrow> ssi_validation_keys rs ps | _ \<Rightarrow> [])"

section \<open>Two-phase validation\<close>

text \<open>The pieces of the commit path between which other transactions may run: pruning with a minimum taken
  before, the probe for the writes, the probe for the certified reads, and the repeated probes inside
  the sequencer.\<close>

definition opportunistic_prune :: "u64 \<Rightarrow> conflict_index \<Rightarrow> conflict_index" where
  "opportunistic_prune min_active ci = (if min_active < max_u64 then prune_below ci min_active else ci)"

definition pre_validate_writes ::
    "(WriteKey \<Rightarrow> u64) \<Rightarrow> conflict_index \<Rightarrow> WriteKey list \<Rightarrow> epoch \<Rightarrow> MongrelError + unit" where
  "pre_validate_writes hash ci write_keys read =
     (if conflicts hash ci write_keys read
      then Inl (Conflict ''write-write conflict (pre-validate, first-committer-wins)'') else Inr ())"

definition pre_validate_reads ::
    "(WriteKey \<Rightarrow> u64) \<Rightarrow> conflict_index \<Rightarrow> WriteKey list \<Rightarrow> epoch \<Rightarrow> MongrelError + unit" where
  "pre_validate_reads hash ci ssi_keys read =
     (if ssi_keys \<noteq> [] \<and> conflicts hash ci ssi_keys read
      then Inl (SerializationFailure
        ''a concurrent commit invalidated this transaction's reads (pre-validate)'')
      else Inr ())"

definition sequencer_recheck ::
    "(WriteKey \<Rightarrow> u64) \<Rightarrow> conflict_index \<Rightarrow> WriteKey list \<Rightarrow> WriteKey list \<Rightarrow> epoch \<Rightarrow> u64 \<Rightarrow> MongrelError + unit" where
  "sequencer_recheck hash ci write_keys ssi_keys read pre_validate_version =
     (if ci_version ci \<noteq> pre_validate_version then
        (if conflicts hash ci write_keys read
         then Inl (Conflict ''write-write conflict (sequencer delta re-check)'')
         else if ssi_keys \<noteq> [] \<and> conflicts hash ci ssi_keys read
         then Inl (SerializationFailure
           ''a concurrent commit invalidated this transaction's reads (sequencer re-check)'')
         else Inr ())
      else Inr ())"

section \<open>The log of commits\<close>

type_synonym commit_log = "(WriteKey list \<times> epoch) list"

fun key_table :: "WriteKey \<Rightarrow> u64" where
  "key_table (RowKey t _) = t"
| "key_table (UniqueKey t _ _) = t"
| "key_table (TableKey t) = t"

fun whole_table :: "WriteKey \<Rightarrow> bool" where
  "whole_table (TableKey _) = True"
| "whole_table _ = False"

text \<open>Two write keys interfere if they are equal or one covers the table of the other.\<close>

definition interferes :: "WriteKey \<Rightarrow> WriteKey \<Rightarrow> bool" where
  "interferes k k' \<longleftrightarrow> k = k' \<or> key_table k = key_table k' \<and> whole_table k \<noteq> whole_table k'"

definition invalidated :: "commit_log \<Rightarrow> WriteKey list \<Rightarrow> epoch \<Rightarrow> bool" where
  "invalidated log keys read \<longleftrightarrow>
     (\<exists>c\<in>set log. read < snd c \<and> (\<exists>k\<in>set keys. \<exists>k'\<in>set (fst c). interferes k k'))"

definition epochs_of :: "commit_log \<Rightarrow> (WriteKey \<Rightarrow> bool) \<Rightarrow> epoch set" where
  "epochs_of log P = {snd c | c. c \<in> set log \<and> (\<exists>k\<in>set (fst c). P k)}"

abbreviation writes_table :: "u64 \<Rightarrow> WriteKey \<Rightarrow> bool" where
  "writes_table t k \<equiv> \<not> whole_table k \<and> key_table k = t"

text \<open>A pruned map of latest epochs: an entry is the greatest epoch of its key, and an entry is missing
  only if all epochs of its key are below the floor.\<close>

definition latest_above :: "u64 \<Rightarrow> ('k \<rightharpoonup> u64) \<Rightarrow> ('k \<Rightarrow> epoch set) \<Rightarrow> bool" where
  "latest_above floor m E \<longleftrightarrow>
     (\<forall>x. (\<forall>e. m x = Some e \<longrightarrow> e \<in> E x \<and> (\<forall>e'\<in>E x. e' \<le> e)) \<and> (m x = None \<longrightarrow> (\<forall>e\<in>E x. e < floor)))"

definition index_rep :: "(WriteKey \<Rightarrow> u64) \<Rightarrow> conflict_index \<Rightarrow> commit_log \<Rightarrow> bool" where
  "index_rep hash ci log \<longleftrightarrow>
     length (ci_shards ci) = CONFLICT_SHARDS \<and>
     latest_above (ci_floor ci) (\<lambda>k. (ci_shards ci ! shard hash k) k) (\<lambda>k. epochs_of log ((=) k)) \<and>
     latest_above (ci_floor ci) (ci_truncates ci) (\<lambda>t. epochs_of log ((=) (TableKey t))) \<and>
     latest_above (ci_floor ci) (ci_writes ci) (\<lambda>t. epochs_of log (writes_table t))"

lemma shard_less: "shard hash k < CONFLICT_SHARDS"
proof -
  have "hash k AND 15 \<le> 15" by (rule word_and_le1)
  then have "unat (hash k AND 15) \<le> unat (15 :: u64)" by (simp only: word_le_nat_alt)
  then show ?thesis by (simp add: shard_def CONFLICT_SHARDS_def)
qed

lemma after_epoch_iff:
  assumes "latest_above floor m E" and "floor \<le> read"
  shows "after_epoch read (m x) \<longleftrightarrow> (\<exists>e\<in>E x. read < e)"
proof (cases "m x")
  case None
  then have "\<forall>e\<in>E x. e < floor" using assms(1) by (simp add: latest_above_def)
  with assms(2) None show ?thesis by (force simp: after_epoch_def)
next
  case (Some e)
  then have "e \<in> E x" "\<forall>e'\<in>E x. e' \<le> e" using assms(1) by (simp_all add: latest_above_def)
  with Some show ?thesis by (force simp: after_epoch_def)
qed

lemma latest_above_retain:
  assumes "latest_above floor m E"
  shows "latest_above (max floor f) (retain_from f m) E"
  unfolding latest_above_def
proof (intro allI conjI impI)
  fix x e assume "retain_from f m x = Some e"
  then have "m x = Some e" by (auto simp: retain_from_def split: option.splits if_splits)
  with assms show "e \<in> E x" "\<forall>e'\<in>E x. e' \<le> e" by (simp_all add: latest_above_def)
next
  fix x assume n: "retain_from f m x = None"
  show "\<forall>e\<in>E x. e < max floor f"
  proof (cases "m x")
    case None
    then show ?thesis using assms by (auto simp: latest_above_def less_max_iff_disj)
  next
    case (Some e)
    then have "e < f" using n by (simp add: retain_from_def not_le split: if_splits)
    moreover have "\<forall>e'\<in>E x. e' \<le> e" using assms Some by (simp add: latest_above_def)
    ultimately show ?thesis by (auto simp: less_max_iff_disj)
  qed
qed

lemma latest_above_mono: "latest_above floor m E \<Longrightarrow> floor \<le> f \<Longrightarrow> latest_above f m E"
  unfolding latest_above_def by (meson less_le_trans)

lemma prune_rep:
  assumes "index_rep hash ci log"
  shows "index_rep hash (prune_below ci f) log"
proof (cases "f \<le> ci_floor ci")
  case True
  with assms show ?thesis by (simp add: index_rep_def prune_below_def Let_def max.absorb1)
next
  case False
  then have fl: "max (ci_floor ci) f = f" by simp
  have R: "length (ci_shards ci) = CONFLICT_SHARDS"
    "latest_above (ci_floor ci) (\<lambda>k. (ci_shards ci ! shard hash k) k) (\<lambda>k. epochs_of log ((=) k))"
    "latest_above (ci_floor ci) (ci_truncates ci) (\<lambda>t. epochs_of log ((=) (TableKey t)))"
    "latest_above (ci_floor ci) (ci_writes ci) (\<lambda>t. epochs_of log (writes_table t))"
    using assms by (simp_all add: index_rep_def)
  have "(\<lambda>k. (map (retain_from f) (ci_shards ci) ! shard hash k) k) =
      retain_from f (\<lambda>k. (ci_shards ci ! shard hash k) k)"
    using shard_less R(1) by (simp add: retain_from_def fun_eq_iff)
  with R(1) False latest_above_retain [OF R(2), of f] latest_above_retain [OF R(3), of f]
    latest_above_retain [OF R(4), of f] show ?thesis
    unfolding fl by (simp add: index_rep_def prune_below_def Let_def max.absorb2)
qed

section \<open>Recording\<close>

lemma epochs_of_append: "epochs_of (log @ [(keys, e)]) P = epochs_of log P \<union> (if \<exists>k\<in>set keys. P k then {e} else {})"
  by (auto simp: epochs_of_def)

lemma latest_above_insert:
  assumes "latest_above floor m E" and "\<And>x. m' x = (if x \<in> A then Some e else m x)"
    and "\<And>x. E' x = E x \<union> (if x \<in> A then {e} else {})" and "\<And>x e'. e' \<in> E x \<Longrightarrow> e' \<le> e"
  shows "latest_above floor m' E'"
  using assms(1,4) by (auto simp: latest_above_def assms(2,3))

lemma length_shard_inserts [simp]: "length (foldl (shard_insert hash e) shards keys) = length shards"
  by (induction keys arbitrary: shards) (simp_all add: shard_insert_def)

lemma shard_inserts:
  "length shards = CONFLICT_SHARDS \<Longrightarrow>
   (foldl (shard_insert hash e) shards keys ! shard hash k) k =
     (if k \<in> set keys then Some e else (shards ! shard hash k) k)"
proof (induction keys arbitrary: shards)
  case (Cons k' keys)
  let ?s = "shard_insert hash e shards k'"
  have len: "length ?s = CONFLICT_SHARDS" using Cons.prems by (simp add: shard_insert_def)
  have "(?s ! shard hash k) k = (if k = k' then Some e else (shards ! shard hash k) k)"
    using Cons.prems shard_less [of hash k] shard_less [of hash k'] by (auto simp: shard_insert_def nth_list_update)
  with Cons.IH [OF len] show ?case by auto
qed simp

definition raised :: "u64 \<Rightarrow> u64 option \<Rightarrow> u64" where
  "raised e old = (case old of None \<Rightarrow> e | Some c \<Rightarrow> max c e)"

lemma raised_again [simp]: "raised e (Some (raised e old)) = raised e old"
  by (simp add: raised_def split: option.splits)

lemma record_tables_step:
  "fst (record_tables e maps k) t = (if k = TableKey t then Some (raised e (fst maps t)) else fst maps t)"
  "snd (record_tables e maps k) t = (if writes_table t k then Some (raised e (snd maps t)) else snd maps t)"
  by (cases maps; cases k; simp add: record_tables_def raise_entry_def raised_def)+

lemma record_tables_fold:
  "fst (foldl (record_tables e) maps keys) t =
     (if TableKey t \<in> set keys then Some (raised e (fst maps t)) else fst maps t)"
  "snd (foldl (record_tables e) maps keys) t =
     (if \<exists>k\<in>set keys. writes_table t k then Some (raised e (snd maps t)) else snd maps t)"
  by (induction keys arbitrary: maps) (auto simp: record_tables_step)

lemma max_latest:
  assumes "latest_above floor m E" and "\<And>e'. e' \<in> E x \<Longrightarrow> e' \<le> e"
  shows "raised e (m x) = e"
  using assms by (auto simp: raised_def latest_above_def max_def split: option.splits)

lemma record_rep:
  assumes rep: "index_rep hash ci log" and asc: "\<And>c. c \<in> set log \<Longrightarrow> snd c \<le> e"
  shows "index_rep hash (record_keys hash ci keys e) (log @ [(keys, e)])"
proof -
  have R: "length (ci_shards ci) = CONFLICT_SHARDS"
    "latest_above (ci_floor ci) (\<lambda>k. (ci_shards ci ! shard hash k) k) (\<lambda>k. epochs_of log ((=) k))"
    "latest_above (ci_floor ci) (ci_truncates ci) (\<lambda>t. epochs_of log ((=) (TableKey t)))"
    "latest_above (ci_floor ci) (ci_writes ci) (\<lambda>t. epochs_of log (writes_table t))"
    using rep by (simp_all add: index_rep_def)
  have le: "e' \<le> e" if "e' \<in> epochs_of log P" for e' P using that asc by (auto simp: epochs_of_def)
  obtain tr wr where f: "foldl (record_tables e) (ci_truncates ci, ci_writes ci) keys = (tr, wr)" by fastforce
  note T = record_tables_fold [of e "(ci_truncates ci, ci_writes ci)" keys, unfolded f fst_conv snd_conv]
  let ?log = "log @ [(keys, e)]"
  have "latest_above (ci_floor ci) (\<lambda>k. (foldl (shard_insert hash e) (ci_shards ci) keys ! shard hash k) k)
      (\<lambda>k. epochs_of ?log ((=) k))"
    by (rule latest_above_insert [OF R(2), where A = "set keys" and e = e])
      (auto simp: shard_inserts [OF R(1)] epochs_of_append le)
  moreover have "latest_above (ci_floor ci) tr (\<lambda>t. epochs_of ?log ((=) (TableKey t)))"
    by (rule latest_above_insert [OF R(3), where A = "{t. TableKey t \<in> set keys}" and e = e])
      (auto simp: T(1) max_latest [OF R(3) le] epochs_of_append le)
  moreover have "latest_above (ci_floor ci) wr (\<lambda>t. epochs_of ?log (writes_table t))"
    by (rule latest_above_insert [OF R(4), where A = "{t. \<exists>k\<in>set keys. writes_table t k}" and e = e])
      (auto simp: T(2) max_latest [OF R(4) le] epochs_of_append le)
  ultimately show ?thesis using R(1) f by (simp add: index_rep_def record_keys_def)
qed

lemma index_rep_new: "index_rep hash conflict_index_new []"
  using shard_less [of hash]
  by (simp add: index_rep_def conflict_index_new_def latest_above_def epochs_of_def)

section \<open>Probing\<close>

lemma epochs_of_ex:
  "(\<exists>e\<in>epochs_of log P. read < e) \<longleftrightarrow> (\<exists>c\<in>set log. read < snd c \<and> (\<exists>k\<in>set (fst c). P k))"
  unfolding epochs_of_def by blast

lemma after_epoch_sound:
  assumes "latest_above floor m E" and "after_epoch read (m x)"
  shows "\<exists>e\<in>E x. read < e"
  using assms by (cases "m x") (auto simp: latest_above_def after_epoch_def)

lemma table_probe:
  "(case k of
      RowKey t _ \<Rightarrow> after_epoch read (ci_truncates ci t)
    | UniqueKey t _ _ \<Rightarrow> after_epoch read (ci_truncates ci t)
    | TableKey t \<Rightarrow> after_epoch read (ci_writes ci t)) \<longleftrightarrow>
   after_epoch read ((if whole_table k then ci_writes ci else ci_truncates ci) (key_table k))"
  by (cases k) simp_all

lemma conflicts_sound:
  assumes rep: "index_rep hash ci log" and "conflicts hash ci keys read"
  shows "invalidated log keys read"
proof -
  have R: "latest_above (ci_floor ci) (\<lambda>k. (ci_shards ci ! shard hash k) k) (\<lambda>k. epochs_of log ((=) k))"
    "latest_above (ci_floor ci) (ci_truncates ci) (\<lambda>t. epochs_of log ((=) (TableKey t)))"
    "latest_above (ci_floor ci) (ci_writes ci) (\<lambda>t. epochs_of log (writes_table t))"
    using rep by (simp_all add: index_rep_def)
  have hit: "invalidated log keys read" if "k \<in> set keys" "\<exists>e\<in>epochs_of log P. read < e" "\<And>k'. P k' \<Longrightarrow> interferes k k'" for k P
    using that unfolding epochs_of_ex invalidated_def by blast
  from assms(2) consider k where "k \<in> set keys" "after_epoch read ((ci_shards ci ! shard hash k) k)"
    | k where "k \<in> set keys" "\<not> whole_table k" "after_epoch read (ci_truncates ci (key_table k))"
    | k where "k \<in> set keys" "whole_table k" "after_epoch read (ci_writes ci (key_table k))"
    unfolding conflicts_def list_ex_iff table_probe by (auto split: if_splits)
  then show ?thesis
  proof cases
    case 1
    show ?thesis using after_epoch_sound [OF R(1) 1(2)] by (rule hit [OF 1(1)]) (simp add: interferes_def)
  next
    case 2
    show ?thesis using after_epoch_sound [OF R(2) 2(3)] by (rule hit [OF 2(1)]) (use 2(2) in \<open>auto simp: interferes_def\<close>)
  next
    case 3
    show ?thesis using after_epoch_sound [OF R(3) 3(3)] by (rule hit [OF 3(1)]) (use 3(2) in \<open>auto simp: interferes_def\<close>)
  qed
qed

lemma conflicts_exact:
  assumes rep: "index_rep hash ci log" and read: "ci_floor ci \<le> read"
  shows "conflicts hash ci keys read \<longleftrightarrow> invalidated log keys read"
proof -
  have R: "latest_above (ci_floor ci) (\<lambda>k. (ci_shards ci ! shard hash k) k) (\<lambda>k. epochs_of log ((=) k))"
    "latest_above (ci_floor ci) (ci_truncates ci) (\<lambda>t. epochs_of log ((=) (TableKey t)))"
    "latest_above (ci_floor ci) (ci_writes ci) (\<lambda>t. epochs_of log (writes_table t))"
    using rep by (simp_all add: index_rep_def)
  have key: "after_epoch read ((ci_shards ci ! shard hash k) k) \<longleftrightarrow> (\<exists>c\<in>set log. read < snd c \<and> k \<in> set (fst c))" for k
    unfolding after_epoch_iff [OF R(1) read] epochs_of_ex by auto
  have table: "(case k of
         RowKey t _ \<Rightarrow> after_epoch read (ci_truncates ci t)
       | UniqueKey t _ _ \<Rightarrow> after_epoch read (ci_truncates ci t)
       | TableKey t \<Rightarrow> after_epoch read (ci_writes ci t)) \<longleftrightarrow>
      (\<exists>c\<in>set log. read < snd c \<and> (\<exists>k'\<in>set (fst c). key_table k = key_table k' \<and> whole_table k \<noteq> whole_table k'))" for k
  proof (cases k)
    case (RowKey t r)
    have "key_table k = key_table k' \<and> whole_table k \<noteq> whole_table k' \<longleftrightarrow> TableKey t = k'" for k'
      by (cases k') (auto simp: RowKey)
    then show ?thesis unfolding RowKey WriteKey.case after_epoch_iff [OF R(2) read] epochs_of_ex by simp
  next
    case (UniqueKey t i h)
    have "key_table k = key_table k' \<and> whole_table k \<noteq> whole_table k' \<longleftrightarrow> TableKey t = k'" for k'
      by (cases k') (auto simp: UniqueKey)
    then show ?thesis unfolding UniqueKey WriteKey.case after_epoch_iff [OF R(2) read] epochs_of_ex by simp
  next
    case (TableKey t)
    have "key_table k = key_table k' \<and> whole_table k \<noteq> whole_table k' \<longleftrightarrow> writes_table t k'" for k'
      by (auto simp: TableKey)
    then show ?thesis unfolding TableKey WriteKey.case after_epoch_iff [OF R(3) read] epochs_of_ex by simp
  qed
  show ?thesis
    unfolding conflicts_def list_ex_iff key table invalidated_def interferes_def by blast
qed

end
