(* ===== verification/Commit_Validation.thy ===== *)
theory Commit_Validation
  imports Conflict_Index "HOL-Library.Multiset"
begin

text \<open>
  Conflict validation of transactions that begin, commit and end while others prune, probe and record.
  Every access of \<open>begin_with_isolation\<close>, \<open>Transaction::new\<close> and the validation part of the commit path
  to shared state is a step of its own: reading the watermark, registering the read epoch, taking the
  minimum of the registry, pruning with it, the two probes, reading the version, and the critical
  section of the sequencer with its record. One call of the conflict index is one step; the locks of
  its shards are not modelled.

  The registry keeps the prune floor below the read epoch of every transaction that no prune minimum
  overtook between its read and its registration; for these probing the pruned index is the same as
  searching the whole log of commits. The windows in which validation fails are shown at the end.
\<close>

section \<open>The registry\<close>

definition registry_ok :: "active_txns \<Rightarrow> epoch list \<Rightarrow> bool" where
  "registry_ok xs live \<longleftrightarrow>
     sorted_wrt (<) (map fst xs) \<and> (\<forall>x\<in>set xs. 0 < snd x) \<and>
     (\<forall>e. count_list live e = (case map_of xs e of None \<Rightarrow> 0 | Some n \<Rightarrow> n))"

lemma register_keys: "fst ` set (register e xs) = insert e (fst ` set xs)"
  by (induction e xs rule: register.induct) auto

lemma register_map: "sorted_wrt (<) (map fst xs) \<Longrightarrow>
  map_of (register e xs) = (map_of xs)(e \<mapsto> (case map_of xs e of None \<Rightarrow> 0 | Some n \<Rightarrow> n) + 1)"
proof (induction e xs rule: register.induct)
  case (2 e x n xs)
  have "map_of xs e = None" if "e < x"
    using "2.prems" that by (force simp: map_of_eq_None_iff)
  with 2 show ?case by (auto simp: fun_eq_iff split: option.splits)
qed auto

lemma register_sorted: "sorted_wrt (<) (map fst xs) \<Longrightarrow> sorted_wrt (<) (map fst (register e xs))"
  by (induction e xs rule: register.induct) (auto simp: register_keys dest: less_trans)

lemma register_ok:
  assumes "registry_ok xs live"
  shows "registry_ok (register e xs) (e # live)"
proof -
  have s: "sorted_wrt (<) (map fst xs)" using assms by (simp add: registry_ok_def)
  have "\<forall>x\<in>set xs. 0 < snd x \<Longrightarrow> \<forall>x\<in>set (register e xs). 0 < snd x"
    by (induction e xs rule: register.induct) auto
  then show ?thesis
    using assms register_sorted [OF s] by (auto simp: registry_ok_def register_map [OF s] split: option.splits)
qed

lemma deregister_sub: "fst ` set (deregister e xs) \<subseteq> fst ` set xs"
  by (induction e xs rule: deregister.induct) auto

lemma deregister_sorted: "sorted_wrt (<) (map fst xs) \<Longrightarrow> sorted_wrt (<) (map fst (deregister e xs))"
proof (induction e xs rule: deregister.induct)
  case (2 e x n xs)
  have "\<forall>y\<in>fst ` set xs. x < y" using "2.prems" by simp
  then have "\<forall>y\<in>fst ` set (deregister e xs). x < y" using deregister_sub [of e xs] by blast
  with 2 show ?case by auto
qed simp

lemma deregister_map: "sorted_wrt (<) (map fst xs) \<Longrightarrow>
  map_of (deregister e xs) = (map_of xs)(e := (case map_of xs e of None \<Rightarrow> None | Some n \<Rightarrow> if n - 1 = 0 then None else Some (n - 1)))"
proof (induction e xs rule: deregister.induct)
  case (2 e x n xs)
  have "map_of xs x = None" using "2.prems" by (force simp: map_of_eq_None_iff)
  with 2 show ?case by (auto simp: fun_eq_iff split: option.splits)
qed (auto simp: fun_eq_iff)

lemma deregister_ok:
  assumes "registry_ok xs live" and "e \<in> set live"
  shows "registry_ok (deregister e xs) (remove1 e live)"
proof -
  have s: "sorted_wrt (<) (map fst xs)" using assms by (simp add: registry_ok_def)
  have pos: "\<forall>x\<in>set xs. 0 < snd x \<Longrightarrow> \<forall>x\<in>set (deregister e xs). 0 < snd x"
    by (induction e xs rule: deregister.induct) auto
  have count: "count_list (remove1 e live) x = (if x = e then count_list live x - 1 else count_list live x)" for x
    using assms(2) by (induction live) auto
  show ?thesis
    using assms pos deregister_sorted [OF s]
    by (auto simp: registry_ok_def deregister_map [OF s] count split: option.splits)
qed

lemma min_read_epoch_ok:
  assumes "registry_ok xs live"
  shows "e \<in> set live \<Longrightarrow> min_read_epoch xs \<le> e" and "xs \<noteq> [] \<Longrightarrow> min_read_epoch xs \<in> set live"
proof -
  have pos: "0 < count_list live e \<longleftrightarrow> e \<in> set live" for e by (simp add: count_list_0_iff flip: neq0_conv)
  show "min_read_epoch xs \<le> e" if "e \<in> set live"
  proof -
    have "map_of xs e \<noteq> None" using that pos [of e] assms by (auto simp: registry_ok_def split: option.splits)
    then have "e \<in> fst ` set xs" by (simp add: map_of_eq_None_iff)
    moreover have "sorted_wrt (<) (map fst xs)" using assms by (simp add: registry_ok_def)
    ultimately show ?thesis by (cases xs) (auto simp: min_read_epoch_def less_imp_le)
  qed
  show "min_read_epoch xs \<in> set live" if ne: "xs \<noteq> []"
  proof -
    obtain x n ys where xs: "xs = (x, n) # ys" using ne by (cases xs) auto
    then have "count_list live x = n" "0 < n" using assms by (simp_all add: registry_ok_def)
    then show ?thesis using pos [of x] xs by (simp add: min_read_epoch_def)
  qed
qed

lemma registry_ok_cong: "registry_ok xs live \<Longrightarrow> mset live = mset live' \<Longrightarrow> registry_ok xs live'"
  by (simp add: registry_ok_def flip: count_mset)

section \<open>Transactions\<close>

text \<open>How far a transaction is on the commit path, with the keys of its writes and of its certified reads.\<close>

datatype commit_phase =
  Running
| Pruning u64 "WriteKey list" "WriteKey list"
| Probing "WriteKey list" "WriteKey list"
| WritesClear "WriteKey list" "WriteKey list"
| ReadsClear "WriteKey list" "WriteKey list"
| Versioned "WriteKey list" "WriteKey list" u64
| Admitted "WriteKey list" "WriteKey list"
| Refused "WriteKey list" "WriteKey list" MongrelError

text \<open>The last three fields are history, read by no step: the greatest prune minimum taken before the
  transaction registered, and the number of recorded commits when it probed for its writes and when it
  read the version.\<close>

record validating_txn =
  tx_read :: epoch
  tx_phase :: commit_phase
  tx_taken :: epoch
  tx_before :: nat
  tx_at_version :: nat

text \<open>\<open>va_pending\<close> are the read epochs of transactions that are not registered yet, \<open>va_log\<close> is the history of
  recorded commits and \<open>va_taken\<close> the greatest prune minimum taken so far.\<close>

record validation_state =
  va_visible :: epoch
  va_assigned :: epoch
  va_index :: conflict_index
  va_active :: active_txns
  va_pending :: "epoch list"
  va_txns :: "validating_txn list"
  va_log :: commit_log
  va_taken :: epoch

definition va_live :: "validation_state \<Rightarrow> epoch list" where
  "va_live s = map tx_read (va_txns s)"

definition overtaken :: "validating_txn \<Rightarrow> bool" where
  "overtaken t \<longleftrightarrow> tx_read t < tx_taken t"

definition validation_init :: "validation_state \<Rightarrow> bool" where
  "validation_init s \<longleftrightarrow>
     va_index s = conflict_index_new \<and> va_active s = [] \<and> va_pending s = [] \<and> va_txns s = [] \<and> va_log s = [] \<and>
     va_taken s = 0 \<and> va_visible s \<le> va_assigned s"

definition read_visible :: "validation_state \<Rightarrow> validation_state" where
  "read_visible s = s\<lparr>va_pending := va_visible s # va_pending s\<rparr>"

definition begin_at :: "epoch \<Rightarrow> validation_state \<Rightarrow> validation_state" where
  "begin_at e s = s\<lparr>va_pending := remove1 e (va_pending s), va_active := register e (va_active s),
     va_txns := \<lparr>tx_read = e, tx_phase = Running, tx_taken = va_taken s, tx_before = 0, tx_at_version = 0\<rparr> # va_txns s\<rparr>"

definition end_txn :: "nat \<Rightarrow> validation_state \<Rightarrow> validation_state" where
  "end_txn i s = s\<lparr>va_active := deregister (tx_read (va_txns s ! i)) (va_active s),
     va_txns := take i (va_txns s) @ drop (Suc i) (va_txns s)\<rparr>"

text \<open>The commit path, one shared access at a time. A transaction that fails for another reason, or whose
  append to the write-ahead log fails, ends without a record.\<close>

definition take_minimum ::
    "WriteKey list \<Rightarrow> WriteKey list \<Rightarrow> validation_state \<Rightarrow> validating_txn \<Rightarrow> (validating_txn \<times> validation_state) option" where
  "take_minimum write_keys ssi_keys s t =
     (let min_active = min_read_epoch (va_active s)
      in if tx_phase t = Running
         then Some (t\<lparr>tx_phase := Pruning min_active write_keys ssi_keys\<rparr>,
           s\<lparr>va_taken := (if min_active < max_u64 then max (va_taken s) min_active else va_taken s)\<rparr>)
         else None)"

definition sequencer_turn ::
    "(WriteKey \<Rightarrow> u64) \<Rightarrow> WriteKey list \<Rightarrow> WriteKey list \<Rightarrow> u64 \<Rightarrow> validation_state \<Rightarrow> validating_txn \<Rightarrow>
     (validating_txn \<times> validation_state) option" where
  "sequencer_turn hash write_keys ssi_keys pre_validate_version s t =
     (case sequencer_recheck hash (va_index s) write_keys ssi_keys (tx_read t) pre_validate_version of
        Inl err \<Rightarrow> Some (t\<lparr>tx_phase := Refused write_keys ssi_keys err\<rparr>, s)
      | Inr _ \<Rightarrow>
          if va_assigned s = max_u64 then None
          else (let new_epoch = va_assigned s + 1
                in Some (t\<lparr>tx_phase := Admitted write_keys ssi_keys\<rparr>,
                     s\<lparr>va_assigned := new_epoch, va_index := record_keys hash (va_index s) write_keys new_epoch,
                       va_log := va_log s @ [(write_keys, new_epoch)]\<rparr>)))"

definition commit_turn ::
    "(WriteKey \<Rightarrow> u64) \<Rightarrow> validation_state \<Rightarrow> validating_txn \<Rightarrow> (validating_txn \<times> validation_state) option" where
  "commit_turn hash s t =
     (case tx_phase t of
        Pruning m W S \<Rightarrow> Some (t\<lparr>tx_phase := Probing W S\<rparr>, s\<lparr>va_index := opportunistic_prune m (va_index s)\<rparr>)
      | Probing W S \<Rightarrow>
          (case pre_validate_writes hash (va_index s) W (tx_read t) of
             Inl err \<Rightarrow> Some (t\<lparr>tx_phase := Refused W S err\<rparr>, s)
           | Inr _ \<Rightarrow> Some (t\<lparr>tx_phase := WritesClear W S, tx_before := length (va_log s)\<rparr>, s))
      | WritesClear W S \<Rightarrow>
          (case pre_validate_reads hash (va_index s) S (tx_read t) of
             Inl err \<Rightarrow> Some (t\<lparr>tx_phase := Refused W S err\<rparr>, s)
           | Inr _ \<Rightarrow> Some (t\<lparr>tx_phase := ReadsClear W S\<rparr>, s))
      | ReadsClear W S \<Rightarrow>
          Some (t\<lparr>tx_phase := Versioned W S (ci_version (va_index s)), tx_at_version := length (va_log s)\<rparr>, s)
      | Versioned W S v \<Rightarrow> sequencer_turn hash W S v s t
      | _ \<Rightarrow> None)"

definition on_txn ::
    "nat \<Rightarrow> (validation_state \<Rightarrow> validating_txn \<Rightarrow> (validating_txn \<times> validation_state) option) \<Rightarrow> validation_state \<Rightarrow> validation_state option" where
  "on_txn i f s =
     (if i < length (va_txns s)
      then map_option (\<lambda>(t, s'). s'\<lparr>va_txns := (va_txns s)[i := t]\<rparr>) (f s (va_txns s ! i)) else None)"

text \<open>What may happen next. Other commits, such as schema changes, take an epoch without a record in the
  index, and the watermark advances to an assigned epoch.\<close>

datatype validation_action =
  ReadVisible | Register epoch | EndTxn nat | TakeMinimum nat "WriteKey list" "WriteKey list" | CommitTurn nat | OtherCommit | Publish epoch

fun act :: "(WriteKey \<Rightarrow> u64) \<Rightarrow> validation_action \<Rightarrow> validation_state \<Rightarrow> validation_state option" where
  "act hash ReadVisible s = Some (read_visible s)"
| "act hash (Register e) s = (if e \<in> set (va_pending s) then Some (begin_at e s) else None)"
| "act hash (EndTxn i) s = (if i < length (va_txns s) then Some (end_txn i s) else None)"
| "act hash (TakeMinimum i W S) s = on_txn i (take_minimum W S) s"
| "act hash (CommitTurn i) s = on_txn i (commit_turn hash) s"
| "act hash OtherCommit s = (if va_assigned s = max_u64 then None else Some (s\<lparr>va_assigned := va_assigned s + 1\<rparr>))"
| "act hash (Publish v) s = (if va_visible s \<le> v \<and> v \<le> va_assigned s then Some (s\<lparr>va_visible := v\<rparr>) else None)"

inductive split_step :: "(WriteKey \<Rightarrow> u64) \<Rightarrow> validation_state \<Rightarrow> validation_state \<Rightarrow> bool"
  for hash :: "WriteKey \<Rightarrow> u64" where
  split_act: "act hash a s = Some s' \<Longrightarrow> split_step hash s s'"

section \<open>The invariant\<close>

lemma ci_floor_record [simp]: "ci_floor (record_keys hash ci keys e) = ci_floor ci"
  by (simp add: record_keys_def split: prod.splits)

lemma ci_floor_prune [simp]: "ci_floor (prune_below ci f) = max (ci_floor ci) f"
  by (simp add: prune_below_def Let_def)

lemma ci_version_record [simp]: "ci_version (record_keys hash ci keys e) = ci_version ci + 1"
  by (simp add: record_keys_def split: prod.splits)

lemma ci_version_prune [simp]: "ci_version (prune_below ci f) = ci_version ci"
  by (simp add: prune_below_def Let_def)

lemma invalidated_append [simp]: "invalidated log (ks @ ks') read \<longleftrightarrow> invalidated log ks read \<or> invalidated log ks' read"
  by (auto simp: invalidated_def)

lemma invalidated_Nil [simp]: "\<not> invalidated log [] read"
  by (simp add: invalidated_def)

lemma invalidated_mono: "invalidated log ks read \<Longrightarrow> set log \<subseteq> set log' \<Longrightarrow> invalidated log' ks read"
  by (auto simp: invalidated_def)

text \<open>What a probe found out stays true of the commits recorded before it.\<close>

definition clear_before :: "commit_log \<Rightarrow> validating_txn \<Rightarrow> WriteKey list \<Rightarrow> bool" where
  "clear_before log t keys \<longleftrightarrow> tx_before t \<le> length log \<and> (\<not> overtaken t \<longrightarrow> \<not> invalidated (take (tx_before t) log) keys (tx_read t))"

definition phase_ok :: "commit_log \<Rightarrow> epoch \<Rightarrow> validating_txn \<Rightarrow> bool" where
  "phase_ok log taken t \<longleftrightarrow>
     (case tx_phase t of
        Pruning m W S \<Rightarrow> m < max_u64 \<longrightarrow> m \<le> taken
      | WritesClear W S \<Rightarrow> clear_before log t W
      | ReadsClear W S \<Rightarrow> clear_before log t (W @ S)
      | Versioned W S v \<Rightarrow> clear_before log t (W @ S) \<and> v = of_nat (tx_at_version t) \<and>
          tx_before t \<le> tx_at_version t \<and> tx_at_version t \<le> length log
      | Refused W S err \<Rightarrow> invalidated log (W @ S) (tx_read t)
      | _ \<Rightarrow> True)"

definition txn_ok :: "commit_log \<Rightarrow> epoch \<Rightarrow> epoch \<Rightarrow> validating_txn \<Rightarrow> bool" where
  "txn_ok log taken visible t \<longleftrightarrow>
     tx_read t \<le> visible \<and> (\<not> overtaken t \<longrightarrow> taken \<le> tx_read t) \<and> phase_ok log taken t"

definition validation_inv :: "(WriteKey \<Rightarrow> u64) \<Rightarrow> validation_state \<Rightarrow> bool" where
  "validation_inv hash s \<longleftrightarrow>
     index_rep hash (va_index s) (va_log s) \<and> ci_version (va_index s) = of_nat (length (va_log s)) \<and>
     ci_floor (va_index s) \<le> va_taken s \<and> va_taken s \<le> va_visible s \<and> va_visible s \<le> va_assigned s \<and>
     (\<forall>c\<in>set (va_log s). snd c \<le> va_assigned s) \<and> (\<forall>e\<in>set (va_pending s). e \<le> va_visible s) \<and>
     registry_ok (va_active s) (va_live s) \<and> (\<forall>t\<in>set (va_txns s). txn_ok (va_log s) (va_taken s) (va_visible s) t)"

lemma clear_before_extend: "clear_before log t keys \<Longrightarrow> clear_before (log @ ext) t keys"
  by (simp add: clear_before_def)

lemma txn_ok_extend:
  assumes "txn_ok log taken visible t" and "taken \<le> taken'" and "visible \<le> visible'"
    and "\<not> overtaken t \<Longrightarrow> taken' \<le> tx_read t"
  shows "txn_ok (log @ ext) taken' visible' t"
proof -
  have "phase_ok (log @ ext) taken' t"
    using assms(1,2) by (auto simp: txn_ok_def phase_ok_def clear_before_extend intro: invalidated_mono split: commit_phase.splits)
  then show ?thesis using assms by (auto simp: txn_ok_def)
qed

lemmas txn_ok_later = txn_ok_extend [where ext = "[]", simplified]

lemma not_overtaken_floor:
  assumes "validation_inv hash s" and "t \<in> set (va_txns s)" and "\<not> overtaken t"
  shows "ci_floor (va_index s) \<le> tx_read t"
  using assms by (auto simp: validation_inv_def txn_ok_def intro: order_trans)

lemma probe_exact:
  assumes "validation_inv hash s" and "t \<in> set (va_txns s)" and "\<not> overtaken t"
  shows "conflicts hash (va_index s) keys (tx_read t) \<longleftrightarrow> invalidated (va_log s) keys (tx_read t)"
  using assms(1) not_overtaken_floor [OF assms] by (intro conflicts_exact) (simp_all add: validation_inv_def)

lemma probe_sound:
  assumes "validation_inv hash s" and "conflicts hash (va_index s) keys read"
  shows "invalidated (va_log s) keys read"
  using assms by (auto simp: validation_inv_def intro: conflicts_sound)

text \<open>Replacing a transaction by one with the same read epoch.\<close>

lemma set_txn:
  assumes "validation_inv hash s" and i: "i < length (va_txns s)" and "tx_read t' = tx_read (va_txns s ! i)"
    and "txn_ok (va_log s) (va_taken s) (va_visible s) t'"
  shows "validation_inv hash (s\<lparr>va_txns := (va_txns s)[i := t']\<rparr>)"
proof -
  have "map tx_read ((va_txns s)[i := t']) = map tx_read (va_txns s)"
    using i assms(3) by (simp add: map_update list_update_same_conv)
  then show ?thesis using assms(1,4) by (auto simp: validation_inv_def va_live_def dest!: set_update_subset_insert [THEN subsetD])
qed

lemma read_visible_inv: "validation_inv hash s \<Longrightarrow> validation_inv hash (read_visible s)"
  by (auto simp: validation_inv_def read_visible_def va_live_def)

lemma begin_at_inv:
  assumes "validation_inv hash s" and "e \<in> set (va_pending s)"
  shows "validation_inv hash (begin_at e s)"
proof -
  have "e \<le> va_visible s" using assms by (simp add: validation_inv_def)
  moreover have "registry_ok (register e (va_active s)) (e # va_live s)"
    using assms(1) by (intro register_ok) (simp add: validation_inv_def)
  ultimately show ?thesis
    using assms(1) by (auto simp: validation_inv_def begin_at_def va_live_def txn_ok_def phase_ok_def overtaken_def
        dest: set_remove1_subset [THEN subsetD])
qed

lemma end_txn_inv:
  assumes inv: "validation_inv hash s" and i: "i < length (va_txns s)"
  shows "validation_inv hash (end_txn i s)"
proof -
  let ?xs = "va_txns s" and ?e = "tx_read (va_txns s ! i)"
  have split: "?xs = take i ?xs @ ?xs ! i # drop (Suc i) ?xs" using i by (rule id_take_nth_drop)
  have "registry_ok (va_active s) (va_live s)" using inv by (simp add: validation_inv_def)
  moreover have "?e \<in> set (va_live s)" using i by (simp add: va_live_def)
  ultimately have "registry_ok (deregister ?e (va_active s)) (remove1 ?e (va_live s))" by (rule deregister_ok)
  moreover have "mset (remove1 ?e (va_live s)) = mset (map tx_read (take i ?xs @ drop (Suc i) ?xs))"
  proof -
    have "mset (va_live s) = mset (map tx_read (take i ?xs)) + {#?e#} + mset (map tx_read (drop (Suc i) ?xs))"
      unfolding va_live_def by (subst split) (simp only: map_append list.map mset_append mset.simps, simp)
    then show ?thesis by simp
  qed
  ultimately have "registry_ok (deregister ?e (va_active s)) (map tx_read (take i ?xs @ drop (Suc i) ?xs))"
    by (rule registry_ok_cong)
  moreover have "set (take i ?xs @ drop (Suc i) ?xs) \<subseteq> set ?xs" by (auto dest: in_set_takeD in_set_dropD)
  ultimately show ?thesis using inv by (auto simp: validation_inv_def end_txn_def va_live_def)
qed

lemma take_minimum_inv:
  assumes inv: "validation_inv hash s" and i: "i < length (va_txns s)"
    and out: "take_minimum W S s (va_txns s ! i) = Some (t', s')"
  shows "validation_inv hash (s'\<lparr>va_txns := (va_txns s)[i := t']\<rparr>)"
proof -
  let ?m = "min_read_epoch (va_active s)" and ?t = "va_txns s ! i"
  have t: "?t \<in> set (va_txns s)" using i by simp
  have reg: "registry_ok (va_active s) (va_live s)" using inv by (simp add: validation_inv_def)
  have out': "t' = ?t\<lparr>tx_phase := Pruning ?m W S\<rparr>" "s' = s\<lparr>va_taken := if ?m < max_u64 then max (va_taken s) ?m else va_taken s\<rparr>"
    using out by (auto simp: take_minimum_def Let_def split: if_splits)
  have low: "?m \<le> tx_read u" if "u \<in> set (va_txns s)" for u
    by (rule min_read_epoch_ok(1) [OF reg]) (use that in \<open>simp add: va_live_def\<close>)
  have vis: "?m \<le> va_visible s" using low [OF t] inv t by (auto simp: validation_inv_def txn_ok_def intro: order_trans)
  have "txn_ok (va_log s) (va_taken s') (va_visible s) u" if "u \<in> set (va_txns s)" for u
    by (rule txn_ok_later [of _ "va_taken s" "va_visible s"])
      (use that inv low [OF that] out'(2) in \<open>auto simp: validation_inv_def txn_ok_def\<close>)
  with inv vis have "validation_inv hash s'" by (auto simp: validation_inv_def out'(2) va_live_def le_max_iff_disj)
  then have "validation_inv hash (s'\<lparr>va_txns := (va_txns s')[i := t']\<rparr>)"
  proof (rule set_txn)
    have "txn_ok (va_log s) (va_taken s') (va_visible s) ?t" using \<open>validation_inv hash s'\<close> t by (auto simp: validation_inv_def out'(2))
    then show "txn_ok (va_log s') (va_taken s') (va_visible s') t'"
      by (auto simp: out' txn_ok_def phase_ok_def overtaken_def)
  qed (use i in \<open>simp_all add: out'\<close>)
  then show ?thesis by (simp add: out'(2))
qed

lemma prune_turn_inv:
  assumes inv: "validation_inv hash s" and "m < max_u64 \<Longrightarrow> m \<le> va_taken s"
  shows "validation_inv hash (s\<lparr>va_index := opportunistic_prune m (va_index s)\<rparr>)"
  using assms by (auto simp: validation_inv_def va_live_def prune_rep opportunistic_prune_def)

lemma record_turn_inv:
  assumes inv: "validation_inv hash s" and "va_assigned s \<noteq> max_u64"
  shows "validation_inv hash (s\<lparr>va_assigned := va_assigned s + 1, va_index := record_keys hash (va_index s) keys (va_assigned s + 1),
    va_log := va_log s @ [(keys, va_assigned s + 1)]\<rparr>)"
proof -
  have up: "x \<le> va_assigned s + 1" if "x \<le> va_assigned s" for x
    using that word_less_inc [OF assms(2)] by (meson less_imp_le order_trans)
  have "snd c \<le> va_assigned s + 1" if "c \<in> set (va_log s)" for c using inv that by (intro up) (simp add: validation_inv_def)
  moreover have "va_visible s \<le> va_assigned s + 1" using inv by (intro up) (simp add: validation_inv_def)
  moreover have "txn_ok (va_log s @ [(keys, va_assigned s + 1)]) (va_taken s) (va_visible s) t" if "t \<in> set (va_txns s)" for t
    by (rule txn_ok_extend [of _ "va_taken s" "va_visible s"]) (use that inv in \<open>auto simp: validation_inv_def txn_ok_def\<close>)
  ultimately show ?thesis using inv by (auto simp: validation_inv_def va_live_def intro!: record_rep)
qed

lemma clean_phases:
  assumes "validation_inv hash s" and "t \<in> set (va_txns s)"
  shows "\<not> conflicts hash (va_index s) W (tx_read t) \<Longrightarrow> \<not> overtaken t \<Longrightarrow> \<not> invalidated (take n (va_log s)) W (tx_read t)"
  using probe_exact [OF assms] invalidated_mono [OF _ set_take_subset, of n "va_log s" W "tx_read t"] by blast

lemma recheck_sound:
  assumes "validation_inv hash s" and "sequencer_recheck hash (va_index s) W S read v = Inl err"
  shows "invalidated (va_log s) (W @ S) read"
  using assms(2) probe_sound [OF assms(1)] by (auto simp: sequencer_recheck_def split: if_splits)

lemma recheck_exact:
  assumes inv: "validation_inv hash s" and t: "t \<in> set (va_txns s)" "tx_phase t = Versioned W S v" and "\<not> overtaken t"
    and "tx_before t = tx_at_version t" and few: "length (va_log s) - tx_at_version t < 2 ^ 64"
  shows "sequencer_recheck hash (va_index s) W S (tx_read t) v = Inr () \<longleftrightarrow> \<not> invalidated (va_log s) (W @ S) (tx_read t)"
proof -
  have ok: "clear_before (va_log s) t (W @ S)" "v = of_nat (tx_at_version t)" "tx_at_version t \<le> length (va_log s)"
    using inv t by (auto simp: validation_inv_def txn_ok_def phase_ok_def)
  have ver: "ci_version (va_index s) = of_nat (length (va_log s))" using inv by (simp add: validation_inv_def)
  note exact = probe_exact [OF inv t(1) assms(4)]
  show ?thesis
  proof (cases "tx_at_version t = length (va_log s)")
    case True
    then show ?thesis using ok ver assms(4,5) by (simp add: sequencer_recheck_def clear_before_def)
  next
    case False
    define n where "n = length (va_log s) - tx_at_version t"
    have n: "length (va_log s) = tx_at_version t + n" "0 < n" "n < 2 ^ 64" using ok(3) False few by (simp_all add: n_def)
    have "of_nat n \<noteq> (0 :: u64)" using n(2,3) by (simp add: word_of_nat_eq_0_iff nat_dvd_not_less)
    then have "ci_version (va_index s) \<noteq> v" by (simp add: ver ok(2) n(1))
    then show ?thesis using exact by (auto simp: sequencer_recheck_def)
  qed
qed

lemma commit_turn_inv:
  assumes inv: "validation_inv hash s" and i: "i < length (va_txns s)"
    and out: "commit_turn hash s (va_txns s ! i) = Some (t', s')"
  shows "validation_inv hash (s'\<lparr>va_txns := (va_txns s)[i := t']\<rparr>)"
proof -
  let ?t = "va_txns s ! i"
  have t: "?t \<in> set (va_txns s)" using i by simp
  have ok: "txn_ok (va_log s) (va_taken s) (va_visible s) ?t" using inv t by (simp add: validation_inv_def)
  have ok': "tx_read ?t \<le> va_visible s" "\<not> overtaken ?t \<Longrightarrow> va_taken s \<le> tx_read ?t" "phase_ok (va_log s) (va_taken s) ?t"
    using ok by (simp_all add: txn_ok_def)
  have put: "validation_inv hash (s1\<lparr>va_txns := (va_txns s)[i := t']\<rparr>)"
    if "validation_inv hash s1" "va_txns s1 = va_txns s" "va_taken s1 = va_taken s" "va_visible s1 = va_visible s"
      "tx_read t' = tx_read ?t" "tx_taken t' = tx_taken ?t" "phase_ok (va_log s1) (va_taken s) t'" for s1
  proof -
    have "overtaken t' = overtaken ?t" using that(5,6) by (simp add: overtaken_def)
    then have "txn_ok (va_log s1) (va_taken s1) (va_visible s1) t'" using that(3-7) ok' by (simp add: txn_ok_def)
    then show ?thesis using set_txn [OF that(1), of i t'] that(2,5) i by simp
  qed
  show ?thesis
  proof (cases "tx_phase ?t")
    case (Pruning m W S)
    have "validation_inv hash (s\<lparr>va_index := opportunistic_prune m (va_index s)\<rparr>)"
      by (rule prune_turn_inv [OF inv]) (use ok'(3) Pruning in \<open>simp add: phase_ok_def\<close>)
    from put [OF this] show ?thesis using out Pruning by (auto simp: commit_turn_def phase_ok_def)
  next
    case (Probing W S)
    show ?thesis
    proof (cases "conflicts hash (va_index s) W (tx_read ?t)")
      case True
      then have "invalidated (va_log s) W (tx_read ?t)" by (rule probe_sound [OF inv])
      then show ?thesis using put [OF inv] out Probing True by (auto simp: commit_turn_def phase_ok_def pre_validate_writes_def)
    next
      case False
      then show ?thesis using put [OF inv] out Probing clean_phases [OF inv t False, of "length (va_log s)"]
        by (auto simp: commit_turn_def phase_ok_def pre_validate_writes_def clear_before_def overtaken_def)
    qed
  next
    case (WritesClear W S)
    have before: "clear_before (va_log s) ?t W" using ok'(3) WritesClear by (simp add: phase_ok_def)
    show ?thesis
    proof (cases "S \<noteq> [] \<and> conflicts hash (va_index s) S (tx_read ?t)")
      case True
      then have "invalidated (va_log s) S (tx_read ?t)" using probe_sound [OF inv] by blast
      then show ?thesis using put [OF inv] out WritesClear True by (auto simp: commit_turn_def phase_ok_def pre_validate_reads_def)
    next
      case False
      then have "\<not> overtaken ?t \<Longrightarrow> \<not> invalidated (take (tx_before ?t) (va_log s)) S (tx_read ?t)"
        using clean_phases [OF inv t] by (cases "S = []") auto
      then show ?thesis using put [OF inv] out WritesClear False before
        by (auto simp: commit_turn_def phase_ok_def pre_validate_reads_def clear_before_def overtaken_def)
    qed
  next
    case (ReadsClear W S)
    then have "clear_before (va_log s) ?t (W @ S)" using ok'(3) by (simp add: phase_ok_def)
    moreover have "ci_version (va_index s) = of_nat (length (va_log s))" using inv by (simp add: validation_inv_def)
    ultimately show ?thesis using put [OF inv] out ReadsClear
      by (auto simp: commit_turn_def phase_ok_def clear_before_def overtaken_def)
  next
    case (Versioned W S v)
    show ?thesis
    proof (cases "sequencer_recheck hash (va_index s) W S (tx_read ?t) v")
      case (Inl err)
      then show ?thesis using put [OF inv] out Versioned recheck_sound [OF inv Inl]
        by (auto simp: commit_turn_def sequencer_turn_def phase_ok_def)
    next
      case (Inr u)
      then have na: "va_assigned s \<noteq> max_u64" using out Versioned by (auto simp: commit_turn_def sequencer_turn_def split: if_splits)
      from put [OF record_turn_inv [OF inv na, of W]] show ?thesis using out Versioned Inr na
        by (auto simp: commit_turn_def sequencer_turn_def phase_ok_def Let_def)
    qed
  qed (use out in \<open>simp_all add: commit_turn_def\<close>)
qed

lemma split_step_inv:
  assumes "split_step hash s s'" and inv: "validation_inv hash s"
  shows "validation_inv hash s'"
proof -
  obtain a where "act hash a s = Some s'" using assms(1) by cases
  then show ?thesis
  proof (cases a)
    case OtherCommit
    then have s': "va_assigned s \<noteq> max_u64" "s' = s\<lparr>va_assigned := va_assigned s + 1\<rparr>"
      using \<open>act hash a s = Some s'\<close> by (auto split: if_splits)
    have "x \<le> va_assigned s + 1" if "x \<le> va_assigned s" for x
      using that word_less_inc [OF s'(1)] by (meson less_imp_le order_trans)
    with inv show ?thesis by (simp add: validation_inv_def s'(2) va_live_def)
  next
    case (Publish v)
    then have s': "va_visible s \<le> v" "v \<le> va_assigned s" "s' = s\<lparr>va_visible := v\<rparr>"
      using \<open>act hash a s = Some s'\<close> by (auto split: if_splits)
    then show ?thesis using inv by (auto simp: validation_inv_def va_live_def txn_ok_def)
  qed (use inv in \<open>auto simp: on_txn_def read_visible_inv begin_at_inv end_txn_inv take_minimum_inv commit_turn_inv split: if_splits\<close>)
qed

interpretation validation: guarded_system validation_init "split_step hash" "validation_inv hash" for hash
proof
  show "validation_inv hash s" if "validation_init s" for s
    using that by (simp add: validation_init_def validation_inv_def index_rep_new registry_ok_def va_live_def)
      (simp add: conflict_index_new_def)
qed (rule split_step_inv)


section \<open>Runs\<close>

fun validation_run :: "(WriteKey \<Rightarrow> u64) \<Rightarrow> validation_action list \<Rightarrow> validation_state \<Rightarrow> validation_state option" where
  "validation_run hash [] s = Some s"
| "validation_run hash (a # as) s = Option.bind (act hash a s) (validation_run hash as)"

lemma validation_run_reach:
  "validation_run hash as s = Some s' \<Longrightarrow> reach validation_init (split_step hash) s \<Longrightarrow> reach validation_init (split_step hash) s'"
proof (induction as arbitrary: s)
  case (Cons a as)
  then obtain y where y: "act hash a s = Some y" "validation_run hash as y = Some s'" by (auto simp: bind_eq_Some_conv)
  show ?case by (rule Cons.IH [OF y(2) reach_step [OF Cons.prems(2) split_act [OF y(1)]]])
qed simp

definition sample_row :: WriteKey where
  "sample_row = RowKey 1 7"

definition sample_start_state :: validation_state where
  "sample_start_state = \<lparr>va_visible = 1, va_assigned = 1, va_index = conflict_index_new, va_active = [], va_pending = [],
     va_txns = [], va_log = [], va_taken = 0\<rparr>"

lemma sample_start_reach: "reach validation_init step sample_start_state"
  by (rule reach_init) (simp add: validation_init_def sample_start_state_def)

text \<open>Two transactions begin at epoch 1 to write the same key. The older one, at position 1, makes a number of
  turns of its commit, then the younger one commits.\<close>

definition racing_actions :: "nat \<Rightarrow> WriteKey \<Rightarrow> validation_action list" where
  "racing_actions turns k =
     [ReadVisible, Register 1, ReadVisible, Register 1, TakeMinimum 1 [k] []] @ replicate turns (CommitTurn 1) @
     TakeMinimum 0 [k] [] # replicate 5 (CommitTurn 0)"

definition quiet_index :: conflict_index where
  "quiet_index = prune_below conflict_index_new 1"

lemma quiet_index_simps [simp]:
  "opportunistic_prune 1 conflict_index_new = quiet_index" "opportunistic_prune 1 quiet_index = quiet_index"
  "ci_version quiet_index = 0" "\<not> conflicts hash quiet_index [k] 1"
proof -
  show "opportunistic_prune 1 conflict_index_new = quiet_index" by (simp add: opportunistic_prune_def quiet_index_def)
  show "opportunistic_prune 1 quiet_index = quiet_index"
    by (simp add: opportunistic_prune_def quiet_index_def prune_below_def Let_def conflict_index_new_def)
  show "ci_version quiet_index = 0" by (simp add: quiet_index_def conflict_index_new_def)
  have "index_rep hash quiet_index []" unfolding quiet_index_def by (intro prune_rep index_rep_new)
  moreover have "ci_floor quiet_index \<le> 1" by (simp add: quiet_index_def conflict_index_new_def)
  ultimately show "\<not> conflicts hash quiet_index [k] 1" by (simp add: conflicts_exact invalidated_def)
qed

definition racing_txn :: "commit_phase \<Rightarrow> nat \<Rightarrow> nat \<Rightarrow> validating_txn" where
  "racing_txn phase before at = \<lparr>tx_read = 1, tx_phase = phase, tx_taken = 0, tx_before = before, tx_at_version = at\<rparr>"

definition raced :: "(WriteKey \<Rightarrow> u64) \<Rightarrow> WriteKey \<Rightarrow> validating_txn \<Rightarrow> validation_state" where
  "raced hash k t = \<lparr>va_visible = 1, va_assigned = 2, va_index = record_keys hash quiet_index [k] 2, va_active = [(1, 2)],
     va_pending = [], va_txns = [racing_txn (Admitted [k] []) 0 0, t], va_log = [([k], 2)], va_taken = 1\<rparr>"

lemmas run_simps = read_visible_def begin_at_def on_txn_def take_minimum_def commit_turn_def sequencer_turn_def
  pre_validate_writes_def pre_validate_reads_def sequencer_recheck_def min_read_epoch_def Let_def

lemma replicate_small [simp]:
  "replicate 3 x = [x, x, x]" "replicate 4 x = [x, x, x, x]" "replicate 5 x = [x, x, x, x, x]"
  by (simp_all add: numeral_eq_Suc)

lemma raced_run:
  "validation_run hash (racing_actions 3 k) sample_start_state = Some (raced hash k (racing_txn (ReadsClear [k] []) 0 0))"
  "validation_run hash (racing_actions 4 k) sample_start_state = Some (raced hash k (racing_txn (Versioned [k] [] 0) 0 0))"
  by (simp_all add: racing_actions_def sample_start_state_def raced_def racing_txn_def run_simps)

lemmas raced_reach = raced_run [THEN validation_run_reach, OF sample_start_reach]

section \<open>Properties\<close>

text \<open>C14: Pruning loses no conflict of a transaction that was not overtaken. In every state of transactions
  that begin, prune, probe, commit and end in any interleaving, a hit of the index is a commit after
  the read epoch that wrote an equal key or covers the table of one. For a registered transaction the
  index answers exactly whether there is such a commit, provided that no prune minimum above its read
  epoch was taken before it registered.\<close>

theorem pruned_index_is_exact:
  assumes "reach validation_init (split_step hash) s" and "t \<in> set (va_txns s)"
  shows "(conflicts hash (va_index s) keys (tx_read t) \<longrightarrow> invalidated (va_log s) keys (tx_read t)) \<and>
    (\<not> overtaken t \<longrightarrow> (conflicts hash (va_index s) keys (tx_read t) \<longleftrightarrow> invalidated (va_log s) keys (tx_read t)))"
  using probe_sound probe_exact [OF _ assms(2)] validation.reach_inv [OF assms(1)] by blast

theorem pruned_index_is_exact_witness:
  "\<exists>s. reach validation_init (split_step (\<lambda>_. 0)) s \<and> va_live s = [1, 1] \<and> ci_floor (va_index s) = 1 \<and>
     conflicts (\<lambda>_. 0) (va_index s) [TableKey 1] 1 \<and> \<not> conflicts (\<lambda>_. 0) (va_index s) [RowKey 1 8] 1"
proof -
  let ?t = "racing_txn (ReadsClear [sample_row] []) 0 0"
  let ?s = "raced (\<lambda>_. 0) sample_row ?t"
  have t: "?t \<in> set (va_txns ?s)" "\<not> overtaken ?t" "tx_read ?t = 1"
    by (simp_all add: raced_def racing_txn_def overtaken_def)
  have "invalidated (va_log ?s) [TableKey 1] 1" "\<not> invalidated (va_log ?s) [RowKey 1 8] 1"
    by (simp_all add: raced_def invalidated_def interferes_def sample_row_def)
  then have "conflicts (\<lambda>_. 0) (va_index ?s) [TableKey 1] 1" "\<not> conflicts (\<lambda>_. 0) (va_index ?s) [RowKey 1 8] 1"
    using pruned_index_is_exact [OF raced_reach(1) t(1)] t(2,3) by auto
  moreover have "va_live ?s = [1, 1]" "ci_floor (va_index ?s) = 1"
    by (simp_all add: raced_def va_live_def racing_txn_def quiet_index_def conflict_index_new_def)
  ultimately show ?thesis by (intro exI [of _ ?s] conjI raced_reach(1))
qed

text \<open>A transaction that registers the watermark it read before any other step is not overtaken.\<close>

lemma undisturbed_begin_is_not_overtaken:
  assumes "reach validation_init (split_step hash) s"
  shows "\<not> overtaken (hd (va_txns (begin_at (va_visible s) (read_visible s))))"
  using validation.reach_inv [OF assms]
  by (simp add: begin_at_def read_visible_def overtaken_def validation_inv_def not_less)

text \<open>C17: Two-phase validation. A refusal, before the sequencer or in it, is always justified: some commit
  after the read epoch invalidated a write or a certified read of the transaction. Conversely, take a
  transaction that has read the version, was not overtaken when it began, and between whose probe and
  whose reading of the version no commit was recorded. If fewer than \<open>2\<^sup>6\<^sup>4\<close> commits were recorded since,
  the sequencer lets it pass exactly if no commit after its read epoch invalidated its writes or its
  certified reads.\<close>

theorem two_phase_validation_exact:
  assumes "reach validation_init (split_step hash) s" and "t \<in> set (va_txns s)"
  shows "(tx_phase t = Refused W S err \<longrightarrow> invalidated (va_log s) (W @ S) (tx_read t)) \<and>
    (tx_phase t = Versioned W S v \<and> \<not> overtaken t \<and> tx_before t = tx_at_version t \<and>
       length (va_log s) - tx_at_version t < 2 ^ 64 \<longrightarrow>
     (sequencer_recheck hash (va_index s) W S (tx_read t) v = Inr () \<longleftrightarrow> \<not> invalidated (va_log s) (W @ S) (tx_read t)))"
proof -
  have inv: "validation_inv hash s" by (rule validation.reach_inv [OF assms(1)])
  then have "phase_ok (va_log s) (va_taken s) t" using assms(2) by (simp add: validation_inv_def txn_ok_def)
  then have "tx_phase t = Refused W S err \<longrightarrow> invalidated (va_log s) (W @ S) (tx_read t)" by (auto simp: phase_ok_def)
  then show ?thesis using recheck_exact [OF inv assms(2)] by blast
qed

theorem two_phase_validation_exact_witness:
  "\<exists>s. reach validation_init (split_step (\<lambda>_. 0)) s \<and> va_log s = [([sample_row], 2)] \<and>
     map tx_phase (va_txns s) = [Admitted [sample_row] [], Versioned [sample_row] [] 0] \<and>
     sequencer_recheck (\<lambda>_. 0) (va_index s) [sample_row] [] 1 0 \<noteq> Inr ()"
proof -
  let ?t = "racing_txn (Versioned [sample_row] [] 0) 0 0"
  let ?s = "raced (\<lambda>_. 0) sample_row ?t"
  have t: "?t \<in> set (va_txns ?s)" "tx_phase ?t = Versioned [sample_row] [] 0 \<and> \<not> overtaken ?t \<and> tx_before ?t = tx_at_version ?t \<and>
      length (va_log ?s) - tx_at_version ?t < 2 ^ 64" "tx_read ?t = 1"
    by (simp_all add: raced_def racing_txn_def overtaken_def)
  have "invalidated (va_log ?s) ([sample_row] @ []) 1" by (simp add: raced_def invalidated_def interferes_def)
  then have "sequencer_recheck (\<lambda>_. 0) (va_index ?s) [sample_row] [] 1 0 \<noteq> Inr ()"
    using two_phase_validation_exact [OF raced_reach(2) t(1), of "[sample_row]" "[]" _ 0] t(2,3) by auto
  moreover have "va_log ?s = [([sample_row], 2)]" "map tx_phase (va_txns ?s) = [Admitted [sample_row] [], Versioned [sample_row] [] 0]"
    by (simp_all add: raced_def racing_txn_def)
  ultimately show ?thesis by (intro exI [of _ ?s] conjI raced_reach(2))
qed

text \<open>C38: A commit that lands between the probe and the reading of the version is missed. For every key and
  every hash there is a run at whose end two transactions that began at the same epoch have both
  committed a write of that key, one after the other, although neither was overtaken when it began.\<close>

theorem validation_window_misses_conflict:
  "\<exists>s t u. reach validation_init (split_step hash) s \<and> va_txns s = [t, u] \<and> tx_read t = tx_read u \<and>
     tx_phase t = Admitted [k] [] \<and> tx_phase u = Admitted [k] [] \<and> \<not> overtaken t \<and> \<not> overtaken u \<and>
     (\<exists>e f. va_log s = [([k], e), ([k], f)] \<and> tx_read t < e \<and> e < f)"
proof -
  let ?s = "raced hash k (racing_txn (ReadsClear [k] []) 0 0)"
  let ?s' = "?s\<lparr>va_assigned := 3, va_index := record_keys hash (va_index ?s) [k] 3, va_log := [([k], 2), ([k], 3)],
    va_txns := [racing_txn (Admitted [k] []) 0 0, racing_txn (Admitted [k] []) 0 1]\<rparr>"
  have "validation_run hash [CommitTurn 1, CommitTurn 1] ?s = Some ?s'" by (simp add: raced_def racing_txn_def run_simps)
  then have "reach validation_init (split_step hash) ?s'" using raced_reach(1) by (rule validation_run_reach)
  moreover have "va_txns ?s' = [racing_txn (Admitted [k] []) 0 0, racing_txn (Admitted [k] []) 0 1]" "va_log ?s' = [([k], 2), ([k], 3)]"
    by simp_all
  moreover have "tx_read (racing_txn p b a) = 1" "tx_phase (racing_txn p b a) = p" "\<not> overtaken (racing_txn p b a)" for p b a
    by (simp_all add: racing_txn_def overtaken_def)
  moreover have "(1 :: epoch) < 2" "(2 :: epoch) < 3" by simp_all
  ultimately show ?thesis by metis
qed

text \<open>The run that overtakes a transaction: it reads epoch 1; another one begins, commits a row at epoch 2 and
  ends; a further commit takes epoch 3, which is published; a third transaction begins at 3 and prunes
  on the way to its commit; only then the first one registers.\<close>

definition overtaking_actions :: "validation_action list" where
  "overtaking_actions =
     [ReadVisible, ReadVisible, Register 1, TakeMinimum 0 [sample_row] []] @ replicate 5 (CommitTurn 0) @
     [EndTxn 0, OtherCommit, Publish 3, ReadVisible, Register 3, TakeMinimum 0 [] [], CommitTurn 0, Register 1]"

definition overtaken_begin :: "(WriteKey \<Rightarrow> u64) \<Rightarrow> validation_state" where
  "overtaken_begin hash =
     \<lparr>va_visible = 3, va_assigned = 3, va_index = prune_below (record_keys hash quiet_index [sample_row] 2) 3,
      va_active = [(1, 1), (3, 1)], va_pending = [],
      va_txns =
        [\<lparr>tx_read = 1, tx_phase = Running, tx_taken = 3, tx_before = 0, tx_at_version = 0\<rparr>,
         \<lparr>tx_read = 3, tx_phase = Probing [] [], tx_taken = 1, tx_before = 0, tx_at_version = 0\<rparr>],
      va_log = [([sample_row], 2)], va_taken = 3\<rparr>"

lemma overtaken_begin_reach: "reach validation_init (split_step hash) (overtaken_begin hash)"
proof -
  have prune_3: "opportunistic_prune 3 ci = prune_below ci 3" for ci by (simp add: opportunistic_prune_def)
  have "validation_run hash overtaking_actions sample_start_state = Some (overtaken_begin hash)"
    by (simp add: overtaking_actions_def sample_start_state_def overtaken_begin_def run_simps end_txn_def prune_3)
  then show ?thesis using sample_start_reach by (rule validation_run_reach)
qed

text \<open>C39: A transaction overtaken between reading its epoch and registering it can lose a conflict. A run
  reaches a state in which the index answers no for a live transaction although a commit after its read
  epoch wrote the same row: a younger transaction's epoch was the prune floor in the meantime.\<close>

theorem overtaken_begin_loses_conflict:
  "reach validation_init (split_step hash) (overtaken_begin hash) \<and> 1 \<in> set (va_live (overtaken_begin hash)) \<and>
   invalidated (va_log (overtaken_begin hash)) [sample_row] 1 \<and>
   \<not> conflicts hash (va_index (overtaken_begin hash)) [sample_row] 1"
proof -
  let ?ci = "record_keys hash quiet_index [sample_row] 2"
  have len: "length (ci_shards ?ci) = CONFLICT_SHARDS"
    by (simp add: record_keys_def quiet_index_def prune_below_def conflict_index_new_def shard_insert_def Let_def split: prod.splits)
  have fl: "ci_floor quiet_index = 1" "\<not> (3 :: u64) \<le> 1" by (simp_all add: quiet_index_def conflict_index_new_def word_le_nat_alt)
  have entry: "(ci_shards ?ci ! shard hash sample_row) sample_row = Some 2"
    by (simp add: record_keys_def quiet_index_def prune_below_def conflict_index_new_def shard_insert_def shard_less Let_def split: prod.splits)
  have "(ci_shards (prune_below ?ci 3) ! shard hash sample_row) sample_row = None"
    using len entry shard_less [of hash sample_row]
    by (simp add: prune_below_def Let_def fl retain_from_def)
  moreover have "ci_truncates (prune_below ?ci 3) 1 = None"
    by (simp add: prune_below_def Let_def fl retain_from_def)
      (simp add: record_keys_def quiet_index_def prune_below_def conflict_index_new_def sample_row_def record_tables_def retain_from_def Let_def)
  ultimately have "\<not> conflicts hash (prune_below ?ci 3) [sample_row] 1"
    by (simp add: conflicts_def after_epoch_def) (simp add: sample_row_def after_epoch_def)
  then show ?thesis
    using overtaken_begin_reach by (simp add: overtaken_begin_def va_live_def invalidated_def interferes_def)
qed

end
