(* ===== verification/Log_Types.thy ===== *)
theory Log_Types
  imports Hlc
begin

text \<open>
  Positions, durability levels and receipts of the commit log
  (\<open>crates/mongreldb-log/src/commit_log.rs\<close>).
\<close>

datatype DurabilityLevel = GroupCommit | LeaderDisk | Quorum

record log_position =
  lp_term :: u64
  lp_index :: u64

definition POSITION_ZERO :: log_position where
  "POSITION_ZERO = \<lparr>lp_term = 0, lp_index = 0\<rparr>"

record commit_receipt =
  cr_transaction_id :: "128 word"
  cr_commit_ts :: HlcTimestamp
  cr_log_position :: log_position
  cr_durability :: DurabilityLevel

end
