(* ===== verification/Transaction_Life.thy ===== *)
theory Transaction_Life
  imports Rows Log_Types
begin

text \<open>
  The life of one transaction (\<open>crates/mongreldb-core/src/txn.rs\<close>): its id, its formal state with the
  legal transitions, the classification of commit errors, the normalisation of the cells it stages,
  and the group commit that makes its record durable. The text an error displays is a parameter. The
  mutexes of the coordinator and of the log are separate critical sections.
\<close>

unbundle bit_operations_syntax

section \<open>Transaction ids\<close>

definition SYSTEM_TXN_ID :: u64 where
  "SYSTEM_TXN_ID = 0"

definition txn_ids_exhausted :: MongrelError where
  "txn_ids_exhausted = Full ''per-open transaction id namespace exhausted; reopen the database''"

definition allocate_txn_id :: "u64 \<Rightarrow> (MongrelError + u64) \<times> u64" where
  "allocate_txn_id nxt =
     (if nxt = SYSTEM_TXN_ID \<or> (nxt AND 0xFFFFFFFF) = 0 then (Inl txn_ids_exhausted, nxt)
      else case checked_add nxt 1 of
             None \<Rightarrow> (Inl txn_ids_exhausted, nxt)
           | Some nxt' \<Rightarrow> (Inr nxt, nxt'))"

definition first_txn_id :: "u64 \<Rightarrow> u64" where
  "first_txn_id open_generation = push_bit 32 open_generation OR 1"

fun allocate_many :: "nat \<Rightarrow> u64 \<Rightarrow> u64 list" where
  "allocate_many 0 nxt = []"
| "allocate_many (Suc n) nxt =
     (case allocate_txn_id nxt of
        (Inl _, nxt') \<Rightarrow> allocate_many n nxt'
      | (Inr i, nxt') \<Rightarrow> i # allocate_many n nxt')"

section \<open>Formal state\<close>

datatype AbortReason =
    RolledBack
  | AbortConflict string
  | AbortValidation string
  | AbortCancelled string
  | AbortError string

datatype TransactionState =
    TxActive
  | TxPreparing
  | TxCommitCritical
  | TxCommitted commit_receipt
  | TxAborted AbortReason

fun legal :: "TransactionState \<Rightarrow> TransactionState \<Rightarrow> bool" where
  "legal TxActive TxPreparing = True"
| "legal TxActive (TxAborted _) = True"
| "legal TxPreparing TxCommitCritical = True"
| "legal TxPreparing (TxAborted _) = True"
| "legal TxPreparing (TxCommitted _) = True"
| "legal TxCommitCritical (TxCommitted _) = True"
| "legal _ _ = False"

definition transition :: "TransactionState \<Rightarrow> TransactionState \<Rightarrow> bool \<times> TransactionState" where
  "transition current nxt = (if legal current nxt then (True, nxt) else (False, current))"

definition begin_prepare :: "TransactionState \<Rightarrow> bool \<times> TransactionState" where
  "begin_prepare st = transition st TxPreparing"

definition enter_commit_critical :: "TransactionState \<Rightarrow> bool \<times> TransactionState" where
  "enter_commit_critical st = transition st TxCommitCritical"

definition committed :: "TransactionState \<Rightarrow> commit_receipt \<Rightarrow> bool \<times> TransactionState" where
  "committed st receipt = transition st (TxCommitted receipt)"

definition tx_abort :: "TransactionState \<Rightarrow> AbortReason \<Rightarrow> bool \<times> TransactionState" where
  "tx_abort st why = transition st (TxAborted why)"

definition abort_reason :: "(MongrelError \<Rightarrow> string) \<Rightarrow> MongrelError \<Rightarrow> AbortReason option" where
  "abort_reason display err =
     (case err of
        Conflict message \<Rightarrow> Some (AbortConflict message)
      | SerializationFailure message \<Rightarrow> Some (AbortConflict (''serialization failure: '' @ message))
      | Cancelled \<Rightarrow> Some (AbortCancelled ''cancelled'')
      | DeadlineExceeded \<Rightarrow> Some (AbortCancelled ''deadline exceeded'')
      | CommitOutcomeUnknown _ _ \<Rightarrow> None
      | DurableCommit _ _ \<Rightarrow> None
      | InvalidArgument message \<Rightarrow> Some (AbortValidation message)
      | Schema message \<Rightarrow> Some (AbortValidation message)
      | TriggerValidation message \<Rightarrow> Some (AbortValidation message)
      | other \<Rightarrow> Some (AbortError (display other)))"

definition classify_commit_error :: "(MongrelError \<Rightarrow> string) \<Rightarrow> TransactionState \<Rightarrow> MongrelError \<Rightarrow> TransactionState" where
  "classify_commit_error display st err =
     (case abort_reason display err of None \<Rightarrow> st | Some why \<Rightarrow> snd (tx_abort st why))"

text \<open>Any sequence of calls on the shared handle.\<close>

datatype state_call = CallPrepare | CallCritical | CallCommitted commit_receipt | CallAbort AbortReason | CallClassify MongrelError

fun run_call :: "(MongrelError \<Rightarrow> string) \<Rightarrow> TransactionState \<Rightarrow> state_call \<Rightarrow> TransactionState" where
  "run_call display st CallPrepare = snd (begin_prepare st)"
| "run_call display st CallCritical = snd (enter_commit_critical st)"
| "run_call display st (CallCommitted receipt) = snd (committed st receipt)"
| "run_call display st (CallAbort why) = snd (tx_abort st why)"
| "run_call display st (CallClassify err) = classify_commit_error display st err"

section \<open>Cells\<close>

type_synonym cells = "(u16 \<times> Value) list"

definition owned_row_from_cells :: "cells \<Rightarrow> cells" where
  "owned_row_from_cells cs = sort_key fst cs"

definition merge_cells :: "cells \<Rightarrow> cells \<Rightarrow> cells" where
  "merge_cells base updates =
     sort_key fst (foldl (\<lambda>acc (i, v). filter (\<lambda>c. fst c \<noteq> i) acc @ [(i, v)]) base updates)"

definition changed_columns :: "cells \<Rightarrow> u16 list" where
  "changed_columns cs = remdups_adj (sort (map fst cs))"

definition columns_equal :: "cells \<Rightarrow> cells \<Rightarrow> bool" where
  "columns_equal a b \<longleftrightarrow>
     length a = length b \<and> list_all (\<lambda>(x, y). x = y) (zip (sort_key fst a) (sort_key fst b))"

section \<open>Group commit\<close>

record group_state =
  durable_seq :: u64
  syncing :: bool
  poisoned :: bool

definition group_commit_new :: "u64 \<Rightarrow> group_state" where
  "group_commit_new d = \<lparr>durable_seq = d, syncing = False, poisoned = False\<rparr>"

definition fsync_poison :: MongrelError where
  "fsync_poison = Other ''database poisoned by fsync error''"

datatype turn = Returns "MongrelError + unit" | Sleeps | Leads

text \<open>One turn of the loop in \<open>await_durable\<close> under the coordinator's mutex.\<close>

definition await_turn :: "group_state \<Rightarrow> u64 \<Rightarrow> turn \<times> group_state" where
  "await_turn gs seq =
     (if poisoned gs then (Returns (Inl fsync_poison), gs)
      else if seq \<le> durable_seq gs then (Returns (Inr ()), gs)
      else if syncing gs then (Sleeps, gs)
      else (Leads, gs\<lparr>syncing := True\<rparr>))"

text \<open>The leader returns with the result of the synchronisation and goes on with its loop.\<close>

definition leader_resumes :: "group_state \<Rightarrow> u64 \<Rightarrow> MongrelError + u64 \<Rightarrow> turn \<times> group_state" where
  "leader_resumes gs seq res =
     (let gs1 = gs\<lparr>syncing := False\<rparr>
      in case res of
           Inr durable \<Rightarrow>
             await_turn (if durable_seq gs1 < durable then gs1\<lparr>durable_seq := durable\<rparr> else gs1) seq
         | Inl e \<Rightarrow> (Returns (Inl e), gs1\<lparr>poisoned := True\<rparr>))"

record wal_state =
  next_seq :: u64
  wal_durable :: u64

text \<open>\<open>group_sync\<close> after its I/O succeeded.\<close>

definition group_sync :: "wal_state \<Rightarrow> u64 \<times> wal_state" where
  "group_sync w =
     (let highest = sat_sub (next_seq w) 1;
          w' = (if wal_durable w < highest then w\<lparr>wal_durable := highest\<rparr> else w)
      in (wal_durable w', w'))"

section \<open>Committers sharing one coordinator\<close>

datatype committer = Idle | Waiting u64 | Leading u64 | Synced u64 "MongrelError + u64" | Finished u64 "MongrelError + unit"

fun after_turn :: "u64 \<Rightarrow> turn \<Rightarrow> committer" where
  "after_turn seq (Returns res) = Finished seq res"
| "after_turn seq Sleeps = Waiting seq"
| "after_turn seq Leads = Leading seq"

text \<open>The sequence number up to which the log is on disk is kept beside the program's state.\<close>

record commit_system =
  cs_group :: group_state
  cs_wal :: wal_state
  cs_disk :: u64
  cs_thread :: "nat \<Rightarrow> committer"

definition commit_init :: "commit_system \<Rightarrow> bool" where
  "commit_init s \<longleftrightarrow>
     cs_group s = group_commit_new (cs_disk s) \<and> wal_durable (cs_wal s) = cs_disk s \<and>
     cs_disk s < next_seq (cs_wal s) \<and> cs_thread s = (\<lambda>_. Idle)"

inductive commit_step :: "commit_system \<Rightarrow> commit_system \<Rightarrow> bool" where
  c_append: "cs_thread s i = Idle \<Longrightarrow> next_seq (cs_wal s) \<noteq> max_u64 \<Longrightarrow>
    commit_step s (s\<lparr>cs_wal := (cs_wal s)\<lparr>next_seq := next_seq (cs_wal s) + 1\<rparr>,
      cs_thread := (cs_thread s)(i := Waiting (next_seq (cs_wal s)))\<rparr>)"
| c_turn: "cs_thread s i = Waiting seq \<Longrightarrow> await_turn (cs_group s) seq = (turn, gs) \<Longrightarrow>
    commit_step s (s\<lparr>cs_group := gs, cs_thread := (cs_thread s)(i := after_turn seq turn)\<rparr>)"
| c_sync: "cs_thread s i = Leading seq \<Longrightarrow> group_sync (cs_wal s) = (durable, w) \<Longrightarrow>
    commit_step s (s\<lparr>cs_wal := w, cs_disk := sat_sub (next_seq (cs_wal s)) 1,
      cs_thread := (cs_thread s)(i := Synced seq (Inr durable))\<rparr>)"
| c_sync_fails: "cs_thread s i = Leading seq \<Longrightarrow>
    commit_step s (s\<lparr>cs_thread := (cs_thread s)(i := Synced seq (Inl e))\<rparr>)"
| c_resume: "cs_thread s i = Synced seq res \<Longrightarrow> leader_resumes (cs_group s) seq res = (turn, gs) \<Longrightarrow>
    commit_step s (s\<lparr>cs_group := gs, cs_thread := (cs_thread s)(i := after_turn seq turn)\<rparr>)"
| c_next: "cs_thread s i = Finished seq res \<Longrightarrow> commit_step s (s\<lparr>cs_thread := (cs_thread s)(i := Idle)\<rparr>)"

definition leads :: "committer \<Rightarrow> bool" where
  "leads c \<longleftrightarrow> (case c of Leading _ \<Rightarrow> True | Synced _ _ \<Rightarrow> True | _ \<Rightarrow> False)"

definition thread_ok :: "commit_system \<Rightarrow> committer \<Rightarrow> bool" where
  "thread_ok s c =
     (case c of
        Idle \<Rightarrow> True
      | Waiting seq \<Rightarrow> seq < next_seq (cs_wal s)
      | Leading seq \<Rightarrow> seq < next_seq (cs_wal s)
      | Synced seq (Inr d) \<Rightarrow> seq \<le> d \<and> d \<le> cs_disk s
      | Synced seq (Inl e) \<Rightarrow> True
      | Finished seq (Inr _) \<Rightarrow> seq \<le> cs_disk s
      | Finished seq (Inl _) \<Rightarrow> True)"

definition commit_inv :: "commit_system \<Rightarrow> bool" where
  "commit_inv s \<longleftrightarrow>
     durable_seq (cs_group s) \<le> cs_disk s \<and> wal_durable (cs_wal s) \<le> cs_disk s \<and>
     cs_disk s < next_seq (cs_wal s) \<and> (\<forall>i. thread_ok s (cs_thread s i)) \<and>
     (\<forall>i. leads (cs_thread s i) \<longrightarrow> syncing (cs_group s) \<and> \<not> poisoned (cs_group s)) \<and>
     (\<forall>i j. leads (cs_thread s i) \<longrightarrow> leads (cs_thread s j) \<longrightarrow> i = j)"

lemma sat_sub_less: "d < (n :: u64) \<Longrightarrow> sat_sub n 1 < n \<and> d \<le> sat_sub n 1"
proof -
  assume "d < n"
  then have d: "unat d < unat n" by (simp add: word_less_nat_alt)
  then have n: "1 \<le> n" by (simp add: word_le_nat_alt)
  then have "unat (n - 1) = unat n - 1" by (simp add: unat_sub)
  with d n show ?thesis by (simp add: sat_sub_def word_le_nat_alt word_less_nat_alt)
qed

lemma thread_ok_mono:
  "thread_ok s c \<Longrightarrow> next_seq (cs_wal s) \<le> next_seq (cs_wal t) \<Longrightarrow> cs_disk s \<le> cs_disk t \<Longrightarrow> thread_ok t c"
  by (auto simp: thread_ok_def split: committer.splits sum.splits)

lemma await_turn_ok:
  assumes "await_turn gs seq = (turn, gs')"
  shows "durable_seq gs' = durable_seq gs" and "poisoned gs' = poisoned gs"
    and "turn = Leads \<Longrightarrow> syncing gs' \<and> \<not> poisoned gs \<and> \<not> syncing gs" and "turn \<noteq> Leads \<Longrightarrow> gs' = gs"
    and "turn = Returns (Inr ()) \<Longrightarrow> seq \<le> durable_seq gs"
  using assms by (auto simp: await_turn_def split: if_splits)

lemma leads_simps [simp]:
  "\<not> leads Idle" "\<not> leads (Waiting seq)" "leads (Leading seq)" "leads (Synced seq r)" "\<not> leads (Finished seq q)"
  by (simp_all add: leads_def)

lemma leads_after_turn [simp]: "leads (after_turn seq turn) \<longleftrightarrow> turn = Leads"
  by (cases turn) simp_all

lemma commit_invD:
  assumes "commit_inv s"
  shows "durable_seq (cs_group s) \<le> cs_disk s" and "wal_durable (cs_wal s) \<le> cs_disk s"
    and "cs_disk s < next_seq (cs_wal s)" and "thread_ok s (cs_thread s i)"
    and "leads (cs_thread s i) \<Longrightarrow> syncing (cs_group s) \<and> \<not> poisoned (cs_group s)"
    and "leads (cs_thread s i) \<Longrightarrow> leads (cs_thread s j) \<Longrightarrow> i = j"
  using assms unfolding commit_inv_def by blast+

text \<open>The synchronisation of a leader covers its own record, so it returns on its next turn.\<close>

lemma synced_leader_returns:
  assumes inv: "commit_inv s" and th: "cs_thread s i = Synced seq (Inr d)"
  shows "leader_resumes (cs_group s) seq (Inr d) =
    (Returns (Inr ()), (cs_group s)\<lparr>syncing := False, durable_seq := max (durable_seq (cs_group s)) d\<rparr>)"
proof -
  have "seq \<le> d" using commit_invD(4) [OF inv, of i] th by (simp add: thread_ok_def)
  moreover have "\<not> poisoned (cs_group s)" using commit_invD(5) [OF inv, of i] th by (simp add: leads_def)
  ultimately show ?thesis by (auto simp: leader_resumes_def await_turn_def Let_def max_def)
qed

lemma commit_step_inv:
  assumes "commit_step s t" and inv: "commit_inv s"
  shows "commit_inv t"
  using assms(1)
proof cases
  case (c_append i)
  have less: "next_seq (cs_wal s) < next_seq (cs_wal s) + 1" using c_append(3) by (rule word_less_inc)
  have "thread_ok t (cs_thread t j)" for j
    using c_append(1) less commit_invD(4) [OF inv, of j] thread_ok_mono [of s "cs_thread s j" t]
    by (cases "j = i") (auto simp: thread_ok_def)
  moreover have "leads (cs_thread t j) \<longleftrightarrow> leads (cs_thread s j)" for j
    using c_append by (simp add: leads_def)
  ultimately show ?thesis
    using commit_invD [OF inv] less c_append(1) unfolding commit_inv_def by simp_all
next
  case (c_turn i seq turn gs)
  note A = await_turn_ok [OF c_turn(3)]
  have seq: "seq < next_seq (cs_wal s)" using commit_invD(4) [OF inv, of i] c_turn(2) by (simp add: thread_ok_def)
  have "thread_ok t (after_turn seq turn)"
  proof (cases turn)
    case (Returns res)
    then show ?thesis using A(5) commit_invD(1) [OF inv] c_turn(1) by (cases res) (auto simp: thread_ok_def)
  qed (use seq c_turn(1) in \<open>simp_all add: thread_ok_def\<close>)
  moreover have "thread_ok t (cs_thread s j)" for j
    by (rule thread_ok_mono [OF commit_invD(4) [OF inv, of j]]) (simp_all add: c_turn(1))
  ultimately have threads: "thread_ok t (cs_thread t j)" for j using c_turn(1) by (cases "j = i") simp_all
  have not_i: "\<not> leads (cs_thread s i)" using c_turn(2) by (simp add: leads_def)
  show ?thesis
  proof (cases "turn = Leads")
    case True
    then have "\<not> leads (cs_thread s j)" for j using A(3) commit_invD(5) [OF inv, of j] by blast
    then have "leads (cs_thread t j) \<longleftrightarrow> j = i" for j using True c_turn(1) by simp
    with A True threads commit_invD(1-3) [OF inv] c_turn(1) show ?thesis unfolding commit_inv_def by simp
  next
    case False
    then have "leads (cs_thread t j) \<longleftrightarrow> leads (cs_thread s j)" for j using not_i c_turn(1) by simp
    with A False threads commit_invD [OF inv] c_turn(1) show ?thesis unfolding commit_inv_def by simp_all
  qed
next
  case (c_sync i seq durable w)
  let ?d = "sat_sub (next_seq (cs_wal s)) 1"
  have d: "?d < next_seq (cs_wal s)" "cs_disk s \<le> ?d" using sat_sub_less [OF commit_invD(3) [OF inv]] by simp_all
  have "wal_durable (cs_wal s) \<le> ?d" using commit_invD(2) [OF inv] d(2) by (rule order_trans)
  then have w: "durable = ?d" "next_seq w = next_seq (cs_wal s)" "wal_durable w = ?d"
    using c_sync(3) by (auto simp: group_sync_def Let_def split: if_splits)
  have "seq < next_seq (cs_wal s)" using commit_invD(4) [OF inv, of i] c_sync(2) by (simp add: thread_ok_def)
  then have "seq \<le> ?d" using sat_sub_less by blast
  then have "thread_ok t (cs_thread t j)" for j
    using commit_invD(4) [OF inv, of j] thread_ok_mono [of s "cs_thread s j" t] c_sync(1) w d
    by (cases "j = i") (auto simp: thread_ok_def)
  moreover have "leads (cs_thread t j) \<longleftrightarrow> leads (cs_thread s j)" for j using c_sync by (simp add: leads_def)
  ultimately show ?thesis
    using commit_invD [OF inv] d w c_sync(1) unfolding commit_inv_def by (auto intro: order_trans)
next
  case (c_sync_fails i seq e)
  have "thread_ok t (cs_thread t j)" for j
    using commit_invD(4) [OF inv, of j] thread_ok_mono [of s "cs_thread s j" t] c_sync_fails(1)
    by (cases "j = i") (auto simp: thread_ok_def)
  moreover have "leads (cs_thread t j) \<longleftrightarrow> leads (cs_thread s j)" for j using c_sync_fails by (simp add: leads_def)
  ultimately show ?thesis using commit_invD [OF inv] c_sync_fails(1) unfolding commit_inv_def by simp_all
next
  case (c_resume i seq res turn gs)
  have only: "leads (cs_thread s j) \<longleftrightarrow> j = i" for j
    using commit_invD(6) [OF inv, of i j] c_resume(2) by (auto simp: leads_def)
  have G: "turn \<noteq> Leads" "durable_seq gs \<le> cs_disk s" "turn = Returns (Inr ()) \<Longrightarrow> seq \<le> cs_disk s"
    "\<exists>r. turn = Returns r"
  proof -
    have "turn \<noteq> Leads \<and> durable_seq gs \<le> cs_disk s \<and> (turn = Returns (Inr ()) \<longrightarrow> seq \<le> cs_disk s) \<and> (\<exists>r. turn = Returns r)"
    proof (cases res)
      case (Inl e)
      then show ?thesis using c_resume(3) commit_invD(1) [OF inv] by (auto simp: leader_resumes_def Let_def)
    next
      case (Inr d)
      then have "seq \<le> d" "d \<le> cs_disk s" using commit_invD(4) [OF inv, of i] c_resume(2) by (simp_all add: thread_ok_def)
      with Inr synced_leader_returns [OF inv, of i seq d] c_resume(2,3) commit_invD(1) [OF inv] show ?thesis
        by (auto intro: order_trans)
    qed
    then show "turn \<noteq> Leads" "durable_seq gs \<le> cs_disk s" "turn = Returns (Inr ()) \<Longrightarrow> seq \<le> cs_disk s"
      "\<exists>r. turn = Returns r" by blast+
  qed
  obtain r where r: "turn = Returns r" using G(4) by blast
  have "thread_ok t (cs_thread t j)" for j
    using commit_invD(4) [OF inv, of j] thread_ok_mono [of s "cs_thread s j" t] c_resume(1) G(3) r
    by (cases "j = i"; cases r) (auto simp: thread_ok_def)
  moreover have "\<not> leads (cs_thread t j)" for j using only [of j] G(1) c_resume(1) by simp
  ultimately show ?thesis using commit_invD(2,3) [OF inv] G(2) c_resume(1) unfolding commit_inv_def by simp
next
  case (c_next i seq res)
  have "thread_ok t (cs_thread t j)" for j
    using commit_invD(4) [OF inv, of j] thread_ok_mono [of s "cs_thread s j" t] c_next(1)
    by (cases "j = i") (auto simp: thread_ok_def)
  moreover have "leads (cs_thread t j) \<longleftrightarrow> leads (cs_thread s j)" for j using c_next by (simp add: leads_def)
  ultimately show ?thesis using commit_invD [OF inv] c_next(1) unfolding commit_inv_def by simp_all
qed

interpretation committers: guarded_system commit_init commit_step commit_inv
proof
  show "commit_inv s" if "commit_init s" for s
    using that by (simp add: commit_init_def commit_inv_def group_commit_new_def thread_ok_def leads_def)
qed (rule commit_step_inv)

section \<open>Ids and cells\<close>

lemma allocate_txn_id_ok:
  assumes "allocate_txn_id n = (Inr i, n')"
  shows "i = n" and "n < n'" and "i \<noteq> SYSTEM_TXN_ID"
proof -
  have "i = n" "n' = n + 1" "n \<le> - 1 - 1" "n \<noteq> SYSTEM_TXN_ID"
    using assms by (auto simp: allocate_txn_id_def checked_add_def split: if_splits)
  moreover have "n \<noteq> - 1" using \<open>n \<le> - 1 - 1\<close> by auto
  ultimately show "i = n" "n < n'" "i \<noteq> SYSTEM_TXN_ID" using word_less_inc by auto
qed

lemma allocate_txn_id_error: "allocate_txn_id n = (Inl e, n') \<Longrightarrow> n' = n"
  by (auto simp: allocate_txn_id_def split: if_splits option.splits)

text \<open>Successive ids increase, so the greatest id is the youngest transaction.\<close>

lemma allocate_many_increasing:
  "sorted_wrt (<) (allocate_many k n) \<and> (\<forall>i\<in>set (allocate_many k n). n \<le> i \<and> i \<noteq> SYSTEM_TXN_ID)"
proof (induction k arbitrary: n)
  case (Suc k)
  obtain r n' where a: "allocate_txn_id n = (r, n')" by fastforce
  show ?case
  proof (cases r)
    case (Inl e)
    with a Suc.IH [of n'] allocate_txn_id_error [of n e n'] show ?thesis by simp
  next
    case (Inr i)
    note A = allocate_txn_id_ok [OF a [unfolded Inr]]
    from Suc.IH [of n'] A have "\<forall>j\<in>set (allocate_many k n'). n < j"
      by (blast intro: less_le_trans)
    with Suc.IH [of n'] A a Inr show ?thesis by (auto intro: less_imp_le)
  qed
qed simp

lemma update_cell_lookup:
  "map_of (filter (\<lambda>c. fst c \<noteq> j) acc @ [(j, v)]) i = (if i = j then Some v else map_of acc i)"
  by (induction acc) (auto simp: map_add_def split: option.splits)

lemma update_cells_lookup:
  fixes acc us :: cells
  defines "upd \<equiv> \<lambda>acc (i, v). filter (\<lambda>c. fst c \<noteq> i) acc @ [(i, v)]"
  assumes "distinct (map fst acc)"
  shows "distinct (map fst (foldl upd acc us)) \<and> map_of (foldl upd acc us) = map_of acc ++ map_of (rev us)"
  using assms(2)
proof (induction us arbitrary: acc)
  case (Cons u us)
  obtain j v where u: "u = (j, v)" by fastforce
  let ?acc = "filter (\<lambda>c. fst c \<noteq> j) acc @ [(j, v)]"
  have d: "distinct (map fst ?acc)" using Cons.prems by (auto simp: distinct_map_filter)
  have "map_of ?acc = (map_of acc)(j \<mapsto> v)" using update_cell_lookup [of j acc v] by auto
  moreover have "upd acc u = ?acc" by (simp add: upd_def u)
  ultimately show ?case using Cons.IH [OF d] u by (auto simp: fun_eq_iff map_add_def split: option.splits)
qed simp

text \<open>Merging is a map override: the last update of a column wins and the others keep their value.\<close>

lemma merge_cells_lookup:
  assumes "distinct (map fst base)"
  shows "map_of (merge_cells base updates) = map_of base ++ map_of (rev updates)"
proof -
  have "map_of (sort_key fst xs) = map_of xs" if "distinct (map fst xs)" for xs :: cells
    using that by (intro map_of_inject_set [THEN iffD2]) (simp_all add: distinct_map)
  then show ?thesis using update_cells_lookup [OF assms, of updates] by (simp only: merge_cells_def)
qed

section \<open>Properties\<close>

text \<open>C25: Past the commit fence there is no abort. Whatever calls reach the shared handle, a transaction in
  the commit-critical state stays there or becomes committed, a committed or aborted one never changes,
  and an error that may hide a durable commit changes no state at all.\<close>

theorem commit_fence_is_final:
  "foldl (run_call display) TxCommitCritical calls \<in> insert TxCommitCritical (range TxCommitted) \<and>
   foldl (run_call display) (TxCommitted receipt) calls = TxCommitted receipt \<and>
   foldl (run_call display) (TxAborted why) calls = TxAborted why \<and>
   classify_commit_error display st (CommitOutcomeUnknown e message) = st \<and>
   classify_commit_error display st (DurableCommit e message) = st"
proof (intro conjI)
  have terminal: "run_call display (TxCommitted r) c = TxCommitted r" "run_call display (TxAborted w) c = TxAborted w" for r w c
    by (cases c; simp add: begin_prepare_def enter_commit_critical_def committed_def tx_abort_def transition_def
        classify_commit_error_def split: option.splits)+
  then show "foldl (run_call display) (TxCommitted receipt) calls = TxCommitted receipt"
    and "foldl (run_call display) (TxAborted why) calls = TxAborted why" by (induction calls) simp_all
  have final: "foldl (run_call display) (TxCommitted r) cs = TxCommitted r" for r cs
    using terminal by (induction cs) simp_all
  have critical: "run_call display TxCommitCritical c \<in> insert TxCommitCritical (range TxCommitted)" for c
    by (cases c) (auto simp: begin_prepare_def enter_commit_critical_def committed_def tx_abort_def transition_def
        classify_commit_error_def split: option.splits)
  show "foldl (run_call display) TxCommitCritical calls \<in> insert TxCommitCritical (range TxCommitted)"
  proof (induction calls)
    case (Cons c cs)
    from critical [of c] consider "run_call display TxCommitCritical c = TxCommitCritical"
      | r where "run_call display TxCommitCritical c = TxCommitted r" by auto
    then show ?case using Cons.IH final by cases auto
  qed simp
qed (simp_all add: classify_commit_error_def abort_reason_def)

text \<open>C22: An acknowledged commit is durable. However committers append, wait, lead and fail, a commit that
  was acknowledged is on disk, at most one committer synchronises at a time, and a leader whose
  synchronisation succeeded returns success on its next turn.\<close>

theorem acknowledged_commit_is_durable:
  assumes "reach commit_init commit_step s"
  shows "{seq. \<exists>i. cs_thread s i = Finished seq (Inr ())} \<subseteq> {..cs_disk s} \<and>
    card {i. leads (cs_thread s i)} \<le> 1 \<and>
    {(seq, d). \<exists>i. cs_thread s i = Synced seq (Inr d)} \<subseteq>
      {(seq, d). fst (leader_resumes (cs_group s) seq (Inr d)) = Returns (Inr ())}"
proof (intro conjI)
  have inv: "commit_inv s" by (rule committers.reach_inv [OF assms])
  show "{seq. \<exists>i. cs_thread s i = Finished seq (Inr ())} \<subseteq> {..cs_disk s}"
  proof
    fix seq assume "seq \<in> {seq. \<exists>i. cs_thread s i = Finished seq (Inr ())}"
    then obtain i where "cs_thread s i = Finished seq (Inr ())" by blast
    with commit_invD(4) [OF inv, of i] show "seq \<in> {..cs_disk s}" by (simp add: thread_ok_def)
  qed
  have "\<exists>i. {i. leads (cs_thread s i)} \<subseteq> {i}" using commit_invD(6) [OF inv] by blast
  then show "card {i. leads (cs_thread s i)} \<le> 1" using card_mono [of "{_}"] by fastforce
  show "{(seq, d). \<exists>i. cs_thread s i = Synced seq (Inr d)} \<subseteq>
      {(seq, d). fst (leader_resumes (cs_group s) seq (Inr d)) = Returns (Inr ())}"
    using synced_leader_returns [OF inv] by auto
qed

definition sample_start :: commit_system where
  "sample_start =
     \<lparr>cs_group = group_commit_new 0, cs_wal = \<lparr>next_seq = 1, wal_durable = 0\<rparr>, cs_disk = 0, cs_thread = (\<lambda>_. Idle)\<rparr>"

definition sample_acknowledged :: commit_system where
  "sample_acknowledged =
     \<lparr>cs_group = group_commit_new 1, cs_wal = \<lparr>next_seq = 2, wal_durable = 1\<rparr>, cs_disk = 1,
      cs_thread = (\<lambda>_. Idle)(0 := Finished 1 (Inr ()))\<rparr>"

lemma reach_sample_acknowledged: "reach commit_init commit_step sample_acknowledged"
proof -
  let ?s1 = "sample_start\<lparr>cs_wal := \<lparr>next_seq = 2, wal_durable = 0\<rparr>, cs_thread := (\<lambda>_. Idle)(0 := Waiting 1)\<rparr>"
  let ?s2 = "?s1\<lparr>cs_group := (group_commit_new 0)\<lparr>syncing := True\<rparr>, cs_thread := (\<lambda>_. Idle)(0 := Leading 1)\<rparr>"
  let ?s3 = "?s2\<lparr>cs_wal := \<lparr>next_seq = 2, wal_durable = 1\<rparr>, cs_disk := 1, cs_thread := (\<lambda>_. Idle)(0 := Synced 1 (Inr 1))\<rparr>"
  have "reach commit_init commit_step sample_start"
    by (rule reach_init) (simp add: commit_init_def sample_start_def)
  moreover have "commit_step sample_start ?s1"
    using c_append [of sample_start 0] by (simp add: sample_start_def)
  moreover have "commit_step ?s1 ?s2"
    using c_turn [of ?s1 0 1 Leads "(group_commit_new 0)\<lparr>syncing := True\<rparr>"]
    by (simp add: sample_start_def await_turn_def group_commit_new_def)
  moreover have "commit_step ?s2 ?s3"
    using c_sync [of ?s2 0 1 1 "\<lparr>next_seq = 2, wal_durable = 1\<rparr>"]
    by (simp add: sample_start_def group_sync_def sat_sub_def)
  moreover have "commit_step ?s3 sample_acknowledged"
    using c_resume [of ?s3 0 1 "Inr 1" "Returns (Inr ())" "group_commit_new 1"]
    by (simp add: sample_start_def sample_acknowledged_def leader_resumes_def await_turn_def group_commit_new_def)
  ultimately show ?thesis by (meson reach_step)
qed

theorem acknowledged_commit_is_durable_witness:
  "cs_thread sample_acknowledged 0 = Finished 1 (Inr ()) \<and> 1 \<le> cs_disk sample_acknowledged"
proof -
  have "cs_thread sample_acknowledged 0 = Finished 1 (Inr ())" by (simp add: sample_acknowledged_def)
  with acknowledged_commit_is_durable [OF reach_sample_acknowledged] show ?thesis by blast
qed

end
