(* ===== verification/Byte_Codec.thy ===== *)
theory Byte_Codec
  imports Mongrel_Prelude
begin

text \<open>
  Little-endian integers in byte strings (\<open>to_le_bytes\<close>, \<open>from_le_bytes\<close> of the standard library) and
  the byte strings of ASCII text, shared by the persisted formats.
\<close>

unbundle bit_operations_syntax

fun le_bytes :: "nat \<Rightarrow> 'a::len word \<Rightarrow> u8 list" where
  "le_bytes 0 w = []"
| "le_bytes (Suc n) w = ucast w # le_bytes n (drop_bit 8 w)"

fun from_le_bytes :: "u8 list \<Rightarrow> 'a::len word" where
  "from_le_bytes [] = 0"
| "from_le_bytes (b # bs) = ucast b OR push_bit 8 (from_le_bytes bs)"

definition text_bytes :: "string \<Rightarrow> u8 list" where
  "text_bytes s = map (\<lambda>c. word_of_nat (of_char c)) s"

lemma length_le_bytes [simp]: "length (le_bytes n w) = n"
  by (induction n w rule: le_bytes.induct) simp_all

lemma bit_from_le_bytes:
  "bit (from_le_bytes bs :: 'a::len word) i \<longleftrightarrow> i < LENGTH('a) \<and> i div 8 < length bs \<and> bit (bs ! (i div 8)) (i mod 8)"
proof (induction bs arbitrary: i)
  case (Cons b bs)
  show ?case
  proof (cases "i < 8")
    case True
    then show ?thesis by (simp add: bit_or_iff bit_push_bit_iff bit_unsigned_iff bit_imp_le_length)
  next
    case False
    then have "i div 8 = Suc ((i - 8) div 8)" and "(i - 8) mod 8 = i mod 8"
      by (simp_all add: div_if le_mod_geq)
    moreover have "\<not> bit b i" using False bit_imp_le_length [of b i] by auto
    ultimately show ?thesis using False Cons.IH [of "i - 8"]
      by (auto simp: bit_or_iff bit_push_bit_iff bit_unsigned_iff)
  qed
qed simp

lemma nth_le_bytes: "i < n \<Longrightarrow> le_bytes n w ! i = ucast (drop_bit (8 * i) w)"
proof (induction n w arbitrary: i rule: le_bytes.induct)
  case (2 n w)
  then show ?case by (cases i) (simp_all add: drop_bit_drop_bit add.commute)
qed simp

text \<open>Reading back what was written, and writing back what was read, at the width of the integer.\<close>

lemma from_le_bytes_le_bytes [simp]:
  "LENGTH('a) \<le> 8 * n \<Longrightarrow> from_le_bytes (le_bytes n (w :: 'a::len word)) = w"
proof (rule bit_eqI)
  fix i assume w: "LENGTH('a) \<le> 8 * n" and "possible_bit TYPE('a word) i"
  then have i: "i < LENGTH('a)" by simp
  then have "i div 8 < n" using w by (simp add: less_mult_imp_div_less mult.commute)
  then show "bit (from_le_bytes (le_bytes n w) :: 'a word) i \<longleftrightarrow> bit w i"
    using i by (simp add: bit_from_le_bytes nth_le_bytes bit_unsigned_iff bit_drop_bit_eq)
qed

lemma le_bytes_from_le_bytes:
  assumes "length bs = n" and "8 * n = LENGTH('a)"
  shows "le_bytes n (from_le_bytes bs :: 'a::len word) = bs"
proof (rule nth_equalityI)
  fix i assume "i < length (le_bytes n (from_le_bytes bs :: 'a word))"
  then have i: "i < n" by simp
  show "le_bytes n (from_le_bytes bs :: 'a word) ! i = bs ! i"
  proof (rule bit_eqI)
    fix j assume "possible_bit TYPE(u8) j"
    then have j: "j < 8" by simp
    have lt: "8 * i + j < LENGTH('a)" using i j assms(2) by linarith
    have "(8 * i + j) div 8 = i" and "(8 * i + j) mod 8 = j" using j by simp_all
    then show "bit (le_bytes n (from_le_bytes bs :: 'a word) ! i) j \<longleftrightarrow> bit (bs ! i) j"
      using i j lt assms(1) by (simp add: nth_le_bytes bit_unsigned_iff bit_drop_bit_eq bit_from_le_bytes)
  qed
qed (simp add: assms)

end
