(* ===== verification/Command_Envelope.thy ===== *)
theory Command_Envelope
  imports Byte_Codec
begin

text \<open>
  The versioned, checksummed envelope of every persisted command
  (\<open>crates/mongreldb-log/src/envelope.rs\<close>). SHA-256 is the parameter \<open>sha\<close>; what the code relies on is
  that a digest has 32 bytes. A \<open>[u8; n]\<close> is a byte list, and \<open>envelope_typed\<close> says that the two array
  fields have their lengths.
\<close>

section \<open>Envelopes\<close>

definition COMMAND_ENVELOPE_FORMAT_VERSION :: u32 where
  "COMMAND_ENVELOPE_FORMAT_VERSION = 1"

definition MIN_SUPPORTED_FORMAT_VERSION :: u32 where
  "MIN_SUPPORTED_FORMAT_VERSION = 1"

definition MAX_COMMAND_PAYLOAD_BYTES :: nat where
  "MAX_COMMAND_PAYLOAD_BYTES = 64 * 1024 * 1024"

definition HEADER_LEN :: nat where
  "HEADER_LEN = 4 + 16 + 4 + 4"

definition CHECKSUM_LEN :: nat where
  "CHECKSUM_LEN = 32"

datatype EnvelopeError =
    UnsupportedVersion (ee_found: u32) (ee_min: u32) (ee_max: u32)
  | ChecksumMismatch
  | Truncated (ee_expected: nat) (ee_actual: nat)
  | TrailingBytes nat
  | PayloadTooLarge nat

fun envelope_error_text :: "EnvelopeError \<Rightarrow> string" where
  "envelope_error_text (UnsupportedVersion f lo hi) =
     ''unsupported command-envelope format version '' @ decimal (unat f) @ '' (supported '' @
     decimal (unat lo) @ ''..='' @ decimal (unat hi) @ '')''"
| "envelope_error_text ChecksumMismatch = ''command-envelope checksum mismatch''"
| "envelope_error_text (Truncated e a) =
     ''command envelope truncated: expected at least '' @ decimal e @ '' bytes, got '' @ decimal a"
| "envelope_error_text (TrailingBytes n) = ''command envelope has '' @ decimal n @ '' trailing bytes''"
| "envelope_error_text (PayloadTooLarge n) = ''command payload too large: '' @ decimal n @ '' bytes''"

record command_envelope =
  format_version :: u32
  command_id :: "u8 list"
  command_type :: u32
  payload :: "u8 list"
  payload_sha256 :: "u8 list"

definition checksum :: "(u8 list \<Rightarrow> u8 list) \<Rightarrow> u32 \<Rightarrow> u32 \<Rightarrow> u8 list \<Rightarrow> u8 list" where
  "checksum sha version ctype body =
     sha (le_bytes 4 version @ le_bytes 4 ctype @ le_bytes 8 (of_nat (length body) :: u64) @ body)"

definition envelope_new :: "(u8 list \<Rightarrow> u8 list) \<Rightarrow> u32 \<Rightarrow> u8 list \<Rightarrow> u8 list \<Rightarrow> command_envelope" where
  "envelope_new sha ctype cid body =
     \<lparr>format_version = COMMAND_ENVELOPE_FORMAT_VERSION, command_id = cid, command_type = ctype, payload = body,
      payload_sha256 = checksum sha COMMAND_ENVELOPE_FORMAT_VERSION ctype body\<rparr>"

definition envelope_verify :: "(u8 list \<Rightarrow> u8 list) \<Rightarrow> command_envelope \<Rightarrow> EnvelopeError + unit" where
  "envelope_verify sha e =
     (if \<not> (MIN_SUPPORTED_FORMAT_VERSION \<le> format_version e \<and> format_version e \<le> COMMAND_ENVELOPE_FORMAT_VERSION)
      then Inl (UnsupportedVersion (format_version e) MIN_SUPPORTED_FORMAT_VERSION COMMAND_ENVELOPE_FORMAT_VERSION)
      else if MAX_COMMAND_PAYLOAD_BYTES < length (payload e) then Inl (PayloadTooLarge (length (payload e)))
      else if checksum sha (format_version e) (command_type e) (payload e) \<noteq> payload_sha256 e then Inl ChecksumMismatch
      else Inr ())"

definition envelope_encode :: "command_envelope \<Rightarrow> u8 list" where
  "envelope_encode e =
     le_bytes 4 (format_version e) @ command_id e @ le_bytes 4 (command_type e) @
     le_bytes 4 (of_nat (length (payload e)) :: u32) @ payload e @ payload_sha256 e"

definition byte_slice :: "nat \<Rightarrow> nat \<Rightarrow> 'a list \<Rightarrow> 'a list" where
  "byte_slice i j xs = take (j - i) (drop i xs)"

definition envelope_decode :: "(u8 list \<Rightarrow> u8 list) \<Rightarrow> u8 list \<Rightarrow> EnvelopeError + command_envelope" where
  "envelope_decode sha bytes =
     (if length bytes < HEADER_LEN + CHECKSUM_LEN then Inl (Truncated (HEADER_LEN + CHECKSUM_LEN) (length bytes))
      else
        (let version = from_le_bytes (byte_slice 0 4 bytes); cid = byte_slice 4 20 bytes;
             ctype = from_le_bytes (byte_slice 20 24 bytes);
             payload_len = unat (from_le_bytes (byte_slice 24 28 bytes) :: u32)
         in if MAX_COMMAND_PAYLOAD_BYTES < payload_len then Inl (PayloadTooLarge payload_len)
            else
              (let expected_total = HEADER_LEN + payload_len + CHECKSUM_LEN
               in if length bytes < expected_total then Inl (Truncated expected_total (length bytes))
                  else if expected_total < length bytes then Inl (TrailingBytes (length bytes - expected_total))
                  else
                    (let e = \<lparr>format_version = version, command_id = cid, command_type = ctype,
                              payload = byte_slice HEADER_LEN (HEADER_LEN + payload_len) bytes,
                              payload_sha256 = byte_slice (HEADER_LEN + payload_len) expected_total bytes\<rparr>
                     in case envelope_verify sha e of Inl err \<Rightarrow> Inl err | Inr _ \<Rightarrow> Inr e))))"

section \<open>Canonical encoding\<close>

definition envelope_typed :: "command_envelope \<Rightarrow> bool" where
  "envelope_typed e \<longleftrightarrow> length (command_id e) = 16 \<and> length (payload_sha256 e) = CHECKSUM_LEN"

lemma HEADER_LEN_28: "HEADER_LEN = 28"
  by (simp add: HEADER_LEN_def)

lemma length_slice [simp]: "length (byte_slice i j xs) = min (j - i) (length xs - i)"
  by (simp add: byte_slice_def)

lemma slice_append: "i \<le> j \<Longrightarrow> j \<le> k \<Longrightarrow> byte_slice i j xs @ byte_slice j k xs = byte_slice i k xs"
proof -
  assume "i \<le> j" and "j \<le> k"
  then have "byte_slice i k xs = take ((j - i) + (k - j)) (drop i xs)" by (simp add: byte_slice_def)
  also have "\<dots> = byte_slice i j xs @ byte_slice j k xs" 
    unfolding take_add using \<open>i \<le> j\<close> by (simp add: byte_slice_def)
  finally show ?thesis by simp
qed

lemma frame_slices:
  "byte_slice 0 4 xs @ byte_slice 4 20 xs @ byte_slice 20 24 xs @ byte_slice 24 28 xs @ byte_slice 28 (28 + n) xs @
   byte_slice (28 + n) (28 + n + 32) xs = byte_slice 0 (28 + n + 32) xs"
  by (subst slice_append, simp, simp)+ simp

lemma unat_of_payload_length:
  "n \<le> MAX_COMMAND_PAYLOAD_BYTES \<Longrightarrow> unat (of_nat n :: u32) = n"
  by (simp add: unat_of_nat take_bit_nat_eq_self MAX_COMMAND_PAYLOAD_BYTES_def)

lemma slices_of_encoding:
  assumes "envelope_typed e"
  shows "byte_slice 0 4 (envelope_encode e) = le_bytes 4 (format_version e)"
    and "byte_slice 4 20 (envelope_encode e) = command_id e"
    and "byte_slice 20 24 (envelope_encode e) = le_bytes 4 (command_type e)"
    and "byte_slice 24 28 (envelope_encode e) = le_bytes 4 (of_nat (length (payload e)) :: u32)"
    and "byte_slice 28 (28 + length (payload e)) (envelope_encode e) = payload e"
    and "byte_slice (28 + length (payload e)) (28 + length (payload e) + 32) (envelope_encode e) = payload_sha256 e"
    and "length (envelope_encode e) = 28 + length (payload e) + 32"
  using assms by (simp_all add: envelope_encode_def byte_slice_def envelope_typed_def CHECKSUM_LEN_def)

lemma decode_encode:
  assumes "envelope_typed e" and "envelope_verify sha e = Inr ()"
  shows "envelope_decode sha (envelope_encode e) = Inr e"
proof -
  have len: "length (payload e) \<le> MAX_COMMAND_PAYLOAD_BYTES"
    using assms(2) by (auto simp: envelope_verify_def split: if_splits)
  have n: "unat (of_nat (length (payload e)) :: u32) = length (payload e)"
    by (rule unat_of_payload_length [OF len])
  note S = slices_of_encoding [OF assms(1)]
  have eta: "\<lparr>format_version = format_version e, command_id = command_id e, command_type = command_type e,
      payload = payload e, payload_sha256 = payload_sha256 e\<rparr> = e" by (cases e) simp
  have words: "from_le_bytes (le_bytes 4 (w :: u32)) = w" for w by simp
  show ?thesis
    using len assms(2) unfolding envelope_decode_def HEADER_LEN_28 CHECKSUM_LEN_def Let_def
    by (simp only: S(1-4) words n) (simp only: S(5-7) eta, simp)
qed

lemma encode_decode:
  assumes "envelope_decode sha bytes = Inr e"
  shows "envelope_encode e = bytes" and "envelope_typed e" and "envelope_verify sha e = Inr ()"
proof -
  let ?n = "unat (from_le_bytes (byte_slice 24 28 bytes) :: u32)"
  have D: "28 + 32 \<le> length bytes" "?n \<le> MAX_COMMAND_PAYLOAD_BYTES" "length bytes = 28 + ?n + 32"
    "envelope_verify sha e = Inr ()"
    "e = \<lparr>format_version = from_le_bytes (byte_slice 0 4 bytes), command_id = byte_slice 4 20 bytes,
       command_type = from_le_bytes (byte_slice 20 24 bytes), payload = byte_slice 28 (28 + ?n) bytes,
       payload_sha256 = byte_slice (28 + ?n) (28 + ?n + 32) bytes\<rparr>"
    using assms unfolding envelope_decode_def Let_def HEADER_LEN_28 CHECKSUM_LEN_def
    by (simp_all split: if_splits sum.splits)
  show "envelope_typed e" using D(1,3) by (subst D(5)) (simp add: envelope_typed_def CHECKSUM_LEN_def)
  have len: "length (payload e) = ?n" using D(3) by (subst D(5)) simp
  have w: "(of_nat (length (payload e)) :: u32) = from_le_bytes (byte_slice 24 28 bytes)" unfolding len by simp
  have reread: "le_bytes 4 (from_le_bytes xs :: u32) = xs" if "length xs = 4" for xs
    using that by (rule le_bytes_from_le_bytes) simp
  have "envelope_encode e =
      byte_slice 0 4 bytes @ byte_slice 4 20 bytes @ byte_slice 20 24 bytes @ byte_slice 24 28 bytes @ byte_slice 28 (28 + ?n) bytes @
      byte_slice (28 + ?n) (28 + ?n + 32) bytes"
    unfolding envelope_encode_def w using D(1) by (subst (1 2 3 4 5) D(5)) (simp add: reread)
  also have "\<dots> = byte_slice 0 (28 + ?n + 32) bytes" by (rule frame_slices)
  also have "\<dots> = bytes" unfolding D(3) [symmetric] by (simp add: byte_slice_def)
  finally show "envelope_encode e = bytes" .
  show "envelope_verify sha e = Inr ()" by (rule D(4))
qed

lemma new_envelope_verifies:
  assumes "\<And>x. length (sha x) = CHECKSUM_LEN" and "length cid = 16" and "length body \<le> MAX_COMMAND_PAYLOAD_BYTES"
  shows "envelope_typed (envelope_new sha ctype cid body)"
    and "envelope_verify sha (envelope_new sha ctype cid body) = Inr ()"
  using assms by (simp_all add: envelope_typed_def envelope_new_def checksum_def envelope_verify_def
      MIN_SUPPORTED_FORMAT_VERSION_def COMMAND_ENVELOPE_FORMAT_VERSION_def)

section \<open>Properties\<close>

text \<open>C30: The encoding is canonical. A byte string decodes to an envelope exactly if it is the encoding of
  that envelope, the envelope passes verification and its array fields have their lengths; so decoding
  inverts encoding, rejects truncated, extended and unverifiable frames, and no two byte strings decode
  to the same envelope.\<close>

theorem envelope_decode_exact:
  "envelope_decode sha bytes = Inr e \<longleftrightarrow>
   bytes = envelope_encode e \<and> envelope_typed e \<and> envelope_verify sha e = Inr ()"
  using decode_encode encode_decode by metis

end
