(* ===== verification/Replicated_Machine.thy ===== *)
theory Replicated_Machine
  imports Command_Envelope Log_Types
begin

text \<open>
  The replicated command (\<open>crates/mongreldb-consensus/src/identity.rs\<close>) and the idempotent apply state
  machine of a consensus group (\<open>crates/mongreldb-consensus/src/state_machine.rs\<close>). The sink that receives
  applied commands is the parameter \<open>sink\<close>, a function from a command and the sink's state to a result
  and the new state. Raft memberships are a type variable. Each file write is an argument that says
  whether it failed.
\<close>

section \<open>Replicated commands\<close>

datatype CommandKind = KindTransaction | KindCatalog | KindMaintenance

datatype ReplicatedCommand =
    Transaction command_envelope HlcTimestamp
  | Catalog command_envelope HlcTimestamp
  | Maintenance command_envelope HlcTimestamp
  | Noop

fun replicated_command :: "CommandKind \<Rightarrow> command_envelope \<Rightarrow> HlcTimestamp \<Rightarrow> ReplicatedCommand" where
  "replicated_command KindTransaction e ts = Transaction e ts"
| "replicated_command KindCatalog e ts = Catalog e ts"
| "replicated_command KindMaintenance e ts = Maintenance e ts"

fun rc_envelope :: "ReplicatedCommand \<Rightarrow> command_envelope option" where
  "rc_envelope (Transaction e _) = Some e"
| "rc_envelope (Catalog e _) = Some e"
| "rc_envelope (Maintenance e _) = Some e"
| "rc_envelope Noop = None"

definition rc_command_id :: "ReplicatedCommand \<Rightarrow> u8 list option" where
  "rc_command_id c = map_option command_id (rc_envelope c)"

fun rc_commit_ts :: "ReplicatedCommand \<Rightarrow> HlcTimestamp option" where
  "rc_commit_ts (Transaction _ ts) = Some ts"
| "rc_commit_ts (Catalog _ ts) = Some ts"
| "rc_commit_ts (Maintenance _ ts) = Some ts"
| "rc_commit_ts Noop = None"

fun rc_kind :: "ReplicatedCommand \<Rightarrow> CommandKind option" where
  "rc_kind (Transaction _ _) = Some KindTransaction"
| "rc_kind (Catalog _ _) = Some KindCatalog"
| "rc_kind (Maintenance _ _) = Some KindMaintenance"
| "rc_kind Noop = None"

definition raft_node_id :: "u8 list \<Rightarrow> u64" where
  "raft_node_id bytes = from_le_bytes (take 8 bytes)"

datatype 'm EntryPayload = Blank | Membership 'm | Normal ReplicatedCommand

record 'm log_entry =
  le_position :: log_position
  le_payload :: "'m EntryPayload"

record applied_command =
  ac_position :: log_position
  ac_command :: ReplicatedCommand

record apply_response =
  ar_position :: log_position
  ar_command_id :: "u8 list option"
  ar_commit_ts :: "HlcTimestamp option"
  ar_duplicate :: bool

section \<open>The apply checkpoint\<close>

definition DEFAULT_IDEMPOTENCY_RETENTION :: nat where
  "DEFAULT_IDEMPOTENCY_RETENTION = 4096"

datatype StateMachineError = SmStore string | SmSink string | SmCorrupt string

record applied_record =
  last_applied :: "log_position option"
  last_applied_command_id :: "u8 list option"
  last_applied_commit_ts :: "HlcTimestamp option"
  recent_command_ids :: "u8 list list"

definition applied_record_default :: applied_record where
  "applied_record_default =
     \<lparr>last_applied = None, last_applied_command_id = None, last_applied_commit_ts = None, recent_command_ids = []\<rparr>"

definition record_position :: "applied_record \<Rightarrow> log_position" where
  "record_position r = (case last_applied r of None \<Rightarrow> POSITION_ZERO | Some p \<Rightarrow> p)"

record 'm sm_inner =
  sm_record :: applied_record
  recent_set :: "u8 list set"
  sm_membership :: "log_position option \<times> 'm"

definition sm_open :: "applied_record option \<Rightarrow> log_position option \<times> 'm \<Rightarrow> 'm sm_inner" where
  "sm_open stored members =
     (let r = (case stored of None \<Rightarrow> applied_record_default | Some r \<Rightarrow> r)
      in \<lparr>sm_record = r, recent_set = set (recent_command_ids r), sm_membership = members\<rparr>)"

text \<open>The loop that evicts the oldest ids beyond the retention.\<close>

fun evict :: "nat \<Rightarrow> u8 list list \<Rightarrow> u8 list set \<Rightarrow> u8 list list \<times> u8 list set" where
  "evict retention [] seen = ([], seen)"
| "evict retention (x # xs) seen =
     (if retention < length (x # xs) then evict retention xs (seen - {x}) else (x # xs, seen))"

definition record_command_id :: "nat \<Rightarrow> 'm sm_inner \<Rightarrow> u8 list \<Rightarrow> 'm sm_inner" where
  "record_command_id retention s i =
     (let r = (sm_record s)\<lparr>last_applied_command_id := Some i\<rparr>
      in if i \<in> recent_set s then s\<lparr>sm_record := r\<rparr>
         else (let (ids, seen) = evict retention (recent_command_ids r @ [i]) (insert i (recent_set s))
               in s\<lparr>sm_record := r\<lparr>recent_command_ids := ids\<rparr>, recent_set := seen\<rparr>))"

section \<open>Applying one entry\<close>

type_synonym 'k apply_fn = "applied_command \<Rightarrow> 'k \<Rightarrow> (StateMachineError + unit) \<times> 'k"

definition is_duplicate :: "'m sm_inner \<Rightarrow> ReplicatedCommand \<Rightarrow> bool" where
  "is_duplicate s c =
     (case rc_command_id c of
        None \<Rightarrow> False
      | Some i \<Rightarrow> last_applied_command_id (sm_record s) = Some i \<or> i \<in> recent_set s)"

definition mark_applied :: "nat \<Rightarrow> ReplicatedCommand \<Rightarrow> 'm sm_inner \<Rightarrow> 'm sm_inner" where
  "mark_applied retention c s =
     (let s1 = (case rc_command_id c of None \<Rightarrow> s | Some i \<Rightarrow> record_command_id retention s i)
      in case rc_commit_ts c of
           None \<Rightarrow> s1
         | Some ts \<Rightarrow> s1\<lparr>sm_record := (sm_record s1)\<lparr>last_applied_commit_ts := Some ts\<rparr>\<rparr>)"

definition advance_to :: "log_position \<Rightarrow> 'm sm_inner \<Rightarrow> 'm sm_inner" where
  "advance_to p s = s\<lparr>sm_record := (sm_record s)\<lparr>last_applied := Some p\<rparr>\<rparr>"

text \<open>One log entry. The clock's observation of the commit timestamp after a successful apply changes no state
  of the machine and is left out.\<close>

definition apply_one ::
    "'k apply_fn \<Rightarrow> nat \<Rightarrow> StateMachineError option \<Rightarrow> 'm log_entry \<Rightarrow> 'm sm_inner \<times> 'k \<Rightarrow>
     (StateMachineError + apply_response) \<times> 'm sm_inner \<times> 'k" where
  "apply_one sink retention write_failure entry st =
     (case st of (s, k) \<Rightarrow>
        let p = le_position entry;
            response = \<lparr>ar_position = p, ar_command_id = None, ar_commit_ts = None, ar_duplicate = False\<rparr>
        in if (case last_applied (sm_record s) of None \<Rightarrow> False | Some q \<Rightarrow> lp_index p \<le> lp_index q)
           then (Inr (response\<lparr>ar_duplicate := True\<rparr>), s, k)
           else case le_payload entry of
                  Blank \<Rightarrow> (Inr response, advance_to p s, k)
                | Membership members \<Rightarrow>
                    (let s1 = s\<lparr>sm_membership := (Some p, members)\<rparr>
                     in case write_failure of
                          Some e \<Rightarrow> (Inl e, s1, k)
                        | None \<Rightarrow> (Inr response, advance_to p s1, k))
                | Normal c \<Rightarrow>
                    (let response = response\<lparr>ar_command_id := rc_command_id c, ar_commit_ts := rc_commit_ts c\<rparr>
                     in if is_duplicate s c then (Inr (response\<lparr>ar_duplicate := True\<rparr>), advance_to p s, k)
                        else case sink \<lparr>ac_position = p, ac_command = c\<rparr> k of
                               (Inl e, k') \<Rightarrow> (Inl e, s, k')
                             | (Inr _, k') \<Rightarrow> (Inr response, advance_to p (mark_applied retention c s), k')))"

text \<open>A batch stops at the first failure; the checkpoint is written after it.\<close>

fun apply_batch ::
    "'k apply_fn \<Rightarrow> nat \<Rightarrow> 'm log_entry list \<Rightarrow> 'm sm_inner \<times> 'k \<Rightarrow> (StateMachineError + 'm sm_inner \<times> 'k)" where
  "apply_batch sink retention [] st = Inr st"
| "apply_batch sink retention (e # es) st =
     (case apply_one sink retention None e st of
        (Inl err, _) \<Rightarrow> Inl err
      | (Inr _, st') \<Rightarrow> apply_batch sink retention es st')"

section \<open>Snapshots\<close>

definition framed_bytes :: "(u8 list \<Rightarrow> u8 list) \<Rightarrow> u8 list \<Rightarrow> u8 list \<Rightarrow> u8 list" where
  "framed_bytes sha magic body = magic @ sha body @ body"

definition parse_framed :: "(u8 list \<Rightarrow> u8 list) \<Rightarrow> u8 list \<Rightarrow> u8 list \<Rightarrow> StateMachineError + u8 list" where
  "parse_framed sha magic bytes =
     (if length bytes < 8 + 32 \<or> take 8 bytes \<noteq> magic then Inl (SmCorrupt ''bad magic or truncated header'')
      else (let tag = take 32 (drop 8 bytes); body = drop 32 (drop 8 bytes)
            in if tag \<noteq> sha body then Inl (SmCorrupt ''checksum mismatch'') else Inr body))"

record 'm sm_snapshot =
  ss_record :: applied_record
  ss_membership :: "log_position option \<times> 'm"
  ss_sink_payload :: "u8 list"

definition build_snapshot ::
    "('k \<Rightarrow> StateMachineError + u8 list) \<Rightarrow> 'm sm_inner \<times> 'k \<Rightarrow> StateMachineError + 'm sm_snapshot" where
  "build_snapshot sink_snapshot st =
     (case st of (s, k) \<Rightarrow>
        (case sink_snapshot k of
           Inl e \<Rightarrow> Inl e
         | Inr bytes \<Rightarrow> Inr \<lparr>ss_record = sm_record s, ss_membership = sm_membership s, ss_sink_payload = bytes\<rparr>))"

definition stale_text :: "applied_record \<Rightarrow> applied_record \<Rightarrow> string" where
  "stale_text incoming current =
     ''refusing stale snapshot install: snapshot position term='' @ decimal (unat (lp_term (record_position incoming))) @
     '' index='' @ decimal (unat (lp_index (record_position incoming))) @ '' is behind current applied term='' @
     decimal (unat (lp_term (record_position current))) @ '' index='' @
     decimal (unat (lp_index (record_position current)))"

definition stale_snapshot :: "applied_record \<Rightarrow> applied_record \<Rightarrow> bool" where
  "stale_snapshot incoming current =
     (let i = record_position incoming; c = record_position current
      in lp_index i < lp_index c \<or> lp_index i = lp_index c \<and> lp_term i < lp_term c)"

text \<open>Installation after the frame was parsed and decoded: the argument \<open>fails\<close> says whether the fault
  hooks and file writes, numbered in the order of the code, fail.\<close>

definition attempt :: "StateMachineError option \<Rightarrow> 's \<Rightarrow> (StateMachineError + 'a) \<times> 's \<Rightarrow> (StateMachineError + 'a) \<times> 's" where
  "attempt failure st continue = (case failure of Some e \<Rightarrow> (Inl e, st) | None \<Rightarrow> continue)"

definition replace_state :: "'m sm_snapshot \<Rightarrow> 'm sm_inner" where
  "replace_state snap =
     \<lparr>sm_record = ss_record snap, recent_set = set (recent_command_ids (ss_record snap)),
      sm_membership = ss_membership snap\<rparr>"

definition install_snapshot ::
    "(u8 list \<Rightarrow> 'k \<Rightarrow> (StateMachineError + unit) \<times> 'k) \<Rightarrow> (nat \<Rightarrow> StateMachineError option) \<Rightarrow>
     'm sm_snapshot \<Rightarrow> 'm sm_inner \<times> 'k \<Rightarrow> (StateMachineError + applied_record) \<times> 'm sm_inner \<times> 'k" where
  "install_snapshot sink_install fails snap st =
     (case st of (s, k) \<Rightarrow>
        attempt (fails 0) (s, k)
          (if stale_snapshot (ss_record snap) (sm_record s)
           then (Inl (SmCorrupt (stale_text (ss_record snap) (sm_record s))), s, k)
           else attempt (fails 1) (s, k)
                  (case sink_install (ss_sink_payload snap) k of
                     (Inl e, k') \<Rightarrow> (Inl e, s, k')
                   | (Inr _, k') \<Rightarrow>
                       attempt (fails 2) (s, k') (attempt (fails 3) (s, k')
                         (let s' = replace_state snap
                          in attempt (fails 4) (s', k') (attempt (fails 5) (s', k') (attempt (fails 6) (s', k')
                               (Inr (ss_record snap), s', k'))))))))"

section \<open>The idempotency window\<close>

definition window_ok :: "nat \<Rightarrow> 'm sm_inner \<Rightarrow> bool" where
  "window_ok retention s \<longleftrightarrow>
     recent_set s = set (recent_command_ids (sm_record s)) \<and> distinct (recent_command_ids (sm_record s)) \<and>
     length (recent_command_ids (sm_record s)) \<le> retention"

lemma evict_eq:
  "distinct xs \<Longrightarrow> seen = set xs \<Longrightarrow>
   evict retention xs seen = (drop (length xs - retention) xs, set (drop (length xs - retention) xs))"
proof (induction xs arbitrary: seen)
  case (Cons x xs)
  then have "seen - {x} = set xs" by auto
  with Cons show ?case by (auto simp: Suc_diff_le)
qed simp

lemma record_command_id_window:
  assumes "window_ok retention s"
  shows "window_ok retention (record_command_id retention s i)"
proof (cases "i \<in> recent_set s")
  case True
  with assms show ?thesis by (simp add: window_ok_def record_command_id_def Let_def)
next
  case False
  let ?xs = "recent_command_ids (sm_record s) @ [i]"
  have "distinct ?xs" and "insert i (recent_set s) = set ?xs"
    using assms False by (auto simp: window_ok_def)
  then have "evict retention ?xs (insert i (recent_set s)) =
      (drop (length ?xs - retention) ?xs, set (drop (length ?xs - retention) ?xs))" by (rule evict_eq)
  moreover have "length (drop (length ?xs - retention) ?xs) \<le> retention" by (simp only: length_drop)
  ultimately show ?thesis
    using False distinct_drop [OF \<open>distinct ?xs\<close>, of "length ?xs - retention"]
    by (simp only: window_ok_def record_command_id_def Let_def if_False prod.case) simp
qed

lemma window_mark_applied: "window_ok retention s \<Longrightarrow> window_ok retention (mark_applied retention c s)"
  using record_command_id_window [of retention s]
  by (auto simp: mark_applied_def Let_def window_ok_def split: option.splits)

lemma window_advance [simp]: "window_ok retention (advance_to p s) = window_ok retention s"
  by (simp add: window_ok_def advance_to_def)

lemma window_membership [simp]: "window_ok retention (s\<lparr>sm_membership := m\<rparr>) = window_ok retention s"
  by (simp add: window_ok_def)

lemma apply_one_window:
  assumes "apply_one sink retention w entry (s, k) = (res, s', k')" and "window_ok retention s"
  shows "window_ok retention s'"
  using assms window_mark_applied [of retention s]
  by (auto simp: apply_one_def Let_def split: if_splits EntryPayload.splits option.splits prod.splits sum.splits)

lemma sm_open_restores: "window_ok retention s \<Longrightarrow> sm_open (Some (sm_record s)) m = s\<lparr>sm_membership := m\<rparr>"
  by (simp add: sm_open_def window_ok_def Let_def)

text \<open>What an entry does to the membership.\<close>

definition membership_of :: "'m log_entry \<Rightarrow> 'm sm_inner \<Rightarrow> log_position option \<times> 'm \<Rightarrow> log_position option \<times> 'm" where
  "membership_of e s M =
     (if (case last_applied (sm_record s) of None \<Rightarrow> False | Some q \<Rightarrow> lp_index (le_position e) \<le> lp_index q) then M
      else case le_payload e of Membership m \<Rightarrow> (Some (le_position e), m) | _ \<Rightarrow> M)"

lemma membership_of_cases: "membership_of e s = (\<lambda>M. M) \<or> (\<exists>c. membership_of e s = (\<lambda>M. c))"
  by (auto simp: membership_of_def fun_eq_iff split: EntryPayload.splits)

lemma advance_membership [simp]: "advance_to p (s\<lparr>sm_membership := M\<rparr>) = (advance_to p s)\<lparr>sm_membership := M\<rparr>"
  by (simp add: advance_to_def)

lemma mark_membership [simp]:
  "mark_applied r c (s\<lparr>sm_membership := M\<rparr>) = (mark_applied r c s)\<lparr>sm_membership := M\<rparr>"
  by (simp add: mark_applied_def record_command_id_def Let_def split: option.splits prod.splits)

lemma duplicate_membership [simp]: "is_duplicate (s\<lparr>sm_membership := M\<rparr>) c = is_duplicate s c"
  by (simp add: is_duplicate_def split: option.splits)

section \<open>Sinks that skip what they have seen\<close>

text \<open>A sink remembers the index of the last command it applied and skips commands at or below it.\<close>

locale replay_sink =
  fixes sink :: "'k apply_fn" and seen_up_to :: "'k \<Rightarrow> u64"
  assumes skips: "lp_index (ac_position c) \<le> seen_up_to k \<Longrightarrow> sink c k = (Inr (), k)"
    and advances: "sink c k = (Inr (), k') \<Longrightarrow> seen_up_to k < lp_index (ac_position c) \<Longrightarrow>
      seen_up_to k' = lp_index (ac_position c)"
begin

lemma dispatch_seen:
  assumes "sink c k = (Inr (), k')"
  shows "seen_up_to k \<le> seen_up_to k'" and "lp_index (ac_position c) \<le> seen_up_to k'"
proof -
  have "seen_up_to k \<le> seen_up_to k' \<and> lp_index (ac_position c) \<le> seen_up_to k'"
  proof (cases "lp_index (ac_position c) \<le> seen_up_to k")
    case True
    with skips [OF True] assms show ?thesis by simp
  next
    case False
    with advances [OF assms] show ?thesis by simp
  qed
  then show "seen_up_to k \<le> seen_up_to k'" and "lp_index (ac_position c) \<le> seen_up_to k'" by simp_all
qed

text \<open>One entry, applied by a machine whose sink already applied it.\<close>

lemma apply_one_again:
  assumes run: "apply_one sink r None e (s, k) = (Inr response, s', k')" and K: "seen_up_to k' \<le> seen_up_to K"
  shows "apply_one sink r None e (s\<lparr>sm_membership := M\<rparr>, K) = (Inr response, s'\<lparr>sm_membership := membership_of e s M\<rparr>, K)"
    and "seen_up_to k \<le> seen_up_to k'"
proof -
  let ?old = "case last_applied (sm_record s) of None \<Rightarrow> False | Some q \<Rightarrow> lp_index (le_position e) \<le> lp_index q"
  have "apply_one sink r None e (s\<lparr>sm_membership := M\<rparr>, K) =
      (Inr response, s'\<lparr>sm_membership := membership_of e s M\<rparr>, K) \<and> seen_up_to k \<le> seen_up_to k'"
  proof (cases "\<exists>c. le_payload e = Normal c \<and> \<not> is_duplicate s c \<and> \<not> ?old")
    case True
    then obtain c where c: "le_payload e = Normal c" "\<not> is_duplicate s c" "\<not> ?old" by blast
    let ?c = "\<lparr>ac_position = le_position e, ac_command = c\<rparr>"
    have d: "sink ?c k = (Inr (), k')"
      using run c by (auto simp: apply_one_def Let_def split: prod.splits sum.splits)
    have "sink ?c K = (Inr (), K)" using dispatch_seen(2) [OF d] K by (intro skips) (simp add: order_trans)
    with run c d dispatch_seen(1) [OF d] show ?thesis by (auto simp: apply_one_def Let_def membership_of_def)
  next
    case False
    then show ?thesis
      using run by (auto simp: apply_one_def Let_def membership_of_def advance_to_def split: if_splits EntryPayload.splits)
  qed
  then show "apply_one sink r None e (s\<lparr>sm_membership := M\<rparr>, K) =
      (Inr response, s'\<lparr>sm_membership := membership_of e s M\<rparr>, K)" and "seen_up_to k \<le> seen_up_to k'" by simp_all
qed

lemma apply_one_membership:
  "apply_one sink r None e (s, k) = (Inr response, s', k') \<Longrightarrow> sm_membership s' = membership_of e s (sm_membership s)"
proof -
  assume run: "apply_one sink r None e (s, k) = (Inr response, s', k')"
  have "s = s\<lparr>sm_membership := sm_membership s\<rparr>" by simp
  have "sm_membership (mark_applied r c s) = sm_membership s" for c
    by (simp add: mark_applied_def record_command_id_def Let_def split: option.splits prod.splits)
  with run show ?thesis
    by (auto simp: apply_one_def Let_def membership_of_def advance_to_def
        split: if_splits EntryPayload.splits prod.splits sum.splits)
qed

lemma apply_batch_seen: "apply_batch sink r es (s, k) = Inr (s', k') \<Longrightarrow> seen_up_to k \<le> seen_up_to k'"
proof (induction es arbitrary: s k)
  case (Cons e es)
  obtain response s1 k1 where one: "apply_one sink r None e (s, k) = (Inr response, s1, k1)"
    and rest: "apply_batch sink r es (s1, k1) = Inr (s', k')"
    using Cons.prems by (auto split: prod.splits sum.splits)
  from apply_one_again(2) [OF one order_refl] Cons.IH [OF rest] show ?case by (rule order_trans)
qed simp

text \<open>A batch, applied again by a sink that already went through it: the checkpoint moves as before and
  the sink stays.\<close>

lemma apply_batch_again:
  assumes "apply_batch sink r es (s, k) = Inr (s', k')" and "seen_up_to k' \<le> seen_up_to K"
  shows "\<exists>f. (f = (\<lambda>M. M) \<or> (\<exists>c. f = (\<lambda>M. c))) \<and> sm_membership s' = f (sm_membership s) \<and>
    (\<forall>M. apply_batch sink r es (s\<lparr>sm_membership := M\<rparr>, K) = Inr (s'\<lparr>sm_membership := f M\<rparr>, K))"
  using assms(1)
proof (induction es arbitrary: s k)
  case Nil
  then show ?case by (intro exI [of _ "\<lambda>M. M"]) simp
next
  case (Cons e es)
  obtain response s1 k1 where one: "apply_one sink r None e (s, k) = (Inr response, s1, k1)"
    and rest: "apply_batch sink r es (s1, k1) = Inr (s', k')"
    using Cons.prems by (auto split: prod.splits sum.splits)
  from Cons.IH [OF rest] obtain f where f: "f = (\<lambda>M. M) \<or> (\<exists>c. f = (\<lambda>M. c))" "sm_membership s' = f (sm_membership s1)"
    "\<And>M. apply_batch sink r es (s1\<lparr>sm_membership := M\<rparr>, K) = Inr (s'\<lparr>sm_membership := f M\<rparr>, K)" by blast
  have K: "seen_up_to k1 \<le> seen_up_to K" using apply_batch_seen [OF rest] assms(2) by (rule order_trans)
  have "apply_batch sink r (e # es) (s\<lparr>sm_membership := M\<rparr>, K) = Inr (s'\<lparr>sm_membership := f (membership_of e s M)\<rparr>, K)" for M
    by (simp add: apply_one_again(1) [OF one K] f(3))
  moreover have "(\<lambda>M. f (membership_of e s M)) = (\<lambda>M. M) \<or> (\<exists>c. (\<lambda>M. f (membership_of e s M)) = (\<lambda>M. c))"
    using membership_of_cases [of e s] f(1) by (auto simp: fun_eq_iff)
  ultimately show ?case
    using f(2) apply_one_membership [OF one] by (intro exI [of _ "\<lambda>M. f (membership_of e s M)"]) simp
qed

text \<open>A crash after the sink went through some entries and before the checkpoint was written loses
  nothing and repeats nothing.\<close>

lemma crash_window:
  assumes "window_ok r s" and "apply_batch sink r es (s, k) = Inr (s', k')"
  shows "apply_batch sink r (es @ es') (sm_open (Some (sm_record s)) (sm_membership s'), k') =
    apply_batch sink r (es @ es') (s, k)"
proof -
  have split: "apply_batch sink r (xs @ es') st = (case apply_batch sink r xs st of Inl e \<Rightarrow> Inl e | Inr st' \<Rightarrow> apply_batch sink r es' st')"
    for xs st by (induction xs arbitrary: st) (auto split: prod.splits sum.splits)
  from apply_batch_again [OF assms(2) order_refl] obtain f where
    f: "f = (\<lambda>M. M) \<or> (\<exists>c. f = (\<lambda>M. c))" "sm_membership s' = f (sm_membership s)"
    "\<And>M. apply_batch sink r es (s\<lparr>sm_membership := M\<rparr>, k') = Inr (s'\<lparr>sm_membership := f M\<rparr>, k')" by blast
  have "f (sm_membership s') = sm_membership s'" using f(1,2) by auto
  then show ?thesis
    by (simp add: split assms(2) sm_open_restores [OF assms(1)] f(3))
qed

end

end
