(* ===== verification/Ids.thy ===== *)
theory Ids
  imports Byte_Codec
begin

text \<open>
  The 128-bit identifiers and their text form (\<open>crates/mongreldb-types/src/ids.rs\<close>). An identifier is a
  word whose big-endian bytes are the 16 bytes of the source, so the derived byte-wise order is the
  order of the word. Text is ASCII.
\<close>

type_synonym id128 = "128 word"
type_synonym TransactionId = id128
type_synonym TabletId = id128
type_synonym RaftGroupId = id128
type_synonym SchemaVersion = u64

definition as_bytes :: "id128 \<Rightarrow> u8 list" where
  "as_bytes i = rev (le_bytes 16 i)"

definition from_bytes :: "u8 list \<Rightarrow> id128" where
  "from_bytes bs = from_le_bytes (rev bs)"

datatype IdParseError = InvalidLength nat | InvalidCharacter char

definition HEX :: string where
  "HEX = ''0123456789abcdef''"

definition hex_encode :: "u8 list \<Rightarrow> string" where
  "hex_encode bs = concat (map (\<lambda>b. [HEX ! (unat b div 16), HEX ! (unat b mod 16)]) bs)"

text \<open>\<open>char::to_digit(16)\<close>.\<close>

definition to_digit16 :: "char \<Rightarrow> nat option" where
  "to_digit16 c =
     (let n = of_char c :: nat
      in if 48 \<le> n \<and> n \<le> 57 then Some (n - 48)
         else if 97 \<le> n \<and> n \<le> 102 then Some (n - 87)
         else if 65 \<le> n \<and> n \<le> 70 then Some (n - 55)
         else None)"

fun hex_pairs :: "string \<Rightarrow> IdParseError + u8 list" where
  "hex_pairs (hi # lo # cs) =
     (case to_digit16 hi of
        None \<Rightarrow> Inl (InvalidCharacter hi)
      | Some h \<Rightarrow>
          (case to_digit16 lo of
             None \<Rightarrow> Inl (InvalidCharacter lo)
           | Some l \<Rightarrow>
               (case hex_pairs cs of Inl e \<Rightarrow> Inl e | Inr bs \<Rightarrow> Inr (word_of_nat (16 * h + l) # bs))))"
| "hex_pairs cs = Inr []"

definition hex_decode :: "string \<Rightarrow> IdParseError + u8 list" where
  "hex_decode text = (if length text \<noteq> 32 then Inl (InvalidLength (length text)) else hex_pairs text)"

definition to_hex :: "id128 \<Rightarrow> string" where
  "to_hex i = hex_encode (as_bytes i)"

definition id_from_str :: "string \<Rightarrow> IdParseError + id128" where
  "id_from_str text =
     (case hex_decode (filter (\<lambda>c. c \<noteq> CHR ''-'') text) of Inl e \<Rightarrow> Inl e | Inr bs \<Rightarrow> Inr (from_bytes bs))"

section \<open>Digits\<close>

definition lower :: "char \<Rightarrow> char" where
  "lower c = (let n = of_char c :: nat in if 65 \<le> n \<and> n \<le> 90 then char_of (n + 32) else c)"

lemma length_as_bytes [simp]: "length (as_bytes i) = 16"
  by (simp add: as_bytes_def)

lemma from_bytes_as_bytes [simp]: "from_bytes (as_bytes i) = i"
  by (simp add: from_bytes_def as_bytes_def)

lemma as_bytes_from_bytes: "length bs = 16 \<Longrightarrow> as_bytes (from_bytes bs) = bs"
  using le_bytes_from_le_bytes [of "rev bs" 16, where ?'a = 128] by (simp add: from_bytes_def as_bytes_def)

lemma all_lt_16: "(\<forall>d<16. P d) \<longleftrightarrow>
  P (0::nat) \<and> P 1 \<and> P 2 \<and> P 3 \<and> P 4 \<and> P 5 \<and> P 6 \<and> P 7 \<and> P 8 \<and> P 9 \<and> P 10 \<and> P 11 \<and> P 12 \<and> P 13 \<and> P 14 \<and> P 15"
  by (auto simp: eval_nat_numeral All_less_Suc)

lemma digit_of_HEX: "d < 16 \<Longrightarrow> to_digit16 (HEX ! d) = Some d \<and> HEX ! d \<noteq> CHR ''-'' \<and> lower (HEX ! d) = HEX ! d"
proof -
  have "\<forall>d<16. to_digit16 (HEX ! d) = Some d \<and> HEX ! d \<noteq> CHR ''-'' \<and> lower (HEX ! d) = HEX ! d"
    unfolding all_lt_16 by (simp add: HEX_def to_digit16_def lower_def)
  then show "d < 16 \<Longrightarrow> ?thesis" by blast
qed

lemma HEX_of_digit: "to_digit16 c = Some d \<Longrightarrow> d < 16 \<and> HEX ! d = lower c"
proof -
  assume a: "to_digit16 c = Some d"
  define n where "n = (of_char c :: nat)"
  have c: "c = char_of n" by (simp add: n_def)
  have lt: "d < 16" using a by (auto simp: to_digit16_def Let_def split: if_splits)
  have n: "n = d + 48 \<and> d < 10 \<or> n = d + 87 \<and> 10 \<le> d \<or> n = d + 55 \<and> 10 \<le> d"
    using a by (auto simp: to_digit16_def Let_def n_def [symmetric] split: if_splits)
  have "\<forall>d<16. (d < 10 \<longrightarrow> HEX ! d = lower (char_of (d + 48))) \<and> (10 \<le> d \<longrightarrow> HEX ! d = lower (char_of (d + 87))) \<and>
      (10 \<le> d \<longrightarrow> HEX ! d = lower (char_of (d + 55)))"
    unfolding all_lt_16 by (simp add: HEX_def lower_def char_of_def bit_0)
  with lt n c show ?thesis by blast
qed

section \<open>Text form\<close>

lemma length_hex_encode [simp]: "length (hex_encode bs) = 2 * length bs"
  by (induction bs) (simp_all add: hex_encode_def)

lemma hex_encode_Cons: "hex_encode (b # bs) = HEX ! (unat b div 16) # HEX ! (unat b mod 16) # hex_encode bs"
  by (simp add: hex_encode_def)

lemma hex_pairs_encode: "hex_pairs (hex_encode bs) = Inr bs"
proof (induction bs)
  case (Cons b bs)
  have "unat b < 2 ^ LENGTH(8)" by (rule unsigned_less)
  then have "unat b div 16 < 16" and "unat b mod 16 < 16" by simp_all
  then show ?case using Cons digit_of_HEX by (simp add: hex_encode_Cons)
qed (simp add: hex_encode_def)

lemma hex_pairs_inverse: "hex_pairs cs = Inr bs \<Longrightarrow> even (length cs) \<Longrightarrow> hex_encode bs = map lower cs"
proof (induction cs arbitrary: bs rule: hex_pairs.induct)
  case (1 hi lo cs)
  obtain h l bs' where d: "to_digit16 hi = Some h" "to_digit16 lo = Some l" "hex_pairs cs = Inr bs'"
    "bs = word_of_nat (16 * h + l) # bs'"
    using "1.prems"(1) by (auto split: option.splits sum.splits)
  note H = HEX_of_digit [OF d(1)] HEX_of_digit [OF d(2)]
  then have "16 * h + l < 2 ^ 8" by auto
  moreover have "n < 2 ^ 8 \<Longrightarrow> unat (word_of_nat n :: u8) = n" for n by (simp add: unat_of_nat take_bit_nat_eq_self)
  ultimately have u: "unat (word_of_nat (16 * h + l) :: u8) = 16 * h + l" by blast
  have "hex_encode bs' = map lower cs" using "1.IH" d "1.prems"(2) by simp
  with H show ?case unfolding d(4) hex_encode_Cons u by simp
qed (auto simp: hex_encode_def)

lemma hex_pairs_length: "hex_pairs cs = Inr bs \<Longrightarrow> length bs = length cs div 2"
  by (induction cs arbitrary: bs rule: hex_pairs.induct) (auto split: option.splits sum.splits)

lemma to_digit16_lower [simp]: "to_digit16 (lower c) = to_digit16 c"
  by (auto simp: to_digit16_def lower_def Let_def of_char_of take_bit_nat_eq_self)

lemma hex_pairs_lower: "hex_pairs (map lower cs) = Inr bs \<Longrightarrow> hex_pairs cs = Inr bs"
proof (induction cs arbitrary: bs rule: hex_pairs.induct)
  case (1 hi lo cs)
  then show ?case by (simp split: option.splits sum.splits)
qed simp_all

section \<open>Properties\<close>

text \<open>C36: Parsing accepts exactly the spellings of an identifier. A text parses to an identifier if and
  only if dropping its hyphens and lowering its letters gives the canonical form of that identifier; in
  particular the canonical form parses back.\<close>

theorem id_text_exact:
  "id_from_str text = Inr i \<longleftrightarrow> map lower (filter (\<lambda>c. c \<noteq> CHR ''-'') text) = to_hex i"
proof -
  let ?t = "filter (\<lambda>c. c \<noteq> CHR ''-'') text"
  show ?thesis
  proof (cases "length ?t = 32")
    case False
    then have "map lower ?t \<noteq> to_hex i" by (metis length_map length_hex_encode length_as_bytes to_hex_def mult_2 numeral_Bit0)
    with False show ?thesis by (simp add: id_from_str_def hex_decode_def)
  next
    case True
    show ?thesis
    proof
      assume "id_from_str text = Inr i"
      then obtain bs where bs: "hex_pairs ?t = Inr bs" "i = from_bytes bs"
        using True by (auto simp: id_from_str_def hex_decode_def split: sum.splits)
      have "length bs = 16" using hex_pairs_length [OF bs(1)] True by simp
      then have "as_bytes i = bs" using bs(2) as_bytes_from_bytes by simp
      with hex_pairs_inverse [OF bs(1)] True show "map lower ?t = to_hex i" by (simp add: to_hex_def)
    next
      assume a: "map lower ?t = to_hex i"
      have "hex_pairs (map lower ?t) = Inr (as_bytes i)" unfolding a to_hex_def by (rule hex_pairs_encode)
      then have "hex_pairs ?t = Inr (as_bytes i)" by (rule hex_pairs_lower)
      with True show "id_from_str text = Inr i" by (simp add: id_from_str_def hex_decode_def)
    qed
  qed
qed

end
