(* ===== verification/Btree_Map.thy ===== *)
theory Btree_Map
  imports Main
begin

text \<open>
  \<open>BTreeMap\<close> as the list of its entries in ascending order of the keys: \<open>get\<close> is \<open>map_of\<close>, iteration is
  the list itself.
\<close>

fun bt_insert :: "'k::linorder \<Rightarrow> 'v \<Rightarrow> ('k \<times> 'v) list \<Rightarrow> ('k \<times> 'v) list" where
  "bt_insert k v [] = [(k, v)]"
| "bt_insert k v ((x, y) # xs) =
     (if k < x then (k, v) # (x, y) # xs else if k = x then (k, v) # xs else (x, y) # bt_insert k v xs)"

definition bt_remove :: "'k \<Rightarrow> ('k \<times> 'v) list \<Rightarrow> ('k \<times> 'v) list" where
  "bt_remove k xs = filter (\<lambda>e. fst e \<noteq> k) xs"

definition bt_sorted :: "('k::linorder \<times> 'v) list \<Rightarrow> bool" where
  "bt_sorted xs \<longleftrightarrow> sorted_wrt (<) (map fst xs)"

lemma bt_sorted_Nil [simp]: "bt_sorted []"
  by (simp add: bt_sorted_def)

lemma map_of_bt_insert [simp]: "map_of (bt_insert k v xs) = (map_of xs)(k \<mapsto> v)"
  by (induction k v xs rule: bt_insert.induct) (auto simp: fun_eq_iff)

lemma map_of_bt_remove [simp]: "map_of (bt_remove k xs) = (map_of xs)(k := None)"
  by (induction xs) (auto simp: bt_remove_def fun_eq_iff)

lemma fst_bt_insert: "fst ` set (bt_insert k v xs) = insert k (fst ` set xs)"
  by (induction k v xs rule: bt_insert.induct) auto

lemma bt_sorted_insert [simp]: "bt_sorted xs \<Longrightarrow> bt_sorted (bt_insert k v xs)"
  unfolding bt_sorted_def
proof (induction k v xs rule: bt_insert.induct)
  case (2 k v x y xs)
  have "\<forall>z\<in>fst ` set (bt_insert k v xs). x < z" if "\<not> k < x" "k \<noteq> x"
    using "2.prems" that by (auto simp: fst_bt_insert)
  with 2 show ?case by auto
qed simp

lemma bt_sorted_filter: "bt_sorted xs \<Longrightarrow> bt_sorted (filter P xs)"
  by (induction xs) (auto simp: bt_sorted_def)

lemma bt_sorted_remove [simp]: "bt_sorted xs \<Longrightarrow> bt_sorted (bt_remove k xs)"
  by (simp add: bt_remove_def bt_sorted_filter)

lemma bt_sorted_distinct: "bt_sorted xs \<Longrightarrow> distinct (map fst xs)"
  by (simp add: bt_sorted_def strict_sorted_iff)

lemma bt_get_iff: "bt_sorted xs \<Longrightarrow> map_of xs k = Some v \<longleftrightarrow> (k, v) \<in> set xs"
  by (simp add: bt_sorted_distinct)

end
