(* ===== verification/Dist_Records.thy ===== *)
theory Dist_Records
  imports Replicated_Machine Ids Btree_Map
begin

text \<open>
  The records, commands and rejections of the distributed transaction protocol, and the choice of the
  coordinator group (\<open>crates/mongreldb-cluster/src/dist_txn.rs\<close>). SHA-256, \<open>serde_json\<close> and the texts that
  \<open>Display\<close> and \<open>Debug\<close> produce are parameters.
\<close>

unbundle bit_operations_syntax

section \<open>Command ids\<close>

definition COMMAND_TYPE_DIST_TXN_COORDINATOR :: u32 where
  "COMMAND_TYPE_DIST_TXN_COORDINATOR = 5"

definition COMMAND_TYPE_DIST_TXN_INTENT :: u32 where
  "COMMAND_TYPE_DIST_TXN_INTENT = 6"

definition DIST_TXN_RECORD_FORMAT_VERSION :: u32 where
  "DIST_TXN_RECORD_FORMAT_VERSION = 1"

definition MIN_SUPPORTED_DIST_TXN_RECORD_FORMAT_VERSION :: u32 where
  "MIN_SUPPORTED_DIST_TXN_RECORD_FORMAT_VERSION = 1"

definition DIST_TXN_REJECTION_LIMIT :: nat where
  "DIST_TXN_REJECTION_LIMIT = 256"

definition TAG_BEGIN :: string where "TAG_BEGIN = ''dist-txn/begin''"
definition TAG_HEARTBEAT :: string where "TAG_HEARTBEAT = ''dist-txn/heartbeat''"
definition TAG_MARK :: string where "TAG_MARK = ''dist-txn/mark-preparing''"
definition TAG_COMMIT :: string where "TAG_COMMIT = ''dist-txn/commit''"
definition TAG_ABORT :: string where "TAG_ABORT = ''dist-txn/abort''"
definition TAG_PREPARE :: string where "TAG_PREPARE = ''dist-txn/intents''"
definition TAG_RESOLVE :: string where "TAG_RESOLVE = ''dist-txn/resolve''"
definition TAG_SWEEP :: string where "TAG_SWEEP = ''dist-txn/sweep-resolved''"

definition command_id_for :: "(u8 list \<Rightarrow> u8 list) \<Rightarrow> string \<Rightarrow> TransactionId \<Rightarrow> u8 list \<Rightarrow> u8 list" where
  "command_id_for sha tag t extra = take 16 (sha (text_bytes tag @ as_bytes t @ extra))"

definition fnv1a_64 :: "u8 list \<Rightarrow> u64" where
  "fnv1a_64 bs = foldl (\<lambda>h b. (h XOR ucast b) * 0x100000001b3) 0xcbf29ce484222325 bs"

section \<open>Protocol records\<close>

datatype DistAbortReason =
    DistRolledBack
  | DistConflict string
  | DistValidation string
  | DistCancelled string
  | DistError string

datatype DistributedTxnState =
    Pending
  | Preparing
  | Committed HlcTimestamp
  | Aborted DistAbortReason

fun is_terminal :: "DistributedTxnState \<Rightarrow> bool" where
  "is_terminal (Committed _) = True"
| "is_terminal (Aborted _) = True"
| "is_terminal _ = False"

record txn_participant =
  tp_tablet_id :: TabletId
  tp_raft_group_id :: RaftGroupId

record txn_record =
  tr_txn_id :: TransactionId
  tr_state :: DistributedTxnState
  tr_participants :: "txn_participant list"
  tr_prepare_ts :: "(TabletId \<times> HlcTimestamp) list"
  tr_coordinator :: RaftGroupId
  tr_created_at :: HlcTimestamp
  tr_heartbeat :: HlcTimestamp
  tr_expiry :: HlcTimestamp
  tr_max_observed :: HlcTimestamp
  tr_idempotency_key :: "u8 list"

definition expired :: "txn_record \<Rightarrow> HlcTimestamp \<Rightarrow> bool" where
  "expired r now \<longleftrightarrow> tr_expiry r \<le> now"

definition participant_of :: "txn_record \<Rightarrow> TabletId \<Rightarrow> txn_participant option" where
  "participant_of r tablet = find (\<lambda>p. tp_tablet_id p = tablet) (tr_participants r)"

record write_intent =
  wi_txn_id :: TransactionId
  wi_key :: "u8 list"
  wi_value_ref :: "u8 list"
  wi_prepare_ts :: HlcTimestamp

record prepare_token =
  pt_txn_id :: TransactionId
  pt_tablet_id :: TabletId
  pt_raft_group_id :: RaftGroupId
  pt_prepare_ts :: HlcTimestamp
  pt_position :: log_position
  pt_command_id :: "u8 list"

datatype TxnDecision = DecideCommit HlcTimestamp | DecideAbort DistAbortReason

record txn_outcome =
  to_txn_id :: TransactionId
  to_commit_ts :: HlcTimestamp
  to_participants :: "txn_participant list"
  to_durability :: DurabilityLevel

record participant_txn =
  px_txn_id :: TransactionId
  px_prepare_ts :: HlcTimestamp
  px_command_id :: "u8 list"
  px_intents :: "write_intent list"
  px_resolution :: "TxnDecision option"
  px_applied :: bool
  px_resolved_at :: "HlcTimestamp option"

record committed_write =
  cw_key :: "u8 list"
  cw_value_ref :: "u8 list"
  cw_commit_ts :: HlcTimestamp
  cw_txn_id :: TransactionId

section \<open>Commands and rejections\<close>

datatype CoordinatorCommand =
    Begin txn_record
  | Heartbeat TransactionId (hb_heartbeat: HlcTimestamp) (hb_expiry: HlcTimestamp)
  | MarkPreparing TransactionId TabletId (mk_prepare_ts: HlcTimestamp) (mk_observed: HlcTimestamp)
  | Commit TransactionId HlcTimestamp
  | Abort TransactionId DistAbortReason

datatype IntentCommand =
    SetTabletVersions SchemaVersion u64
  | PersistIntents TransactionId SchemaVersion u64 HlcTimestamp "write_intent list"
  | Resolve TransactionId TxnDecision
  | SweepResolved HlcTimestamp u32

datatype DistTxnDecodeError =
    DecodeMalformed string
  | DecodeUnsupportedVersion u32 u32 u32

fun decode_error_text :: "DistTxnDecodeError \<Rightarrow> string" where
  "decode_error_text (DecodeMalformed m) = ''distributed transaction command decode failed: '' @ m"
| "decode_error_text (DecodeUnsupportedVersion f lo hi) =
     ''unsupported distributed transaction record version '' @ decimal (unat f) @ '' (supported '' @
     decimal (unat lo) @ ''..='' @ decimal (unat hi) @ '')''"

definition check_record_version :: "u32 \<Rightarrow> DistTxnDecodeError + unit" where
  "check_record_version found =
     (if \<not> (MIN_SUPPORTED_DIST_TXN_RECORD_FORMAT_VERSION \<le> found \<and> found \<le> DIST_TXN_RECORD_FORMAT_VERSION)
      then Inl (DecodeUnsupportedVersion found MIN_SUPPORTED_DIST_TXN_RECORD_FORMAT_VERSION DIST_TXN_RECORD_FORMAT_VERSION)
      else Inr ())"

text \<open>A versioned payload record is the pair of its format version and the command.\<close>

type_synonym 'c versioned = "u32 \<times> 'c"

definition versioned_new :: "'c \<Rightarrow> 'c versioned" where
  "versioned_new c = (DIST_TXN_RECORD_FORMAT_VERSION, c)"

definition versioned_decode :: "(u8 list \<Rightarrow> string + 'c versioned) \<Rightarrow> u8 list \<Rightarrow> DistTxnDecodeError + 'c versioned" where
  "versioned_decode from_json body =
     (case from_json body of
        Inl m \<Rightarrow> Inl (DecodeMalformed m)
      | Inr rec \<Rightarrow> (case check_record_version (fst rec) of Inl e \<Rightarrow> Inl e | Inr _ \<Rightarrow> Inr rec))"

datatype StatusRejectionReason =
    IdempotencyKeyConflict "u8 list"
  | UnknownTxn TransactionId
  | DecisionFinal DistributedTxnState
  | UnknownParticipant TabletId
  | InvalidCommitTs (ic_commit_ts: HlcTimestamp) (ic_max_observed: HlcTimestamp)

record status_rejection =
  sr_position :: log_position
  sr_command_id :: "u8 list option"
  sr_txn_id :: TransactionId
  sr_reason :: StatusRejectionReason

datatype PrepareRejectionReason =
    KeyConflict "u8 list" TransactionId
  | PayloadMismatch
  | AlreadyResolved TxnDecision
  | StaleSchemaVersion SchemaVersion SchemaVersion
  | StaleAuthzVersion u64 u64
  | MalformedStagedWrite string

record prepare_rejection =
  pr_position :: log_position
  pr_command_id :: "u8 list option"
  pr_txn_id :: TransactionId
  pr_reason :: PrepareRejectionReason

section \<open>Coordinator selection\<close>

datatype ConsensusError =
    NotLeader "u64 option"
  | GroupClosed
  | ConsensusCancelled
  | ConsensusDeadlineExceeded
  | MembershipInProgress
  | ConsensusClock string
  | ConsensusEnvelope EnvelopeError
  | ConsensusStore string
  | ConsensusStateMachine StateMachineError
  | ConsensusTransport string
  | ConsensusRaft string
  | ConsensusUnsupported string
  | ConsensusInvalidRequest string
  | LogPurgedGap u64 u64

datatype ReadConsistencyError =
    ReadNotLeader "u64 option"
  | ReadLeaderUnknown
  | ReadStalenessExceeded u64 u64
  | ReadInvalidSessionToken string
  | ReadCancelled
  | ReadDeadlineExceeded
  | ReadClosed
  | ReadClock string
  | ReadInternal string

datatype DistTxnError =
    DtConsensus ConsensusError
  | DtRead ReadConsistencyError
  | DtEncode string
  | DtInvalidRequest string
  | DtIo string
  | DtCorruptCheckpoint string
  | DtAborted DistAbortReason
  | DtPrepareRejected PrepareRejectionReason
  | DtIdempotencyConflict TransactionId
  | DtOutcomeAmbiguous TransactionId string
  | DtUnavailable string
  | DtClock string
  | DtFault string

datatype CoordinatorSelection = TxnIdDerived | FirstWriteHome

definition txn_status_partition_index :: "TransactionId \<Rightarrow> u32 \<Rightarrow> u32" where
  "txn_status_partition_index t n = ucast (fnv1a_64 (as_bytes t) mod ucast n)"

text \<open>The published partitions are the entries of the map from partition id to home group.\<close>

definition select_coordinator_group ::
    "CoordinatorSelection \<Rightarrow> TransactionId \<Rightarrow> RaftGroupId option \<Rightarrow> (u32 \<times> RaftGroupId) list \<Rightarrow> DistTxnError + RaftGroupId" where
  "select_coordinator_group selection t first_write_group partitions =
     (case selection of
        TxnIdDerived \<Rightarrow>
          (if partitions = []
           then Inl (DtInvalidRequest ''no transaction-status partitions are published in meta state'')
           else (let index = txn_status_partition_index t
                       (if length partitions < 2 ^ 32 then of_nat (length partitions) else max_u32)
                 in if unat index < length partitions then Inr (snd (partitions ! unat index))
                    else Inl (DtInvalidRequest (''transaction-status partition index '' @ decimal (unat index) @
                           '' is not published''))))
      | FirstWriteHome \<Rightarrow>
          (case first_write_group of
             Some g \<Rightarrow> Inr g
           | None \<Rightarrow> Inl (DtInvalidRequest (''first-write-home coordinator selection requires the first write's tablet '' @
                       ''descriptor''))))"

text \<open>The derived index always names a published partition, so every node finds the same group.\<close>

lemma partition_index_published:
  assumes "partitions \<noteq> []"
  shows "\<exists>g. select_coordinator_group TxnIdDerived t w partitions = Inr g \<and> g \<in> snd ` set partitions"
proof -
  define n :: u32 where "n = (if length partitions < 2 ^ 32 then of_nat (length partitions) else max_u32)"
  have n: "0 < unat n" "unat n \<le> length partitions"
    using assms by (auto simp: n_def unat_of_nat take_bit_nat_eq_self unsigned_minus_1_eq_mask mask_eq_exp_minus_1)
  have "unat (txn_status_partition_index t n) = unat (fnv1a_64 (as_bytes t)) mod unat n"
  proof -
    have "unat (fnv1a_64 (as_bytes t) mod (ucast n :: u64)) = unat (fnv1a_64 (as_bytes t)) mod unat n"
      by (simp add: unat_mod_distrib unsigned_ucast_eq take_bit_nat_eq_self unsigned_less [THEN less_trans])
    moreover have "\<dots> < 2 ^ 32"
    proof -
      have "unat n < 2 ^ LENGTH(32)" by (rule unsigned_less)
      moreover have "unat (fnv1a_64 (as_bytes t)) mod unat n < unat n" by (rule mod_less_divisor [OF n(1)])
      ultimately show ?thesis by simp
    qed
    ultimately show ?thesis unfolding txn_status_partition_index_def by (simp add: unsigned_ucast_eq take_bit_nat_eq_self)
  qed
  then have "unat (txn_status_partition_index t n) < length partitions"
    using mod_less_divisor [OF n(1), of "unat (fnv1a_64 (as_bytes t))"] n(2) by simp
  with assms show ?thesis
    unfolding select_coordinator_group_def Let_def n_def [symmetric] by simp
qed

end
