(* ===== verification/Dist_Status.thy ===== *)
theory Dist_Status
  imports Dist_Records
begin

text \<open>
  The apply sink of a transaction-status group (\<open>TxnStatusApplySink\<close> in
  \<open>crates/mongreldb-cluster/src/dist_txn.rs\<close>): the coordinator records and the journal of refused
  transitions. Decoding is \<open>serde_json\<close>, a parameter; writing the checkpoint file is the parameter
  \<open>persist\<close>, which says whether the write fails.
\<close>

section \<open>State\<close>

record txn_status_state =
  ts_records :: "(TransactionId \<times> txn_record) list"
  ts_rejections :: "status_rejection list"

definition txn_status_default :: txn_status_state where
  "txn_status_default = \<lparr>ts_records = [], ts_rejections = []\<rparr>"

record status_sink =
  sk_state :: txn_status_state
  sk_position :: log_position
  sk_command_id :: "u8 list option"

text \<open>A bounded journal drops its oldest entries.\<close>

fun pop_to :: "nat \<Rightarrow> 'a list \<Rightarrow> 'a list" where
  "pop_to limit [] = []"
| "pop_to limit (x # xs) = (if limit < length (x # xs) then pop_to limit xs else x # xs)"

definition status_journal ::
    "applied_command \<Rightarrow> TransactionId \<Rightarrow> StatusRejectionReason \<Rightarrow> txn_status_state \<Rightarrow> txn_status_state" where
  "status_journal c t reason st =
     st\<lparr>ts_rejections := pop_to DIST_TXN_REJECTION_LIMIT
          (ts_rejections st @
           [\<lparr>sr_position = ac_position c, sr_command_id = rc_command_id (ac_command c), sr_txn_id = t, sr_reason = reason\<rparr>])\<rparr>"

definition status_get :: "txn_status_state \<Rightarrow> TransactionId \<Rightarrow> txn_record option" where
  "status_get st t = map_of (ts_records st) t"

definition status_set :: "TransactionId \<Rightarrow> txn_record \<Rightarrow> txn_status_state \<Rightarrow> txn_status_state" where
  "status_set t r st = st\<lparr>ts_records := bt_insert t r (ts_records st)\<rparr>"

section \<open>Commands\<close>

definition apply_begin :: "applied_command \<Rightarrow> txn_record \<Rightarrow> txn_status_state \<Rightarrow> StateMachineError + txn_status_state" where
  "apply_begin c r st =
     (if tr_state r \<noteq> Pending then Inl (SmCorrupt ''Begin record must be Pending'')
      else case status_get st (tr_txn_id r) of
             Some existing \<Rightarrow>
               (if tr_idempotency_key existing = tr_idempotency_key r then Inr st
                else Inr (status_journal c (tr_txn_id r) (IdempotencyKeyConflict (tr_idempotency_key existing)) st))
           | None \<Rightarrow> Inr (status_set (tr_txn_id r) r st))"

definition apply_heartbeat ::
    "applied_command \<Rightarrow> TransactionId \<Rightarrow> HlcTimestamp \<Rightarrow> HlcTimestamp \<Rightarrow> txn_status_state \<Rightarrow> txn_status_state" where
  "apply_heartbeat c t beat expiry st =
     (case status_get st t of
        None \<Rightarrow> status_journal c t (UnknownTxn t) st
      | Some r \<Rightarrow>
          if is_terminal (tr_state r) then status_journal c t (DecisionFinal (tr_state r)) st
          else if tr_heartbeat r < beat then status_set t (r\<lparr>tr_heartbeat := beat, tr_expiry := expiry\<rparr>) st
          else st)"

definition apply_mark ::
    "applied_command \<Rightarrow> TransactionId \<Rightarrow> TabletId \<Rightarrow> HlcTimestamp \<Rightarrow> HlcTimestamp \<Rightarrow> txn_status_state \<Rightarrow> txn_status_state" where
  "apply_mark c t tablet ts seen st =
     (case status_get st t of
        None \<Rightarrow> status_journal c t (UnknownTxn t) st
      | Some r \<Rightarrow>
          if is_terminal (tr_state r) then status_journal c t (DecisionFinal (tr_state r)) st
          else if participant_of r tablet = None then status_journal c t (UnknownParticipant tablet) st
          else status_set t
                 (r\<lparr>tr_prepare_ts := bt_insert tablet ts (tr_prepare_ts r),
                    tr_max_observed := max (tr_max_observed r) seen, tr_state := Preparing\<rparr>) st)"

definition bad_commit_ts :: "txn_record \<Rightarrow> HlcTimestamp \<Rightarrow> bool" where
  "bad_commit_ts r ts \<longleftrightarrow> list_ex (\<lambda>e. ts \<le> snd e) (tr_prepare_ts r) \<or> ts \<le> tr_max_observed r"

definition apply_commit :: "applied_command \<Rightarrow> TransactionId \<Rightarrow> HlcTimestamp \<Rightarrow> txn_status_state \<Rightarrow> txn_status_state" where
  "apply_commit c t ts st =
     (case status_get st t of
        None \<Rightarrow> status_journal c t (UnknownTxn t) st
      | Some r \<Rightarrow>
          if is_terminal (tr_state r) then status_journal c t (DecisionFinal (tr_state r)) st
          else if bad_commit_ts r ts then status_journal c t (InvalidCommitTs ts (tr_max_observed r)) st
          else status_set t (r\<lparr>tr_state := Committed ts\<rparr>) st)"

definition apply_abort :: "applied_command \<Rightarrow> TransactionId \<Rightarrow> DistAbortReason \<Rightarrow> txn_status_state \<Rightarrow> txn_status_state" where
  "apply_abort c t reason st =
     (case status_get st t of
        None \<Rightarrow> status_journal c t (UnknownTxn t) st
      | Some r \<Rightarrow>
          if is_terminal (tr_state r) then status_journal c t (DecisionFinal (tr_state r)) st
          else status_set t (r\<lparr>tr_state := Aborted reason\<rparr>) st)"

fun status_apply_command :: "applied_command \<Rightarrow> CoordinatorCommand \<Rightarrow> txn_status_state \<Rightarrow> StateMachineError + txn_status_state" where
  "status_apply_command c (Begin r) st = apply_begin c r st"
| "status_apply_command c (Heartbeat t beat expiry) st = Inr (apply_heartbeat c t beat expiry st)"
| "status_apply_command c (MarkPreparing t tablet ts seen) st = Inr (apply_mark c t tablet ts seen st)"
| "status_apply_command c (Commit t ts) st = Inr (apply_commit c t ts st)"
| "status_apply_command c (Abort t reason) st = Inr (apply_abort c t reason st)"

section \<open>The sink\<close>

definition status_decode ::
    "(u8 list \<Rightarrow> u8 list) \<Rightarrow> (u8 list \<Rightarrow> string + CoordinatorCommand versioned) \<Rightarrow> command_envelope \<Rightarrow>
     StateMachineError + CoordinatorCommand" where
  "status_decode sha from_json e =
     (case envelope_verify sha e of
        Inl err \<Rightarrow> Inl (SmCorrupt (''txn status envelope: '' @ envelope_error_text err))
      | Inr _ \<Rightarrow>
          if command_type e \<noteq> COMMAND_TYPE_DIST_TXN_COORDINATOR
          then Inl (SmCorrupt (''txn status command_type '' @ decimal (unat (command_type e)) @
                 '' is not COMMAND_TYPE_DIST_TXN_COORDINATOR''))
          else (case versioned_decode from_json (payload e) of
                  Inl err \<Rightarrow> Inl (SmCorrupt (decode_error_text err))
                | Inr rec \<Rightarrow> Inr (snd rec)))"

definition status_dispatch ::
    "(u8 list \<Rightarrow> u8 list) \<Rightarrow> (u8 list \<Rightarrow> string + CoordinatorCommand versioned) \<Rightarrow> applied_command \<Rightarrow> txn_status_state \<Rightarrow>
     StateMachineError + txn_status_state" where
  "status_dispatch sha from_json c st =
     (case ac_command c of
        Transaction e _ \<Rightarrow>
          (case status_decode sha from_json e of Inl err \<Rightarrow> Inl err | Inr cmd \<Rightarrow> status_apply_command c cmd st)
      | Maintenance _ _ \<Rightarrow> Inr st
      | Noop \<Rightarrow> Inr st
      | Catalog _ _ \<Rightarrow> Inl (SmCorrupt ''catalog command on a transaction-status group''))"

definition status_apply ::
    "(u8 list \<Rightarrow> u8 list) \<Rightarrow> (u8 list \<Rightarrow> string + CoordinatorCommand versioned) \<Rightarrow>
     (status_sink \<Rightarrow> StateMachineError option) \<Rightarrow> status_sink apply_fn" where
  "status_apply sha from_json persist c k =
     (if lp_index (ac_position c) \<le> lp_index (sk_position k) then (Inr (), k)
      else case status_dispatch sha from_json c (sk_state k) of
             Inl err \<Rightarrow> (Inl err, k)
           | Inr st \<Rightarrow>
               (let k' = k\<lparr>sk_state := st, sk_position := ac_position c,
                           sk_command_id := (case rc_command_id (ac_command c) of None \<Rightarrow> sk_command_id k | Some i \<Rightarrow> Some i)\<rparr>
                in case persist k' of Some err \<Rightarrow> (Inl err, k') | None \<Rightarrow> (Inr (), k')))"

definition DIST_TXN_CHECKPOINT_FORMAT_VERSION :: u32 where
  "DIST_TXN_CHECKPOINT_FORMAT_VERSION = 1"

definition MIN_SUPPORTED_DIST_TXN_CHECKPOINT_FORMAT_VERSION :: u32 where
  "MIN_SUPPORTED_DIST_TXN_CHECKPOINT_FORMAT_VERSION = 1"

definition supported_checkpoint :: "u32 \<Rightarrow> bool" where
  "supported_checkpoint v \<longleftrightarrow>
     MIN_SUPPORTED_DIST_TXN_CHECKPOINT_FORMAT_VERSION \<le> v \<and> v \<le> DIST_TXN_CHECKPOINT_FORMAT_VERSION"

definition checkpoint_version_text :: "u32 \<Rightarrow> string" where
  "checkpoint_version_text v =
     '' format version '' @ decimal (unat v) @ '' (supported '' @
     decimal (unat MIN_SUPPORTED_DIST_TXN_CHECKPOINT_FORMAT_VERSION) @ ''..='' @
     decimal (unat DIST_TXN_CHECKPOINT_FORMAT_VERSION) @ '')''"

text \<open>A checkpoint is the pair of its format version and the sink.\<close>

definition status_checkpoint :: "status_sink \<Rightarrow> u32 \<times> status_sink" where
  "status_checkpoint k = (DIST_TXN_CHECKPOINT_FORMAT_VERSION, k)"

definition status_open :: "(u8 list \<Rightarrow> string + u32 \<times> status_sink) \<Rightarrow> u8 list option \<Rightarrow> DistTxnError + status_sink" where
  "status_open from_json stored =
     (case stored of
        None \<Rightarrow> Inr \<lparr>sk_state = txn_status_default, sk_position = POSITION_ZERO, sk_command_id = None\<rparr>
      | Some bytes \<Rightarrow>
          (case from_json bytes of
             Inl m \<Rightarrow> Inl (DtCorruptCheckpoint (''decode: '' @ m))
           | Inr (v, k) \<Rightarrow>
               if \<not> supported_checkpoint v then Inl (DtCorruptCheckpoint (''unsupported'' @ checkpoint_version_text v))
               else Inr k))"

definition status_snapshot :: "(u32 \<times> status_sink \<Rightarrow> string + u8 list) \<Rightarrow> status_sink \<Rightarrow> StateMachineError + u8 list" where
  "status_snapshot to_json k =
     (case to_json (status_checkpoint k) of
        Inl m \<Rightarrow> Inl (SmSink (''txn status snapshot encode: '' @ m))
      | Inr bytes \<Rightarrow> Inr bytes)"

definition status_install ::
    "(u8 list \<Rightarrow> string + u32 \<times> status_sink) \<Rightarrow> (status_sink \<Rightarrow> StateMachineError option) \<Rightarrow> u8 list \<Rightarrow> status_sink \<Rightarrow>
     (StateMachineError + unit) \<times> status_sink" where
  "status_install from_json persist data k =
     (case from_json data of
        Inl m \<Rightarrow> (Inl (SmCorrupt (''txn status snapshot decode: '' @ m)), k)
      | Inr (v, k') \<Rightarrow>
          if \<not> supported_checkpoint v
          then (Inl (SmCorrupt (''unsupported txn status checkpoint'' @ checkpoint_version_text v)), k)
          else (case persist k' of Some err \<Rightarrow> (Inl err, k') | None \<Rightarrow> (Inr (), k')))"

section \<open>What a command does to the records\<close>

lemma length_pop_to: "length (pop_to limit xs) \<le> limit"
  by (induction limit xs rule: pop_to.induct) auto

lemma status_get_set [simp]: "status_get (status_set t r st) = (status_get st)(t \<mapsto> r)"
  by (simp add: status_get_def status_set_def fun_eq_iff)

lemma status_get_journal [simp]: "status_get (status_journal c t reason st) = status_get st"
  by (simp add: status_get_def status_journal_def fun_eq_iff)

text \<open>The changes a single command can make to one record: none, a refreshed lease, recorded prepare
  progress, or a decision; a terminal record admits none.\<close>

inductive record_change :: "txn_record \<Rightarrow> txn_record \<Rightarrow> bool" where
  rc_same: "record_change r r"
| rc_lease: "\<not> is_terminal (tr_state r) \<Longrightarrow> record_change r (r\<lparr>tr_heartbeat := beat, tr_expiry := expiry\<rparr>)"
| rc_mark: "\<not> is_terminal (tr_state r) \<Longrightarrow>
    record_change r (r\<lparr>tr_prepare_ts := bt_insert tablet ts (tr_prepare_ts r),
      tr_max_observed := max (tr_max_observed r) seen, tr_state := Preparing\<rparr>)"
| rc_commit: "\<not> is_terminal (tr_state r) \<Longrightarrow> \<not> bad_commit_ts r ts \<Longrightarrow> record_change r (r\<lparr>tr_state := Committed ts\<rparr>)"
| rc_abort: "\<not> is_terminal (tr_state r) \<Longrightarrow> record_change r (r\<lparr>tr_state := Aborted reason\<rparr>)"

lemma record_change_terminal: "record_change r r' \<Longrightarrow> is_terminal (tr_state r) \<Longrightarrow> r' = r"
  by (cases rule: record_change.cases) auto

lemma record_change_fixed:
  assumes "record_change r r'"
  shows "tr_txn_id r' = tr_txn_id r" "tr_participants r' = tr_participants r" "tr_idempotency_key r' = tr_idempotency_key r"
    "tr_coordinator r' = tr_coordinator r" "tr_created_at r' = tr_created_at r" "tr_max_observed r \<le> tr_max_observed r'"
  using assms by (cases; simp)+

definition record_ok :: "txn_record \<Rightarrow> bool" where
  "record_ok r \<longleftrightarrow> (case tr_state r of Committed ts \<Rightarrow> \<not> bad_commit_ts r ts | _ \<Rightarrow> True)"

lemma record_change_ok: "record_change r r' \<Longrightarrow> record_ok r \<Longrightarrow> record_ok r'"
  by (cases rule: record_change.cases) (auto simp: record_ok_def bad_commit_ts_def split: DistributedTxnState.splits)

text \<open>A command leaves every other record alone, and can only create a pending record.\<close>

lemma status_command_change:
  assumes "status_apply_command c cmd st = Inr st'"
  shows "case status_get st t of
      None \<Rightarrow> status_get st' t = None \<or>
        (\<exists>r. cmd = Begin r \<and> tr_txn_id r = t \<and> tr_state r = Pending \<and> status_get st' t = Some r)
    | Some r \<Rightarrow> (\<exists>r'. status_get st' t = Some r' \<and> record_change r r')"
proof (cases cmd)
  case (Begin r)
  then show ?thesis
    using assms by (auto simp: apply_begin_def split: if_splits option.splits intro: rc_same)
next
  case (Heartbeat t' beat expiry)
  then have st': "st' = apply_heartbeat c t' beat expiry st" using assms by simp
  show ?thesis
    unfolding st' apply_heartbeat_def by (auto split: option.splits intro: rc_same rc_lease)
next
  case (MarkPreparing t' tablet ts seen)
  then have st': "st' = apply_mark c t' tablet ts seen st" using assms by simp
  show ?thesis
    unfolding st' apply_mark_def by (auto split: option.splits intro: rc_same rc_mark)
next
  case (Commit t' ts)
  then have st': "st' = apply_commit c t' ts st" using assms by simp
  show ?thesis
    unfolding st' apply_commit_def by (auto split: option.splits intro: rc_same rc_commit)
next
  case (Abort t' reason)
  then have st': "st' = apply_abort c t' reason st" using assms by simp
  show ?thesis
    unfolding st' apply_abort_def by (auto split: option.splits intro: rc_same rc_abort)
qed

lemmas status_defs = apply_begin_def apply_heartbeat_def apply_mark_def apply_commit_def apply_abort_def

lemma status_command_journal:
  assumes "status_apply_command c cmd st = Inr st'" and "length (ts_rejections st) \<le> DIST_TXN_REJECTION_LIMIT"
  shows "length (ts_rejections st') \<le> DIST_TXN_REJECTION_LIMIT"
  using assms length_pop_to [of DIST_TXN_REJECTION_LIMIT]
  by (cases cmd) (auto simp: status_defs status_journal_def status_set_def split: if_splits option.splits)

section \<open>Runs of commands\<close>

inductive status_step :: "txn_status_state \<Rightarrow> txn_status_state \<Rightarrow> bool" where
  "status_apply_command c cmd st = Inr st' \<Longrightarrow> status_step st st'"

definition status_inv :: "txn_status_state \<Rightarrow> bool" where
  "status_inv st \<longleftrightarrow>
     (\<forall>t r. status_get st t = Some r \<longrightarrow> tr_txn_id r = t \<and> record_ok r) \<and>
     length (ts_rejections st) \<le> DIST_TXN_REJECTION_LIMIT"

lemma status_step_inv:
  assumes "status_step st st'" and inv: "status_inv st"
  shows "status_inv st'"
proof -
  obtain c cmd where ap: "status_apply_command c cmd st = Inr st'" using assms(1) by (auto elim: status_step.cases)
  have "tr_txn_id r = t \<and> record_ok r" if g: "status_get st' t = Some r" for t r
  proof (cases "status_get st t")
    case None
    then show ?thesis using status_command_change [OF ap, of t] g by (auto simp: record_ok_def)
  next
    case (Some r0)
    then obtain r' where "status_get st' t = Some r'" "record_change r0 r'" using status_command_change [OF ap, of t] by auto
    moreover have "tr_txn_id r0 = t" "record_ok r0" using inv Some by (auto simp: status_inv_def)
    ultimately show ?thesis using g record_change_fixed(1) record_change_ok by auto
  qed
  then show ?thesis using status_command_journal [OF ap] inv by (simp add: status_inv_def)
qed

interpretation status_group: guarded_system "\<lambda>st. st = txn_status_default" status_step status_inv
proof
  show "status_inv st" if "st = txn_status_default" for st
    using that by (simp add: status_inv_def txn_status_default_def status_get_def)
qed (rule status_step_inv)

lemma status_steps_change:
  assumes "status_step\<^sup>*\<^sup>* st st'" and "status_get st t = Some r"
  shows "\<exists>r'. status_get st' t = Some r' \<and> record_change\<^sup>*\<^sup>* r r'"
  using assms
proof (induction rule: rtranclp_induct)
  case (step st1 st2)
  then obtain r1 where r1: "status_get st1 t = Some r1" "record_change\<^sup>*\<^sup>* r r1" by blast
  obtain c cmd where "status_apply_command c cmd st1 = Inr st2" using step.hyps(2) by (auto elim: status_step.cases)
  from status_command_change [OF this, of t] r1 show ?case by (auto intro: rtranclp.rtrancl_into_rtrancl)
qed auto

lemma record_changes_fixed:
  assumes "record_change\<^sup>*\<^sup>* r r'"
  shows "tr_participants r' = tr_participants r \<and> tr_idempotency_key r' = tr_idempotency_key r \<and>
    tr_max_observed r \<le> tr_max_observed r' \<and> (is_terminal (tr_state r) \<longrightarrow> r' = r)"
  using assms
proof (induction rule: rtranclp_induct)
  case (step y z)
  with record_change_fixed [OF step.hyps(2)] record_change_terminal [OF step.hyps(2)] show ?case by (auto intro: order_trans)
qed simp

interpretation status_replay: replay_sink "status_apply sha from_json (\<lambda>_. None)" "\<lambda>k. lp_index (sk_position k)" for sha from_json
proof
  fix c k k'
  show "status_apply sha from_json (\<lambda>_. None) c k = (Inr (), k)" if "lp_index (ac_position c) \<le> lp_index (sk_position k)"
    using that by (simp add: status_apply_def)
  show "lp_index (sk_position k') = lp_index (ac_position c)"
    if "status_apply sha from_json (\<lambda>_. None) c k = (Inr (), k')" "lp_index (sk_position k) < lp_index (ac_position c)"
    using that by (auto simp: status_apply_def Let_def split: sum.splits if_splits)
qed

section \<open>Properties\<close>

text \<open>C5: A decision is final and sound. Whatever commands the status group applies, a record keeps its
  participants and idempotency key, a committed or aborted record never changes again, a commit
  timestamp exceeds every recorded prepare timestamp and the greatest observed timestamp, and the
  journal of refusals stays within its bound.\<close>

theorem decision_is_final:
  assumes "reach (\<lambda>st. st = txn_status_default) status_step st" and "status_step\<^sup>*\<^sup>* st st'"
    and "status_get st t = Some r"
  shows "\<exists>r'. status_get st' t = Some r' \<and> tr_participants r' = tr_participants r \<and>
    tr_idempotency_key r' = tr_idempotency_key r \<and> (if is_terminal (tr_state r) then r' = r else True) \<and>
    (case tr_state r' of
       Committed ts \<Rightarrow> list_all (\<lambda>e. snd e < ts) (tr_prepare_ts r') \<and> tr_max_observed r' < ts
     | _ \<Rightarrow> True) \<and>
    length (ts_rejections st') \<le> DIST_TXN_REJECTION_LIMIT"
proof -
  obtain r' where r': "status_get st' t = Some r'" "record_change\<^sup>*\<^sup>* r r'"
    using status_steps_change [OF assms(2,3)] by blast
  have "reach (\<lambda>st. st = txn_status_default) status_step st'"
    using assms(2,1) by (induction rule: rtranclp_induct) (auto intro: reach_step)
  then have inv: "status_inv st'" by (rule status_group.reach_inv)
  then have "record_ok r'" using r'(1) by (simp add: status_inv_def)
  then have "case tr_state r' of
       Committed ts \<Rightarrow> list_all (\<lambda>e. snd e < ts) (tr_prepare_ts r') \<and> tr_max_observed r' < ts
     | _ \<Rightarrow> True"
    by (auto simp: record_ok_def bad_commit_ts_def list_ex_iff list_all_iff not_le split: DistributedTxnState.splits)
  with r' record_changes_fixed [OF r'(2)] inv show ?thesis by (auto simp: status_inv_def)
qed

definition sample_record :: txn_record where
  "sample_record =
     \<lparr>tr_txn_id = 7, tr_state = Pending, tr_participants = [\<lparr>tp_tablet_id = 1, tp_raft_group_id = 11\<rparr>],
      tr_prepare_ts = [], tr_coordinator = 3, tr_created_at = HLC_ZERO, tr_heartbeat = HLC_ZERO,
      tr_expiry = HlcTimestamp 10 0 0, tr_max_observed = HlcTimestamp 5 0 0, tr_idempotency_key = [9]\<rparr>"

definition sample_command :: applied_command where
  "sample_command = \<lparr>ac_position = \<lparr>lp_term = 1, lp_index = 1\<rparr>, ac_command = Noop\<rparr>"

definition sample_begun :: txn_status_state where
  "sample_begun = status_set 7 sample_record txn_status_default"

definition sample_committed :: txn_status_state where
  "sample_committed = status_set 7 (sample_record\<lparr>tr_state := Committed (HlcTimestamp 6 0 0)\<rparr>) sample_begun"

lemma sample_steps:
  "status_step txn_status_default sample_begun" "status_step sample_begun sample_committed"
proof -
  have "status_apply_command sample_command (Begin sample_record) txn_status_default = Inr sample_begun"
    by (simp add: apply_begin_def sample_record_def sample_begun_def status_get_def txn_status_default_def)
  then show "status_step txn_status_default sample_begun" by (rule status_step.intros)
  have "status_apply_command sample_command (Commit 7 (HlcTimestamp 6 0 0)) sample_begun = Inr sample_committed"
    by (simp add: apply_commit_def sample_committed_def sample_begun_def bad_commit_ts_def hlc_le_iff)
      (simp add: sample_record_def hlc_le_iff)
  then show "status_step sample_begun sample_committed" by (rule status_step.intros)
qed

theorem decision_is_final_witness:
  "\<exists>r'. status_get sample_committed 7 = Some r' \<and> tr_participants r' = [\<lparr>tp_tablet_id = 1, tp_raft_group_id = 11\<rparr>]"
proof -
  have "reach (\<lambda>st. st = txn_status_default) status_step sample_begun"
    using sample_steps(1) by (rule reach_step [rotated]) (simp add: reach_init)
  moreover have "status_get sample_begun 7 = Some sample_record" by (simp add: sample_begun_def)
  moreover have "status_step\<^sup>*\<^sup>* sample_begun sample_committed" using sample_steps(2) by (rule r_into_rtranclp)
  ultimately show ?thesis using decision_is_final [of sample_begun sample_committed 7 sample_record]
    by (auto simp: sample_record_def)
qed

text \<open>C19: A crash between the sink's checkpoint and the state machine's checkpoint of a status group is
  invisible. Reopening from the older state-machine checkpoint with the newer sink and replaying the
  log gives the same machine and the same records as the run without the crash.\<close>

theorem status_crash_window:
  assumes "window_ok retention s" and "apply_batch (status_apply sha from_json (\<lambda>_. None)) retention es (s, k) = Inr (s', k')"
  shows "apply_batch (status_apply sha from_json (\<lambda>_. None)) retention (es @ es')
      (sm_open (Some (sm_record s)) (sm_membership s'), k') =
    apply_batch (status_apply sha from_json (\<lambda>_. None)) retention (es @ es') (s, k)"
  using assms by (rule status_replay.crash_window)

definition sample_entry :: "unit log_entry" where
  "sample_entry = \<lparr>le_position = \<lparr>lp_term = 1, lp_index = 1\<rparr>, le_payload = Normal Noop\<rparr>"

definition sample_sink :: status_sink where
  "sample_sink = \<lparr>sk_state = txn_status_default, sk_position = POSITION_ZERO, sk_command_id = None\<rparr>"

theorem status_crash_window_witness:
  "apply_batch (status_apply (\<lambda>_. []) (\<lambda>_. Inl []) (\<lambda>_. None)) 4 [sample_entry, sample_entry]
     (sm_open (Some applied_record_default) (None, ()), sample_sink\<lparr>sk_position := \<lparr>lp_term = 1, lp_index = 1\<rparr>\<rparr>) =
   apply_batch (status_apply (\<lambda>_. []) (\<lambda>_. Inl []) (\<lambda>_. None)) 4 [sample_entry, sample_entry]
     (sm_open None (None, ()), sample_sink)"
proof -
  let ?s = "sm_open None (None, ()) :: unit sm_inner"
  have "window_ok 4 ?s" by (simp add: window_ok_def sm_open_def applied_record_default_def)
  moreover have "apply_batch (status_apply (\<lambda>_. []) (\<lambda>_. Inl []) (\<lambda>_. None)) 4 [sample_entry] (?s, sample_sink) =
      Inr (advance_to \<lparr>lp_term = 1, lp_index = 1\<rparr> ?s, sample_sink\<lparr>sk_position := \<lparr>lp_term = 1, lp_index = 1\<rparr>\<rparr>)"
    by (simp add: apply_one_def sample_entry_def sm_open_def applied_record_default_def status_apply_def sample_sink_def
        POSITION_ZERO_def status_dispatch_def is_duplicate_def rc_command_id_def mark_applied_def Let_def)
  ultimately show ?thesis
    using status_crash_window [of 4 ?s "\<lambda>_. []" "\<lambda>_. Inl []" "[sample_entry]" sample_sink _ _ "[sample_entry]"]
    by (simp add: sm_open_def advance_to_def)
qed

end
