(* ===== verification/Dist_Intents.thy ===== *)
theory Dist_Intents
  imports Dist_Status
begin

text \<open>
  The apply sink of a participant tablet group (\<open>IntentApplySink\<close> in
  \<open>crates/mongreldb-cluster/src/dist_txn.rs\<close>): write intents, their resolution and the sweep of resolved
  tombstones. The tablet's engine sink is a value of the type variable \<open>'e\<close>, absent for a
  protocol-only participant; the three calls the sink makes into it, and the \<open>Debug\<close> text of a
  decision, are the fields of \<open>participant_env\<close>.
\<close>

section \<open>State\<close>

record intent_state =
  is_schema_version :: SchemaVersion
  is_authz_version :: u64
  is_txns :: "(TransactionId \<times> participant_txn) list"
  is_committed_writes :: "committed_write list"
  is_rejections :: "prepare_rejection list"

definition intent_default :: intent_state where
  "intent_default =
     \<lparr>is_schema_version = 0, is_authz_version = 0, is_txns = [], is_committed_writes = [], is_rejections = []\<rparr>"

record 'e intent_sink =
  ik_state :: intent_state
  ik_position :: log_position
  ik_command_id :: "u8 list option"
  ik_engine :: "'e option"

record 'e participant_env =
  pe_validate :: "'e \<Rightarrow> u8 list list \<Rightarrow> StateMachineError + string option"
  pe_apply_staged :: "u64 \<Rightarrow> u8 list list \<Rightarrow> HlcTimestamp \<Rightarrow> 'e \<Rightarrow> (StateMachineError + unit) \<times> 'e"
  pe_forward :: "'e apply_fn"
  pe_debug_decision :: "TxnDecision \<Rightarrow> string"

definition same_write_set :: "write_intent list \<Rightarrow> write_intent list \<Rightarrow> bool" where
  "same_write_set a b \<longleftrightarrow>
     length a = length b \<and> list_all (\<lambda>(l, r). wi_key l = wi_key r \<and> wi_value_ref l = wi_value_ref r) (zip a b)"

definition intent_txn :: "intent_state \<Rightarrow> TransactionId \<Rightarrow> participant_txn option" where
  "intent_txn st t = map_of (is_txns st) t"

definition unresolved_txn_ids :: "intent_state \<Rightarrow> TransactionId list" where
  "unresolved_txn_ids st = map px_txn_id (filter (\<lambda>px. px_resolution px = None) (map snd (is_txns st)))"

definition intent_journal ::
    "applied_command \<Rightarrow> TransactionId \<Rightarrow> PrepareRejectionReason \<Rightarrow> intent_state \<Rightarrow> intent_state" where
  "intent_journal c t reason st =
     st\<lparr>is_rejections := pop_to DIST_TXN_REJECTION_LIMIT
          (is_rejections st @
           [\<lparr>pr_position = ac_position c, pr_command_id = rc_command_id (ac_command c), pr_txn_id = t, pr_reason = reason\<rparr>])\<rparr>"

definition put_txn :: "TransactionId \<Rightarrow> participant_txn \<Rightarrow> intent_state \<Rightarrow> intent_state" where
  "put_txn t px st = st\<lparr>is_txns := bt_insert t px (is_txns st)\<rparr>"

section \<open>Prepare\<close>

definition holds_key :: "u8 list \<Rightarrow> participant_txn \<Rightarrow> bool" where
  "holds_key key px \<longleftrightarrow> px_resolution px = None \<and> list_ex (\<lambda>i. wi_key i = key) (px_intents px)"

definition conflicting_holder :: "intent_state \<Rightarrow> TransactionId \<Rightarrow> u8 list \<Rightarrow> TransactionId option" where
  "conflicting_holder st t key =
     map_option px_txn_id (find (\<lambda>px. px_txn_id px \<noteq> t \<and> holds_key key px) (map snd (is_txns st)))"

fun first_conflict :: "intent_state \<Rightarrow> TransactionId \<Rightarrow> write_intent list \<Rightarrow> (u8 list \<times> TransactionId) option" where
  "first_conflict st t [] = None"
| "first_conflict st t (i # is) =
     (case conflicting_holder st t (wi_key i) of
        Some holder \<Rightarrow> Some (wi_key i, holder)
      | None \<Rightarrow> first_conflict st t is)"

definition prepared_txn :: "applied_command \<Rightarrow> TransactionId \<Rightarrow> HlcTimestamp \<Rightarrow> write_intent list \<Rightarrow> participant_txn" where
  "prepared_txn c t ts is =
     \<lparr>px_txn_id = t, px_prepare_ts = ts,
      px_command_id = (case rc_command_id (ac_command c) of None \<Rightarrow> replicate 16 0 | Some i \<Rightarrow> i),
      px_intents = is, px_resolution = None, px_applied = False, px_resolved_at = None\<rparr>"

definition apply_persist ::
    "'e participant_env \<Rightarrow> applied_command \<Rightarrow> TransactionId \<Rightarrow> SchemaVersion \<Rightarrow> u64 \<Rightarrow> HlcTimestamp \<Rightarrow> write_intent list \<Rightarrow>
     'e option \<Rightarrow> intent_state \<Rightarrow> StateMachineError + intent_state" where
  "apply_persist env c t schema authz ts is engine st =
     (case intent_txn st t of
        Some existing \<Rightarrow>
          (case px_resolution existing of
             Some d \<Rightarrow> Inr (intent_journal c t (AlreadyResolved d) st)
           | None \<Rightarrow>
               if same_write_set (px_intents existing) is then Inr st
               else Inr (intent_journal c t PayloadMismatch st))
      | None \<Rightarrow>
          if schema \<noteq> is_schema_version st
          then Inr (intent_journal c t (StaleSchemaVersion schema (is_schema_version st)) st)
          else if authz \<noteq> is_authz_version st
          then Inr (intent_journal c t (StaleAuthzVersion authz (is_authz_version st)) st)
          else case first_conflict st t is of
                 Some (key, holder) \<Rightarrow> Inr (intent_journal c t (KeyConflict key holder) st)
               | None \<Rightarrow>
                   (case engine of
                      None \<Rightarrow> Inr (put_txn t (prepared_txn c t ts is) st)
                    | Some e \<Rightarrow>
                        (case pe_validate env e (map wi_value_ref is) of
                           Inl err \<Rightarrow> Inl err
                         | Inr (Some detail) \<Rightarrow> Inr (intent_journal c t (MalformedStagedWrite detail) st)
                         | Inr None \<Rightarrow> Inr (put_txn t (prepared_txn c t ts is) st))))"

section \<open>Resolution\<close>

definition apply_committed_to_engine ::
    "'e participant_env \<Rightarrow> TransactionId \<Rightarrow> u8 list list \<Rightarrow> HlcTimestamp \<Rightarrow> 'e option \<Rightarrow> (StateMachineError + unit) \<times> 'e option" where
  "apply_committed_to_engine env t staged ts engine =
     (case engine of
        None \<Rightarrow> (Inr (), None)
      | Some e \<Rightarrow>
          if staged = [] then (Inr (), Some e)
          else (case pe_apply_staged env (fnv1a_64 (as_bytes t)) staged ts e of (res, e') \<Rightarrow> (res, Some e')))"

definition tombstoned :: "TransactionId \<Rightarrow> TxnDecision \<Rightarrow> HlcTimestamp option \<Rightarrow> participant_txn" where
  "tombstoned t d at =
     \<lparr>px_txn_id = t, px_prepare_ts = HLC_ZERO, px_command_id = replicate 16 0, px_intents = [],
      px_resolution = Some d, px_applied = True, px_resolved_at = at\<rparr>"

definition resolved_txn :: "participant_txn \<Rightarrow> TxnDecision \<Rightarrow> HlcTimestamp option \<Rightarrow> participant_txn" where
  "resolved_txn px d at = px\<lparr>px_intents := [], px_resolution := Some d, px_applied := True, px_resolved_at := at\<rparr>"

definition committed_writes_of :: "TransactionId \<Rightarrow> HlcTimestamp \<Rightarrow> write_intent list \<Rightarrow> committed_write list" where
  "committed_writes_of t ts is =
     map (\<lambda>i. \<lparr>cw_key = wi_key i, cw_value_ref = wi_value_ref i, cw_commit_ts = ts, cw_txn_id = t\<rparr>) is"

definition conflicting_resolve_text :: "'e participant_env \<Rightarrow> TransactionId \<Rightarrow> TxnDecision \<Rightarrow> TxnDecision \<Rightarrow> string" where
  "conflicting_resolve_text env t prior new =
     ''conflicting resolve decisions for transaction '' @ to_hex t @ '': applied '' @ pe_debug_decision env prior @
     '', got '' @ pe_debug_decision env new"

text \<open>A decision that is already recorded: materialised now if an older checkpoint left it unapplied.\<close>

definition resolve_again ::
    "'e participant_env \<Rightarrow> TransactionId \<Rightarrow> participant_txn \<Rightarrow> TxnDecision \<Rightarrow> 'e option \<Rightarrow> intent_state \<Rightarrow>
     (StateMachineError + unit) \<times> intent_state \<times> 'e option" where
  "resolve_again env t px prior engine st =
     (if px_applied px then (Inr (), st, engine)
      else
        (case (case prior of
                 DecideCommit ts \<Rightarrow>
                   apply_committed_to_engine env t
                     (map cw_value_ref (filter (\<lambda>w. cw_txn_id w = t) (is_committed_writes st))) ts engine
               | DecideAbort _ \<Rightarrow> (Inr (), engine)) of
           (Inl err, engine') \<Rightarrow> (Inl err, st, engine')
         | (Inr _, engine') \<Rightarrow> (Inr (), put_txn t (px\<lparr>px_applied := True\<rparr>) st, engine')))"

definition apply_resolve ::
    "'e participant_env \<Rightarrow> applied_command \<Rightarrow> TransactionId \<Rightarrow> TxnDecision \<Rightarrow> 'e option \<Rightarrow> intent_state \<Rightarrow>
     (StateMachineError + unit) \<times> intent_state \<times> 'e option" where
  "apply_resolve env c t d engine st =
     (let at = rc_commit_ts (ac_command c)
      in case intent_txn st t of
           None \<Rightarrow> (Inr (), put_txn t (tombstoned t d at) st, engine)
         | Some px \<Rightarrow>
             (case px_resolution px of
                Some prior \<Rightarrow>
                  if prior = d then resolve_again env t px prior engine st
                  else (Inl (SmCorrupt (conflicting_resolve_text env t prior d)), st, engine)
              | None \<Rightarrow>
                  (case d of
                     DecideCommit ts \<Rightarrow>
                       (case apply_committed_to_engine env t (map wi_value_ref (px_intents px)) ts engine of
                          (Inl err, engine') \<Rightarrow> (Inl err, st, engine')
                        | (Inr _, engine') \<Rightarrow>
                            (Inr (),
                             (put_txn t (resolved_txn px d at) st)
                               \<lparr>is_committed_writes := is_committed_writes st @ committed_writes_of t ts (px_intents px)\<rparr>,
                             engine'))
                   | DecideAbort _ \<Rightarrow> (Inr (), put_txn t (resolved_txn px d at) st, engine))))"

section \<open>Sweep\<close>

definition sweepable :: "HlcTimestamp \<Rightarrow> participant_txn \<Rightarrow> bool" where
  "sweepable older_than px \<longleftrightarrow>
     px_resolution px \<noteq> None \<and> (case px_resolved_at px of None \<Rightarrow> False | Some at \<Rightarrow> at < older_than)"

fun collect_swept :: "HlcTimestamp \<Rightarrow> nat \<Rightarrow> (TransactionId \<times> participant_txn) list \<Rightarrow> TransactionId list \<Rightarrow> TransactionId list" where
  "collect_swept older_than limit [] swept = swept"
| "collect_swept older_than limit ((t, px) # rest) swept =
     (if limit \<le> length swept then swept
      else collect_swept older_than limit rest (if sweepable older_than px then swept @ [t] else swept))"

definition apply_sweep :: "HlcTimestamp \<Rightarrow> u32 \<Rightarrow> intent_state \<Rightarrow> intent_state" where
  "apply_sweep older_than limit st =
     (let swept = collect_swept older_than (unat limit) (is_txns st) []
      in st\<lparr>is_txns := foldl (\<lambda>m t. bt_remove t m) (is_txns st) swept,
            is_committed_writes := filter (\<lambda>w. cw_txn_id w \<notin> set swept) (is_committed_writes st)\<rparr>)"

section \<open>The sink\<close>

fun intent_apply_command ::
    "'e participant_env \<Rightarrow> applied_command \<Rightarrow> IntentCommand \<Rightarrow> 'e option \<Rightarrow> intent_state \<Rightarrow>
     (StateMachineError + unit) \<times> intent_state \<times> 'e option" where
  "intent_apply_command env c (SetTabletVersions schema authz) engine st =
     (Inr (), st\<lparr>is_schema_version := schema, is_authz_version := authz\<rparr>, engine)"
| "intent_apply_command env c (PersistIntents t schema authz ts is) engine st =
     (case apply_persist env c t schema authz ts is engine st of
        Inl err \<Rightarrow> (Inl err, st, engine)
      | Inr st' \<Rightarrow> (Inr (), st', engine))"
| "intent_apply_command env c (Resolve t d) engine st = apply_resolve env c t d engine st"
| "intent_apply_command env c (SweepResolved older_than limit) engine st = (Inr (), apply_sweep older_than limit st, engine)"

definition forward_to_engine ::
    "'e participant_env \<Rightarrow> applied_command \<Rightarrow> StateMachineError option \<Rightarrow> 'e option \<Rightarrow> intent_state \<Rightarrow>
     (StateMachineError + unit) \<times> intent_state \<times> 'e option" where
  "forward_to_engine env c without engine st =
     (case engine of
        Some e \<Rightarrow> (case pe_forward env c e of (res, e') \<Rightarrow> (res, st, Some e'))
      | None \<Rightarrow> (case without of Some err \<Rightarrow> (Inl err, st, None) | None \<Rightarrow> (Inr (), st, None)))"

definition intent_dispatch ::
    "(u8 list \<Rightarrow> u8 list) \<Rightarrow> (u8 list \<Rightarrow> string + IntentCommand versioned) \<Rightarrow> 'e participant_env \<Rightarrow> applied_command \<Rightarrow>
     'e option \<Rightarrow> intent_state \<Rightarrow> (StateMachineError + unit) \<times> intent_state \<times> 'e option" where
  "intent_dispatch sha from_json env c engine st =
     (case ac_command c of
        Transaction e _ \<Rightarrow>
          (case envelope_verify sha e of
             Inl err \<Rightarrow> (Inl (SmCorrupt (''intent envelope: '' @ envelope_error_text err)), st, engine)
           | Inr _ \<Rightarrow>
               if command_type e = COMMAND_TYPE_DIST_TXN_INTENT then
                 (case versioned_decode from_json (payload e) of
                    Inl err \<Rightarrow> (Inl (SmCorrupt (decode_error_text err)), st, engine)
                  | Inr rec \<Rightarrow> intent_apply_command env c (snd rec) engine st)
               else forward_to_engine env c
                      (Some (SmCorrupt (''intent command_type '' @ decimal (unat (command_type e)) @
                         '' is not COMMAND_TYPE_DIST_TXN_INTENT''))) engine st)
      | Catalog _ _ \<Rightarrow>
          forward_to_engine env c (Some (SmCorrupt ''catalog command on a participant intent group'')) engine st
      | Maintenance _ _ \<Rightarrow> forward_to_engine env c None engine st
      | Noop \<Rightarrow> forward_to_engine env c None engine st)"

definition intent_apply ::
    "(u8 list \<Rightarrow> u8 list) \<Rightarrow> (u8 list \<Rightarrow> string + IntentCommand versioned) \<Rightarrow> 'e participant_env \<Rightarrow>
     ('e intent_sink \<Rightarrow> StateMachineError option) \<Rightarrow> 'e intent_sink apply_fn" where
  "intent_apply sha from_json env persist c k =
     (if lp_index (ac_position c) \<le> lp_index (ik_position k) then (Inr (), k)
      else case intent_dispatch sha from_json env c (ik_engine k) (ik_state k) of
             (Inl err, st, engine) \<Rightarrow> (Inl err, k\<lparr>ik_state := st, ik_engine := engine\<rparr>)
           | (Inr _, st, engine) \<Rightarrow>
               (let k' = k\<lparr>ik_state := st, ik_engine := engine, ik_position := ac_position c,
                           ik_command_id := (case rc_command_id (ac_command c) of None \<Rightarrow> ik_command_id k | Some i \<Rightarrow> Some i)\<rparr>
                in case persist k' of Some err \<Rightarrow> (Inl err, k') | None \<Rightarrow> (Inr (), k')))"

definition COMPOSITE_SNAPSHOT_FORMAT_VERSION :: u32 where "COMPOSITE_SNAPSHOT_FORMAT_VERSION = 1"

type_synonym intent_checkpoint = "u32 \<times> intent_state \<times> log_position \<times> u8 list option"

definition intent_checkpoint_of :: "'e intent_sink \<Rightarrow> intent_checkpoint" where
  "intent_checkpoint_of k = (DIST_TXN_CHECKPOINT_FORMAT_VERSION, ik_state k, ik_position k, ik_command_id k)"

definition intent_open ::
    "(u8 list \<Rightarrow> string + intent_checkpoint) \<Rightarrow> u8 list option \<Rightarrow> 'e option \<Rightarrow> DistTxnError + 'e intent_sink" where
  "intent_open from_json stored engine =
     (case stored of
        None \<Rightarrow> Inr \<lparr>ik_state = intent_default, ik_position = POSITION_ZERO, ik_command_id = None, ik_engine = engine\<rparr>
      | Some bytes \<Rightarrow>
          (case from_json bytes of
             Inl m \<Rightarrow> Inl (DtCorruptCheckpoint (''decode: '' @ m))
           | Inr (v, st, p, cid) \<Rightarrow>
               if \<not> supported_checkpoint v then Inl (DtCorruptCheckpoint (''unsupported'' @ checkpoint_version_text v))
               else Inr \<lparr>ik_state = st, ik_position = p, ik_command_id = cid, ik_engine = engine\<rparr>))"

text \<open>An engine-backed sink composes the engine image with the intent checkpoint; the JSON codecs and
  the engine's own \<open>snapshot\<close> and \<open>install\<close> are parameters.\<close>

definition intent_snapshot ::
    "(intent_checkpoint \<Rightarrow> string + u8 list) \<Rightarrow> (u32 \<times> u8 list \<times> u8 list \<Rightarrow> string + u8 list) \<Rightarrow>
     ('e \<Rightarrow> StateMachineError + u8 list) \<Rightarrow> 'e intent_sink \<Rightarrow> StateMachineError + u8 list" where
  "intent_snapshot to_json composite_json engine_snapshot k =
     (case to_json (intent_checkpoint_of k) of
        Inl m \<Rightarrow> Inl (SmSink (''intent snapshot encode: '' @ m))
      | Inr intent \<Rightarrow>
          (case ik_engine k of
             None \<Rightarrow> Inr intent
           | Some e \<Rightarrow>
               (case engine_snapshot e of
                  Inl err \<Rightarrow> Inl err
                | Inr img \<Rightarrow>
                    (case composite_json (COMPOSITE_SNAPSHOT_FORMAT_VERSION, img, intent) of
                       Inl m \<Rightarrow> Inl (SmSink (''composite snapshot encode: '' @ m))
                     | Inr bytes \<Rightarrow> Inr bytes))))"

definition install_intent_bytes ::
    "(u8 list \<Rightarrow> string + intent_checkpoint) \<Rightarrow> ('e intent_sink \<Rightarrow> StateMachineError option) \<Rightarrow> u8 list \<Rightarrow> 'e intent_sink \<Rightarrow>
     (StateMachineError + unit) \<times> 'e intent_sink" where
  "install_intent_bytes from_json persist data k =
     (case from_json data of
        Inl m \<Rightarrow> (Inl (SmCorrupt (''intent snapshot decode: '' @ m)), k)
      | Inr (v, st, p, cid) \<Rightarrow>
          if \<not> supported_checkpoint v
          then (Inl (SmCorrupt (''unsupported intent checkpoint'' @ checkpoint_version_text v)), k)
          else (let k' = k\<lparr>ik_state := st, ik_position := p, ik_command_id := cid\<rparr>
                in case persist k' of Some err \<Rightarrow> (Inl err, k') | None \<Rightarrow> (Inr (), k')))"

definition composite_version_text :: "u32 \<Rightarrow> string" where
  "composite_version_text v =
     ''unsupported composite snapshot format version '' @ decimal (unat v) @ '' (supported '' @
     decimal (unat COMPOSITE_SNAPSHOT_FORMAT_VERSION) @ '')''"

definition intent_install ::
    "(u8 list \<Rightarrow> string + intent_checkpoint) \<Rightarrow> (u8 list \<Rightarrow> string + u32 \<times> u8 list \<times> u8 list) \<Rightarrow>
     (u8 list \<Rightarrow> 'e \<Rightarrow> (StateMachineError + unit) \<times> 'e) \<Rightarrow> ('e intent_sink \<Rightarrow> StateMachineError option) \<Rightarrow> u8 list \<Rightarrow>
     'e intent_sink \<Rightarrow> (StateMachineError + unit) \<times> 'e intent_sink" where
  "intent_install from_json from_composite engine_install persist data k =
     (case ik_engine k of
        None \<Rightarrow> install_intent_bytes from_json persist data k
      | Some e \<Rightarrow>
          (case from_composite data of
             Inl m \<Rightarrow> (Inl (SmCorrupt (''composite snapshot decode: '' @ m)), k)
           | Inr (v, img, intent) \<Rightarrow>
               if v \<noteq> COMPOSITE_SNAPSHOT_FORMAT_VERSION then (Inl (SmCorrupt (composite_version_text v)), k)
               else (case engine_install img e of
                       (Inl err, e') \<Rightarrow> (Inl err, k\<lparr>ik_engine := Some e'\<rparr>)
                     | (Inr _, e') \<Rightarrow> install_intent_bytes from_json persist intent (k\<lparr>ik_engine := Some e'\<rparr>))))"

section \<open>What a command does to one transaction's record\<close>

lemma intent_txn_put [simp]: "intent_txn (put_txn t px st) = (intent_txn st)(t \<mapsto> px)"
  by (simp add: intent_txn_def put_txn_def fun_eq_iff)

lemma intent_txn_journal [simp]: "intent_txn (intent_journal c t reason st) = intent_txn st"
  by (simp add: intent_txn_def intent_journal_def fun_eq_iff)

lemma intent_txn_writes [simp]: "intent_txn (st\<lparr>is_committed_writes := ws\<rparr>) = intent_txn st"
  by (simp add: intent_txn_def fun_eq_iff)

lemma intent_txn_versions [simp]: "intent_txn (st\<lparr>is_schema_version := s, is_authz_version := a\<rparr>) = intent_txn st"
  by (simp add: intent_txn_def fun_eq_iff)

lemma writes_put [simp]: "is_committed_writes (put_txn t px st) = is_committed_writes st"
  by (simp add: put_txn_def)

lemma writes_journal [simp]: "is_committed_writes (intent_journal c t reason st) = is_committed_writes st"
  by (simp add: intent_journal_def)

inductive txn_change ::
    "IntentCommand \<Rightarrow> TransactionId \<Rightarrow> participant_txn option \<Rightarrow> participant_txn option \<Rightarrow> bool" where
  tc_same: "txn_change cmd t x x"
| tc_prepare: "px_txn_id px = t \<Longrightarrow> px_resolution px = None \<Longrightarrow> px_prepare_ts px = ts \<Longrightarrow> px_intents px = is \<Longrightarrow>
    txn_change (PersistIntents t schema authz ts is) t None (Some px)"
| tc_tombstone: "txn_change (Resolve t d) t None (Some (tombstoned t d at))"
| tc_resolve: "px_resolution px = None \<Longrightarrow> txn_change (Resolve t d) t (Some px) (Some (resolved_txn px d at))"
| tc_applied: "px_resolution px = Some d \<Longrightarrow> txn_change (Resolve t d) t (Some px) (Some (px\<lparr>px_applied := True\<rparr>))"
| tc_swept: "px_resolution px \<noteq> None \<Longrightarrow> txn_change (SweepResolved older_than limit) t (Some px) None"

lemma map_of_foldl_remove: "map_of (foldl (\<lambda>m t. bt_remove t m) xs ts) t = (if t \<in> set ts then None else map_of xs t)"
  by (induction ts arbitrary: xs) auto

lemma collect_swept_sound:
  "t \<in> set (collect_swept older_than limit xs swept) \<Longrightarrow> t \<in> set swept \<or> (\<exists>px. (t, px) \<in> set xs \<and> sweepable older_than px)"
  by (induction older_than limit xs swept rule: collect_swept.induct) (auto split: if_splits)

lemma collect_swept_limit: "length swept \<le> limit \<Longrightarrow> length (collect_swept older_than limit xs swept) \<le> limit"
  by (induction older_than limit xs swept rule: collect_swept.induct) auto

lemma prepared_txn_fields [simp]:
  "px_txn_id (prepared_txn c t ts is) = t" "px_resolution (prepared_txn c t ts is) = None"
  "px_prepare_ts (prepared_txn c t ts is) = ts" "px_intents (prepared_txn c t ts is) = is"
  by (simp_all add: prepared_txn_def)

lemma apply_persist_cases:
  assumes "apply_persist env c t schema authz ts is engine st = Inr st'"
  obtains (kept) "st' = st"
  | (refused) reason where "st' = intent_journal c t reason st"
  | (prepared) "intent_txn st t = None" "first_conflict st t is = None" "st' = put_txn t (prepared_txn c t ts is) st"
  using assms by (auto simp: apply_persist_def split: option.splits if_splits prod.splits sum.splits)

lemma apply_resolve_cases:
  assumes "apply_resolve env c t d engine st = (Inr r, st', engine')"
  obtains (tombstoned) at where "intent_txn st t = None" "st' = put_txn t (tombstoned t d at) st"
  | (kept) px where "intent_txn st t = Some px" "px_resolution px = Some d" "st' = st"
  | (applied) px where "intent_txn st t = Some px" "px_resolution px = Some d" "st' = put_txn t (px\<lparr>px_applied := True\<rparr>) st"
  | (committed) px at ts where "intent_txn st t = Some px" "px_resolution px = None" "d = DecideCommit ts"
      "st' = (put_txn t (resolved_txn px d at) st)\<lparr>is_committed_writes := is_committed_writes st @ committed_writes_of t ts (px_intents px)\<rparr>"
  | (aborted) px at reason where "intent_txn st t = Some px" "px_resolution px = None" "d = DecideAbort reason"
      "st' = put_txn t (resolved_txn px d at) st"
  using assms by (auto simp: apply_resolve_def resolve_again_def Let_def
      split: option.splits if_splits prod.splits sum.splits TxnDecision.splits)

lemma intent_command_error: "intent_apply_command env c cmd engine st = (Inl err, st', engine') \<Longrightarrow> st' = st"
  by (cases cmd) (auto simp: apply_resolve_def resolve_again_def Let_def
      split: option.splits if_splits prod.splits sum.splits TxnDecision.splits)

lemma intent_command_change:
  assumes "intent_apply_command env c cmd engine st = (Inr r, st', engine')" and sorted: "bt_sorted (is_txns st)"
  shows "txn_change cmd t (intent_txn st t) (intent_txn st' t)"
proof (cases cmd)
  case (SetTabletVersions schema authz)
  with assms show ?thesis by (auto intro: tc_same)
next
  case (PersistIntents u schema authz ts "is")
  then obtain st1 where "apply_persist env c u schema authz ts is engine st = Inr st1" "st' = st1"
    using assms by (auto split: sum.splits)
  then show ?thesis
    by (cases rule: apply_persist_cases) (auto simp: PersistIntents intro: txn_change.intros)
next
  case (Resolve u d)
  then have "apply_resolve env c u d engine st = (Inr r, st', engine')" using assms by simp
  then show ?thesis
    by (cases rule: apply_resolve_cases) (auto simp: Resolve intro: txn_change.intros)
next
  case (SweepResolved older_than limit)
  let ?swept = "collect_swept older_than (unat limit) (is_txns st) []"
  have st': "intent_txn st' t = (if t \<in> set ?swept then None else intent_txn st t)"
    using assms by (auto simp: SweepResolved apply_sweep_def Let_def intent_txn_def map_of_foldl_remove)
  show ?thesis
  proof (cases "t \<in> set ?swept")
    case True
    then obtain px where "(t, px) \<in> set (is_txns st)" "sweepable older_than px" using collect_swept_sound by fastforce
    then have "intent_txn st t = Some px" "px_resolution px \<noteq> None"
      using sorted by (auto simp: intent_txn_def bt_sorted_distinct sweepable_def)
    with st' True show ?thesis by (auto simp: SweepResolved intro: tc_swept)
  qed (use st' in \<open>auto intro: tc_same\<close>)
qed

section \<open>Runs of commands\<close>

definition intents_exclusive :: "intent_state \<Rightarrow> bool" where
  "intents_exclusive st \<longleftrightarrow>
     (\<forall>t u p q key. intent_txn st t = Some p \<and> intent_txn st u = Some q \<and> holds_key key p \<and> holds_key key q \<longrightarrow> t = u)"

definition writes_decided :: "intent_state \<Rightarrow> bool" where
  "writes_decided st \<longleftrightarrow>
     (\<forall>w \<in> set (is_committed_writes st).
        \<exists>px. intent_txn st (cw_txn_id w) = Some px \<and> px_resolution px = Some (DecideCommit (cw_commit_ts w)))"

definition participant_inv :: "intent_state \<Rightarrow> bool" where
  "participant_inv st \<longleftrightarrow>
     bt_sorted (is_txns st) \<and>
     (\<forall>t px. intent_txn st t = Some px \<longrightarrow> px_txn_id px = t \<and> (px_resolution px \<noteq> None \<longrightarrow> px_intents px = [])) \<and>
     intents_exclusive st \<and> writes_decided st \<and> length (is_rejections st) \<le> DIST_TXN_REJECTION_LIMIT"

inductive intent_step :: "'e participant_env \<Rightarrow> intent_state \<times> 'e option \<Rightarrow> intent_state \<times> 'e option \<Rightarrow> bool" for env where
  "intent_apply_command env c cmd engine st = (res, st', engine') \<Longrightarrow> intent_step env (st, engine) (st', engine')"

lemma conflicting_holder_None:
  assumes "conflicting_holder st t key = None" "(u, px) \<in> set (is_txns st)" "px_txn_id px \<noteq> t"
  shows "\<not> holds_key key px"
  using assms by (force simp: conflicting_holder_def find_None_iff)

lemma first_conflict_None:
  "first_conflict st t is = None \<Longrightarrow> i \<in> set is \<Longrightarrow> conflicting_holder st t (wi_key i) = None"
  by (induction "is") (auto split: option.splits)

lemma prepare_disjoint:
  assumes "participant_inv st" "first_conflict st t is = None" "intent_txn st u = Some px" "u \<noteq> t" "i \<in> set is"
  shows "\<not> holds_key (wi_key i) px"
proof (rule conflicting_holder_None)
  show "conflicting_holder st t (wi_key i) = None" using assms(2,5) by (rule first_conflict_None)
  show "(u, px) \<in> set (is_txns st)" using assms(3) by (simp add: intent_txn_def map_of_SomeD)
  show "px_txn_id px \<noteq> t" using assms(1,3,4) by (auto simp: participant_inv_def)
qed

lemma sorted_foldl_remove: "bt_sorted xs \<Longrightarrow> bt_sorted (foldl (\<lambda>m t. bt_remove t m) xs ts)"
  by (induction ts arbitrary: xs) auto

lemma intent_command_shape:
  assumes "intent_apply_command env c cmd engine st = (Inr r, st', engine')" and "participant_inv st"
  shows "bt_sorted (is_txns st')" and "length (is_rejections st') \<le> DIST_TXN_REJECTION_LIMIT"
proof -
  have "bt_sorted (is_txns st') \<and> length (is_rejections st') \<le> DIST_TXN_REJECTION_LIMIT"
  proof (cases cmd)
    case (PersistIntents u schema authz ts "is")
    then have "apply_persist env c u schema authz ts is engine st = Inr st'"
      using assms by (auto split: sum.splits)
    then show ?thesis using assms(2)
      by (cases rule: apply_persist_cases) (auto simp: participant_inv_def intent_journal_def length_pop_to put_txn_def)
  next
    case (Resolve u d)
    then have "apply_resolve env c u d engine st = (Inr r, st', engine')" using assms by simp
    then show ?thesis using assms(2)
      by (cases rule: apply_resolve_cases) (auto simp: participant_inv_def put_txn_def)
  qed (use assms in \<open>auto simp: participant_inv_def apply_sweep_def Let_def sorted_foldl_remove\<close>)
  then show "bt_sorted (is_txns st')" and "length (is_rejections st') \<le> DIST_TXN_REJECTION_LIMIT" by simp_all
qed

lemma holds_key_resolved [simp]: "px_resolution px = Some d \<Longrightarrow> \<not> holds_key key px"
  by (simp add: holds_key_def)

lemma resolved_fields [simp]:
  "px_resolution (resolved_txn px d at) = Some d" "px_intents (resolved_txn px d at) = []"
  "px_txn_id (resolved_txn px d at) = px_txn_id px"
  "px_resolution (tombstoned t d at) = Some d" "px_intents (tombstoned t d at) = []" "px_txn_id (tombstoned t d at) = t"
  by (simp_all add: resolved_txn_def tombstoned_def)

lemma holds_key_applied [simp]: "holds_key key (px\<lparr>px_applied := b\<rparr>) = holds_key key px"
  by (simp add: holds_key_def)

lemma exclusive_shrinks:
  assumes "intents_exclusive st"
    and "\<And>t px key. intent_txn st' t = Some px \<Longrightarrow> holds_key key px \<Longrightarrow> \<exists>p. intent_txn st t = Some p \<and> holds_key key p"
  shows "intents_exclusive st'"
  using assms unfolding intents_exclusive_def by metis

lemma command_exclusive:
  assumes ap: "intent_apply_command env c cmd engine st = (Inr r, st', engine')" and inv: "participant_inv st"
  shows "intents_exclusive st'"
proof (cases "\<exists>u schema authz ts is. cmd = PersistIntents u schema authz ts is")
  case True
  then obtain u schema authz ts "is" where cmd: "cmd = PersistIntents u schema authz ts is" by blast
  then have "apply_persist env c u schema authz ts is engine st = Inr st'" using ap by (auto split: sum.splits)
  then show ?thesis
  proof (cases rule: apply_persist_cases)
    case prepared
    have no: "\<not> holds_key key q" if "intent_txn st v = Some q" "v \<noteq> u" "holds_key key (prepared_txn c u ts is)" for v q key
      using that prepare_disjoint [OF inv prepared(2) that(1,2)] by (auto simp: holds_key_def list_ex_iff)
    have "intents_exclusive st" using inv by (simp add: participant_inv_def)
    then show ?thesis using no unfolding intents_exclusive_def prepared(3)
      by (auto split: if_splits)
  qed (use inv in \<open>auto simp: participant_inv_def intents_exclusive_def\<close>)
next
  case False
  have "\<exists>p. intent_txn st t = Some p \<and> holds_key key p" if "intent_txn st' t = Some px" "holds_key key px" for t px key
    using intent_command_change [OF ap, of t] inv that False
    by (cases rule: txn_change.cases) (auto simp: participant_inv_def)
  then show ?thesis using inv by (intro exclusive_shrinks [of st st']) (auto simp: participant_inv_def)
qed

lemma command_writes_decided:
  assumes ap: "intent_apply_command env c cmd engine st = (Inr r, st', engine')" and inv: "participant_inv st"
  shows "writes_decided st'"
proof -
  have old: "\<exists>px. intent_txn st (cw_txn_id w) = Some px \<and> px_resolution px = Some (DecideCommit (cw_commit_ts w))"
    if "w \<in> set (is_committed_writes st)" for w
    using inv that by (auto simp: participant_inv_def writes_decided_def)
  show ?thesis
  proof (cases cmd)
    case (PersistIntents u schema authz ts "is")
    then have "apply_persist env c u schema authz ts is engine st = Inr st'" using ap by (auto split: sum.splits)
    then show ?thesis
    proof (cases rule: apply_persist_cases)
      case prepared
      then show ?thesis using old by (fastforce simp: writes_decided_def)
    qed (use old in \<open>auto simp: writes_decided_def\<close>)
  next
    case (Resolve u d)
    then have "apply_resolve env c u d engine st = (Inr r, st', engine')" using ap by simp
    then show ?thesis
    proof (cases rule: apply_resolve_cases)
      case (committed px at ts)
      have "\<exists>px. intent_txn st' (cw_txn_id w) = Some px \<and> px_resolution px = Some (DecideCommit (cw_commit_ts w))"
        if w: "w \<in> set (is_committed_writes st')" for w
      proof (cases "w \<in> set (is_committed_writes st)")
        case True
        with old [OF True] committed show ?thesis by (auto simp: fun_upd_apply)
      next
        case False
        with w committed have "cw_txn_id w = u" "cw_commit_ts w = ts" by (auto simp: committed_writes_of_def)
        with committed show ?thesis by simp
      qed
      then show ?thesis by (simp add: writes_decided_def)
    qed (use old in \<open>fastforce simp: writes_decided_def\<close>)+
  next
    case (SweepResolved older_than limit)
    with ap old show ?thesis
      by (auto simp: writes_decided_def apply_sweep_def Let_def intent_txn_def map_of_foldl_remove)
  qed (use ap old in \<open>auto simp: writes_decided_def\<close>)
qed

lemma command_records_ok:
  assumes ap: "intent_apply_command env c cmd engine st = (Inr r, st', engine')" and inv: "participant_inv st"
    and "intent_txn st' t = Some px"
  shows "px_txn_id px = t \<and> (px_resolution px \<noteq> None \<longrightarrow> px_intents px = [])"
  using intent_command_change [OF ap, of t] assms(2,3)
  by (cases rule: txn_change.cases) (auto simp: participant_inv_def)

lemma intent_step_inv:
  assumes "intent_step env (st, engine) (st', engine')" and inv: "participant_inv st"
  shows "participant_inv st'"
proof -
  obtain c cmd res where ap: "intent_apply_command env c cmd engine st = (res, st', engine')"
    using assms(1) by (auto elim: intent_step.cases)
  show ?thesis
  proof (cases res)
    case (Inl err)
    with ap inv show ?thesis using intent_command_error by metis
  next
    case (Inr r)
    note ap = ap [unfolded Inr]
    show ?thesis using intent_command_shape [OF ap inv] command_exclusive [OF ap inv] command_writes_decided [OF ap inv]
        command_records_ok [OF ap inv] by (auto simp: participant_inv_def)
  qed
qed

interpretation participant_group: guarded_system "\<lambda>s. fst s = intent_default" "intent_step env" "\<lambda>s. participant_inv (fst s)"
  for env :: "'e participant_env"
proof
  show "participant_inv (fst s)" if "fst s = intent_default" for s :: "intent_state \<times> 'e option"
    using that by (simp add: participant_inv_def intent_default_def intents_exclusive_def writes_decided_def intent_txn_def)
  show "participant_inv (fst t)" if "intent_step env s t" "participant_inv (fst s)" for s t
    using that by (cases s; cases t) (auto dest: intent_step_inv)
qed

interpretation intent_replay: replay_sink "intent_apply sha from_json env (\<lambda>_. None)" "\<lambda>k. lp_index (ik_position k)"
  for sha from_json and env :: "'e participant_env"
proof
  fix c and k k' :: "'e intent_sink"
  show "intent_apply sha from_json env (\<lambda>_. None) c k = (Inr (), k)" if "lp_index (ac_position c) \<le> lp_index (ik_position k)"
    using that by (simp add: intent_apply_def)
  show "lp_index (ik_position k') = lp_index (ac_position c)"
    if "intent_apply sha from_json env (\<lambda>_. None) c k = (Inr (), k')" "lp_index (ik_position k) < lp_index (ac_position c)"
    using that by (auto simp: intent_apply_def Let_def split: sum.splits if_splits prod.splits)
qed

section \<open>Properties\<close>

text \<open>C4: First preparer wins and nothing else becomes visible. In every state a participant group reaches,
  two transactions never hold intents on the same key, a resolved transaction holds no intents, and
  every write that was made visible belongs to a transaction this group resolved as committed, at
  exactly the timestamp of that decision.\<close>

theorem first_preparer_wins:
  assumes "reach (\<lambda>s. fst s = intent_default) (intent_step env) (st, engine)"
  shows "(\<forall>t u p q i j. intent_txn st t = Some p \<longrightarrow> intent_txn st u = Some q \<longrightarrow>
      i \<in> set (px_intents p) \<longrightarrow> j \<in> set (px_intents q) \<longrightarrow> wi_key i = wi_key j \<longrightarrow> t = u) \<and>
    (\<forall>t p. intent_txn st t = Some p \<longrightarrow> px_resolution p \<noteq> None \<longrightarrow> px_intents p = []) \<and>
    list_all (\<lambda>w. map_option px_resolution (intent_txn st (cw_txn_id w)) = Some (Some (DecideCommit (cw_commit_ts w))))
      (is_committed_writes st)"
proof -
  have inv: "participant_inv st" using participant_group.reach_inv [OF assms] by simp
  then have clear: "px_intents p = []" if "intent_txn st t = Some p" "px_resolution p \<noteq> None" for t p
    using that by (fastforce simp: participant_inv_def)
  have "t = u" if "intent_txn st t = Some p" "intent_txn st u = Some q" "i \<in> set (px_intents p)" "j \<in> set (px_intents q)"
    "wi_key i = wi_key j" for t u p q i j
  proof -
    have "px_resolution p = None" "px_resolution q = None" using clear that(1-4) by fastforce+
    then have "holds_key (wi_key i) p" "holds_key (wi_key i) q" using that(3-5) by (auto simp: holds_key_def list_ex_iff)
    then show ?thesis using inv that(1,2) unfolding participant_inv_def intents_exclusive_def by blast
  qed
  moreover have "map_option px_resolution (intent_txn st (cw_txn_id w)) = Some (Some (DecideCommit (cw_commit_ts w)))"
    if "w \<in> set (is_committed_writes st)" for w
    using inv that by (auto simp: participant_inv_def writes_decided_def)
  ultimately show ?thesis using clear by (simp add: list_all_iff)
qed

text \<open>Transaction 7 prepares key 1, transaction 8 key 3, and 7 is resolved as committed.\<close>

definition sample_intent :: "TransactionId \<Rightarrow> u8 \<Rightarrow> write_intent" where
  "sample_intent t k = \<lparr>wi_txn_id = t, wi_key = [k], wi_value_ref = [2], wi_prepare_ts = HLC_ZERO\<rparr>"

definition sample_env :: "unit participant_env" where
  "sample_env = \<lparr>pe_validate = (\<lambda>_ _. Inr None), pe_apply_staged = (\<lambda>_ _ _ e. (Inr (), e)),
     pe_forward = (\<lambda>_ e. (Inr (), e)), pe_debug_decision = (\<lambda>_. [])\<rparr>"

definition sample_px :: "TransactionId \<Rightarrow> u8 \<Rightarrow> participant_txn" where
  "sample_px t k = prepared_txn sample_command t HLC_ZERO [sample_intent t k]"

definition sample_prepared :: intent_state where
  "sample_prepared = put_txn 8 (sample_px 8 3) (put_txn 7 (sample_px 7 1) intent_default)"

definition sample_settled :: intent_state where
  "sample_settled = (put_txn 7 (resolved_txn (sample_px 7 1) (DecideCommit (HlcTimestamp 6 0 0)) None) sample_prepared)
     \<lparr>is_committed_writes := committed_writes_of 7 (HlcTimestamp 6 0 0) [sample_intent 7 1]\<rparr>"

lemma sample_settled_reach: "reach (\<lambda>s. fst s = intent_default) (intent_step sample_env) (sample_settled, None)"
proof -
  have "intent_apply_command sample_env sample_command (PersistIntents 7 0 0 HLC_ZERO [sample_intent 7 1]) None intent_default =
      (Inr (), put_txn 7 (sample_px 7 1) intent_default, None)"
    by (simp add: apply_persist_def sample_px_def intent_default_def intent_txn_def conflicting_holder_def)
  moreover have "intent_apply_command sample_env sample_command (PersistIntents 8 0 0 HLC_ZERO [sample_intent 8 3]) None
      (put_txn 7 (sample_px 7 1) intent_default) = (Inr (), sample_prepared, None)"
    by (simp add: apply_persist_def sample_prepared_def sample_px_def intent_default_def intent_txn_def conflicting_holder_def
        put_txn_def holds_key_def prepared_txn_def sample_intent_def)
  moreover have "intent_apply_command sample_env sample_command (Resolve 7 (DecideCommit (HlcTimestamp 6 0 0))) None sample_prepared =
      (Inr (), sample_settled, None)"
    by (simp add: apply_resolve_def sample_settled_def sample_prepared_def Let_def sample_px_def prepared_txn_def
        apply_committed_to_engine_def sample_command_def intent_default_def)
  ultimately show ?thesis
    by (meson intent_step.intros reach_step reach_init fst_conv)
qed

theorem first_preparer_wins_witness:
  "list_all (\<lambda>w. map_option px_resolution (intent_txn sample_settled (cw_txn_id w)) = Some (Some (DecideCommit (cw_commit_ts w))))
     (is_committed_writes sample_settled) \<and>
   map cw_txn_id (is_committed_writes sample_settled) = [7] \<and>
   map_option (map wi_key \<circ> px_intents) (intent_txn sample_settled 7) = Some [] \<and>
   map_option (map wi_key \<circ> px_intents) (intent_txn sample_settled 8) = Some [[3]]"
proof -
  note first_preparer_wins [OF sample_settled_reach]
  moreover have "is_committed_writes sample_settled = committed_writes_of 7 (HlcTimestamp 6 0 0) [sample_intent 7 1]"
    by (simp add: sample_settled_def)
  moreover have "map_option (map wi_key \<circ> px_intents) (intent_txn sample_settled 8) = Some [[3]]"
    by (simp add: sample_settled_def sample_prepared_def sample_px_def sample_intent_def)
  moreover obtain p where "intent_txn sample_settled 7 = Some p" "px_resolution p \<noteq> None"
    by (simp add: sample_settled_def resolved_txn_def)
  ultimately show ?thesis by (auto simp: committed_writes_of_def)
qed

end
