(* ===== verification/Effect_Trees.thy ===== *)
theory Effect_Trees
  imports Main
begin

text \<open>
  Asynchronous functions as trees: a function either returns or performs an action and continues with
  the reply. \<open>bind\<close> sequences, \<open>attempt_then\<close> is the \<open>?\<close> operator on a \<open>Result\<close>, and \<open>run_all\<close> polls several
  trees concurrently on one task, the environment choosing which one advances. \<open>holds_after\<close> is the
  program logic: what a tree may do, and what is true when it returns, in a world that only grows.
\<close>

section \<open>Trees\<close>

datatype ('act, 'rep, 'a) prog = Ret 'a | Act 'act "'rep \<Rightarrow> ('act, 'rep, 'a) prog"

primrec bind :: "('act, 'rep, 'a) prog \<Rightarrow> ('a \<Rightarrow> ('act, 'rep, 'b) prog) \<Rightarrow> ('act, 'rep, 'b) prog" where
  "bind (Ret a) f = f a"
| "bind (Act x k) f = Act x (\<lambda>r. bind (k r) f)"

definition attempt_then ::
    "('act, 'rep, 'e + 'a) prog \<Rightarrow> ('a \<Rightarrow> ('act, 'rep, 'e + 'b) prog) \<Rightarrow> ('act, 'rep, 'e + 'b) prog" where
  "attempt_then p f = bind p (\<lambda>x. case x of Inl e \<Rightarrow> Ret (Inl e) | Inr a \<Rightarrow> f a)"

definition map_error :: "('e \<Rightarrow> 'f) \<Rightarrow> ('act, 'rep, 'e + 'a) prog \<Rightarrow> ('act, 'rep, 'f + 'a) prog" where
  "map_error g p = bind p (\<lambda>x. Ret (map_sum g id x))"

definition ask :: "'act \<Rightarrow> ('rep \<Rightarrow> 'a) \<Rightarrow> ('act, 'rep, 'a) prog" where
  "ask x sel = Act x (\<lambda>r. Ret (sel r))"

lemma bind_assoc: "bind (bind p f) g = bind p (\<lambda>x. bind (f x) g)"
  by (induction p) auto

lemma bind_Ret [simp]: "bind p Ret = p"
  by (induction p) auto

section \<open>Concurrent polling\<close>

text \<open>Two trees on one task: a \<open>poll\<close> action asks which one is ready; \<open>par_right\<close> is the part of the
  recursion that advances the second tree while the first waits.\<close>

primrec par_right ::
    "'act \<Rightarrow> ('rep \<Rightarrow> bool) \<Rightarrow> 'act \<Rightarrow> ('rep \<Rightarrow> ('act, 'rep, 'b) prog \<Rightarrow> ('act, 'rep, 'a \<times> 'b) prog) \<Rightarrow>
     ('act, 'rep, 'b) prog \<Rightarrow> ('act, 'rep, 'a \<times> 'b) prog" where
  "par_right poll first x left (Ret b) = Act x (\<lambda>r. left r (Ret b))"
| "par_right poll first x left (Act y l) =
     Act poll (\<lambda>c. if first c then Act x (\<lambda>r. left r (Act y l)) else Act y (\<lambda>r. par_right poll first x left (l r)))"

primrec par :: "'act \<Rightarrow> ('rep \<Rightarrow> bool) \<Rightarrow> ('act, 'rep, 'a) prog \<Rightarrow> ('act, 'rep, 'b) prog \<Rightarrow> ('act, 'rep, 'a \<times> 'b) prog" where
  "par poll first (Ret a) = (\<lambda>q. bind q (\<lambda>b. Ret (a, b)))"
| "par poll first (Act x k) = par_right poll first x (\<lambda>r. par poll first (k r))"

primrec run_all :: "'act \<Rightarrow> ('rep \<Rightarrow> bool) \<Rightarrow> ('act, 'rep, 'a) prog list \<Rightarrow> ('act, 'rep, 'a list) prog" where
  "run_all poll first [] = Ret []"
| "run_all poll first (p # ps) = bind (par poll first p (run_all poll first ps)) (\<lambda>(a, as). Ret (a # as))"

section \<open>What holds after a tree\<close>

text \<open>
  \<open>le\<close> orders the worlds by growth, \<open>answers\<close> relates an action and its reply in a world, \<open>allowed\<close> is the
  condition for performing an action. The environment may move to any greater world before it replies.
\<close>

primrec holds_after ::
    "('w \<Rightarrow> 'w \<Rightarrow> bool) \<Rightarrow> ('w \<Rightarrow> 'act \<Rightarrow> 'rep \<Rightarrow> bool) \<Rightarrow> ('act \<Rightarrow> 'w \<Rightarrow> bool) \<Rightarrow> ('act, 'rep, 'a) prog \<Rightarrow> ('a \<Rightarrow> 'w \<Rightarrow> bool) \<Rightarrow> 'w \<Rightarrow> bool"
where
  "holds_after le answers allowed (Ret a) Q w = Q a w"
| "holds_after le answers allowed (Act x k) Q w =
     (allowed x w \<and> (\<forall>w' r. le w w' \<longrightarrow> answers w' x r \<longrightarrow> holds_after le answers allowed (k r) Q w'))"

locale growing_world =
  fixes le :: "'w \<Rightarrow> 'w \<Rightarrow> bool" and answers :: "'w \<Rightarrow> 'act \<Rightarrow> 'rep \<Rightarrow> bool" and allowed :: "'act \<Rightarrow> 'w \<Rightarrow> bool"
    and poll :: 'act and first :: "'rep \<Rightarrow> bool"
  assumes le_refl: "le w w" and le_trans: "le u v \<Longrightarrow> le v w \<Longrightarrow> le u w"
    and allowed_grows: "allowed x w \<Longrightarrow> le w w' \<Longrightarrow> allowed x w'"
    and poll_allowed: "allowed poll w"
begin

abbreviation after where "after \<equiv> holds_after le answers allowed"

definition grows :: "('a \<Rightarrow> 'w \<Rightarrow> bool) \<Rightarrow> bool" where
  "grows Q \<longleftrightarrow> (\<forall>a w w'. Q a w \<longrightarrow> le w w' \<longrightarrow> Q a w')"

lemma after_grows: "grows Q \<Longrightarrow> after p Q w \<Longrightarrow> le w w' \<Longrightarrow> after p Q w'"
proof (induction p arbitrary: w w')
  case (Act x k)
  then show ?case using allowed_grows le_trans by (simp (no_asm_use)) blast
qed (auto simp: grows_def)

lemma after_mono:
  assumes "after p P w" and "\<And>a w'. le w w' \<Longrightarrow> P a w' \<Longrightarrow> Q a w'"
  shows "after p Q w"
  using assms
proof (induction p arbitrary: w)
  case (Ret a)
  then show ?case using le_refl by simp
next
  case (Act x k)
  from Act.prems(1) have ok: "allowed x w" and next_ok: "\<And>w' r. le w w' \<Longrightarrow> answers w' x r \<Longrightarrow> after (k r) P w'" by simp_all
  have "after (k r) Q w'" if "le w w'" "answers w' x r" for w' r
    using next_ok [OF that] by (rule Act.IH [OF rangeI]) (use Act.prems(2) le_trans that(1) in blast)
  with ok show ?case by simp
qed

lemma after_bind:
  assumes "after p (\<lambda>a. after (f a) Q) w"
  shows "after (bind p f) Q w"
  using assms by (induction p arbitrary: w) auto

lemma after_seq:
  assumes "after p P w" and "\<And>a w'. le w w' \<Longrightarrow> P a w' \<Longrightarrow> after (f a) Q w'"
  shows "after (bind p f) Q w"
  by (rule after_bind, rule after_mono [OF assms(1)], rule assms(2))

lemma after_attempt:
  assumes "after p P w" and "\<And>a w'. le w w' \<Longrightarrow> P (Inr a) w' \<Longrightarrow> after (f a) Q w'"
    and "\<And>e w'. le w w' \<Longrightarrow> P (Inl e) w' \<Longrightarrow> Q (Inl e) w'"
  shows "after (attempt_then p f) Q w"
  unfolding attempt_then_def
proof (rule after_seq [OF assms(1)])
  fix x w' assume "le w w'" "P x w'"
  then show "after (case x of Inl e \<Rightarrow> Ret (Inl e) | Inr a \<Rightarrow> f a) Q w'"
    using assms(2,3) by (cases x) auto
qed

lemma after_map_error:
  assumes "after p P w" and "\<And>e w'. le w w' \<Longrightarrow> P (Inl e) w' \<Longrightarrow> Q (Inl (g e)) w'"
    and "\<And>a w'. le w w' \<Longrightarrow> P (Inr a) w' \<Longrightarrow> Q (Inr a) w'"
  shows "after (map_error g p) Q w"
  unfolding map_error_def
proof (rule after_seq [OF assms(1)])
  fix x w' assume "le w w'" "P x w'"
  then show "after (Ret (map_sum g id x)) Q w'" using assms(2,3) by (cases x) auto
qed

lemma after_ask:
  assumes "allowed x w" and "\<And>w' r. le w w' \<Longrightarrow> answers w' x r \<Longrightarrow> Q (sel r) w'"
  shows "after (ask x sel) Q w"
  using assms by (simp add: ask_def)

lemma after_par_right:
  assumes "grows P" "grows R" "allowed x w" "after q R w"
    and "\<And>w' r q. le w w' \<Longrightarrow> answers w' x r \<Longrightarrow> after q R w' \<Longrightarrow> after (left r q) (\<lambda>(a, b) v. P a v \<and> R b v) w'"
  shows "after (par_right poll first x left q) (\<lambda>(a, b) v. P a v \<and> R b v) w"
  using assms(3-5)
proof (induction q arbitrary: w)
  case (Ret b)
  have "after (left r (Ret b)) (\<lambda>(a, b) v. P a v \<and> R b v) w'" if "le w w'" "answers w' x r" for w' r
    using that Ret.prems(2) assms(2) by (intro Ret.prems(3)) (auto simp: grows_def)
  with Ret.prems(1) show ?case by simp
next
  case (Act y l)
  have left_ok: "after (left r (Act y l)) (\<lambda>(a, b) v. P a v \<and> R b v) v" if "le w v" "answers v x r" for v r
    using that after_grows [OF assms(2) Act.prems(2)] by (intro Act.prems(3)) auto
  have right_ok: "after (par_right poll first x left (l r)) (\<lambda>(a, b) v. P a v \<and> R b v) v" if v: "le w v" "answers v y r" for v r
  proof (rule Act.IH [OF rangeI])
    show "allowed x v" using Act.prems(1) v(1) by (rule allowed_grows)
    show "after (l r) R v" using Act.prems(2) v by simp
    show "after (left r' q) (\<lambda>(a, b) v. P a v \<and> R b v) u" if "le v u" "answers u x r'" "after q R u" for u r' q
      using that v(1) le_trans by (intro Act.prems(3)) blast+
  qed
  have "allowed y w" using Act.prems(2) by simp
  with Act.prems(1) show ?case
    by (auto simp: poll_allowed intro: allowed_grows intro!: left_ok right_ok elim!: le_trans)
qed

lemma after_par:
  assumes "grows P" "grows R" "after p P w" "after q R w"
  shows "after (par poll first p q) (\<lambda>(a, b) v. P a v \<and> R b v) w"
  using assms(3,4)
proof (induction p arbitrary: q w)
  case (Ret a)
  have "after q (\<lambda>b v. P a v \<and> R b v) w"
    using Ret.prems assms(1) by (intro after_mono [OF Ret.prems(2)]) (auto simp: grows_def)
  then have "after (bind q (\<lambda>b. Ret (a, b))) (\<lambda>(a, b) v. P a v \<and> R b v) w"
    by (rule after_seq) simp
  then show ?case by simp
next
  case (Act x k)
  then show ?case using assms(1,2) by (auto intro!: after_par_right)
qed

lemma after_run_all:
  assumes "\<And>p. p \<in> set ps \<Longrightarrow> after (f p) (P p) w" and "\<And>p. grows (P p)"
  shows "after (run_all poll first (map f ps)) (\<lambda>as v. length as = length ps \<and> (\<forall>i < length ps. P (ps ! i) (as ! i) v)) w"
  using assms(1)
proof (induction ps)
  case (Cons p ps)
  let ?R = "\<lambda>as v. length as = length ps \<and> (\<forall>i < length ps. P (ps ! i) (as ! i) v)"
  have "grows ?R" using assms(2) unfolding grows_def by blast
  then have "after (par poll first (f p) (run_all poll first (map f ps))) (\<lambda>(a, as) v. P p a v \<and> ?R as v) w"
    using Cons assms(2) by (intro after_par) auto
  then have "after (bind (par poll first (f p) (run_all poll first (map f ps))) (\<lambda>(a, as). Ret (a # as)))
      (\<lambda>as v. length as = length (p # ps) \<and> (\<forall>i < length (p # ps). P ((p # ps) ! i) (as ! i) v)) w"
    by (rule after_seq) (auto simp: nth_Cons' less_Suc_eq_0_disj)
  then show ?case by simp
qed simp

end

end
