(* ===== verification/Dist_Driver.thy ===== *)
theory Dist_Driver
  imports Dist_Intents Effect_Trees
begin

text \<open>
  The protocol driver (\<open>DistTxnDriver\<close> in \<open>crates/mongreldb-cluster/src/dist_txn.rs\<close>): begin, prepare,
  decide, resolve, and the recovery flows. Every asynchronous function is a tree over the actions below;
  a group member is its group id and node id. The texts that \<open>Display\<close> and \<open>Debug\<close> produce are a record
  of functions, and SHA-256 is a function of the driver.
\<close>

section \<open>Configuration and requests\<close>

text \<open>Durations are in microseconds.\<close>

record DistTxnConfig =
  cfg_selection :: CoordinatorSelection
  cfg_status_partitions :: "(u32 \<times> RaftGroupId) list"
  cfg_pending_timeout :: nat
  cfg_resolved_retention :: nat
  cfg_sweep_limit :: u32
  cfg_hlc_max_skew :: nat
  cfg_node_tiebreaker :: u32
  cfg_propose_retry_interval :: nat
  cfg_max_propose_rounds :: nat

record participant_writes =
  pw_participant :: txn_participant
  pw_schema_version :: SchemaVersion
  pw_authz_version :: u64
  pw_intents :: "write_intent list"

record commit_request =
  cr_txn_id :: TransactionId
  cr_idempotency_key :: "u8 list"
  cr_writes :: "participant_writes list"
  cr_observed :: "HlcTimestamp list"
  cr_first_write_group :: "RaftGroupId option"

datatype RecoveryOutcome = RecoveryNotFound | RecoveryInFlight nat | RecoveryDecided DistributedTxnState

datatype PushOutcome = PushNotFound | NotExpired | PushTerminal DistributedTxnState | Pushed DistributedTxnState

datatype OrphanOutcome =
    ResolvedCommit HlcTimestamp
  | ResolvedAbort DistAbortReason
  | PushedAbort DistAbortReason
  | OrphanInFlight
  | UnknownRecord

record sweep_report =
  sw_resolved_committed :: nat
  sw_resolved_aborted :: nat
  sw_pushed :: nat
  sw_in_flight :: nat
  sw_unknown :: nat

record sweep_resolved_report =
  srr_swept :: nat
  srr_remaining :: nat

record resolve_broadcast =
  rb_resolved :: "RaftGroupId list"
  rb_deferred :: "RaftGroupId list"

section \<open>Actions\<close>

record group_member =
  gm_group :: RaftGroupId
  gm_node :: u64

datatype LogError =
    LogEnvelope EnvelopeError
  | LogCancelled
  | LogDeadlineExceeded
  | LogClosed
  | LogNotLeader "string option"
  | LogUnsupported string
  | LogInternal string

datatype driver_action =
    ReadClock
  | ClockNextAfter HlcTimestamp
  | InjectFault string
  | CheckControl
  | LeaderViews "group_member list"
  | ProposeStatus group_member "u8 list" CoordinatorCommand
  | ProposeIntent group_member "u8 list" IntentCommand
  | LocalRecord group_member TransactionId
  | ConsistentRecord group_member TransactionId
  | LocalTxn group_member TransactionId
  | LocalState group_member
  | UnresolvedTxns group_member
  | AppliedIndex group_member
  | PollFirst

datatype driver_reply =
    ClockReply (r_clock: "string + HlcTimestamp")
  | StampReply (r_stamp: HlcTimestamp)
  | FaultReply (r_fault: "string option")
  | ControlReply (r_control: "LogError option")
  | ViewsReply (r_views: "bool list")
  | StatusReply (r_status: "DistTxnError + log_position \<times> StatusRejectionReason option")
  | IntentReply (r_intent: "DistTxnError + log_position \<times> PrepareRejectionReason option")
  | RecordReply (r_record: "txn_record option")
  | ReadReply (r_read: "DistTxnError + txn_record option")
  | TxnReply (r_txn: "participant_txn option")
  | StateReply (r_state: intent_state)
  | IdsReply (r_ids: "TransactionId list")
  | IndexReply (r_index: u64)
  | PollReply (r_poll: bool)

type_synonym 'a driver_prog = "(driver_action, driver_reply, 'a) prog"

record driver_texts =
  tx_error :: "DistTxnError \<Rightarrow> string"
  tx_log_error :: "LogError \<Rightarrow> string"
  tx_status_reason :: "StatusRejectionReason \<Rightarrow> string"
  tx_prepare_reason :: "PrepareRejectionReason \<Rightarrow> string"
  tx_debug_state :: "DistributedTxnState \<Rightarrow> string"
  tx_debug_hlc :: "HlcTimestamp \<Rightarrow> string"

record driver =
  dv_config :: DistTxnConfig
  dv_texts :: driver_texts
  dv_sha :: "u8 list \<Rightarrow> u8 list"

section \<open>Retrying across the members of a group\<close>

definition micros_u64 :: "nat \<Rightarrow> u64" where
  "micros_u64 n = (if n < 2 ^ 64 then of_nat n else max_u64)"

definition advance :: "HlcTimestamp \<Rightarrow> nat \<Rightarrow> HlcTimestamp" where
  "advance base d = HlcTimestamp (sat_add (physical_micros base) (micros_u64 d)) (logical base) (node_tiebreaker base)"

fun retryable :: "DistTxnError \<Rightarrow> bool" where
  "retryable (DtConsensus (NotLeader _)) = True"
| "retryable (DtConsensus GroupClosed) = True"
| "retryable (DtConsensus (ConsensusRaft _)) = True"
| "retryable (DtRead (ReadNotLeader _)) = True"
| "retryable (DtRead ReadLeaderUnknown) = True"
| "retryable (DtRead ReadClosed) = True"
| "retryable _ = False"

fun control_error :: "driver_texts \<Rightarrow> LogError \<Rightarrow> DistTxnError" where
  "control_error tx LogCancelled = DtConsensus ConsensusCancelled"
| "control_error tx LogDeadlineExceeded = DtConsensus ConsensusDeadlineExceeded"
| "control_error tx other = DtConsensus (ConsensusRaft (tx_log_error tx other))"

primrec try_members ::
    "(group_member \<Rightarrow> (DistTxnError + 'r) driver_prog) \<Rightarrow> group_member list \<Rightarrow> DistTxnError option \<Rightarrow>
     ((DistTxnError + group_member \<times> 'r) + DistTxnError option) driver_prog" where
  "try_members call [] last_error = Ret (Inr last_error)"
| "try_members call (m # ms) last_error =
     bind (call m) (\<lambda>x. case x of
        Inr answer \<Rightarrow> Ret (Inl (Inr (m, answer)))
      | Inl e \<Rightarrow> if retryable e then try_members call ms (Some e) else Ret (Inl (Inl e)))"

text \<open>Leader claimants first; the members are asked twice, once per half of the order.\<close>

definition leaders_first :: "group_member list \<Rightarrow> bool list \<Rightarrow> bool list \<Rightarrow> group_member list" where
  "leaders_first members claims claims' =
     map fst (filter snd (zip members claims)) @ map fst (filter (\<lambda>e. \<not> snd e) (zip members claims'))"

definition unavailable_text :: "driver_texts \<Rightarrow> string \<Rightarrow> nat \<Rightarrow> DistTxnError option \<Rightarrow> string" where
  "unavailable_text tx label rounds last_error =
     label @ '': no live leader after '' @ decimal rounds @ '' rounds ('' @
     (case last_error of Some e \<Rightarrow> tx_error tx e | None \<Rightarrow> ''no members answered'') @ '')''"

function retry_rounds ::
    "driver \<Rightarrow> group_member list \<Rightarrow> string \<Rightarrow> (group_member \<Rightarrow> (DistTxnError + 'r) driver_prog) \<Rightarrow> nat \<Rightarrow>
     (DistTxnError + group_member \<times> 'r) driver_prog" where
  "retry_rounds dv members label call rounds =
     bind (ask (LeaderViews members) r_views) (\<lambda>claims.
     bind (ask (LeaderViews members) r_views) (\<lambda>claims'.
     bind (try_members call (leaders_first members claims claims') None) (\<lambda>out. case out of
        Inl result \<Rightarrow> Ret result
      | Inr last_error \<Rightarrow>
          bind (ask CheckControl r_control) (\<lambda>c. case c of
             Some e \<Rightarrow> Ret (Inl (control_error (dv_texts dv) e))
           | None \<Rightarrow>
               if cfg_max_propose_rounds (dv_config dv) \<le> Suc rounds
               then Ret (Inl (DtUnavailable (unavailable_text (dv_texts dv) label (Suc rounds) last_error)))
               else retry_rounds dv members label call (Suc rounds)))))"
  by pat_completeness auto
termination
  by (relation "measure (\<lambda>(dv, _, _, _, rounds). cfg_max_propose_rounds (dv_config dv) - rounds)") auto

declare retry_rounds.simps [simp del]

definition retry_across_members ::
    "driver \<Rightarrow> group_member list \<Rightarrow> string \<Rightarrow> (group_member \<Rightarrow> (DistTxnError + 'r) driver_prog) \<Rightarrow>
     (DistTxnError + group_member \<times> 'r) driver_prog" where
  "retry_across_members dv members label call =
     (if members = [] then Ret (Inl (DtInvalidRequest (''no members supplied for '' @ label)))
      else retry_rounds dv members label call 0)"

definition propose_status ::
    "driver \<Rightarrow> group_member list \<Rightarrow> string \<Rightarrow> u8 list \<Rightarrow> CoordinatorCommand \<Rightarrow>
     (DistTxnError + group_member \<times> log_position \<times> StatusRejectionReason option) driver_prog" where
  "propose_status dv members label cid cmd =
     retry_across_members dv members label (\<lambda>m. ask (ProposeStatus m cid cmd) r_status)"

definition propose_intent ::
    "driver \<Rightarrow> group_member list \<Rightarrow> string \<Rightarrow> u8 list \<Rightarrow> IntentCommand \<Rightarrow>
     (DistTxnError + group_member \<times> log_position \<times> PrepareRejectionReason option) driver_prog" where
  "propose_intent dv members label cid cmd =
     retry_across_members dv members label (\<lambda>m. ask (ProposeIntent m cid cmd) r_intent)"

section \<open>Clock, faults and selection\<close>

definition driver_now :: "(DistTxnError + HlcTimestamp) driver_prog" where
  "driver_now = map_error DtClock (ask ReadClock r_clock)"

definition expiry_from :: "driver \<Rightarrow> HlcTimestamp \<Rightarrow> HlcTimestamp" where
  "expiry_from dv base = advance base (cfg_pending_timeout (dv_config dv))"

definition inject :: "string \<Rightarrow> (DistTxnError + unit) driver_prog" where
  "inject name = bind (ask (InjectFault name) r_fault) (\<lambda>f. Ret (case f of Some fault \<Rightarrow> Inl (DtFault fault) | None \<Rightarrow> Inr ()))"

definition post_decision_after_hook :: "TransactionId \<Rightarrow> (DistTxnError + unit) driver_prog" where
  "post_decision_after_hook t =
     bind (ask (InjectFault ''txn.decision.after'') r_fault) (\<lambda>f.
       Ret (case f of Some fault \<Rightarrow> Inl (DtOutcomeAmbiguous t (''txn.decision.after: '' @ fault)) | None \<Rightarrow> Inr ()))"

fun collect_participants :: "participant_writes list \<Rightarrow> txn_participant list \<Rightarrow> DistTxnError + txn_participant list" where
  "collect_participants [] ps = Inr ps"
| "collect_participants (w # ws) ps =
     (if pw_participant w \<in> set ps
      then Inl (DtInvalidRequest (''tablet '' @ to_hex (tp_tablet_id (pw_participant w)) @ '' appears twice in the write set''))
      else collect_participants ws (ps @ [pw_participant w]))"

definition coordinator_for :: "driver \<Rightarrow> commit_request \<Rightarrow> DistTxnError + RaftGroupId \<times> txn_participant list" where
  "coordinator_for dv req =
     (if cr_writes req = []
      then Inl (DtInvalidRequest ''a distributed commit needs at least one participant write'')
      else (case collect_participants (cr_writes req) [] of
              Inl e \<Rightarrow> Inl e
            | Inr ps \<Rightarrow>
                (case select_coordinator_group (cfg_selection (dv_config dv)) (cr_txn_id req) (cr_first_write_group req)
                        (cfg_status_partitions (dv_config dv)) of
                   Inl e \<Rightarrow> Inl e
                 | Inr g \<Rightarrow> Inr (g, ps))))"

definition validate_status_set :: "group_member list \<Rightarrow> RaftGroupId \<Rightarrow> DistTxnError + unit" where
  "validate_status_set members g =
     (if members = [] then Inl (DtInvalidRequest ''no transaction-status members supplied'')
      else if list_ex (\<lambda>m. gm_group m \<noteq> g) members
      then Inl (DtInvalidRequest (''the supplied transaction-status members are not the selected coordinator group '' @ to_hex g))
      else Inr ())"

definition hlc_max_of :: "HlcTimestamp \<Rightarrow> HlcTimestamp list \<Rightarrow> HlcTimestamp" where
  "hlc_max_of base ts = foldl max base ts"

section \<open>Begin, heartbeat, prepare, mark\<close>

definition read_record :: "driver \<Rightarrow> group_member list \<Rightarrow> TransactionId \<Rightarrow> (DistTxnError + txn_record option) driver_prog" where
  "read_record dv status t =
     attempt_then (retry_across_members dv status ''txn-status read'' (\<lambda>m. ask (ConsistentRecord m t) r_read))
       (\<lambda>(_, r). Ret (Inr r))"

definition begin_record :: "driver \<Rightarrow> commit_request \<Rightarrow> RaftGroupId \<Rightarrow> txn_participant list \<Rightarrow> HlcTimestamp \<Rightarrow> txn_record" where
  "begin_record dv req g ps now =
     \<lparr>tr_txn_id = cr_txn_id req, tr_state = Pending, tr_participants = ps, tr_prepare_ts = [], tr_coordinator = g,
      tr_created_at = now, tr_heartbeat = now, tr_expiry = expiry_from dv now,
      tr_max_observed = hlc_max_or_zero (cr_observed req), tr_idempotency_key = cr_idempotency_key req\<rparr>"

definition begin_txn :: "driver \<Rightarrow> group_member list \<Rightarrow> commit_request \<Rightarrow> (DistTxnError + txn_record) driver_prog" where
  "begin_txn dv status req =
     (let t = cr_txn_id req
      in attempt_then (Ret (coordinator_for dv req)) (\<lambda>(g, ps).
         attempt_then (Ret (validate_status_set status g)) (\<lambda>_.
         attempt_then driver_now (\<lambda>now.
         attempt_then (propose_status dv status ''txn-status begin'' (command_id_for (dv_sha dv) TAG_BEGIN t [])
                         (Begin (begin_record dv req g ps now))) (\<lambda>(m, _, rejection).
           case rejection of
             Some (IdempotencyKeyConflict _) \<Rightarrow> Ret (Inl (DtIdempotencyConflict t))
           | Some reason \<Rightarrow>
               Ret (Inl (DtInvalidRequest (''begin refused by the coordinator: '' @ tx_status_reason (dv_texts dv) reason)))
           | None \<Rightarrow>
               bind (ask (LocalRecord m t) r_record) (\<lambda>r. case r of
                  None \<Rightarrow> Ret (Inl (DtInvalidRequest ''begin committed but no record is visible''))
                | Some applied \<Rightarrow>
                    if tr_idempotency_key applied \<noteq> cr_idempotency_key req then Ret (Inl (DtIdempotencyConflict t))
                    else Ret (Inr applied)))))))"

definition heartbeat_extra :: "HlcTimestamp \<Rightarrow> u8 list" where
  "heartbeat_extra ts = le_bytes 8 (physical_micros ts) @ le_bytes 4 (logical ts) @ le_bytes 4 (node_tiebreaker ts)"

definition heartbeat ::
    "driver \<Rightarrow> group_member list \<Rightarrow> RaftGroupId \<Rightarrow> TransactionId \<Rightarrow> (DistTxnError + txn_record) driver_prog" where
  "heartbeat dv status g t =
     attempt_then (Ret (validate_status_set status g)) (\<lambda>_.
     attempt_then driver_now (\<lambda>beat.
     attempt_then (propose_status dv status ''txn-status heartbeat''
                     (command_id_for (dv_sha dv) TAG_HEARTBEAT t (heartbeat_extra beat))
                     (Heartbeat t beat (expiry_from dv beat))) (\<lambda>(m, _, rejection).
       case rejection of
         Some (UnknownTxn _) \<Rightarrow> Ret (Inl (DtInvalidRequest (''heartbeat for unknown transaction '' @ to_hex t)))
       | Some reason \<Rightarrow>
           Ret (Inl (DtInvalidRequest (''heartbeat refused by the coordinator: '' @ tx_status_reason (dv_texts dv) reason)))
       | None \<Rightarrow>
           bind (ask (LocalRecord m t) r_record) (\<lambda>r. case r of
              None \<Rightarrow> Ret (Inl (DtInvalidRequest ''heartbeat committed but no record is visible''))
            | Some applied \<Rightarrow> Ret (Inr applied)))))"

definition stamp_intents :: "TransactionId \<Rightarrow> HlcTimestamp \<Rightarrow> write_intent list \<Rightarrow> write_intent list" where
  "stamp_intents t ts is = map (\<lambda>i. i\<lparr>wi_txn_id := t, wi_prepare_ts := ts\<rparr>) is"

definition prepare_participant ::
    "driver \<Rightarrow> group_member list \<Rightarrow> TransactionId \<Rightarrow> participant_writes \<Rightarrow> (DistTxnError + prepare_token) driver_prog" where
  "prepare_participant dv members t w =
     (let p = pw_participant w;
          cid = command_id_for (dv_sha dv) TAG_PREPARE t (as_bytes (tp_tablet_id p))
      in if members = [] \<or> list_ex (\<lambda>m. gm_group m \<noteq> tp_raft_group_id p) members
         then Ret (Inl (DtInvalidRequest (''the supplied intent members are not the participant group '' @
                to_hex (tp_raft_group_id p))))
         else
           attempt_then (inject ''txn.prepare.before'') (\<lambda>_.
           attempt_then driver_now (\<lambda>ts.
           attempt_then (propose_intent dv members ''participant prepare'' cid
                           (PersistIntents t (pw_schema_version w) (pw_authz_version w) ts (stamp_intents t ts (pw_intents w))))
             (\<lambda>(m, position, rejection).
             case rejection of
               Some reason \<Rightarrow> Ret (Inl (DtPrepareRejected reason))
             | None \<Rightarrow>
                 bind (ask (LocalTxn m t) r_txn) (\<lambda>stored. case stored of
                    None \<Rightarrow> Ret (Inl (DtInvalidRequest ''prepare committed but no intent record is visible''))
                  | Some px \<Rightarrow>
                      attempt_then (inject ''txn.prepare.after'') (\<lambda>_.
                      Ret (Inr \<lparr>pt_txn_id = t, pt_tablet_id = tp_tablet_id p, pt_raft_group_id = tp_raft_group_id p,
                                pt_prepare_ts = px_prepare_ts px, pt_position = position, pt_command_id = cid\<rparr>)))))))"

definition mark_prepared ::
    "driver \<Rightarrow> group_member list \<Rightarrow> TransactionId \<Rightarrow> prepare_token \<Rightarrow> HlcTimestamp \<Rightarrow> (DistTxnError + unit) driver_prog" where
  "mark_prepared dv status t token seen =
     attempt_then (propose_status dv status ''txn-status mark-preparing''
                     (command_id_for (dv_sha dv) TAG_MARK t (as_bytes (pt_tablet_id token)))
                     (MarkPreparing t (pt_tablet_id token) (pt_prepare_ts token) seen)) (\<lambda>(_, _, rejection).
       case rejection of
         None \<Rightarrow> Ret (Inr ())
       | Some (DecisionFinal (Aborted reason)) \<Rightarrow> Ret (Inl (DtAborted reason))
       | Some (DecisionFinal state) \<Rightarrow>
           Ret (Inl (DtInvalidRequest (''mark-preparing raced a final decision: '' @ tx_debug_state (dv_texts dv) state)))
       | Some reason \<Rightarrow>
           Ret (Inl (DtInvalidRequest (''mark-preparing refused by the coordinator: '' @ tx_status_reason (dv_texts dv) reason))))"

section \<open>Resolution and decisions\<close>

type_synonym participant_members = "(RaftGroupId \<times> group_member list) list"

primrec broadcast_resolve ::
    "driver \<Rightarrow> participant_members \<Rightarrow> TransactionId \<Rightarrow> txn_participant list \<Rightarrow> TxnDecision \<Rightarrow> resolve_broadcast \<Rightarrow>
     resolve_broadcast driver_prog" where
  "broadcast_resolve dv members_of t [] d report = Ret report"
| "broadcast_resolve dv members_of t (p # ps) d report =
     (case map_of members_of (tp_raft_group_id p) of
        None \<Rightarrow> broadcast_resolve dv members_of t ps d (report\<lparr>rb_deferred := rb_deferred report @ [tp_raft_group_id p]\<rparr>)
      | Some members \<Rightarrow>
          bind (propose_intent dv members ''participant resolve''
                  (command_id_for (dv_sha dv) TAG_RESOLVE t (as_bytes (tp_tablet_id p))) (Resolve t d)) (\<lambda>x.
            broadcast_resolve dv members_of t ps d
              (case x of
                 Inr _ \<Rightarrow> report\<lparr>rb_resolved := rb_resolved report @ [tp_raft_group_id p]\<rparr>
               | Inl _ \<Rightarrow> report\<lparr>rb_deferred := rb_deferred report @ [tp_raft_group_id p]\<rparr>)))"

definition broadcast_default :: resolve_broadcast where
  "broadcast_default = \<lparr>rb_resolved = [], rb_deferred = []\<rparr>"

definition read_back ::
    "driver \<Rightarrow> group_member list \<Rightarrow> TransactionId \<Rightarrow> string \<Rightarrow> string \<Rightarrow> (DistTxnError + txn_record) driver_prog" where
  "read_back dv status t failed missing =
     attempt_then (map_error (\<lambda>e. DtOutcomeAmbiguous t (failed @ tx_error (dv_texts dv) e)) (read_record dv status t)) (\<lambda>r.
       Ret (case r of None \<Rightarrow> Inl (DtOutcomeAmbiguous t missing) | Some r \<Rightarrow> Inr r))"

definition committed_outcome :: "TransactionId \<Rightarrow> HlcTimestamp \<Rightarrow> txn_participant list \<Rightarrow> txn_outcome" where
  "committed_outcome t ts ps = \<lparr>to_txn_id = t, to_commit_ts = ts, to_participants = ps, to_durability = Quorum\<rparr>"

definition finalize_decision ::
    "driver \<Rightarrow> group_member list \<Rightarrow> participant_members \<Rightarrow> TransactionId \<Rightarrow> (DistTxnError + txn_outcome) driver_prog" where
  "finalize_decision dv status members_of t =
     attempt_then (read_back dv status t ''decision read-back failed: '' ''no coordinator record after the decision proposal'') (\<lambda>r.
       case tr_state r of
         Committed ts \<Rightarrow>
           bind (broadcast_resolve dv members_of t (tr_participants r) (DecideCommit ts) broadcast_default) (\<lambda>_.
           attempt_then (post_decision_after_hook t) (\<lambda>_. Ret (Inr (committed_outcome t ts (tr_participants r)))))
       | Aborted reason \<Rightarrow>
           bind (broadcast_resolve dv members_of t (tr_participants r) (DecideAbort reason) broadcast_default) (\<lambda>_.
           bind (post_decision_after_hook t) (\<lambda>_. Ret (Inl (DtAborted reason))))
       | state \<Rightarrow>
           Ret (Inl (DtOutcomeAmbiguous t (''decision is not durable; record state is '' @ tx_debug_state (dv_texts dv) state))))"

definition decide_commit ::
    "driver \<Rightarrow> group_member list \<Rightarrow> participant_members \<Rightarrow> TransactionId \<Rightarrow> prepare_token list \<Rightarrow> HlcTimestamp list \<Rightarrow>
     (DistTxnError + txn_outcome) driver_prog" where
  "decide_commit dv status members_of t prepared seen =
     bind (ask (ClockNextAfter (hlc_max_of (hlc_max_of HLC_ZERO (map pt_prepare_ts prepared)) seen)) r_stamp) (\<lambda>ts.
     attempt_then (inject ''txn.decision.before'') (\<lambda>_.
     attempt_then (map_error (\<lambda>e. DtOutcomeAmbiguous t (''decision proposal failed: '' @ tx_error (dv_texts dv) e))
                     (propose_status dv status ''txn-status commit'' (command_id_for (dv_sha dv) TAG_COMMIT t []) (Commit t ts)))
       (\<lambda>_. finalize_decision dv status members_of t)))"

definition finalize_abort ::
    "driver \<Rightarrow> group_member list \<Rightarrow> participant_members \<Rightarrow> TransactionId \<Rightarrow> DistAbortReason \<Rightarrow>
     (DistTxnError + DistributedTxnState) driver_prog" where
  "finalize_abort dv status members_of t reason =
     attempt_then (inject ''txn.decision.before'') (\<lambda>_.
     attempt_then (map_error (\<lambda>e. DtOutcomeAmbiguous t (''abort proposal failed: '' @ tx_error (dv_texts dv) e))
                     (propose_status dv status ''txn-status abort'' (command_id_for (dv_sha dv) TAG_ABORT t []) (Abort t reason)))
       (\<lambda>_.
     attempt_then (read_back dv status t ''abort read-back failed: '' ''no coordinator record after the abort proposal'') (\<lambda>r.
       case tr_state r of
         Committed ts \<Rightarrow>
           bind (broadcast_resolve dv members_of t (tr_participants r) (DecideCommit ts) broadcast_default) (\<lambda>_.
           attempt_then (post_decision_after_hook t) (\<lambda>_. Ret (Inr (Committed ts))))
       | Aborted reason \<Rightarrow>
           bind (broadcast_resolve dv members_of t (tr_participants r) (DecideAbort reason) broadcast_default) (\<lambda>_.
           bind (post_decision_after_hook t) (\<lambda>_. Ret (Inr (Aborted reason))))
       | state \<Rightarrow>
           Ret (Inl (DtOutcomeAmbiguous t (''abort is not durable; record state is '' @ tx_debug_state (dv_texts dv) state))))))"

section \<open>The commit flow\<close>

definition abort_reason_of :: "driver_texts \<Rightarrow> DistTxnError \<Rightarrow> DistAbortReason" where
  "abort_reason_of tx e =
     (case e of
        DtPrepareRejected (KeyConflict _ holder) \<Rightarrow>
          DistConflict (''write intent conflict with transaction '' @ to_hex holder)
      | DtPrepareRejected reason \<Rightarrow> DistValidation (tx_prepare_reason tx reason)
      | DtConsensus ConsensusCancelled \<Rightarrow> DistCancelled ''cancelled during prepare''
      | DtConsensus ConsensusDeadlineExceeded \<Rightarrow> DistCancelled ''deadline exceeded during prepare''
      | other \<Rightarrow> DistError (tx_error tx other))"

text \<open>The prepare futures, in request order; a group without members fails before any of them runs.\<close>

fun prepare_futures ::
    "driver \<Rightarrow> participant_members \<Rightarrow> TransactionId \<Rightarrow> participant_writes list \<Rightarrow>
     DistTxnError + ((DistTxnError + prepare_token) driver_prog) list" where
  "prepare_futures dv members_of t [] = Inr []"
| "prepare_futures dv members_of t (w # ws) =
     (case map_of members_of (tp_raft_group_id (pw_participant w)) of
        None \<Rightarrow> Inl (DtInvalidRequest (''no intent members supplied for participant group '' @
                  to_hex (tp_raft_group_id (pw_participant w))))
      | Some members \<Rightarrow>
          (case prepare_futures dv members_of t ws of
             Inl e \<Rightarrow> Inl e
           | Inr fs \<Rightarrow> Inr (prepare_participant dv members t w # fs)))"

text \<open>The first failure in request order decides.\<close>

fun first_failure :: "(DistTxnError + prepare_token) list \<Rightarrow> DistTxnError + prepare_token list" where
  "first_failure [] = Inr []"
| "first_failure (Inl e # _) = Inl e"
| "first_failure (Inr token # rest) = (case first_failure rest of Inl e \<Rightarrow> Inl e | Inr tokens \<Rightarrow> Inr (token # tokens))"

text \<open>The answer after an abort that a prepare or mark failure started; a raced commit is a commit.\<close>

definition answer_after_abort ::
    "driver \<Rightarrow> group_member list \<Rightarrow> participant_members \<Rightarrow> txn_record \<Rightarrow> TransactionId \<Rightarrow> DistAbortReason \<Rightarrow> string \<Rightarrow>
     (DistTxnError + txn_outcome) driver_prog" where
  "answer_after_abort dv status members_of r t reason detail =
     attempt_then (finalize_abort dv status members_of t reason) (\<lambda>state.
       Ret (case state of
              Aborted reason \<Rightarrow> Inl (DtAborted reason)
            | Committed ts \<Rightarrow> Inr (committed_outcome t ts (tr_participants r))
            | state \<Rightarrow> Inl (DtOutcomeAmbiguous t (detail @ tx_debug_state (dv_texts dv) state))))"

primrec mark_all ::
    "driver \<Rightarrow> group_member list \<Rightarrow> TransactionId \<Rightarrow> HlcTimestamp \<Rightarrow> prepare_token list \<Rightarrow> DistTxnError option driver_prog" where
  "mark_all dv status t seen [] = Ret None"
| "mark_all dv status t seen (token # tokens) =
     bind (mark_prepared dv status t token seen) (\<lambda>x. case x of
        Inl e \<Rightarrow> Ret (Some e)
      | Inr _ \<Rightarrow> mark_all dv status t seen tokens)"

definition mark_failure_reason :: "driver_texts \<Rightarrow> DistTxnError \<Rightarrow> DistAbortReason" where
  "mark_failure_reason tx e = (case e of DtAborted reason \<Rightarrow> reason | other \<Rightarrow> DistError (tx_error tx other))"

definition commit_prepared ::
    "driver \<Rightarrow> group_member list \<Rightarrow> participant_members \<Rightarrow> commit_request \<Rightarrow> txn_record \<Rightarrow> prepare_token list \<Rightarrow>
     (DistTxnError + txn_outcome) driver_prog" where
  "commit_prepared dv status members_of req r prepared =
     (let t = cr_txn_id req
      in if 1 < length (cr_writes req) then
           (let seen = cr_observed req @ map pt_prepare_ts prepared
            in bind (mark_all dv status t (hlc_max_or_zero seen) prepared) (\<lambda>failure. case failure of
                 Some e \<Rightarrow>
                   answer_after_abort dv status members_of r t (mark_failure_reason (dv_texts dv) e)
                     ''abort after a failed mark is not durable; state is ''
               | None \<Rightarrow> decide_commit dv status members_of t prepared seen))
         else decide_commit dv status members_of t prepared (cr_observed req))"

definition commit ::
    "driver \<Rightarrow> group_member list \<Rightarrow> participant_members \<Rightarrow> commit_request \<Rightarrow> (DistTxnError + txn_outcome) driver_prog" where
  "commit dv status members_of req =
     (let t = cr_txn_id req
      in attempt_then (begin_txn dv status req) (\<lambda>r.
         case tr_state r of
           Committed ts \<Rightarrow>
             bind (broadcast_resolve dv members_of t (tr_participants r) (DecideCommit ts) broadcast_default) (\<lambda>_.
             Ret (Inr (committed_outcome t ts (tr_participants r))))
         | Aborted reason \<Rightarrow>
             bind (broadcast_resolve dv members_of t (tr_participants r) (DecideAbort reason) broadcast_default) (\<lambda>_.
             Ret (Inl (DtAborted reason)))
         | _ \<Rightarrow>
             (case prepare_futures dv members_of t (cr_writes req) of
                Inl e \<Rightarrow> Ret (Inl e)
              | Inr fs \<Rightarrow>
                  bind (run_all PollFirst r_poll fs) (\<lambda>results.
                    case first_failure results of
                      Inl e \<Rightarrow>
                        answer_after_abort dv status members_of r t (abort_reason_of (dv_texts dv) e)
                          ''abort after a failed prepare is not durable; state is ''
                    | Inr prepared \<Rightarrow> commit_prepared dv status members_of req r prepared))))"

definition abort_txn ::
    "driver \<Rightarrow> group_member list \<Rightarrow> participant_members \<Rightarrow> TransactionId \<Rightarrow> DistAbortReason \<Rightarrow>
     (DistTxnError + DistributedTxnState) driver_prog" where
  "abort_txn dv status members_of t reason = finalize_abort dv status members_of t reason"

section \<open>Recovery\<close>

primrec first_visible :: "TransactionId \<Rightarrow> group_member list \<Rightarrow> participant_txn option driver_prog" where
  "first_visible t [] = Ret None"
| "first_visible t (m # ms) =
     bind (ask (LocalTxn m t) r_txn) (\<lambda>x. case x of Some px \<Rightarrow> Ret (Some px) | None \<Rightarrow> first_visible t ms)"

definition probe_participant :: "participant_members \<Rightarrow> txn_participant \<Rightarrow> TransactionId \<Rightarrow> participant_txn option driver_prog" where
  "probe_participant members_of p t =
     (case map_of members_of (tp_raft_group_id p) of None \<Rightarrow> Ret None | Some members \<Rightarrow> first_visible t members)"

primrec probe_all ::
    "participant_members \<Rightarrow> TransactionId \<Rightarrow> txn_participant list \<Rightarrow> HlcTimestamp list \<Rightarrow> nat \<Rightarrow> (HlcTimestamp list \<times> nat) driver_prog" where
  "probe_all members_of t [] prepare_ts missing = Ret (prepare_ts, missing)"
| "probe_all members_of t (p # ps) prepare_ts missing =
     bind (probe_participant members_of p t) (\<lambda>x. case x of
        Some px \<Rightarrow>
          if px_resolution px = None then probe_all members_of t ps (prepare_ts @ [px_prepare_ts px]) missing
          else probe_all members_of t ps prepare_ts (Suc missing)
      | None \<Rightarrow> probe_all members_of t ps prepare_ts (Suc missing))"

definition expiry_text :: "driver \<Rightarrow> txn_record \<Rightarrow> string \<Rightarrow> string" where
  "expiry_text dv r who =
     ''transaction heartbeat expired at '' @ tx_debug_hlc (dv_texts dv) (tr_expiry r) @ '' (pushed by '' @ who @ '')''"

definition drive_decision ::
    "driver \<Rightarrow> group_member list \<Rightarrow> participant_members \<Rightarrow> TransactionId \<Rightarrow> txn_record \<Rightarrow> HlcTimestamp list \<Rightarrow>
     (DistTxnError + RecoveryOutcome) driver_prog" where
  "drive_decision dv status members_of t r prepare_ts =
     bind (ask (ClockNextAfter (hlc_max_of (hlc_max_of (tr_max_observed r) prepare_ts) (map snd (tr_prepare_ts r)))) r_stamp) (\<lambda>ts.
     attempt_then (propose_status dv status ''txn-status commit'' (command_id_for (dv_sha dv) TAG_COMMIT t []) (Commit t ts)) (\<lambda>_.
     bind (finalize_decision dv status members_of t) (\<lambda>out. case out of
        Inr outcome \<Rightarrow> Ret (Inr (RecoveryDecided (Committed (to_commit_ts outcome))))
      | Inl (DtAborted reason) \<Rightarrow> Ret (Inr (RecoveryDecided (Aborted reason)))
      | Inl e \<Rightarrow> Ret (Inl e))))"

definition recover ::
    "driver \<Rightarrow> group_member list \<Rightarrow> participant_members \<Rightarrow> TransactionId \<Rightarrow> HlcTimestamp \<Rightarrow>
     (DistTxnError + RecoveryOutcome) driver_prog" where
  "recover dv status members_of t now =
     attempt_then (read_record dv status t) (\<lambda>found. case found of
        None \<Rightarrow> Ret (Inr RecoveryNotFound)
      | Some r \<Rightarrow>
          (case tr_state r of
             Committed ts \<Rightarrow>
               bind (broadcast_resolve dv members_of t (tr_participants r) (DecideCommit ts) broadcast_default) (\<lambda>_.
               Ret (Inr (RecoveryDecided (Committed ts))))
           | Aborted reason \<Rightarrow>
               bind (broadcast_resolve dv members_of t (tr_participants r) (DecideAbort reason) broadcast_default) (\<lambda>_.
               Ret (Inr (RecoveryDecided (Aborted reason))))
           | _ \<Rightarrow>
               bind (probe_all members_of t (tr_participants r) [] 0) (\<lambda>(prepare_ts, missing).
                 if missing = 0 then drive_decision dv status members_of t r prepare_ts
                 else if expired r now then
                   attempt_then (finalize_abort dv status members_of t (DistCancelled (expiry_text dv r ''recovery''))) (\<lambda>state.
                   Ret (Inr (RecoveryDecided state)))
                 else Ret (Inr (RecoveryInFlight missing)))))"

definition push_expired ::
    "driver \<Rightarrow> group_member list \<Rightarrow> participant_members \<Rightarrow> TransactionId \<Rightarrow> HlcTimestamp \<Rightarrow>
     (DistTxnError + PushOutcome) driver_prog" where
  "push_expired dv status members_of t now =
     attempt_then (read_record dv status t) (\<lambda>found. case found of
        None \<Rightarrow> Ret (Inr PushNotFound)
      | Some r \<Rightarrow>
          (case tr_state r of
             Committed ts \<Rightarrow>
               bind (broadcast_resolve dv members_of t (tr_participants r) (DecideCommit ts) broadcast_default) (\<lambda>_.
               Ret (Inr (PushTerminal (Committed ts))))
           | Aborted reason \<Rightarrow>
               bind (broadcast_resolve dv members_of t (tr_participants r) (DecideAbort reason) broadcast_default) (\<lambda>_.
               Ret (Inr (PushTerminal (Aborted reason))))
           | _ \<Rightarrow>
               if \<not> expired r now then Ret (Inr NotExpired)
               else attempt_then (finalize_abort dv status members_of t (DistCancelled (expiry_text dv r ''a third party''))) (\<lambda>state.
                    Ret (Inr (Pushed state)))))"

section \<open>Orphans and sweeps\<close>

definition local_tablet :: "txn_record \<Rightarrow> group_member list \<Rightarrow> TabletId" where
  "local_tablet r members =
     (case find (\<lambda>p. (case members of [] \<Rightarrow> False | m # _ \<Rightarrow> gm_group m = tp_raft_group_id p)) (tr_participants r) of
        None \<Rightarrow> 0
      | Some p \<Rightarrow> tp_tablet_id p)"

definition resolve_local ::
    "driver \<Rightarrow> group_member list \<Rightarrow> txn_record \<Rightarrow> TransactionId \<Rightarrow> TxnDecision \<Rightarrow>
     (DistTxnError + group_member \<times> log_position \<times> PrepareRejectionReason option) driver_prog" where
  "resolve_local dv members r t d =
     propose_intent dv members ''participant resolve''
       (command_id_for (dv_sha dv) TAG_RESOLVE t (as_bytes (local_tablet r members))) (Resolve t d)"

fun decision_of :: "DistributedTxnState \<Rightarrow> TxnDecision option" where
  "decision_of (Committed ts) = Some (DecideCommit ts)"
| "decision_of (Aborted reason) = Some (DecideAbort reason)"
| "decision_of _ = None"

definition finalize_abort_for_one ::
    "driver \<Rightarrow> group_member list \<Rightarrow> group_member list \<Rightarrow> txn_record \<Rightarrow> DistAbortReason \<Rightarrow>
     (DistTxnError + DistributedTxnState) driver_prog" where
  "finalize_abort_for_one dv status members r reason =
     (let t = tr_txn_id r
      in attempt_then (map_error (\<lambda>e. DtOutcomeAmbiguous t (''orphan push failed: '' @ tx_error (dv_texts dv) e))
                         (propose_status dv status ''txn-status abort'' (command_id_for (dv_sha dv) TAG_ABORT t []) (Abort t reason)))
           (\<lambda>_.
         attempt_then (read_record dv status t) (\<lambda>found. case found of
            None \<Rightarrow> Ret (Inl (DtOutcomeAmbiguous t ''no coordinator record after the orphan push''))
          | Some r' \<Rightarrow>
              (case decision_of (tr_state r') of
                 None \<Rightarrow>
                   Ret (Inl (DtOutcomeAmbiguous t (''orphan push is not durable; state is '' @ tx_debug_state (dv_texts dv) (tr_state r'))))
               | Some d \<Rightarrow> attempt_then (resolve_local dv members r t d) (\<lambda>_. Ret (Inr (tr_state r')))))))"

definition orphan_outcome :: "TxnDecision \<Rightarrow> bool \<Rightarrow> OrphanOutcome" where
  "orphan_outcome d was_pushed =
     (case d of
        DecideCommit ts \<Rightarrow> ResolvedCommit ts
      | DecideAbort reason \<Rightarrow> if was_pushed then PushedAbort reason else ResolvedAbort reason)"

definition resolve_orphan ::
    "driver \<Rightarrow> group_member list \<Rightarrow> group_member list \<Rightarrow> TransactionId \<Rightarrow> HlcTimestamp \<Rightarrow>
     (DistTxnError + OrphanOutcome) driver_prog" where
  "resolve_orphan dv status members t now =
     attempt_then (read_record dv status t) (\<lambda>found. case found of
        None \<Rightarrow> Ret (Inr UnknownRecord)
      | Some r \<Rightarrow>
          (case decision_of (tr_state r) of
             Some d \<Rightarrow> attempt_then (resolve_local dv members r t d) (\<lambda>_. Ret (Inr (orphan_outcome d False)))
           | None \<Rightarrow>
               if \<not> expired r now then Ret (Inr OrphanInFlight)
               else attempt_then (finalize_abort_for_one dv status members r
                                    (DistCancelled (expiry_text dv r ''orphan recovery''))) (\<lambda>state.
                    case decision_of state of
                      None \<Rightarrow>
                        Ret (Inl (DtOutcomeAmbiguous t (''orphan push is not durable; state is '' @ tx_debug_state (dv_texts dv) state)))
                    | Some d \<Rightarrow> Ret (Inr (orphan_outcome d True)))))"

fun tally :: "OrphanOutcome \<Rightarrow> sweep_report \<Rightarrow> sweep_report" where
  "tally (ResolvedCommit _) s = s\<lparr>sw_resolved_committed := Suc (sw_resolved_committed s)\<rparr>"
| "tally (ResolvedAbort _) s = s\<lparr>sw_resolved_aborted := Suc (sw_resolved_aborted s)\<rparr>"
| "tally (PushedAbort _) s = s\<lparr>sw_pushed := Suc (sw_pushed s), sw_resolved_aborted := Suc (sw_resolved_aborted s)\<rparr>"
| "tally OrphanInFlight s = s\<lparr>sw_in_flight := Suc (sw_in_flight s)\<rparr>"
| "tally UnknownRecord s = s\<lparr>sw_unknown := Suc (sw_unknown s)\<rparr>"

primrec resolve_orphans ::
    "driver \<Rightarrow> group_member list \<Rightarrow> group_member list \<Rightarrow> HlcTimestamp \<Rightarrow> TransactionId list \<Rightarrow> sweep_report \<Rightarrow>
     (DistTxnError + sweep_report) driver_prog" where
  "resolve_orphans dv status members now [] report = Ret (Inr report)"
| "resolve_orphans dv status members now (t # ts) report =
     attempt_then (resolve_orphan dv status members t now) (\<lambda>out.
       resolve_orphans dv status members now ts (tally out report))"

text \<open>\<open>max_by_key\<close> keeps the last of the members with the greatest applied index.\<close>

primrec freshest :: "group_member list \<Rightarrow> group_member \<Rightarrow> u64 \<Rightarrow> group_member driver_prog" where
  "freshest [] best index = Ret best"
| "freshest (m # ms) best index =
     bind (ask (AppliedIndex m) r_index) (\<lambda>i. if index \<le> i then freshest ms m i else freshest ms best index)"

definition sweep_orphans ::
    "driver \<Rightarrow> group_member list \<Rightarrow> group_member list \<Rightarrow> HlcTimestamp \<Rightarrow> (DistTxnError + sweep_report) driver_prog" where
  "sweep_orphans dv status members now =
     (case members of
        [] \<Rightarrow> Ret (Inl (DtInvalidRequest ''no intent members supplied for the sweep''))
      | m # ms \<Rightarrow>
          bind (ask (AppliedIndex m) r_index) (\<lambda>i.
          bind (freshest ms m i) (\<lambda>best.
          bind (ask (UnresolvedTxns best) r_ids) (\<lambda>orphans.
          resolve_orphans dv status members now orphans
            \<lparr>sw_resolved_committed = 0, sw_resolved_aborted = 0, sw_pushed = 0, sw_in_flight = 0, sw_unknown = 0\<rparr>))))"

definition eligible :: "HlcTimestamp \<Rightarrow> intent_state \<Rightarrow> nat" where
  "eligible older_than st = length (filter (sweepable older_than) (map snd (is_txns st)))"

primrec most_eligible :: "HlcTimestamp \<Rightarrow> group_member list \<Rightarrow> nat \<Rightarrow> nat driver_prog" where
  "most_eligible older_than [] n = Ret n"
| "most_eligible older_than (m # ms) n =
     bind (ask (LocalState m) r_state) (\<lambda>st. most_eligible older_than ms (max n (eligible older_than st)))"

definition sweep_cutoff :: "driver \<Rightarrow> HlcTimestamp \<Rightarrow> HlcTimestamp" where
  "sweep_cutoff dv now =
     HlcTimestamp (sat_sub (physical_micros now) (micros_u64 (cfg_resolved_retention (dv_config dv)))) 0 0"

definition sweep_command_id :: "driver \<Rightarrow> HlcTimestamp \<Rightarrow> u8 list" where
  "sweep_command_id dv older_than =
     command_id_for (dv_sha dv) TAG_SWEEP 0
       (le_bytes 8 (physical_micros older_than) @ le_bytes 4 (cfg_sweep_limit (dv_config dv)))"

definition sweep_resolved ::
    "driver \<Rightarrow> group_member list \<Rightarrow> HlcTimestamp \<Rightarrow> (DistTxnError + sweep_resolved_report) driver_prog" where
  "sweep_resolved dv members now =
     (if members = [] then Ret (Inl (DtInvalidRequest ''no intent members supplied for the resolved sweep''))
      else
        (let older_than = sweep_cutoff dv now
         in bind (most_eligible older_than members 0) (\<lambda>before.
            attempt_then (propose_intent dv members ''participant resolved sweep'' (sweep_command_id dv older_than)
                            (SweepResolved older_than (cfg_sweep_limit (dv_config dv)))) (\<lambda>(m, _, _).
            bind (ask (LocalState m) r_state) (\<lambda>st.
            let after = eligible older_than st
            in Ret (Inr \<lparr>srr_swept = before - after, srr_remaining = after\<rparr>))))))"

end
