(* ===== verification/Dist_World.thy ===== *)
theory Dist_World
  imports Dist_Driver
begin

text \<open>
  Transaction-status groups, participant groups and any number of concurrent driver calls. A group is the
  list of the states its replicated state machine went through, newest first; every local read may see
  any of them, a consistent read sees the newest. A proposal joins the issued commands, from which the
  log may take it at any later time, more than once, and even after the caller saw an error; it is
  answered with success only once it was applied. Raft, the clocks, leadership, fault injection and
  cancellation are the environment's choices.
\<close>

section \<open>Deployment and world\<close>

record 'e deployment =
  dp_driver :: driver
  dp_retention :: nat
  dp_status_json :: "CoordinatorCommand versioned \<Rightarrow> u8 list"
  dp_status_parse :: "u8 list \<Rightarrow> string + CoordinatorCommand versioned"
  dp_intent_json :: "IntentCommand versioned \<Rightarrow> u8 list"
  dp_intent_parse :: "u8 list \<Rightarrow> string + IntentCommand versioned"
  dp_env :: "'e participant_env"
  dp_request :: "TransactionId \<Rightarrow> commit_request"

type_synonym 'm status_machine = "'m sm_inner \<times> status_sink"
type_synonym ('m, 'e) intent_machine = "'m sm_inner \<times> 'e intent_sink"

datatype driver_call =
    DriveBegin "group_member list" TransactionId
  | DrivePrepare "group_member list" TransactionId participant_writes
  | DriveHeartbeat "group_member list" RaftGroupId TransactionId
  | DriveCommit "group_member list" participant_members TransactionId
  | DriveAbort "group_member list" participant_members TransactionId DistAbortReason
  | DriveRecover "group_member list" participant_members TransactionId HlcTimestamp
  | DrivePush "group_member list" participant_members TransactionId HlcTimestamp
  | DriveOrphan "group_member list" "group_member list" TransactionId HlcTimestamp
  | DriveSweepOrphans "group_member list" "group_member list" HlcTimestamp
  | DriveSweepResolved "group_member list" HlcTimestamp
  | DriveDecide "group_member list" participant_members TransactionId "prepare_token list" "HlcTimestamp list"
  | DriveResolve participant_members TransactionId "txn_participant list" TxnDecision

datatype driver_result =
    BeginResult TransactionId "DistTxnError + txn_record"
  | PrepareResult TransactionId participant_writes "DistTxnError + prepare_token"
  | HeartbeatResult "DistTxnError + txn_record"
  | CommitResult TransactionId "DistTxnError + txn_outcome"
  | AbortResult TransactionId "DistTxnError + DistributedTxnState"
  | RecoverResult TransactionId "DistTxnError + RecoveryOutcome"
  | PushResult TransactionId "DistTxnError + PushOutcome"
  | OrphanResult TransactionId "DistTxnError + OrphanOutcome"
  | SweepOrphansResult "DistTxnError + sweep_report"
  | SweepResolvedResult "DistTxnError + sweep_resolved_report"
  | ResolveResult resolve_broadcast

definition returning :: "('a \<Rightarrow> 'b) \<Rightarrow> 'a driver_prog \<Rightarrow> 'b driver_prog" where
  "returning f p = bind p (\<lambda>x. Ret (f x))"

fun start_call :: "'e deployment \<Rightarrow> driver_call \<Rightarrow> driver_result driver_prog" where
  "start_call dp (DriveBegin status t) =
     returning (BeginResult t) (begin_txn (dp_driver dp) status (dp_request dp t))"
| "start_call dp (DrivePrepare members t w) =
     returning (PrepareResult t w) (prepare_participant (dp_driver dp) members t w)"
| "start_call dp (DriveHeartbeat status g t) = returning HeartbeatResult (heartbeat (dp_driver dp) status g t)"
| "start_call dp (DriveCommit status members_of t) =
     returning (CommitResult t) (commit (dp_driver dp) status members_of (dp_request dp t))"
| "start_call dp (DriveAbort status members_of t reason) =
     returning (AbortResult t) (abort_txn (dp_driver dp) status members_of t reason)"
| "start_call dp (DriveRecover status members_of t now) =
     returning (RecoverResult t) (recover (dp_driver dp) status members_of t now)"
| "start_call dp (DrivePush status members_of t now) =
     returning (PushResult t) (push_expired (dp_driver dp) status members_of t now)"
| "start_call dp (DriveOrphan status members t now) =
     returning (OrphanResult t) (resolve_orphan (dp_driver dp) status members t now)"
| "start_call dp (DriveSweepOrphans status members now) =
     returning SweepOrphansResult (sweep_orphans (dp_driver dp) status members now)"
| "start_call dp (DriveSweepResolved members now) =
     returning SweepResolvedResult (sweep_resolved (dp_driver dp) members now)"
| "start_call dp (DriveDecide status members_of t prepared seen) =
     returning (CommitResult t) (decide_commit (dp_driver dp) status members_of t prepared seen)"
| "start_call dp (DriveResolve members_of t ps d) =
     returning ResolveResult (broadcast_resolve (dp_driver dp) members_of t ps d broadcast_default)"

text \<open>The decision that the answer of a call reports to its caller.\<close>

fun reported :: "driver_result \<Rightarrow> (TransactionId \<times> TxnDecision) option" where
  "reported (BeginResult t (Inr r)) = map_option (Pair t) (decision_of (tr_state r))"
| "reported (CommitResult t (Inr out)) = Some (t, DecideCommit (to_commit_ts out))"
| "reported (CommitResult t (Inl (DtAborted reason))) = Some (t, DecideAbort reason)"
| "reported (AbortResult t (Inr s)) = map_option (Pair t) (decision_of s)"
| "reported (RecoverResult t (Inr (RecoveryDecided s))) = map_option (Pair t) (decision_of s)"
| "reported (PushResult t (Inr (PushTerminal s))) = map_option (Pair t) (decision_of s)"
| "reported (PushResult t (Inr (Pushed s))) = map_option (Pair t) (decision_of s)"
| "reported (OrphanResult t (Inr (ResolvedCommit ts))) = Some (t, DecideCommit ts)"
| "reported (OrphanResult t (Inr (ResolvedAbort reason))) = Some (t, DecideAbort reason)"
| "reported (OrphanResult t (Inr (PushedAbort reason))) = Some (t, DecideAbort reason)"
| "reported _ = None"

record ('m, 'e) world =
  w_status :: "RaftGroupId \<Rightarrow> 'm status_machine list"
  w_intent :: "RaftGroupId \<Rightarrow> ('m, 'e) intent_machine list"
  w_status_issued :: "(RaftGroupId \<times> u8 list \<times> CoordinatorCommand) set"
  w_intent_issued :: "(RaftGroupId \<times> u8 list \<times> IntentCommand) set"
  w_tasks :: "driver_result driver_prog list"

definition status_states :: "('m, 'e) world \<Rightarrow> RaftGroupId \<Rightarrow> txn_status_state set" where
  "status_states w g = (\<lambda>x. sk_state (snd x)) ` set (w_status w g)"

definition intent_states :: "('m, 'e) world \<Rightarrow> RaftGroupId \<Rightarrow> intent_state set" where
  "intent_states w g = (\<lambda>x. ik_state (snd x)) ` set (w_intent w g)"

definition status_now :: "('m, 'e) world \<Rightarrow> RaftGroupId \<Rightarrow> txn_status_state" where
  "status_now w g = sk_state (snd (hd (w_status w g)))"

definition intent_now :: "('m, 'e) world \<Rightarrow> RaftGroupId \<Rightarrow> intent_state" where
  "intent_now w g = ik_state (snd (hd (w_intent w g)))"

section \<open>Replies\<close>

definition status_rejection_of :: "u8 list \<Rightarrow> txn_status_state \<Rightarrow> StatusRejectionReason option" where
  "status_rejection_of cid st = map_option sr_reason (find (\<lambda>e. sr_command_id e = Some cid) (rev (ts_rejections st)))"

definition intent_rejection_of :: "u8 list \<Rightarrow> intent_state \<Rightarrow> PrepareRejectionReason option" where
  "intent_rejection_of cid st = map_option pr_reason (find (\<lambda>e. pr_command_id e = Some cid) (rev (is_rejections st)))"

text \<open>The ways a proposal can fail: consensus, encoding, or a poisoned sink lock.\<close>

fun propose_failure :: "DistTxnError \<Rightarrow> bool" where
  "propose_failure (DtConsensus _) = True"
| "propose_failure (DtEncode _) = True"
| "propose_failure (DtInvalidRequest _) = True"
| "propose_failure _ = False"

text \<open>A state of the group at or after the one that applied the command id.\<close>

definition status_after :: "('m, 'e) world \<Rightarrow> RaftGroupId \<Rightarrow> u8 list \<Rightarrow> txn_status_state \<Rightarrow> bool" where
  "status_after w g cid st \<longleftrightarrow>
     (\<exists>newer x older. w_status w g = newer @ x # older \<and> sk_command_id (snd x) = Some cid \<and>
        st \<in> (\<lambda>x. sk_state (snd x)) ` set (newer @ [x]))"

definition intent_after :: "('m, 'e) world \<Rightarrow> RaftGroupId \<Rightarrow> u8 list \<Rightarrow> intent_state \<Rightarrow> bool" where
  "intent_after w g cid st \<longleftrightarrow>
     (\<exists>newer x older. w_intent w g = newer @ x # older \<and> ik_command_id (snd x) = Some cid \<and>
        st \<in> (\<lambda>x. ik_state (snd x)) ` set (newer @ [x]))"

inductive answers :: "('m, 'e) world \<Rightarrow> driver_action \<Rightarrow> driver_reply \<Rightarrow> bool" for w where
  an_clock: "answers w ReadClock (ClockReply x)"
| an_stamp: "answers w (ClockNextAfter m) (StampReply ts)"
| an_fault: "answers w (InjectFault name) (FaultReply f)"
| an_control: "answers w CheckControl (ControlReply c)"
| an_views: "length views = length members \<Longrightarrow> answers w (LeaderViews members) (ViewsReply views)"
| an_status_failed: "propose_failure e \<Longrightarrow> answers w (ProposeStatus m cid cmd) (StatusReply (Inl e))"
| an_status: "status_after w (gm_group m) cid st \<Longrightarrow>
    answers w (ProposeStatus m cid cmd) (StatusReply (Inr (p, status_rejection_of cid st)))"
| an_intent_failed: "propose_failure e \<Longrightarrow> answers w (ProposeIntent m cid cmd) (IntentReply (Inl e))"
| an_intent: "intent_after w (gm_group m) cid st \<Longrightarrow>
    answers w (ProposeIntent m cid cmd) (IntentReply (Inr (p, intent_rejection_of cid st)))"
| an_record: "st \<in> status_states w (gm_group m) \<Longrightarrow> answers w (LocalRecord m t) (RecordReply (status_get st t))"
| an_read_failed: "answers w (ConsistentRecord m t) (ReadReply (Inl (DtRead e)))"
| an_read: "answers w (ConsistentRecord m t) (ReadReply (Inr (status_get (status_now w (gm_group m)) t)))"
| an_txn: "st \<in> intent_states w (gm_group m) \<Longrightarrow> answers w (LocalTxn m t) (TxnReply (intent_txn st t))"
| an_state: "st \<in> intent_states w (gm_group m) \<Longrightarrow> answers w (LocalState m) (StateReply st)"
| an_ids: "st \<in> intent_states w (gm_group m) \<Longrightarrow> answers w (UnresolvedTxns m) (IdsReply (unresolved_txn_ids st))"
| an_index: "answers w (AppliedIndex m) (IndexReply i)"
| an_poll: "answers w PollFirst (PollReply b)"

section \<open>Log entries\<close>

definition status_envelope :: "'e deployment \<Rightarrow> u8 list \<Rightarrow> CoordinatorCommand \<Rightarrow> command_envelope" where
  "status_envelope dp cid cmd =
     envelope_new (dv_sha (dp_driver dp)) COMMAND_TYPE_DIST_TXN_COORDINATOR cid (dp_status_json dp (versioned_new cmd))"

definition intent_envelope :: "'e deployment \<Rightarrow> u8 list \<Rightarrow> IntentCommand \<Rightarrow> command_envelope" where
  "intent_envelope dp cid cmd =
     envelope_new (dv_sha (dp_driver dp)) COMMAND_TYPE_DIST_TXN_INTENT cid (dp_intent_json dp (versioned_new cmd))"

definition group_entry :: "command_envelope \<Rightarrow> HlcTimestamp \<Rightarrow> log_position \<Rightarrow> 'm log_entry" where
  "group_entry e ts p = \<lparr>le_position = p, le_payload = Normal (replicated_command KindTransaction e ts)\<rparr>"

definition apply_status_entry ::
    "'e deployment \<Rightarrow> 'm log_entry \<Rightarrow> 'm status_machine \<Rightarrow> (StateMachineError + apply_response) \<times> 'm status_machine" where
  "apply_status_entry dp entry x =
     apply_one (status_apply (dv_sha (dp_driver dp)) (dp_status_parse dp) (\<lambda>_. None)) (dp_retention dp) None entry x"

definition apply_intent_entry ::
    "'e deployment \<Rightarrow> 'm log_entry \<Rightarrow> ('m, 'e) intent_machine \<Rightarrow> (StateMachineError + apply_response) \<times> ('m, 'e) intent_machine" where
  "apply_intent_entry dp entry x =
     apply_one (intent_apply (dv_sha (dp_driver dp)) (dp_intent_parse dp) (dp_env dp) (\<lambda>_. None)) (dp_retention dp) None entry x"

text \<open>Entries of a participant group that are not intent commands: leadership blanks, membership
  changes, and the tablet's own engine commands.\<close>

fun engine_entry :: "'m EntryPayload \<Rightarrow> bool" where
  "engine_entry (Normal (Transaction e _)) \<longleftrightarrow> command_type e \<noteq> COMMAND_TYPE_DIST_TXN_INTENT"
| "engine_entry _ \<longleftrightarrow> True"

fun housekeeping_entry :: "'m EntryPayload \<Rightarrow> bool" where
  "housekeeping_entry (Normal (Transaction _ _)) \<longleftrightarrow> False"
| "housekeeping_entry _ \<longleftrightarrow> True"

section \<open>Steps\<close>

text \<open>The caller of \<open>commit\<close>, \<open>recover\<close> and the sweeps supplies each group's own members; a prepare is
  driven for one of the request's write sets. \<open>decide_commit\<close> and \<open>broadcast_resolve\<close> are called on their
  own by flows that drive the phases one by one: the first once every write set of the request is
  prepared, with the tokens, and the second with a decision that a call has reported.\<close>

definition members_keyed :: "participant_members \<Rightarrow> bool" where
  "members_keyed members_of \<longleftrightarrow> list_all (\<lambda>(g, ms). list_all (\<lambda>m. gm_group m = g) ms) members_of"

definition prepared_all :: "'e deployment \<Rightarrow> ('m, 'e) world \<Rightarrow> TransactionId \<Rightarrow> prepare_token list \<Rightarrow> bool" where
  "prepared_all dp w t tokens \<longleftrightarrow>
     list_all (\<lambda>wr. list_ex (\<lambda>token. Ret (PrepareResult t wr (Inr token)) \<in> set (w_tasks w)) tokens) (cr_writes (dp_request dp t))"

definition decision_reported :: "('m, 'e) world \<Rightarrow> TransactionId \<Rightarrow> TxnDecision \<Rightarrow> bool" where
  "decision_reported w t d \<longleftrightarrow> (\<exists>res. Ret res \<in> set (w_tasks w) \<and> reported res = Some (t, d))"

fun call_ok :: "'e deployment \<Rightarrow> ('m, 'e) world \<Rightarrow> driver_call \<Rightarrow> bool" where
  "call_ok dp w (DrivePrepare members t wr) \<longleftrightarrow> wr \<in> set (cr_writes (dp_request dp t))"
| "call_ok dp w (DriveRecover status members_of t now) \<longleftrightarrow> members_keyed members_of"
| "call_ok dp w (DriveDecide status members_of t prepared seen) \<longleftrightarrow> prepared_all dp w t prepared"
| "call_ok dp w (DriveResolve members_of t ps d) \<longleftrightarrow> decision_reported w t d"
| "call_ok dp w _ \<longleftrightarrow> True"

inductive world_step :: "'e deployment \<Rightarrow> ('m, 'e) world \<Rightarrow> ('m, 'e) world \<Rightarrow> bool" for dp where
  ws_start: "call_ok dp w call \<Longrightarrow> world_step dp w (w\<lparr>w_tasks := w_tasks w @ [start_call dp call]\<rparr>)"
| ws_issue_status: "i < length (w_tasks w) \<Longrightarrow> w_tasks w ! i = Act (ProposeStatus m cid cmd) k \<Longrightarrow>
    world_step dp w (w\<lparr>w_status_issued := insert (gm_group m, cid, cmd) (w_status_issued w)\<rparr>)"
| ws_issue_intent: "i < length (w_tasks w) \<Longrightarrow> w_tasks w ! i = Act (ProposeIntent m cid cmd) k \<Longrightarrow>
    world_step dp w (w\<lparr>w_intent_issued := insert (gm_group m, cid, cmd) (w_intent_issued w)\<rparr>)"
| ws_versions: "world_step dp w (w\<lparr>w_intent_issued := insert (g, cid, SetTabletVersions schema authz) (w_intent_issued w)\<rparr>)"
| ws_reply: "i < length (w_tasks w) \<Longrightarrow> w_tasks w ! i = Act x k \<Longrightarrow> answers w x r \<Longrightarrow>
    world_step dp w (w\<lparr>w_tasks := (w_tasks w)[i := k r]\<rparr>)"
| ws_status: "(g, cid, cmd) \<in> w_status_issued w \<Longrightarrow>
    envelope_verify (dv_sha (dp_driver dp)) (status_envelope dp cid cmd) = Inr () \<Longrightarrow>
    apply_status_entry dp (group_entry (status_envelope dp cid cmd) ts p) (hd (w_status w g)) = (Inr response, x) \<Longrightarrow>
    world_step dp w (w\<lparr>w_status := (w_status w)(g := x # w_status w g)\<rparr>)"
| ws_status_other: "housekeeping_entry (le_payload entry) \<Longrightarrow>
    apply_status_entry dp entry (hd (w_status w g)) = (Inr response, x) \<Longrightarrow>
    world_step dp w (w\<lparr>w_status := (w_status w)(g := x # w_status w g)\<rparr>)"
| ws_intent: "(g, cid, cmd) \<in> w_intent_issued w \<Longrightarrow>
    envelope_verify (dv_sha (dp_driver dp)) (intent_envelope dp cid cmd) = Inr () \<Longrightarrow>
    apply_intent_entry dp (group_entry (intent_envelope dp cid cmd) ts p) (hd (w_intent w g)) = (Inr response, y) \<Longrightarrow>
    world_step dp w (w\<lparr>w_intent := (w_intent w)(g := y # w_intent w g)\<rparr>)"
| ws_intent_other: "engine_entry (le_payload entry) \<Longrightarrow>
    apply_intent_entry dp entry (hd (w_intent w g)) = (Inr response, y) \<Longrightarrow>
    world_step dp w (w\<lparr>w_intent := (w_intent w)(g := y # w_intent w g)\<rparr>)"

definition world_init :: "('m, 'e) world \<Rightarrow> bool" where
  "world_init w \<longleftrightarrow>
     (\<forall>g. \<exists>s k. w_status w g = [(s, k)] \<and> sk_state k = txn_status_default \<and> sk_command_id k = None) \<and>
     (\<forall>g. \<exists>s k. w_intent w g = [(s, k)] \<and> ik_state k = intent_default \<and> ik_command_id k = None) \<and>
     w_status_issued w = {} \<and> w_intent_issued w = {} \<and> w_tasks w = []"

section \<open>What an entry does\<close>

lemma versioned_round: "parse bytes = Inr (versioned_new c) \<Longrightarrow> versioned_decode parse bytes = Inr (versioned_new c)"
  by (simp add: versioned_decode_def check_record_version_def versioned_new_def
      DIST_TXN_RECORD_FORMAT_VERSION_def MIN_SUPPORTED_DIST_TXN_RECORD_FORMAT_VERSION_def)

lemma apply_one_sink:
  assumes "apply_one sink retention None entry (s, k) = (Inr response, s', k')"
  shows "k' = k \<or> (\<exists>c. le_payload entry = Normal c \<and> sink \<lparr>ac_position = le_position entry, ac_command = c\<rparr> k = (Inr (), k'))"
  using assms by (auto simp: apply_one_def Let_def split: if_splits EntryPayload.splits prod.splits sum.splits)

lemma status_entry_effect:
  assumes "apply_status_entry dp (group_entry (status_envelope dp cid cmd) ts p) (s, k) = (Inr response, s', k')"
    and "dp_status_parse dp (dp_status_json dp (versioned_new cmd)) = Inr (versioned_new cmd)"
  shows "sk_state k' = sk_state k \<or> (\<exists>c. status_apply_command c cmd (sk_state k) = Inr (sk_state k'))"
  using apply_one_sink [OF assms(1) [unfolded apply_status_entry_def]]
    versioned_round [of "dp_status_parse dp", OF assms(2)]
  by (auto simp: group_entry_def status_apply_def status_dispatch_def status_decode_def status_envelope_def
      envelope_new_def versioned_new_def Let_def split: if_splits sum.splits)

lemma status_other_effect:
  assumes "apply_status_entry dp entry (s, k) = (Inr response, s', k')" "housekeeping_entry (le_payload entry)"
  shows "sk_state k' = sk_state k"
  using apply_one_sink [OF assms(1) [unfolded apply_status_entry_def]] assms(2)
  by (auto simp: status_apply_def status_dispatch_def Let_def split: if_splits sum.splits ReplicatedCommand.splits)

lemma intent_entry_effect:
  assumes "apply_intent_entry dp (group_entry (intent_envelope dp cid cmd) ts p) (s, k) = (Inr response, s', k')"
    and "dp_intent_parse dp (dp_intent_json dp (versioned_new cmd)) = Inr (versioned_new cmd)"
  shows "ik_state k' = ik_state k \<or>
    (\<exists>c. intent_apply_command (dp_env dp) c cmd (ik_engine k) (ik_state k) = (Inr (), ik_state k', ik_engine k'))"
  using apply_one_sink [OF assms(1) [unfolded apply_intent_entry_def]]
    versioned_round [of "dp_intent_parse dp", OF assms(2)]
  by (auto simp: group_entry_def intent_apply_def intent_dispatch_def intent_envelope_def
      envelope_new_def versioned_new_def Let_def split: if_splits sum.splits prod.splits)

lemma forward_keeps: "forward_to_engine env c without engine st = (res, st', engine') \<Longrightarrow> st' = st"
  by (auto simp: forward_to_engine_def split: option.splits prod.splits)

lemma intent_other_effect:
  assumes "apply_intent_entry dp entry (s, k) = (Inr response, s', k')" "engine_entry (le_payload entry)"
  shows "ik_state k' = ik_state k"
proof -
  consider "k' = k" | c where "le_payload entry = Normal c"
      "intent_apply (dv_sha (dp_driver dp)) (dp_intent_parse dp) (dp_env dp) (\<lambda>_. None)
         \<lparr>ac_position = le_position entry, ac_command = c\<rparr> k = (Inr (), k')"
    using apply_one_sink [OF assms(1) [unfolded apply_intent_entry_def]] by blast
  then show ?thesis
  proof cases
    case 2
    with assms(2) show ?thesis
      by (cases c) (auto simp: intent_apply_def intent_dispatch_def Let_def dest: forward_keeps
          split: if_splits sum.splits prod.splits)
  qed simp
qed

end
