(* ===== verification/Dist_Safety.thy ===== *)
theory Dist_Safety
  imports Dist_World
begin

text \<open>
  Safety of the distributed commit protocol over every interleaving of driver calls, lost replies and
  stale reads: the facts the replicated states establish, their preservation by every log entry, and what
  every driver call may propose and answer.
\<close>

section \<open>Facts about the groups\<close>

text \<open>\<open>seen_at\<close>: a participant group once held a record of the transaction. \<open>decided\<close>: a status group
  once held its record in a final state. Both only grow.\<close>

definition seen_at :: "('m, 'e) world \<Rightarrow> RaftGroupId \<Rightarrow> TransactionId \<Rightarrow> bool" where
  "seen_at w g t \<longleftrightarrow> (\<exists>st \<in> intent_states w g. intent_txn st t \<noteq> None)"

definition decided :: "('m, 'e) world \<Rightarrow> TransactionId \<Rightarrow> TxnDecision \<Rightarrow> bool" where
  "decided w t d \<longleftrightarrow>
     (\<exists>g. \<exists>st \<in> status_states w g. \<exists>r. status_get st t = Some r \<and> decision_of (tr_state r) = Some d)"

definition resolved_at :: "('m, 'e) world \<Rightarrow> RaftGroupId \<Rightarrow> TransactionId \<Rightarrow> bool" where
  "resolved_at w g t \<longleftrightarrow> (\<exists>st \<in> intent_states w g. \<exists>px. intent_txn st t = Some px \<and> px_resolution px \<noteq> None)"

definition group_of :: "participant_writes \<Rightarrow> RaftGroupId" where
  "group_of wr = tp_raft_group_id (pw_participant wr)"

text \<open>What is assumed of a deployment: a transaction id names one request, its participants are distinct
  groups, and the JSON codec reads back what it wrote.\<close>

definition deployment_ok :: "'e deployment \<Rightarrow> bool" where
  "deployment_ok dp \<longleftrightarrow>
     (\<forall>t. cr_txn_id (dp_request dp t) = t \<and> distinct (map group_of (cr_writes (dp_request dp t)))) \<and>
     (\<forall>c. dp_status_parse dp (dp_status_json dp (versioned_new c)) = Inr (versioned_new c)) \<and>
     (\<forall>c. dp_intent_parse dp (dp_intent_json dp (versioned_new c)) = Inr (versioned_new c))"

fun justified_status :: "'e deployment \<Rightarrow> ('m, 'e) world \<Rightarrow> RaftGroupId \<Rightarrow> CoordinatorCommand \<Rightarrow> bool" where
  "justified_status dp w g (Begin r) \<longleftrightarrow>
     coordinator_for (dp_driver dp) (dp_request dp (tr_txn_id r)) = Inr (g, tr_participants r)"
| "justified_status dp w g (Commit t ts) \<longleftrightarrow> (\<forall>wr \<in> set (cr_writes (dp_request dp t)). seen_at w (group_of wr) t)"
| "justified_status dp w g _ \<longleftrightarrow> True"

fun justified_intent :: "'e deployment \<Rightarrow> ('m, 'e) world \<Rightarrow> RaftGroupId \<Rightarrow> IntentCommand \<Rightarrow> bool" where
  "justified_intent dp w g (PersistIntents t schema authz ts is) \<longleftrightarrow>
     (\<exists>wr \<in> set (cr_writes (dp_request dp t)). group_of wr = g \<and> is = stamp_intents t ts (pw_intents wr))"
| "justified_intent dp w g (Resolve t d) \<longleftrightarrow> decided w t d"
| "justified_intent dp w g _ \<longleftrightarrow> True"

definition staged_for :: "'e deployment \<Rightarrow> RaftGroupId \<Rightarrow> TransactionId \<Rightarrow> participant_txn \<Rightarrow> bool" where
  "staged_for dp g t px \<longleftrightarrow>
     (\<exists>wr \<in> set (cr_writes (dp_request dp t)). \<exists>ts. group_of wr = g \<and> px_intents px = stamp_intents t ts (pw_intents wr))"

definition status_facts :: "'e deployment \<Rightarrow> ('m, 'e) world \<Rightarrow> RaftGroupId \<Rightarrow> bool" where
  "status_facts dp w g \<longleftrightarrow>
     (\<forall>st \<in> status_states w g. \<forall>t r. status_get st t = Some r \<longrightarrow>
        tr_txn_id r = t \<and>
        coordinator_for (dp_driver dp) (dp_request dp t) = Inr (g, tr_participants r) \<and>
        (\<exists>r'. status_get (status_now w g) t = Some r' \<and> (is_terminal (tr_state r) \<longrightarrow> r' = r)) \<and>
        (\<forall>ts. tr_state r = Committed ts \<longrightarrow> (\<forall>wr \<in> set (cr_writes (dp_request dp t)). seen_at w (group_of wr) t)))"

definition record_facts :: "'e deployment \<Rightarrow> ('m, 'e) world \<Rightarrow> RaftGroupId \<Rightarrow> intent_state \<Rightarrow> bool" where
  "record_facts dp w g st \<longleftrightarrow>
     (\<forall>t px. intent_txn st t = Some px \<longrightarrow>
        (case px_resolution px of None \<Rightarrow> staged_for dp g t px | Some d \<Rightarrow> decided w t d))"

definition made_visible :: "'e deployment \<Rightarrow> ('m, 'e) world \<Rightarrow> RaftGroupId \<Rightarrow> intent_state \<Rightarrow> bool" where
  "made_visible dp w g st \<longleftrightarrow>
     (\<forall>t px ts wr. intent_txn st t = Some px \<longrightarrow> px_resolution px = Some (DecideCommit ts) \<longrightarrow>
        wr \<in> set (cr_writes (dp_request dp t)) \<longrightarrow> group_of wr = g \<longrightarrow>
        (\<exists>st' \<in> intent_states w g. set (committed_writes_of t ts (pw_intents wr)) \<subseteq> set (is_committed_writes st')))"

definition writes_requested :: "'e deployment \<Rightarrow> RaftGroupId \<Rightarrow> intent_state \<Rightarrow> bool" where
  "writes_requested dp g st \<longleftrightarrow>
     (\<forall>c \<in> set (is_committed_writes st). \<exists>wr \<in> set (cr_writes (dp_request dp (cw_txn_id c))).
        group_of wr = g \<and> c \<in> set (committed_writes_of (cw_txn_id c) (cw_commit_ts c) (pw_intents wr)))"

definition intent_facts :: "'e deployment \<Rightarrow> ('m, 'e) world \<Rightarrow> RaftGroupId \<Rightarrow> bool" where
  "intent_facts dp w g \<longleftrightarrow>
     (\<forall>st \<in> intent_states w g. participant_inv st \<and> record_facts dp w g st \<and> made_visible dp w g st \<and> writes_requested dp g st) \<and>
     (\<forall>t. seen_at w g t \<longrightarrow>
        (\<exists>px. intent_txn (intent_now w g) t = Some px \<and> px_resolution px = None) \<or> resolved_at w g t)"

definition world_inv :: "'e deployment \<Rightarrow> ('m, 'e) world \<Rightarrow> bool" where
  "world_inv dp w \<longleftrightarrow>
     (\<forall>g. w_status w g \<noteq> [] \<and> w_intent w g \<noteq> []) \<and>
     (\<forall>(g, cid, cmd) \<in> w_status_issued w. justified_status dp w g cmd) \<and>
     (\<forall>(g, cid, cmd) \<in> w_intent_issued w. justified_intent dp w g cmd) \<and>
     (\<forall>g. status_facts dp w g) \<and> (\<forall>g. intent_facts dp w g)"

definition grown :: "('m, 'e) world \<Rightarrow> ('m, 'e) world \<Rightarrow> bool" where
  "grown w w' \<longleftrightarrow>
     (\<forall>g. status_states w g \<subseteq> status_states w' g) \<and> (\<forall>g. intent_states w g \<subseteq> intent_states w' g)"

lemma grown_refl [simp]: "grown w w"
  by (simp add: grown_def)

lemma grown_trans: "grown u v \<Longrightarrow> grown v w \<Longrightarrow> grown u w"
  unfolding grown_def by blast

lemma seen_grows: "seen_at w g t \<Longrightarrow> grown w w' \<Longrightarrow> seen_at w' g t"
  unfolding seen_at_def grown_def by blast

lemma decided_grows: "decided w t d \<Longrightarrow> grown w w' \<Longrightarrow> decided w' t d"
  unfolding decided_def grown_def by blast

lemma resolved_grows: "resolved_at w g t \<Longrightarrow> grown w w' \<Longrightarrow> resolved_at w' g t"
  unfolding resolved_at_def grown_def by blast

lemma justified_status_grows: "justified_status dp w g cmd \<Longrightarrow> grown w w' \<Longrightarrow> justified_status dp w' g cmd"
  by (cases cmd) (auto intro: seen_grows)

lemma justified_intent_grows: "justified_intent dp w g cmd \<Longrightarrow> grown w w' \<Longrightarrow> justified_intent dp w' g cmd"
  by (cases cmd) (auto intro: decided_grows)

lemma record_facts_grow: "record_facts dp w g st \<Longrightarrow> grown w w' \<Longrightarrow> record_facts dp w' g st"
  unfolding record_facts_def by (fastforce split: option.splits intro: decided_grows)

lemma made_visible_grows: "made_visible dp w g st \<Longrightarrow> grown w w' \<Longrightarrow> made_visible dp w' g st"
  unfolding made_visible_def grown_def by blast

lemma now_in_states:
  assumes "world_inv dp w"
  shows "status_now w g \<in> status_states w g" "intent_now w g \<in> intent_states w g"
  using assms by (auto simp: world_inv_def status_now_def status_states_def intent_now_def intent_states_def)

lemma status_fact:
  assumes "world_inv dp w" "st \<in> status_states w g" "status_get st t = Some r"
  shows "tr_txn_id r = t" "coordinator_for (dp_driver dp) (dp_request dp t) = Inr (g, tr_participants r)"
    "\<exists>r'. status_get (status_now w g) t = Some r' \<and> (is_terminal (tr_state r) \<longrightarrow> r' = r)"
    "tr_state r = Committed ts \<Longrightarrow> wr \<in> set (cr_writes (dp_request dp t)) \<Longrightarrow> seen_at w (group_of wr) t"
  using assms unfolding world_inv_def status_facts_def by blast+

lemma decision_terminal: "decision_of s = Some d \<Longrightarrow> is_terminal s"
  by (cases s) auto

text \<open>The record of a transaction lives in one group and its decision is unique.\<close>

lemma decided_unique:
  assumes "world_inv dp w" "decided w t d" "decided w t d'"
  shows "d = d'"
proof -
  obtain g st r where r: "st \<in> status_states w g" "status_get st t = Some r" "decision_of (tr_state r) = Some d"
    using assms(2) unfolding decided_def by blast
  obtain g' st' r' where r': "st' \<in> status_states w g'" "status_get st' t = Some r'" "decision_of (tr_state r') = Some d'"
    using assms(3) unfolding decided_def by blast
  have "g = g'" using status_fact(2) [OF assms(1) r(1,2)] status_fact(2) [OF assms(1) r'(1,2)] by simp
  moreover have "status_get (status_now w g) t = Some r" "status_get (status_now w g') t = Some r'"
    using status_fact(3) [OF assms(1) r(1,2)] status_fact(3) [OF assms(1) r'(1,2)] r(3) r'(3) decision_terminal by auto
  ultimately show ?thesis using r(3) r'(3) by simp
qed

lemma committed_seen:
  assumes "world_inv dp w" "decided w t (DecideCommit ts)" "wr \<in> set (cr_writes (dp_request dp t))"
  shows "seen_at w (group_of wr) t"
proof -
  obtain g st r where r: "st \<in> status_states w g" "status_get st t = Some r" "decision_of (tr_state r) = Some (DecideCommit ts)"
    using assms(2) unfolding decided_def by blast
  then have "tr_state r = Committed ts" by (cases "tr_state r") auto
  with r assms(1,3) show ?thesis by (blast intro: status_fact(4))
qed

section \<open>A status entry keeps the facts\<close>

lemma commit_source:
  assumes "status_apply_command c cmd st = Inr st'" "status_get st' t = Some r" "tr_state r = Committed ts"
  shows "status_get st t = Some r \<or> cmd = Commit t ts"
  using assms
  by (cases cmd) (auto simp: apply_begin_def apply_heartbeat_def apply_mark_def apply_commit_def apply_abort_def
      split: option.splits if_splits DistributedTxnState.splits)

definition push_status :: "RaftGroupId \<Rightarrow> 'm status_machine \<Rightarrow> ('m, 'e) world \<Rightarrow> ('m, 'e) world" where
  "push_status g x w = w\<lparr>w_status := (w_status w)(g := x # w_status w g)\<rparr>"

definition push_intent :: "RaftGroupId \<Rightarrow> ('m, 'e) intent_machine \<Rightarrow> ('m, 'e) world \<Rightarrow> ('m, 'e) world" where
  "push_intent g y w = w\<lparr>w_intent := (w_intent w)(g := y # w_intent w g)\<rparr>"

lemma push_status_states [simp]:
  "status_states (push_status g x w) h = (if h = g then insert (sk_state (snd x)) (status_states w g) else status_states w h)"
  "status_now (push_status g x w) h = (if h = g then sk_state (snd x) else status_now w h)"
  "intent_states (push_status g x w) = intent_states w" "intent_now (push_status g x w) = intent_now w"
  by (auto simp: push_status_def status_states_def status_now_def intent_states_def intent_now_def fun_eq_iff)

lemma push_intent_states [simp]:
  "intent_states (push_intent g y w) h = (if h = g then insert (ik_state (snd y)) (intent_states w g) else intent_states w h)"
  "intent_now (push_intent g y w) h = (if h = g then ik_state (snd y) else intent_now w h)"
  "status_states (push_intent g y w) = status_states w" "status_now (push_intent g y w) = status_now w"
  by (auto simp: push_intent_def status_states_def status_now_def intent_states_def intent_now_def fun_eq_iff)

lemma push_grown [simp]: "grown w (push_status g x w)" "grown w (push_intent g y w)"
  by (auto simp: grown_def)

lemma seen_push_status [simp]: "seen_at (push_status g x w) = seen_at w" "resolved_at (push_status g x w) = resolved_at w"
  by (simp_all add: seen_at_def resolved_at_def fun_eq_iff)

text \<open>The record of one transaction, before and after an entry.\<close>

definition status_moves :: "'e deployment \<Rightarrow> ('m, 'e) world \<Rightarrow> RaftGroupId \<Rightarrow> txn_status_state \<Rightarrow> bool" where
  "status_moves dp w g st' \<longleftrightarrow>
     st' = status_now w g \<or> (\<exists>c cmd. justified_status dp w g cmd \<and> status_apply_command c cmd (status_now w g) = Inr st')"

lemma status_move_record:
  assumes "status_moves dp w g st'" "status_get (status_now w g) t = Some r"
  shows "\<exists>r'. status_get st' t = Some r' \<and> record_change r r'"
  using assms status_command_change [where t = t] by (fastforce simp: status_moves_def intro: rc_same)

lemma status_move_new:
  assumes "status_moves dp w g st'" "status_get (status_now w g) t = None" "status_get st' t = Some r"
  shows "tr_txn_id r = t" "tr_state r = Pending"
    "coordinator_for (dp_driver dp) (dp_request dp t) = Inr (g, tr_participants r)"
proof -
  obtain c cmd where cmd: "justified_status dp w g cmd" "status_apply_command c cmd (status_now w g) = Inr st'"
    using assms by (auto simp: status_moves_def)
  then have "cmd = Begin r" "tr_txn_id r = t" "tr_state r = Pending"
    using status_command_change [OF cmd(2), of t] assms(2,3) by auto
  with cmd(1) show "tr_txn_id r = t" "tr_state r = Pending"
    "coordinator_for (dp_driver dp) (dp_request dp t) = Inr (g, tr_participants r)" by auto
qed

lemma status_move_commit:
  assumes "status_moves dp w g st'" "status_get st' t = Some r" "tr_state r = Committed ts"
  shows "status_get (status_now w g) t = Some r \<or> (\<forall>wr \<in> set (cr_writes (dp_request dp t)). seen_at w (group_of wr) t)"
  using assms commit_source by (fastforce simp: status_moves_def)

lemma status_facts_step:
  assumes inv: "world_inv dp w" and move: "status_moves dp w g (sk_state (snd x))"
  shows "status_facts dp (push_status g x w) g"
proof -
  let ?w = "push_status g x w" and ?st = "sk_state (snd x)"
  note facts = status_fact [OF inv]
  have old: "\<exists>r'. status_get ?st t = Some r' \<and> (is_terminal (tr_state r) \<longrightarrow> r' = r)"
    if r: "st \<in> status_states w g" "status_get st t = Some r" for st t r
  proof -
    obtain r1 where r1: "status_get (status_now w g) t = Some r1" "is_terminal (tr_state r) \<longrightarrow> r1 = r"
      using facts(3) [OF r] by blast
    from status_move_record [OF move r1(1)] r1(2) record_change_terminal show ?thesis by blast
  qed
  have new: "tr_txn_id r = t \<and> coordinator_for (dp_driver dp) (dp_request dp t) = Inr (g, tr_participants r) \<and>
      (\<forall>ts. tr_state r = Committed ts \<longrightarrow> (\<forall>wr \<in> set (cr_writes (dp_request dp t)). seen_at w (group_of wr) t))"
    if r: "status_get ?st t = Some r" for t r
  proof (cases "status_get (status_now w g) t")
    case None
    from status_move_new [OF move None r] show ?thesis by simp
  next
    case (Some r0)
    then have r0: "tr_txn_id r0 = t" "coordinator_for (dp_driver dp) (dp_request dp t) = Inr (g, tr_participants r0)"
      using facts(1,2) [OF now_in_states(1) [OF inv] Some] by simp_all
    have "record_change r0 r" using status_move_record [OF move Some] r by simp
    then have "tr_txn_id r = t" "tr_participants r = tr_participants r0" using record_change_fixed r0(1) by simp_all
    moreover have "seen_at w (group_of wr) t" if "tr_state r = Committed ts" "wr \<in> set (cr_writes (dp_request dp t))" for ts wr
      using status_move_commit [OF move r that(1)] facts(4) [OF now_in_states(1) [OF inv] _ that] that(2) by blast
    ultimately show ?thesis using r0(2) by auto
  qed
  show ?thesis unfolding status_facts_def using old new facts(1,2,4) by (simp, blast)
qed

section \<open>An intent entry keeps the facts\<close>

lemma intent_fact:
  assumes "world_inv dp w" "st \<in> intent_states w g"
  shows "participant_inv st" "record_facts dp w g st" "made_visible dp w g st" "writes_requested dp g st"
  using assms unfolding world_inv_def intent_facts_def by blast+

lemma seen_fact:
  assumes "world_inv dp w" "seen_at w g t"
  shows "(\<exists>px. intent_txn (intent_now w g) t = Some px \<and> px_resolution px = None) \<or> resolved_at w g t"
  using assms unfolding world_inv_def intent_facts_def by blast

definition intent_moves :: "'e deployment \<Rightarrow> ('m, 'e) world \<Rightarrow> RaftGroupId \<Rightarrow> intent_state \<Rightarrow> bool" where
  "intent_moves dp w g st' \<longleftrightarrow>
     st' = intent_now w g \<or>
     (\<exists>c cmd e e'. justified_intent dp w g cmd \<and> intent_apply_command (dp_env dp) c cmd e (intent_now w g) = (Inr (), st', e'))"

lemma committed_writes_stamped [simp]: "committed_writes_of t ts (stamp_intents t u is) = committed_writes_of t ts is"
  by (simp add: committed_writes_of_def stamp_intents_def)

lemma writes_source:
  assumes "intent_apply_command env c cmd engine st = (Inr r, st', engine')" "cw \<in> set (is_committed_writes st')"
  shows "cw \<in> set (is_committed_writes st) \<or>
    (\<exists>t px ts. cmd = Resolve t (DecideCommit ts) \<and> intent_txn st t = Some px \<and> px_resolution px = None \<and>
       cw \<in> set (committed_writes_of t ts (px_intents px)))"
proof (cases cmd)
  case (PersistIntents u schema authz ts "is")
  then have "apply_persist env c u schema authz ts is engine st = Inr st'" using assms(1) by (auto split: sum.splits)
  then show ?thesis using assms(2) by (cases rule: apply_persist_cases) auto
next
  case (Resolve u d)
  then have "apply_resolve env c u d engine st = (Inr r, st', engine')" using assms(1) by simp
  then show ?thesis using assms(2) by (cases rule: apply_resolve_cases) (auto simp: Resolve)
qed (use assms in \<open>auto simp: apply_sweep_def Let_def\<close>)

lemma commit_publishes:
  assumes "intent_apply_command env c (Resolve t (DecideCommit ts)) engine st = (Inr r, st', engine')"
    and "intent_txn st t = Some px" "px_resolution px = None"
  shows "set (committed_writes_of t ts (px_intents px)) \<subseteq> set (is_committed_writes st')"
proof -
  have "apply_resolve env c t (DecideCommit ts) engine st = (Inr r, st', engine')" using assms(1) by simp
  then show ?thesis using assms(2,3) by (cases rule: apply_resolve_cases) auto
qed

lemma intent_move_change:
  assumes "world_inv dp w" "intent_moves dp w g st'"
  obtains cmd where "justified_intent dp w g cmd" "txn_change cmd t (intent_txn (intent_now w g) t) (intent_txn st' t)"
  | "st' = intent_now w g"
  using assms(2) unfolding intent_moves_def
proof (elim disjE exE conjE)
  fix c cmd e e'
  assume "justified_intent dp w g cmd" and ap: "intent_apply_command (dp_env dp) c cmd e (intent_now w g) = (Inr (), st', e')"
  moreover have "bt_sorted (is_txns (intent_now w g))"
    using intent_fact(1) [OF assms(1) now_in_states(2) [OF assms(1)]] by (simp add: participant_inv_def)
  ultimately show thesis using intent_command_change [OF ap, of t] that(1) by blast
qed (rule that(2))

lemma record_facts_step:
  assumes inv: "world_inv dp w" and move: "intent_moves dp w g st'"
  shows "record_facts dp w g st'"
proof -
  have old: "record_facts dp w g (intent_now w g)" using intent_fact(2) [OF inv now_in_states(2) [OF inv]] .
  have "case px_resolution px of None \<Rightarrow> staged_for dp g t px | Some d \<Rightarrow> decided w t d" if px: "intent_txn st' t = Some px" for t px
  proof (rule intent_move_change [OF inv move, of t])
    fix cmd assume "justified_intent dp w g cmd" "txn_change cmd t (intent_txn (intent_now w g) t) (intent_txn st' t)"
    from this(2,1) px old show ?thesis
      by (cases rule: txn_change.cases) (auto simp: record_facts_def staged_for_def split: option.splits)
  qed (use px old in \<open>simp add: record_facts_def\<close>)
  then show ?thesis by (simp add: record_facts_def)
qed

lemma seen_step:
  assumes inv: "world_inv dp w" and move: "intent_moves dp w g (ik_state (snd y))" and seen: "seen_at (push_intent g y w) g t"
  shows "(\<exists>px. intent_txn (ik_state (snd y)) t = Some px \<and> px_resolution px = None) \<or> resolved_at (push_intent g y w) g t"
proof (cases "intent_txn (ik_state (snd y)) t")
  case (Some px)
  then show ?thesis by (cases "px_resolution px") (auto simp: resolved_at_def)
next
  case None
  then have "seen_at w g t" using seen by (auto simp: seen_at_def)
  then consider px where "intent_txn (intent_now w g) t = Some px" "px_resolution px = None" | "resolved_at w g t"
    using seen_fact [OF inv] by blast
  then show ?thesis
  proof cases
    case (1 px)
    show ?thesis
    proof (rule intent_move_change [OF inv move, of t])
      fix cmd assume "txn_change cmd t (intent_txn (intent_now w g) t) (intent_txn (ik_state (snd y)) t)"
      then show ?thesis using 1 None by (cases rule: txn_change.cases) auto
    qed (use 1 None in simp)
  next
    case 2
    then show ?thesis using resolved_grows push_grown(2) by blast
  qed
qed

lemma group_of_inj:
  assumes "deployment_ok dp" "wr \<in> set (cr_writes (dp_request dp t))" "wr' \<in> set (cr_writes (dp_request dp t))"
    "group_of wr = group_of wr'"
  shows "wr = wr'"
  using assms unfolding deployment_ok_def by (metis distinct_map inj_onD)

lemma made_visible_step:
  assumes ok: "deployment_ok dp" and inv: "world_inv dp w" and move: "intent_moves dp w g (ik_state (snd y))"
  shows "made_visible dp (push_intent g y w) g (ik_state (snd y))"
proof -
  let ?now = "intent_now w g" and ?st = "ik_state (snd y)" and ?w = "push_intent g y w"
  have old: "made_visible dp ?w g st" if "st \<in> intent_states w g" for st
    using intent_fact(3) [OF inv that] push_grown(2) by (rule made_visible_grows)
  have "\<exists>st' \<in> intent_states ?w g. set (committed_writes_of t ts (pw_intents wr)) \<subseteq> set (is_committed_writes st')"
    if px: "intent_txn ?st t = Some px" "px_resolution px = Some (DecideCommit ts)"
      and wr: "wr \<in> set (cr_writes (dp_request dp t))" "group_of wr = g" for t px ts wr
  proof (cases "\<exists>px0. intent_txn ?now t = Some px0 \<and> px_resolution px0 = Some (DecideCommit ts)")
    case True
    with old [OF now_in_states(2) [OF inv]] wr show ?thesis unfolding made_visible_def by blast
  next
    case False
    then obtain c cmd e e' where cmd: "justified_intent dp w g cmd"
      "intent_apply_command (dp_env dp) c cmd e ?now = (Inr (), ?st, e')"
      using move px unfolding intent_moves_def by auto
    have sorted: "bt_sorted (is_txns ?now)"
      using intent_fact(1) [OF inv now_in_states(2) [OF inv]] by (simp add: participant_inv_def)
    from intent_command_change [OF cmd(2) sorted, of t] px False
    have res: "cmd = Resolve t (DecideCommit ts)" and now: "case intent_txn ?now t of None \<Rightarrow> True | Some px0 \<Rightarrow> px_resolution px0 = None"
      by (cases rule: txn_change.cases; auto)+
    show ?thesis
    proof (cases "intent_txn ?now t")
      case (Some px0)
      with now have open_txn: "px_resolution px0 = None" by simp
      then have "staged_for dp g t px0"
        using intent_fact(2) [OF inv now_in_states(2) [OF inv]] Some by (fastforce simp: record_facts_def)
      then obtain wr' u where "wr' \<in> set (cr_writes (dp_request dp t))" "group_of wr' = g"
        "px_intents px0 = stamp_intents t u (pw_intents wr')" unfolding staged_for_def by blast
      with group_of_inj [OF ok wr(1)] wr(2) have "committed_writes_of t ts (px_intents px0) = committed_writes_of t ts (pw_intents wr)"
        by auto
      with commit_publishes [OF cmd(2) [unfolded res] Some open_txn] show ?thesis by auto
    next
      case None
      have dec: "decided w t (DecideCommit ts)" using cmd(1) res by simp
      then have "seen_at w g t" using committed_seen [OF inv dec wr(1)] wr(2) by simp
      then obtain st0 px0 d where st0: "st0 \<in> intent_states w g" "intent_txn st0 t = Some px0" "px_resolution px0 = Some d"
        using seen_fact [OF inv] None unfolding resolved_at_def by fastforce
      then have "decided w t d" using intent_fact(2) [OF inv st0(1)] by (fastforce simp: record_facts_def)
      with dec have "d = DecideCommit ts" using decided_unique [OF inv] by blast
      with old [OF st0(1)] st0 wr show ?thesis unfolding made_visible_def by blast
    qed
  qed
  then show ?thesis unfolding made_visible_def by blast
qed

lemma writes_requested_step:
  assumes inv: "world_inv dp w" and move: "intent_moves dp w g st'"
  shows "writes_requested dp g st'"
proof (cases "st' = intent_now w g")
  case True
  then show ?thesis using intent_fact(4) [OF inv now_in_states(2) [OF inv]] by simp
next
  case False
  then obtain c cmd e e' where cmd: "intent_apply_command (dp_env dp) c cmd e (intent_now w g) = (Inr (), st', e')"
    using move unfolding intent_moves_def by blast
  have "\<exists>wr \<in> set (cr_writes (dp_request dp (cw_txn_id cw))). group_of wr = g \<and>
      cw \<in> set (committed_writes_of (cw_txn_id cw) (cw_commit_ts cw) (pw_intents wr))" if cw: "cw \<in> set (is_committed_writes st')" for cw
    using writes_source [OF cmd cw]
  proof (elim disjE exE conjE)
    assume "cw \<in> set (is_committed_writes (intent_now w g))"
    then show ?thesis using intent_fact(4) [OF inv now_in_states(2) [OF inv]] by (simp add: writes_requested_def)
  next
    fix t px ts
    assume px: "intent_txn (intent_now w g) t = Some px" "px_resolution px = None" and cw: "cw \<in> set (committed_writes_of t ts (px_intents px))"
    then have "staged_for dp g t px"
      using intent_fact(2) [OF inv now_in_states(2) [OF inv]] by (fastforce simp: record_facts_def)
    moreover have "cw_txn_id cw = t" "cw_commit_ts cw = ts" using cw by (auto simp: committed_writes_of_def)
    ultimately show ?thesis using cw unfolding staged_for_def by auto
  qed
  then show ?thesis by (simp add: writes_requested_def)
qed

section \<open>Every entry keeps the invariant\<close>

lemma issued_ok:
  assumes "world_inv dp w"
  shows "(g, cid, cmd) \<in> w_status_issued w \<Longrightarrow> justified_status dp w g cmd"
    "(g, cid, cmd') \<in> w_intent_issued w \<Longrightarrow> justified_intent dp w g cmd'"
  using assms by (auto simp: world_inv_def)

lemmas issued_stays = issued_ok(1) [THEN justified_status_grows] issued_ok(2) [THEN justified_intent_grows]

lemma world_invI:
  assumes "\<And>g. w_status w g \<noteq> [] \<and> w_intent w g \<noteq> []"
    and "\<And>g cid cmd. (g, cid, cmd) \<in> w_status_issued w \<Longrightarrow> justified_status dp w g cmd"
    and "\<And>g cid cmd. (g, cid, cmd) \<in> w_intent_issued w \<Longrightarrow> justified_intent dp w g cmd"
    and "\<And>g. status_facts dp w g" and "\<And>g. intent_facts dp w g"
  shows "world_inv dp w"
  using assms by (auto simp: world_inv_def)

lemma push_status_inv:
  assumes inv: "world_inv dp w" and move: "status_moves dp w g (sk_state (snd x))"
  shows "world_inv dp (push_status g x w)"
proof -
  let ?w = "push_status g x w"
  have "status_facts dp ?w h" for h
  proof (cases "h = g")
    case False
    have "status_facts dp w h" using inv by (simp add: world_inv_def)
    with False show ?thesis by (simp add: status_facts_def)
  qed (use status_facts_step [OF inv move] in simp)
  moreover have "intent_facts dp ?w h" for h
  proof -
    have "participant_inv st \<and> record_facts dp ?w h st \<and> made_visible dp ?w h st \<and> writes_requested dp h st"
      if "st \<in> intent_states w h" for st
      using intent_fact [OF inv that] record_facts_grow made_visible_grows push_grown(1) by blast
    then show ?thesis using seen_fact [OF inv] by (simp add: intent_facts_def)
  qed
  moreover have "w_status ?w h \<noteq> [] \<and> w_intent ?w h \<noteq> []" for h
    using inv by (auto simp: world_inv_def push_status_def)
  moreover have "w_status_issued ?w = w_status_issued w" "w_intent_issued ?w = w_intent_issued w"
    by (simp_all add: push_status_def)
  ultimately show ?thesis
    by (intro world_invI) (auto intro: issued_stays [OF inv])
qed

lemma push_intent_inv:
  assumes ok: "deployment_ok dp" and inv: "world_inv dp w" and move: "intent_moves dp w g (ik_state (snd y))"
    and shape: "participant_inv (ik_state (snd y))"
  shows "world_inv dp (push_intent g y w)"
proof -
  let ?w = "push_intent g y w"
  have "status_facts dp ?w h" for h
  proof -
    have "status_facts dp w h" using inv by (simp add: world_inv_def)
    then show ?thesis using seen_grows [OF _ push_grown(2)] by (simp add: status_facts_def) blast
  qed
  moreover have "intent_facts dp ?w h" for h
  proof -
    have old: "participant_inv st \<and> record_facts dp ?w h st \<and> made_visible dp ?w h st \<and> writes_requested dp h st"
      if "st \<in> intent_states w h" for st
      using intent_fact [OF inv that] record_facts_grow made_visible_grows push_grown(2) by blast
    have new: "record_facts dp ?w g (ik_state (snd y))" "made_visible dp ?w g (ik_state (snd y))"
      "writes_requested dp g (ik_state (snd y))"
      using record_facts_step [OF inv move] record_facts_grow push_grown(2) made_visible_step [OF ok inv move]
        writes_requested_step [OF inv move] by blast+
    have "(\<exists>px. intent_txn (intent_now ?w h) t = Some px \<and> px_resolution px = None) \<or> resolved_at ?w h t"
      if "seen_at ?w h t" for t
    proof (cases "h = g")
      case True
      with seen_step [OF inv move] that show ?thesis by simp
    next
      case False
      then show ?thesis using that seen_fact [OF inv, of h t] by (simp add: seen_at_def resolved_at_def)
    qed
    then show ?thesis using old new shape by (auto simp: intent_facts_def)
  qed
  moreover have "w_status ?w h \<noteq> [] \<and> w_intent ?w h \<noteq> []" for h
    using inv by (auto simp: world_inv_def push_intent_def)
  moreover have "w_status_issued ?w = w_status_issued w" "w_intent_issued ?w = w_intent_issued w"
    by (simp_all add: push_intent_def)
  ultimately show ?thesis
    by (intro world_invI) (auto intro: issued_stays [OF inv])
qed

lemma same_states [simp]:
  "status_states (w\<lparr>w_tasks := ts\<rparr>) = status_states w" "intent_states (w\<lparr>w_tasks := ts\<rparr>) = intent_states w"
  "status_states (w\<lparr>w_status_issued := si\<rparr>) = status_states w" "intent_states (w\<lparr>w_status_issued := si\<rparr>) = intent_states w"
  "status_states (w\<lparr>w_intent_issued := ii\<rparr>) = status_states w" "intent_states (w\<lparr>w_intent_issued := ii\<rparr>) = intent_states w"
  "status_now (w\<lparr>w_tasks := ts\<rparr>) = status_now w" "intent_now (w\<lparr>w_tasks := ts\<rparr>) = intent_now w"
  "status_now (w\<lparr>w_status_issued := si\<rparr>) = status_now w" "intent_now (w\<lparr>w_status_issued := si\<rparr>) = intent_now w"
  "status_now (w\<lparr>w_intent_issued := ii\<rparr>) = status_now w" "intent_now (w\<lparr>w_intent_issued := ii\<rparr>) = intent_now w"
  by (simp_all add: status_states_def intent_states_def status_now_def intent_now_def fun_eq_iff)

lemma same_facts:
  assumes "status_states w' = status_states w" "intent_states w' = intent_states w" "status_now w' = status_now w" "intent_now w' = intent_now w"
  shows "status_facts dp w' = status_facts dp w" "intent_facts dp w' = intent_facts dp w"
    "justified_status dp w' = justified_status dp w" "justified_intent dp w' = justified_intent dp w"
proof -
  have basic: "seen_at w' = seen_at w" "decided w' = decided w" "resolved_at w' = resolved_at w"
    using assms by (simp_all add: seen_at_def decided_def resolved_at_def fun_eq_iff)
  show "status_facts dp w' = status_facts dp w" "intent_facts dp w' = intent_facts dp w"
    unfolding fun_eq_iff status_facts_def intent_facts_def record_facts_def made_visible_def basic assms by (rule allI, rule refl)+
  show "justified_status dp w' = justified_status dp w"
  proof (intro ext)
    show "justified_status dp w' g cmd = justified_status dp w g cmd" for g cmd by (cases cmd) (simp_all add: basic)
  qed
  show "justified_intent dp w' = justified_intent dp w"
  proof (intro ext)
    show "justified_intent dp w' g cmd = justified_intent dp w g cmd" for g cmd by (cases cmd) (simp_all add: basic)
  qed
qed

lemma tasks_inv [simp]: "world_inv dp (w\<lparr>w_tasks := ts\<rparr>) = world_inv dp w"
  by (simp add: world_inv_def same_facts [of "w\<lparr>w_tasks := ts\<rparr>" w])

lemma issue_status_inv:
  "world_inv dp w \<Longrightarrow> justified_status dp w g cmd \<Longrightarrow> world_inv dp (w\<lparr>w_status_issued := insert (g, cid, cmd) (w_status_issued w)\<rparr>)"
  by (simp add: world_inv_def same_facts [of "w\<lparr>w_status_issued := insert (g, cid, cmd) (w_status_issued w)\<rparr>" w])

lemma issue_intent_inv:
  "world_inv dp w \<Longrightarrow> justified_intent dp w g cmd \<Longrightarrow> world_inv dp (w\<lparr>w_intent_issued := insert (g, cid, cmd) (w_intent_issued w)\<rparr>)"
  by (simp add: world_inv_def same_facts [of "w\<lparr>w_intent_issued := insert (g, cid, cmd) (w_intent_issued w)\<rparr>" w])

end
