(* ===== verification/Dist_Calls.thy ===== *)
theory Dist_Calls
  imports Dist_Safety
begin

text \<open>
  What every driver call may propose, and what its answer tells: each proposal is justified by the facts
  of \<open>Dist_Safety\<close>, a returned outcome is the durable decision, and an error that is not \<open>Aborted\<close> claims
  nothing.
\<close>

section \<open>The logic of driver calls\<close>

fun allowed :: "'e deployment \<Rightarrow> driver_action \<Rightarrow> ('m, 'e) world \<Rightarrow> bool" where
  "allowed dp (ProposeStatus m cid cmd) w \<longleftrightarrow> justified_status dp w (gm_group m) cmd"
| "allowed dp (ProposeIntent m cid cmd) w \<longleftrightarrow> justified_intent dp w (gm_group m) cmd"
| "allowed dp _ w \<longleftrightarrow> True"

definition sound_answers :: "'e deployment \<Rightarrow> ('m, 'e) world \<Rightarrow> driver_action \<Rightarrow> driver_reply \<Rightarrow> bool" where
  "sound_answers dp w x r \<longleftrightarrow> world_inv dp w \<and> answers w x r"

abbreviation ensures :: "'e deployment \<Rightarrow> 'a driver_prog \<Rightarrow> ('a \<Rightarrow> ('m, 'e) world \<Rightarrow> bool) \<Rightarrow> ('m, 'e) world \<Rightarrow> bool" where
  "ensures dp \<equiv> holds_after grown (sound_answers dp) (allowed dp)"

interpretation calls: growing_world grown "sound_answers dp" "allowed dp" PollFirst r_poll
  for dp :: "'e deployment"
proof
  show "allowed dp x w'" if "allowed dp x w" "grown w w'" for x and w w' :: "('m, 'e) world"
    using that by (cases x) (auto intro: justified_status_grows justified_intent_grows)
qed (auto intro: grown_trans)

definition plain :: "DistTxnError \<Rightarrow> bool" where
  "plain e \<longleftrightarrow> (case e of DtAborted _ \<Rightarrow> False | _ \<Rightarrow> True)"

lemma plain_simps [simp]:
  "plain (DtConsensus a)" "plain (DtRead b)" "plain (DtEncode s)" "plain (DtInvalidRequest s)" "plain (DtPrepareRejected p)"
  "plain (DtIdempotencyConflict t)" "plain (DtOutcomeAmbiguous t s)" "plain (DtUnavailable s)" "plain (DtClock s)" "plain (DtFault s)"
  "plain (DtIo s)" "plain (DtCorruptCheckpoint s)" "\<not> plain (DtAborted reason)"
  by (simp_all add: plain_def)

lemma propose_failure_plain: "propose_failure e \<Longrightarrow> plain e"
  by (cases e) (auto simp: plain_def)

lemma control_error_plain [simp]: "plain (control_error tx e)"
  by (cases e) simp_all

text \<open>The outcome of a call that may fail: an error claims nothing, a success has \<open>P\<close>.\<close>

definition or_error :: "('a \<Rightarrow> 'w \<Rightarrow> bool) \<Rightarrow> DistTxnError + 'a \<Rightarrow> 'w \<Rightarrow> bool" where
  "or_error P x w = (case x of Inl e \<Rightarrow> plain e | Inr a \<Rightarrow> P a w)"

lemma or_error_simps [simp]: "or_error P (Inl e) w = plain e" "or_error P (Inr a) w = P a w"
  by (simp_all add: or_error_def)

section \<open>Retries\<close>

lemma ensures_try_members:
  assumes "\<And>m w'. m \<in> set ms \<Longrightarrow> grown w w' \<Longrightarrow> ensures dp (call m) (or_error (P m)) w'"
  shows "ensures dp (try_members call ms last_error)
    (\<lambda>out v. case out of Inr _ \<Rightarrow> True | Inl x \<Rightarrow> or_error (\<lambda>(m, a) v. m \<in> set ms \<and> P m a v) x v) w"
  using assms
proof (induction ms arbitrary: w last_error)
  case (Cons m ms)
  let ?Q = "\<lambda>ms out v. case out of Inr _ \<Rightarrow> True | Inl x \<Rightarrow> or_error (\<lambda>(m, a) v. m \<in> set ms \<and> P m a v) x v"
  have "ensures dp (call m) (or_error (P m)) w" by (rule Cons.prems) simp_all
  moreover have "ensures dp (case x of Inr answer \<Rightarrow> Ret (Inl (Inr (m, answer)))
      | Inl e \<Rightarrow> if retryable e then try_members call ms (Some e) else Ret (Inl (Inl e))) (?Q (m # ms)) w'"
    if "grown w w'" "or_error (P m) x w'" for x w'
  proof (cases x)
    case (Inl e)
    have "ensures dp (try_members call ms (Some e)) (?Q ms) w'"
      using that(1) by (intro Cons.IH Cons.prems) (auto intro: grown_trans)
    then have "ensures dp (try_members call ms (Some e)) (?Q (m # ms)) w'"
      by (rule calls.after_mono) (auto simp: or_error_def split: sum.splits)
    with Inl that(2) show ?thesis by simp
  qed (use that in simp)
  ultimately have "ensures dp (bind (call m) (\<lambda>x. case x of Inr answer \<Rightarrow> Ret (Inl (Inr (m, answer)))
      | Inl e \<Rightarrow> if retryable e then try_members call ms (Some e) else Ret (Inl (Inl e)))) (?Q (m # ms)) w"
    by (rule calls.after_seq)
  then show ?case by simp
qed simp

lemma leaders_first_members: "set (leaders_first members claims claims') \<subseteq> set members"
  by (auto simp: leaders_first_def dest: set_zip_leftD)

lemma ensures_free: "allowed dp x w \<Longrightarrow> ensures dp (ask x sel) (\<lambda>_ _. True) w"
  by (rule calls.after_ask) simp_all

lemma ensures_rounds:
  assumes "\<And>m w'. m \<in> set members \<Longrightarrow> grown w w' \<Longrightarrow> ensures dp (call m) (or_error (P m)) w'"
  shows "ensures dp (retry_rounds dv members label call rounds) (or_error (\<lambda>(m, a) v. m \<in> set members \<and> P m a v)) w"
  using assms
proof (induction dv members label call rounds arbitrary: w rule: retry_rounds.induct)
  case (1 dv members label call rounds)
  let ?Q = "or_error (\<lambda>(m, a) v. m \<in> set members \<and> P m a v)"
  let ?next = "\<lambda>last_error c. case c of
             Some e \<Rightarrow> Ret (Inl (control_error (dv_texts dv) e))
           | None \<Rightarrow>
               if cfg_max_propose_rounds (dv_config dv) \<le> Suc rounds
               then Ret (Inl (DtUnavailable (unavailable_text (dv_texts dv) label (Suc rounds) last_error)))
               else retry_rounds dv members label call (Suc rounds)"
  let ?round = "\<lambda>out. case out of Inl result \<Rightarrow> Ret result | Inr last_error \<Rightarrow> bind (ask CheckControl r_control) (?next last_error)"
  have next_ok: "ensures dp (?next last_error c) ?Q u" if "grown w u" for c u last_error
  proof (cases "c = None \<and> \<not> cfg_max_propose_rounds (dv_config dv) \<le> Suc rounds")
    case True
    have "ensures dp (retry_rounds dv members label call (Suc rounds)) ?Q u"
      using True that by (intro "1.IH" "1.prems") (auto intro: grown_trans)
    with True show ?thesis by simp
  qed (auto split: option.splits)
  have again: "ensures dp (bind (ask CheckControl r_control) (?next last_error)) ?Q v" if "grown w v" for v last_error
    by (rule calls.after_seq [OF ensures_free], simp, rule next_ok, rule grown_trans [OF that])
  have round: "ensures dp (bind (try_members call (leaders_first members claims claims') None) ?round) ?Q v"
    if "grown w v" for claims claims' v
  proof (rule calls.after_seq [OF ensures_try_members])
    show "ensures dp (call m) (or_error (P m)) u" if "m \<in> set (leaders_first members claims claims')" "grown v u" for m u
      using that \<open>grown w v\<close> leaders_first_members by (intro "1.prems") (blast intro: grown_trans)+
  next
    fix out :: "(DistTxnError + group_member \<times> 'c) + DistTxnError option" and u assume "grown v u" "case out of Inr _ \<Rightarrow> True
      | Inl x \<Rightarrow> or_error (\<lambda>(m, a) v. m \<in> set (leaders_first members claims claims') \<and> P m a v) x u"
    then show "ensures dp (?round out) ?Q u"
      using again [of u] grown_trans [OF \<open>grown w v\<close>] leaders_first_members [of members claims claims']
      by (cases out) (auto simp: or_error_def split: sum.splits)
  qed
  show ?case
    by (subst retry_rounds.simps, rule calls.after_seq [OF ensures_free], simp, rule calls.after_seq [OF ensures_free], simp,
        rule round, blast intro: grown_trans)
qed

lemma ensures_retry:
  assumes "\<And>m w'. m \<in> set members \<Longrightarrow> grown w w' \<Longrightarrow> ensures dp (call m) (or_error (P m)) w'"
  shows "ensures dp (retry_across_members dv members label call) (or_error (\<lambda>(m, a) v. m \<in> set members \<and> P m a v)) w"
  using ensures_rounds [of members w dp call P dv label 0] assms by (simp add: retry_across_members_def)

text \<open>The two rules for \<open>?\<close>: the continuation starts from what the first part ensures.\<close>

lemma ensures_attempt:
  assumes "ensures dp p (or_error P) w" and "\<And>a w'. grown w w' \<Longrightarrow> P a w' \<Longrightarrow> ensures dp (f a) (or_error Q) w'"
  shows "ensures dp (attempt_then p f) (or_error Q) w"
  using assms by (rule calls.after_attempt) simp_all

lemma ensures_map_error:
  assumes "ensures dp p (or_error P) w" and "\<And>e. plain (g e)"
  shows "ensures dp (map_error g p) (or_error P) w"
  using assms by (intro calls.after_map_error [OF assms(1)]) simp_all

lemma ensures_weaken:
  assumes "ensures dp p P w" and "\<And>a w'. P a w' \<Longrightarrow> Q a w'"
  shows "ensures dp p Q w"
  by (rule calls.after_mono [OF assms(1)]) (rule assms(2))

lemma ensures_propose_status:
  assumes "\<And>m. m \<in> set members \<Longrightarrow> justified_status dp w (gm_group m) cmd"
  shows "ensures dp (propose_status dv members label cid cmd) (or_error (\<lambda>x v. fst x \<in> set members)) w"
proof -
  have "ensures dp (ask (ProposeStatus m cid cmd) r_status) (or_error (\<lambda>_ _. True)) w'" if "m \<in> set members" "grown w w'" for m w'
    using assms [OF that(1)] that(2)
    by (intro calls.after_ask) (auto simp: sound_answers_def elim!: answers.cases intro: justified_status_grows propose_failure_plain)
  then have "ensures dp (propose_status dv members label cid cmd) (or_error (\<lambda>(m, a) v. m \<in> set members \<and> True)) w"
    unfolding propose_status_def by (rule ensures_retry)
  then show ?thesis by (rule ensures_weaken) (auto simp: or_error_def split: sum.splits)
qed

lemma ensures_propose_intent:
  assumes "\<And>m. m \<in> set members \<Longrightarrow> justified_intent dp w (gm_group m) cmd"
  shows "ensures dp (propose_intent dv members label cid cmd) (or_error (\<lambda>x v. fst x \<in> set members)) w"
proof -
  have "ensures dp (ask (ProposeIntent m cid cmd) r_intent) (or_error (\<lambda>_ _. True)) w'" if "m \<in> set members" "grown w w'" for m w'
    using assms [OF that(1)] that(2)
    by (intro calls.after_ask) (auto simp: sound_answers_def elim!: answers.cases intro: justified_intent_grows propose_failure_plain)
  then have "ensures dp (propose_intent dv members label cid cmd) (or_error (\<lambda>(m, a) v. m \<in> set members \<and> True)) w"
    unfolding propose_intent_def by (rule ensures_retry)
  then show ?thesis by (rule ensures_weaken) (auto simp: or_error_def split: sum.splits)
qed

lemma ensures_now: "ensures dp driver_now (or_error (\<lambda>_ _. True)) w"
  unfolding driver_now_def by (rule calls.after_map_error [OF ensures_free]) simp_all

lemma ensures_inject: "ensures dp (inject name) (or_error (\<lambda>_ _. True)) w"
  unfolding inject_def by (rule calls.after_seq [OF ensures_free]) (auto split: option.splits)

lemma ensures_hook: "ensures dp (post_decision_after_hook t) (or_error (\<lambda>_ _. True)) w"
  unfolding post_decision_after_hook_def by (rule calls.after_seq [OF ensures_free]) (auto split: option.splits)

section \<open>Reading the record\<close>

definition knows :: "'e deployment \<Rightarrow> TransactionId \<Rightarrow> txn_record \<Rightarrow> ('m, 'e) world \<Rightarrow> bool" where
  "knows dp t r w \<longleftrightarrow>
     (\<exists>g. \<exists>st \<in> status_states w g. status_get st t = Some r \<and> tr_txn_id r = t \<and>
        coordinator_for (dp_driver dp) (dp_request dp t) = Inr (g, tr_participants r))"

lemma knows_grows: "knows dp t r w \<Longrightarrow> grown w w' \<Longrightarrow> knows dp t r w'"
  unfolding knows_def grown_def by blast

lemma knows_decided: "knows dp t r w \<Longrightarrow> decision_of (tr_state r) = Some d \<Longrightarrow> decided w t d"
  unfolding knows_def decided_def by blast

lemma knows_state:
  assumes "world_inv dp w" "st \<in> status_states w g" "status_get st t = Some r"
  shows "knows dp t r w"
  using status_fact(1,2) [OF assms] assms unfolding knows_def by blast

lemma knows_now: "world_inv dp w \<Longrightarrow> status_get (status_now w g) t = Some r \<Longrightarrow> knows dp t r w"
  using knows_state now_in_states(1) by blast

lemma ensures_local_record:
  "ensures dp (ask (LocalRecord m t) r_record) (\<lambda>x v. case x of None \<Rightarrow> True | Some r \<Rightarrow> knows dp t r v) w"
  by (rule calls.after_ask) (auto simp: sound_answers_def intro: knows_state elim!: answers.cases split: option.splits)

lemma ensures_read_record:
  "ensures dp (read_record dv status t) (or_error (\<lambda>x v. case x of None \<Rightarrow> True | Some r \<Rightarrow> knows dp t r v)) w"
proof -
  let ?P = "\<lambda>x v. case x of None \<Rightarrow> True | Some r \<Rightarrow> knows dp t r v"
  have "ensures dp (ask (ConsistentRecord m t) r_read) (or_error ?P) w'" for m w'
    by (rule calls.after_ask)
      (auto simp: sound_answers_def intro: knows_now elim!: answers.cases split: option.splits)
  then show ?thesis
    unfolding read_record_def by (intro ensures_attempt [OF ensures_retry [where P = "\<lambda>_. ?P"]]) auto
qed

lemma ensures_read_back: "ensures dp (read_back dv status t failed missing) (or_error (\<lambda>r v. knows dp t r v)) w"
  unfolding read_back_def
  by (rule ensures_attempt [OF ensures_map_error [OF ensures_read_record]]) (auto split: option.splits)

section \<open>Resolutions and decisions\<close>

lemma ensures_broadcast:
  assumes "decided w t d"
  shows "ensures dp (broadcast_resolve dv members_of t ps d report) (\<lambda>_ _. True) w"
  using assms
proof (induction ps arbitrary: w report)
  case (Cons p ps)
  have "ensures dp (bind (propose_intent dv members ''participant resolve'' cid (Resolve t d))
      (\<lambda>x. broadcast_resolve dv members_of t ps d (f x))) (\<lambda>_ _. True) w" for members cid f
    by (rule calls.after_seq [OF ensures_propose_intent])
      (auto simp: Cons.prems intro: Cons.IH decided_grows [OF Cons.prems])
  then show ?case using Cons by (auto split: option.splits)
qed simp

definition commit_answer :: "TransactionId \<Rightarrow> DistTxnError + txn_outcome \<Rightarrow> ('m, 'e) world \<Rightarrow> bool" where
  "commit_answer t x w \<longleftrightarrow>
     (case x of
        Inr out \<Rightarrow> decided w t (DecideCommit (to_commit_ts out))
      | Inl e \<Rightarrow> (case e of DtAborted reason \<Rightarrow> decided w t (DecideAbort reason) | _ \<Rightarrow> True))"

lemma commit_answer_plain: "plain e \<Longrightarrow> commit_answer t (Inl e) w"
  by (cases e) (auto simp: commit_answer_def)

lemma commit_answer_simps [simp]:
  "commit_answer t (Inr out) w = decided w t (DecideCommit (to_commit_ts out))"
  "commit_answer t (Inl (DtAborted reason)) w = decided w t (DecideAbort reason)"
  by (simp_all add: commit_answer_def)

lemma ensures_attempt_answer:
  assumes "ensures dp p (or_error P) w" and "\<And>a w'. grown w w' \<Longrightarrow> P a w' \<Longrightarrow> ensures dp (f a) (commit_answer t) w'"
  shows "ensures dp (attempt_then p f) (commit_answer t) w"
  using assms by (rule calls.after_attempt) (simp_all add: commit_answer_plain)

definition state_decided :: "TransactionId \<Rightarrow> DistributedTxnState \<Rightarrow> ('m, 'e) world \<Rightarrow> bool" where
  "state_decided t s w \<longleftrightarrow> (\<exists>d. decision_of s = Some d \<and> decided w t d)"

lemma state_decided_simps [simp]:
  "state_decided t (Committed ts) w = decided w t (DecideCommit ts)"
  "state_decided t (Aborted reason) w = decided w t (DecideAbort reason)"
  by (simp_all add: state_decided_def)

text \<open>Once the decision is broadcast, the rest of the call keeps what is decided.\<close>

lemma ensures_after_broadcast:
  assumes "decided w t d" and "\<And>w'. decided w' t d \<Longrightarrow> ensures dp p Q w'"
  shows "ensures dp (bind (broadcast_resolve dv members_of t ps d report) (\<lambda>_. p)) Q w"
proof (rule calls.after_seq [OF ensures_broadcast [OF assms(1)]])
  show "ensures dp p Q w'" if "grown w w'" for w' using assms decided_grows that by blast
qed

lemma ensures_finalize_decision: "ensures dp (finalize_decision dv status members_of t) (commit_answer t) w"
  unfolding finalize_decision_def
proof (rule ensures_attempt_answer [OF ensures_read_back])
  fix r w' assume r: "knows dp t r w'"
  show "ensures dp (case tr_state r of
         Committed ts \<Rightarrow>
           bind (broadcast_resolve dv members_of t (tr_participants r) (DecideCommit ts) broadcast_default) (\<lambda>_.
           attempt_then (post_decision_after_hook t) (\<lambda>_. Ret (Inr (committed_outcome t ts (tr_participants r)))))
       | Aborted reason \<Rightarrow>
           bind (broadcast_resolve dv members_of t (tr_participants r) (DecideAbort reason) broadcast_default) (\<lambda>_.
           bind (post_decision_after_hook t) (\<lambda>_. Ret (Inl (DtAborted reason))))
       | state \<Rightarrow>
           Ret (Inl (DtOutcomeAmbiguous t (''decision is not durable; record state is '' @ tx_debug_state (dv_texts dv) state))))
      (commit_answer t) w'"
  proof (cases "tr_state r")
    case (Committed ts)
    have "decided w' t (DecideCommit ts)" using knows_decided [OF r] Committed by simp
    then show ?thesis unfolding Committed
      by (auto simp: committed_outcome_def intro!: ensures_after_broadcast ensures_attempt_answer [OF ensures_hook] elim: decided_grows)
  next
    case (Aborted reason)
    have "decided w' t (DecideAbort reason)" using knows_decided [OF r] Aborted by simp
    then show ?thesis unfolding Aborted
      by (auto intro!: ensures_after_broadcast calls.after_seq [OF ensures_hook] elim: decided_grows)
  qed (auto intro: commit_answer_plain)
qed

lemma ensures_finalize_abort:
  "ensures dp (finalize_abort dv status members_of t reason) (or_error (state_decided t)) w"
  unfolding finalize_abort_def
proof (rule ensures_attempt [OF ensures_inject], rule ensures_attempt [OF ensures_map_error [OF ensures_propose_status]],
    simp, simp, rule ensures_attempt [OF ensures_read_back])
  fix r w' assume r: "knows dp t r w'"
  show "ensures dp (case tr_state r of
         Committed ts \<Rightarrow>
           bind (broadcast_resolve dv members_of t (tr_participants r) (DecideCommit ts) broadcast_default) (\<lambda>_.
           attempt_then (post_decision_after_hook t) (\<lambda>_. Ret (Inr (Committed ts))))
       | Aborted reason \<Rightarrow>
           bind (broadcast_resolve dv members_of t (tr_participants r) (DecideAbort reason) broadcast_default) (\<lambda>_.
           bind (post_decision_after_hook t) (\<lambda>_. Ret (Inr (Aborted reason))))
       | state \<Rightarrow>
           Ret (Inl (DtOutcomeAmbiguous t (''abort is not durable; record state is '' @ tx_debug_state (dv_texts dv) state))))
      (or_error (state_decided t)) w'"
  proof (cases "tr_state r")
    case (Committed ts)
    have "decided w' t (DecideCommit ts)" using knows_decided [OF r] Committed by simp
    then show ?thesis unfolding Committed
      by (auto intro!: ensures_after_broadcast ensures_attempt [OF ensures_hook] elim: decided_grows)
  next
    case (Aborted reason)
    have "decided w' t (DecideAbort reason)" using knows_decided [OF r] Aborted by simp
    then show ?thesis unfolding Aborted
      by (auto intro!: ensures_after_broadcast calls.after_seq [OF ensures_hook] elim: decided_grows)
  qed auto
qed

lemma ensures_answer_after_abort:
  "ensures dp (answer_after_abort dv status members_of r t reason detail) (commit_answer t) w"
  unfolding answer_after_abort_def
  by (rule ensures_attempt_answer [OF ensures_finalize_abort])
    (auto simp: committed_outcome_def state_decided_def intro: commit_answer_plain split: DistributedTxnState.splits)

lemma ensures_decide_commit:
  assumes "\<And>wr. wr \<in> set (cr_writes (dp_request dp t)) \<Longrightarrow> seen_at w (group_of wr) t"
  shows "ensures dp (decide_commit dv status members_of t prepared seen) (commit_answer t) w"
  unfolding decide_commit_def
proof (rule calls.after_seq [OF ensures_free], simp, rule ensures_attempt_answer [OF ensures_inject],
    rule ensures_attempt_answer [OF ensures_map_error [OF ensures_propose_status]])
  fix w1 w2 m ts assume "grown w w1" "grown w1 w2"
  then show "justified_status dp w2 (gm_group m) (Commit t ts)" using assms by (auto intro: seen_grows)
qed (auto intro: ensures_finalize_decision)

section \<open>Begin, prepare and commit\<close>

lemma ensures_local_txn:
  "ensures dp (ask (LocalTxn m t) r_txn) (\<lambda>x v. case x of None \<Rightarrow> True | Some px \<Rightarrow> seen_at v (gm_group m) t) w"
  by (rule calls.after_ask) (fastforce simp: sound_answers_def seen_at_def elim!: answers.cases split: option.splits)+

lemma collect_error_plain: "collect_participants ws ps = Inl e \<Longrightarrow> plain e"
  by (induction ws ps rule: collect_participants.induct) (auto split: if_splits)

lemma select_error_plain: "select_coordinator_group sel t g ps = Inl e \<Longrightarrow> plain e"
  unfolding select_coordinator_group_def Let_def
  by (simp split: CoordinatorSelection.splits if_splits option.splits) auto

lemma coordinator_error_plain: "coordinator_for dv req = Inl e \<Longrightarrow> plain e"
  unfolding coordinator_for_def
  using collect_error_plain select_error_plain by (simp split: if_splits sum.splits) auto

lemma ensures_begin:
  assumes "cr_txn_id (dp_request dp t) = t"
  shows "ensures dp (begin_txn (dp_driver dp) status (dp_request dp t)) (or_error (knows dp t)) w"
proof -
  let ?dv = "dp_driver dp" and ?req = "dp_request dp t"
  have "ensures dp (propose_status ?dv status ''txn-status begin'' cid (Begin (begin_record ?dv ?req g ps now)))
      (or_error (\<lambda>x v. fst x \<in> set status)) w'"
    if "coordinator_for ?dv ?req = Inr (g, ps)" "validate_status_set status g = Inr ()" for w' cid g ps now
    using that assms by (intro ensures_propose_status)
      (auto simp: begin_record_def validate_status_set_def list_ex_iff split: if_splits)
  note propose = this
  have visible: "ensures dp (bind (ask (LocalRecord m t) r_record) (\<lambda>r. case r of
                  None \<Rightarrow> Ret (Inl (DtInvalidRequest ''begin committed but no record is visible''))
                | Some applied \<Rightarrow>
                    if tr_idempotency_key applied \<noteq> cr_idempotency_key ?req then Ret (Inl (DtIdempotencyConflict t))
                    else Ret (Inr applied))) (or_error (knows dp t)) w'" for m w'
    by (rule calls.after_seq [OF ensures_local_record]) (auto split: option.splits)
  have coordinator: "ensures dp (Ret (coordinator_for ?dv ?req)) (or_error (\<lambda>a v. coordinator_for ?dv ?req = Inr a)) w"
    by (cases "coordinator_for ?dv ?req") (auto dest: coordinator_error_plain)
  have set_ok: "ensures dp (Ret (validate_status_set status g)) (or_error (\<lambda>a v. validate_status_set status g = Inr ())) w'" for g w'
    by (simp add: validate_status_set_def)
  show ?thesis
    unfolding begin_txn_def Let_def assms
    apply (rule ensures_attempt [OF coordinator], clarify)
    apply (rule ensures_attempt [OF set_ok])
    apply (rule ensures_attempt [OF ensures_now])
    apply (rule ensures_attempt [OF propose], assumption, assumption)
    apply (auto intro: visible split: option.splits StatusRejectionReason.splits)
    done
qed

lemma ensures_prepare:
  fixes dp :: "'e deployment" and w :: "('m, 'e) world"
  assumes "wr \<in> set (cr_writes (dp_request dp t))"
  shows "ensures dp (prepare_participant dv members t wr) (or_error (\<lambda>token v. seen_at v (group_of wr) t)) w"
proof (cases "members = [] \<or> list_ex (\<lambda>m. gm_group m \<noteq> group_of wr) members")
  case True
  then show ?thesis by (auto simp: prepare_participant_def Let_def group_of_def)
next
  case False
  have group: "gm_group m = group_of wr" if "m \<in> set members" for m using False that by (auto simp: list_ex_iff)
  have propose: "ensures dp (propose_intent dv members label cid
      (PersistIntents t schema authz ts (stamp_intents t ts (pw_intents wr)))) (or_error (\<lambda>x v. fst x \<in> set members)) w'"
    for label cid schema authz ts w'
    using assms group by (intro ensures_propose_intent) auto
  have stored: "ensures dp (bind (ask (LocalTxn m t) r_txn) (\<lambda>stored. case stored of
                    None \<Rightarrow> Ret (Inl (DtInvalidRequest msg))
                  | Some px \<Rightarrow> attempt_then (inject after) (\<lambda>_. Ret (Inr (token px)))))
      (or_error (\<lambda>token v. seen_at v (group_of wr) t)) w'" if "m \<in> set members"
    for m msg after and w' :: "('m, 'e) world" and token :: "participant_txn \<Rightarrow> prepare_token"
  proof (rule calls.after_seq [OF ensures_local_txn])
    fix x :: "participant_txn option" and v :: "('m, 'e) world"
    assume "case x of None \<Rightarrow> True | Some px \<Rightarrow> seen_at v (gm_group m) t"
    then show "ensures dp (case x of None \<Rightarrow> Ret (Inl (DtInvalidRequest msg))
        | Some px \<Rightarrow> attempt_then (inject after) (\<lambda>_. Ret (Inr (token px)))) (or_error (\<lambda>token v. seen_at v (group_of wr) t)) v"
      using group [OF that] by (cases x) (auto intro!: ensures_attempt [OF ensures_inject] elim: seen_grows)
  qed
  show ?thesis
    using False unfolding prepare_participant_def Let_def group_of_def [symmetric]
    by (auto intro!: ensures_attempt [OF ensures_inject] ensures_attempt [OF ensures_now] ensures_attempt [OF propose]
        stored split: option.splits)
qed

lemma ensures_mark: "ensures dp (mark_prepared dv status t token seen) (\<lambda>_ _. True) w"
proof -
  have "ensures dp (propose_status dv status label cid (MarkPreparing t tablet ts seen)) (\<lambda>_ _. True) w" for label cid tablet ts
    by (rule ensures_weaken [OF ensures_propose_status]) auto
  then show ?thesis unfolding mark_prepared_def
    by (rule calls.after_attempt) (auto split: option.splits StatusRejectionReason.splits DistributedTxnState.splits)
qed

lemma ensures_mark_all: "ensures dp (mark_all dv status t seen tokens) (\<lambda>_ _. True) w"
  by (induction tokens arbitrary: w) (auto intro!: calls.after_seq [OF ensures_mark] split: sum.splits)

lemma ensures_commit_prepared:
  assumes "cr_txn_id req = t" "\<And>wr. wr \<in> set (cr_writes (dp_request dp t)) \<Longrightarrow> seen_at w (group_of wr) t"
  shows "ensures dp (commit_prepared dv status members_of req r prepared) (commit_answer t) w"
proof -
  have "ensures dp (bind (mark_all dv status t seen prepared) (\<lambda>failure. case failure of
                 Some e \<Rightarrow> answer_after_abort dv status members_of r t (reason e) detail
               | None \<Rightarrow> decide_commit dv status members_of t prepared obs)) (commit_answer t) w" for seen reason detail obs
    by (rule calls.after_seq [OF ensures_mark_all])
      (auto intro!: ensures_answer_after_abort ensures_decide_commit intro: seen_grows assms(2) split: option.splits)
  then show ?thesis
    using ensures_decide_commit [OF assms(2)] by (simp add: commit_prepared_def Let_def assms(1))
qed

lemma prepare_futures_map:
  "prepare_futures dv members_of t ws = Inr fs \<Longrightarrow>
     fs = map (\<lambda>wr. prepare_participant dv (the (map_of members_of (group_of wr))) t wr) ws"
  by (induction ws arbitrary: fs) (auto simp: group_of_def split: option.splits sum.splits)

lemma prepare_futures_error: "prepare_futures dv members_of t ws = Inl e \<Longrightarrow> plain e"
  by (induction ws arbitrary: e) (auto split: option.splits sum.splits)

lemma first_failure_none: "first_failure results = Inr tokens \<Longrightarrow> x \<in> set results \<Longrightarrow> \<exists>token. x = Inr token"
  by (induction results arbitrary: tokens rule: first_failure.induct) (auto split: sum.splits)

lemma ensures_prepares:
  fixes dp :: "'e deployment" and w :: "('m, 'e) world"
  assumes "prepare_futures dv members_of t (cr_writes (dp_request dp t)) = Inr fs"
  shows "ensures dp (run_all PollFirst r_poll fs)
    (\<lambda>results v. \<forall>tokens. first_failure results = Inr tokens \<longrightarrow> (\<forall>wr \<in> set (cr_writes (dp_request dp t)). seen_at v (group_of wr) t)) w"
proof -
  let ?ws = "cr_writes (dp_request dp t)" and ?P = "\<lambda>wr. or_error (\<lambda>token v. seen_at v (group_of wr) t)"
  have "growing_world.grows grown (?P wr)" for wr
    unfolding calls.grows_def by (auto simp: or_error_def split: sum.splits intro: seen_grows)
  then have "ensures dp (run_all PollFirst r_poll fs) (\<lambda>results v. length results = length ?ws \<and> (\<forall>i < length ?ws. ?P (?ws ! i) (results ! i) v)) w"
    unfolding prepare_futures_map [OF assms] by (intro calls.after_run_all ensures_prepare)
  then show ?thesis
  proof (rule ensures_weaken)
    fix results :: "(DistTxnError + prepare_token) list" and v :: "('m, 'e) world"
    assume all: "length results = length ?ws \<and> (\<forall>i < length ?ws. ?P (?ws ! i) (results ! i) v)"
    have "seen_at v (group_of wr) t" if ok: "first_failure results = Inr tokens" and wr: "wr \<in> set ?ws" for tokens wr
    proof -
      obtain i where i: "i < length ?ws" "wr = ?ws ! i" using wr by (auto simp: in_set_conv_nth)
      obtain token where "results ! i = Inr token" using first_failure_none [OF ok, of "results ! i"] all i by auto
      with all i show ?thesis by fastforce
    qed
    then show "\<forall>tokens. first_failure results = Inr tokens \<longrightarrow> (\<forall>wr \<in> set ?ws. seen_at v (group_of wr) t)" by blast
  qed
qed

lemma ensures_commit:
  assumes "cr_txn_id (dp_request dp t) = t"
  shows "ensures dp (commit (dp_driver dp) status members_of (dp_request dp t)) (commit_answer t) w"
  unfolding commit_def Let_def assms
proof (rule ensures_attempt_answer [OF ensures_begin [OF assms]])
  fix r w' assume r: "knows dp t r w'"
  let ?dv = "dp_driver dp" and ?req = "dp_request dp t"
  let ?prepare = "case prepare_futures ?dv members_of t (cr_writes ?req) of
                Inl e \<Rightarrow> Ret (Inl e)
              | Inr fs \<Rightarrow>
                  bind (run_all PollFirst r_poll fs) (\<lambda>results.
                    case first_failure results of
                      Inl e \<Rightarrow>
                        answer_after_abort ?dv status members_of r t (abort_reason_of (dv_texts ?dv) e)
                          ''abort after a failed prepare is not durable; state is ''
                    | Inr prepared \<Rightarrow> commit_prepared ?dv status members_of ?req r prepared)"
  have prepare: "ensures dp ?prepare (commit_answer t) w'"
  proof (cases "prepare_futures ?dv members_of t (cr_writes ?req)")
    case (Inl e)
    then show ?thesis by (auto intro: commit_answer_plain prepare_futures_error)
  next
    case (Inr fs)
    show ?thesis unfolding Inr sum.case
      by (rule calls.after_seq [OF ensures_prepares [OF Inr]])
        (auto intro!: ensures_answer_after_abort ensures_commit_prepared [OF assms] split: sum.splits)
  qed
  show "ensures dp (case tr_state r of
           Committed ts \<Rightarrow>
             bind (broadcast_resolve ?dv members_of t (tr_participants r) (DecideCommit ts) broadcast_default) (\<lambda>_.
             Ret (Inr (committed_outcome t ts (tr_participants r))))
         | Aborted reason \<Rightarrow>
             bind (broadcast_resolve ?dv members_of t (tr_participants r) (DecideAbort reason) broadcast_default) (\<lambda>_.
             Ret (Inl (DtAborted reason)))
         | _ \<Rightarrow> ?prepare) (commit_answer t) w'"
    using knows_decided [OF r] prepare
    by (auto simp: committed_outcome_def intro!: ensures_after_broadcast split: DistributedTxnState.splits)
qed

section \<open>Recovery, orphans and sweeps\<close>

lemma ensures_first_visible:
  fixes dp :: "'e deployment" and w :: "('m, 'e) world"
  assumes "\<And>m. m \<in> set ms \<Longrightarrow> gm_group m = g"
  shows "ensures dp (first_visible t ms) (\<lambda>x v. case x of None \<Rightarrow> True | Some px \<Rightarrow> seen_at v g t) w"
  using assms
proof (induction ms arbitrary: w)
  case (Cons m ms w)
  let ?Q = "\<lambda>x v. case x of None \<Rightarrow> True | Some px \<Rightarrow> seen_at v g t"
  have "ensures dp (first_visible t ms) ?Q v" for v :: "('m, 'e) world" using Cons.prems by (intro Cons.IH) simp
  then have "ensures dp (case x of Some px \<Rightarrow> Ret (Some px) | None \<Rightarrow> first_visible t ms) ?Q v"
    if "case x of None \<Rightarrow> True | Some px \<Rightarrow> seen_at v (gm_group m) t" for x and v :: "('m, 'e) world"
    using that Cons.prems [of m] by (cases x) simp_all
  then have "ensures dp (bind (ask (LocalTxn m t) r_txn) (\<lambda>x. case x of Some px \<Rightarrow> Ret (Some px) | None \<Rightarrow> first_visible t ms)) ?Q w"
    by (rule calls.after_seq [OF ensures_local_txn])
  then show ?case by simp
qed simp

lemma ensures_probe:
  assumes "members_keyed members_of"
  shows "ensures dp (probe_participant members_of p t) (\<lambda>x v. case x of None \<Rightarrow> True | Some px \<Rightarrow> seen_at v (tp_raft_group_id p) t) w"
proof -
  have "gm_group m = tp_raft_group_id p" if "map_of members_of (tp_raft_group_id p) = Some ms" "m \<in> set ms" for ms m
    using assms map_of_SomeD [OF that(1)] that(2) by (auto simp: members_keyed_def list_all_iff)
  then show ?thesis unfolding probe_participant_def
    by (cases "map_of members_of (tp_raft_group_id p)") (simp_all add: ensures_first_visible)
qed

lemma ensures_probe_all:
  fixes dp :: "'e deployment" and w :: "('m, 'e) world"
  assumes "members_keyed members_of"
  shows "ensures dp (probe_all members_of t ps prepare_ts n)
    (\<lambda>x v. n \<le> snd x \<and> (snd x = n \<longrightarrow> (\<forall>p \<in> set ps. seen_at v (tp_raft_group_id p) t))) w"
proof (induction ps arbitrary: prepare_ts n w)
  case (Cons p ps prepare_ts n w)
  let ?Q = "\<lambda>ps n x v. n \<le> snd x \<and> (snd x = n \<longrightarrow> (\<forall>p \<in> set ps. seen_at v (tp_raft_group_id p) t))"
  have "ensures dp (case x of
        Some px \<Rightarrow>
          if px_resolution px = None then probe_all members_of t ps (prepare_ts @ [px_prepare_ts px]) n
          else probe_all members_of t ps prepare_ts (Suc n)
      | None \<Rightarrow> probe_all members_of t ps prepare_ts (Suc n)) (?Q (p # ps) n) v"
    if x: "case x of None \<Rightarrow> True | Some px \<Rightarrow> seen_at v (tp_raft_group_id p) t" for x and v :: "('m, 'e) world"
  proof -
    have missing: "ensures dp (probe_all members_of t ps prepare_ts (Suc n)) (?Q (p # ps) n) v"
      by (rule ensures_weaken [OF Cons.IH]) auto
    have present: "ensures dp (probe_all members_of t ps ts n) (?Q (p # ps) n) v" if "seen_at v (tp_raft_group_id p) t" for ts
      by (rule calls.after_mono [OF Cons.IH]) (auto intro: seen_grows [OF that])
    show ?thesis using missing present x by (auto split: option.splits)
  qed
  then have "ensures dp (bind (probe_participant members_of p t) (\<lambda>x. case x of
        Some px \<Rightarrow>
          if px_resolution px = None then probe_all members_of t ps (prepare_ts @ [px_prepare_ts px]) n
          else probe_all members_of t ps prepare_ts (Suc n)
      | None \<Rightarrow> probe_all members_of t ps prepare_ts (Suc n))) (?Q (p # ps) n) w"
    by (rule calls.after_seq [OF ensures_probe [OF assms]])
  then show ?case by simp
qed simp

lemma collect_participants_map: "collect_participants ws ps = Inr qs \<Longrightarrow> qs = ps @ map pw_participant ws"
  by (induction ws ps rule: collect_participants.induct) (auto split: if_splits)

lemma coordinator_participants: "coordinator_for dv req = Inr (g, ps) \<Longrightarrow> ps = map pw_participant (cr_writes req)"
  by (auto simp: coordinator_for_def dest: collect_participants_map split: if_splits sum.splits)

definition recovery_answer :: "TransactionId \<Rightarrow> RecoveryOutcome \<Rightarrow> ('m, 'e) world \<Rightarrow> bool" where
  "recovery_answer t out w \<longleftrightarrow> (case out of RecoveryDecided s \<Rightarrow> state_decided t s w | _ \<Rightarrow> True)"

lemma ensures_drive_decision:
  assumes "knows dp t r w" "\<And>p. p \<in> set (tr_participants r) \<Longrightarrow> seen_at w (tp_raft_group_id p) t"
  shows "ensures dp (drive_decision dv status members_of t r prepare_ts) (or_error (recovery_answer t)) w"
proof -
  have "tr_participants r = map pw_participant (cr_writes (dp_request dp t))"
    using assms(1) coordinator_participants unfolding knows_def by blast
  then have seen: "seen_at w (group_of wr) t" if "wr \<in> set (cr_writes (dp_request dp t))" for wr
    using that assms(2) by (auto simp: group_of_def)
  have finish: "ensures dp (bind (finalize_decision dv status members_of t) (\<lambda>out. case out of
        Inr outcome \<Rightarrow> Ret (Inr (RecoveryDecided (Committed (to_commit_ts outcome))))
      | Inl (DtAborted reason) \<Rightarrow> Ret (Inr (RecoveryDecided (Aborted reason)))
      | Inl e \<Rightarrow> Ret (Inl e))) (or_error (recovery_answer t)) w'" for w'
    by (rule calls.after_seq [OF ensures_finalize_decision])
      (auto simp: recovery_answer_def split: sum.splits DistTxnError.splits)
  show ?thesis
    unfolding drive_decision_def
    by (rule calls.after_seq [OF ensures_free], simp, rule ensures_attempt [OF ensures_propose_status])
      (auto intro: finish seen_grows [OF seen])
qed

lemma ensures_recover:
  fixes dp :: "'e deployment" and w :: "('m, 'e) world"
  assumes "members_keyed members_of"
  shows "ensures dp (recover dv status members_of t now) (or_error (recovery_answer t)) w"
  unfolding recover_def
proof (rule ensures_attempt [OF ensures_read_record])
  fix found and w1 :: "('m, 'e) world"
  assume found: "case found of None \<Rightarrow> True | Some r \<Rightarrow> knows dp t r w1"
  let ?probe = "\<lambda>r. bind (probe_all members_of t (tr_participants r) [] 0) (\<lambda>(prepare_ts, missing).
                 if missing = 0 then drive_decision dv status members_of t r prepare_ts
                 else if expired r now then
                   attempt_then (finalize_abort dv status members_of t (DistCancelled (expiry_text dv r ''recovery''))) (\<lambda>state.
                   Ret (Inr (RecoveryDecided state)))
                 else Ret (Inr (RecoveryInFlight missing)))"
  have push: "ensures dp (attempt_then (finalize_abort dv status members_of t reason) (\<lambda>state. Ret (Inr (RecoveryDecided state))))
      (or_error (recovery_answer t)) v" for reason and v :: "('m, 'e) world"
    by (rule ensures_attempt [OF ensures_finalize_abort]) (simp add: recovery_answer_def)
  have probe: "ensures dp (?probe r) (or_error (recovery_answer t)) w1" if r: "knows dp t r w1" for r
  proof (rule calls.after_seq [OF ensures_probe_all [OF assms]])
    fix x :: "HlcTimestamp list \<times> nat" and v :: "('m, 'e) world"
    assume v: "grown w1 v" "0 \<le> snd x \<and> (snd x = 0 \<longrightarrow> (\<forall>p \<in> set (tr_participants r). seen_at v (tp_raft_group_id p) t))"
    show "ensures dp (case x of (prepare_ts, missing) \<Rightarrow>
                 if missing = 0 then drive_decision dv status members_of t r prepare_ts
                 else if expired r now then
                   attempt_then (finalize_abort dv status members_of t (DistCancelled (expiry_text dv r ''recovery''))) (\<lambda>state.
                   Ret (Inr (RecoveryDecided state)))
                 else Ret (Inr (RecoveryInFlight missing))) (or_error (recovery_answer t)) v"
      using v knows_grows [OF r v(1)] push
      by (cases x) (auto simp: recovery_answer_def intro!: ensures_drive_decision)
  qed
  show "ensures dp (case found of
        None \<Rightarrow> Ret (Inr RecoveryNotFound)
      | Some r \<Rightarrow>
          (case tr_state r of
             Committed ts \<Rightarrow>
               bind (broadcast_resolve dv members_of t (tr_participants r) (DecideCommit ts) broadcast_default) (\<lambda>_.
               Ret (Inr (RecoveryDecided (Committed ts))))
           | Aborted reason \<Rightarrow>
               bind (broadcast_resolve dv members_of t (tr_participants r) (DecideAbort reason) broadcast_default) (\<lambda>_.
               Ret (Inr (RecoveryDecided (Aborted reason))))
           | _ \<Rightarrow> ?probe r)) (or_error (recovery_answer t)) w1"
    using found probe knows_decided [of dp t _ w1]
    by (auto simp: recovery_answer_def intro!: ensures_after_broadcast split: option.splits DistributedTxnState.splits)
qed

definition push_answer :: "TransactionId \<Rightarrow> PushOutcome \<Rightarrow> ('m, 'e) world \<Rightarrow> bool" where
  "push_answer t out w \<longleftrightarrow>
     (case out of PushTerminal s \<Rightarrow> state_decided t s w | Pushed s \<Rightarrow> state_decided t s w | _ \<Rightarrow> True)"

lemma ensures_push:
  "ensures dp (push_expired dv status members_of t now) (or_error (push_answer t)) w"
  unfolding push_expired_def
proof (rule ensures_attempt [OF ensures_read_record])
  fix found w1
  assume found: "case found of None \<Rightarrow> True | Some r \<Rightarrow> knows dp t r w1"
  have push: "ensures dp (attempt_then (finalize_abort dv status members_of t reason) (\<lambda>state. Ret (Inr (Pushed state))))
      (or_error (push_answer t)) v" for reason v
    by (rule ensures_attempt [OF ensures_finalize_abort]) (simp add: push_answer_def)
  show "ensures dp (case found of
        None \<Rightarrow> Ret (Inr PushNotFound)
      | Some r \<Rightarrow>
          (case tr_state r of
             Committed ts \<Rightarrow>
               bind (broadcast_resolve dv members_of t (tr_participants r) (DecideCommit ts) broadcast_default) (\<lambda>_.
               Ret (Inr (PushTerminal (Committed ts))))
           | Aborted reason \<Rightarrow>
               bind (broadcast_resolve dv members_of t (tr_participants r) (DecideAbort reason) broadcast_default) (\<lambda>_.
               Ret (Inr (PushTerminal (Aborted reason))))
           | _ \<Rightarrow>
               if \<not> expired r now then Ret (Inr NotExpired)
               else attempt_then (finalize_abort dv status members_of t (DistCancelled (expiry_text dv r ''a third party''))) (\<lambda>state.
                    Ret (Inr (Pushed state))))) (or_error (push_answer t)) w1"
    using found push knows_decided [of dp t _ w1]
    by (auto simp: push_answer_def intro!: ensures_after_broadcast split: option.splits DistributedTxnState.splits)
qed

definition orphan_answer :: "TransactionId \<Rightarrow> OrphanOutcome \<Rightarrow> ('m, 'e) world \<Rightarrow> bool" where
  "orphan_answer t out w \<longleftrightarrow>
     (case out of
        ResolvedCommit ts \<Rightarrow> decided w t (DecideCommit ts)
      | ResolvedAbort reason \<Rightarrow> decided w t (DecideAbort reason)
      | PushedAbort reason \<Rightarrow> decided w t (DecideAbort reason)
      | _ \<Rightarrow> True)"

lemma orphan_answer_outcome: "decided w t d \<Longrightarrow> orphan_answer t (orphan_outcome d pushed_now) w"
  by (cases d) (simp_all add: orphan_answer_def orphan_outcome_def)

lemma ensures_resolve_local:
  assumes "decided w t d"
  shows "ensures dp (resolve_local dv members r t d) (or_error (\<lambda>_ v. decided v t d)) w"
  unfolding resolve_local_def
  by (rule calls.after_mono [OF ensures_propose_intent])
    (auto simp: assms or_error_def decided_grows [OF assms] split: sum.splits)

lemma ensures_abort_for_one:
  fixes dp :: "'e deployment" and w :: "('m, 'e) world"
  assumes "tr_txn_id r = t"
  shows "ensures dp (finalize_abort_for_one dv status members r reason) (or_error (state_decided t)) w"
proof -
  let ?resolve = "\<lambda>found. case found of
            None \<Rightarrow> Ret (Inl (DtOutcomeAmbiguous t ''no coordinator record after the orphan push''))
          | Some r' \<Rightarrow>
              (case decision_of (tr_state r') of
                 None \<Rightarrow>
                   Ret (Inl (DtOutcomeAmbiguous t (''orphan push is not durable; state is '' @ tx_debug_state (dv_texts dv) (tr_state r'))))
               | Some d \<Rightarrow> attempt_then (resolve_local dv members r t d) (\<lambda>_. Ret (Inr (tr_state r'))))"
  have "ensures dp (?resolve found) (or_error (state_decided t)) v"
    if found: "case found of None \<Rightarrow> True | Some r \<Rightarrow> knows dp t r v" for found and v :: "('m, 'e) world"
  proof (cases found)
    case (Some r')
    show ?thesis
    proof (cases "decision_of (tr_state r')")
      case d: (Some d)
      have "decided v t d" using found Some d knows_decided by auto
      then have "ensures dp (attempt_then (resolve_local dv members r t d) (\<lambda>_. Ret (Inr (tr_state r')))) (or_error (state_decided t)) v"
        by (rule ensures_attempt [OF ensures_resolve_local]) (simp add: state_decided_def d)
      with Some d show ?thesis by simp
    qed (use Some in simp)
  qed simp
  note resolve = this
  show ?thesis
    unfolding finalize_abort_for_one_def Let_def assms
    by (rule ensures_attempt [OF ensures_map_error [OF ensures_propose_status]], simp, simp,
        rule ensures_attempt [OF ensures_read_record], rule resolve)
qed

lemma ensures_resolve_orphan:
  fixes dp :: "'e deployment" and w :: "('m, 'e) world"
  shows "ensures dp (resolve_orphan dv status members t now) (or_error (orphan_answer t)) w"
  unfolding resolve_orphan_def
proof (rule ensures_attempt [OF ensures_read_record])
  fix found and w1 :: "('m, 'e) world"
  assume found: "case found of None \<Rightarrow> True | Some r \<Rightarrow> knows dp t r w1"
  have terminal: "ensures dp (attempt_then (resolve_local dv members r t d) (\<lambda>_. Ret (Inr (orphan_outcome d False)))) (or_error (orphan_answer t)) w1"
    if "decided w1 t d" for r d
    using that by (rule ensures_attempt [OF ensures_resolve_local]) (simp add: orphan_answer_outcome)
  have push: "ensures dp (attempt_then (finalize_abort_for_one dv status members r reason) (\<lambda>state.
                    case decision_of state of
                      None \<Rightarrow> Ret (Inl (DtOutcomeAmbiguous t (detail state)))
                    | Some d \<Rightarrow> Ret (Inr (orphan_outcome d True)))) (or_error (orphan_answer t)) w1" if "tr_txn_id r = t" for r reason detail
    by (rule ensures_attempt [OF ensures_abort_for_one [OF that]]) (auto simp: state_decided_def orphan_answer_outcome)
  show "ensures dp (case found of
        None \<Rightarrow> Ret (Inr UnknownRecord)
      | Some r \<Rightarrow>
          (case decision_of (tr_state r) of
             Some d \<Rightarrow> attempt_then (resolve_local dv members r t d) (\<lambda>_. Ret (Inr (orphan_outcome d False)))
           | None \<Rightarrow>
               if \<not> expired r now then Ret (Inr OrphanInFlight)
               else attempt_then (finalize_abort_for_one dv status members r
                                    (DistCancelled (expiry_text dv r ''orphan recovery''))) (\<lambda>state.
                    case decision_of state of
                      None \<Rightarrow>
                        Ret (Inl (DtOutcomeAmbiguous t (''orphan push is not durable; state is '' @ tx_debug_state (dv_texts dv) state)))
                    | Some d \<Rightarrow> Ret (Inr (orphan_outcome d True))))) (or_error (orphan_answer t)) w1"
  proof (cases found)
    case (Some r)
    then have r: "knows dp t r w1" using found by simp
    then have "tr_txn_id r = t" by (auto simp: knows_def)
    with Some push knows_decided [OF r] terminal show ?thesis by (auto simp: orphan_answer_def split: option.splits)
  qed (simp add: orphan_answer_def)
qed

lemma ensures_sweep_orphans:
  fixes dp :: "'e deployment" and w :: "('m, 'e) world"
  shows "ensures dp (sweep_orphans dv status members now) (\<lambda>_ _. True) w"
proof -
  have all: "ensures dp (resolve_orphans dv status ms now ts report) (\<lambda>_ _. True) v" for ms ts report and v :: "('m, 'e) world"
  proof (induction ts arbitrary: report v)
    case (Cons t ts)
    then show ?case by (simp, intro calls.after_attempt [OF ensures_resolve_orphan]) simp_all
  qed simp
  have fresh: "ensures dp (freshest ms best i) (\<lambda>_ _. True) v" for ms best i and v :: "('m, 'e) world"
  proof (induction ms arbitrary: best i v)
    case (Cons m ms)
    then show ?case by (simp, intro calls.after_seq [OF ensures_free]) simp_all
  qed simp
  show ?thesis
    unfolding sweep_orphans_def
    by (cases members) (auto intro!: calls.after_seq [OF ensures_free] calls.after_seq [OF fresh] all)
qed

lemma ensures_sweep_resolved:
  fixes dp :: "'e deployment" and w :: "('m, 'e) world"
  shows "ensures dp (sweep_resolved dv members now) (\<lambda>_ _. True) w"
proof -
  have most: "ensures dp (most_eligible older_than ms n) (\<lambda>_ _. True) v" for older_than ms n and v :: "('m, 'e) world"
  proof (induction ms arbitrary: n v)
    case (Cons m ms)
    then show ?case by (simp, intro calls.after_seq [OF ensures_free]) simp_all
  qed simp
  show ?thesis
    unfolding sweep_resolved_def Let_def
    by (auto intro!: calls.after_seq [OF most] calls.after_attempt [OF ensures_propose_intent] calls.after_seq [OF ensures_free])
qed

lemma ensures_heartbeat: "ensures dp (heartbeat dv status g t) (\<lambda>_ _. True) w"
proof -
  have valid: "ensures dp (Ret (validate_status_set status g)) (\<lambda>_ _. True) w" by simp
  show ?thesis
    unfolding heartbeat_def
    by (rule calls.after_attempt [OF valid], rule calls.after_attempt [OF ensures_now],
        rule calls.after_attempt [OF ensures_propose_status])
      (auto intro!: calls.after_seq [OF ensures_free] split: option.splits StatusRejectionReason.splits)
qed

section \<open>The answers of all calls\<close>

fun result_ok :: "driver_result \<Rightarrow> ('m, 'e) world \<Rightarrow> bool" where
  "result_ok (BeginResult t x) w \<longleftrightarrow> or_error (\<lambda>r v. \<forall>d. decision_of (tr_state r) = Some d \<longrightarrow> decided v t d) x w"
| "result_ok (PrepareResult t wr x) w \<longleftrightarrow> or_error (\<lambda>_ v. seen_at v (group_of wr) t) x w"
| "result_ok (CommitResult t x) w \<longleftrightarrow> commit_answer t x w"
| "result_ok (AbortResult t x) w \<longleftrightarrow> or_error (state_decided t) x w"
| "result_ok (RecoverResult t x) w \<longleftrightarrow> or_error (recovery_answer t) x w"
| "result_ok (PushResult t x) w \<longleftrightarrow> or_error (push_answer t) x w"
| "result_ok (OrphanResult t x) w \<longleftrightarrow> or_error (orphan_answer t) x w"
| "result_ok _ w \<longleftrightarrow> True"

lemma ensures_returning: "ensures dp p (\<lambda>x. result_ok (f x)) w \<Longrightarrow> ensures dp (returning f p) result_ok w"
  unfolding returning_def by (erule calls.after_seq) simp

lemma result_ok_grows: "result_ok x w \<Longrightarrow> grown w w' \<Longrightarrow> result_ok x w'"
  by (cases x)
    (auto simp: or_error_def commit_answer_def state_decided_def recovery_answer_def push_answer_def orphan_answer_def
      intro: seen_grows decided_grows
      split: sum.splits DistTxnError.splits RecoveryOutcome.splits PushOutcome.splits OrphanOutcome.splits)

lemma reported_decided: "result_ok res w \<Longrightarrow> reported res = Some (t, d) \<Longrightarrow> decided w t d"
  by (cases res rule: reported.cases)
    (auto simp: state_decided_def recovery_answer_def push_answer_def orphan_answer_def)

lemma ensures_call:
  assumes "deployment_ok dp" "call_ok dp w call" and fin: "\<And>res. Ret res \<in> set (w_tasks w) \<Longrightarrow> result_ok res w"
  shows "ensures dp (start_call dp call) result_ok w"
proof -
  have t: "cr_txn_id (dp_request dp t) = t" for t using assms(1) by (simp add: deployment_ok_def)
  have seen: "seen_at w (group_of wr) t" if "prepared_all dp w t tokens" "wr \<in> set (cr_writes (dp_request dp t))" for t tokens wr
    using that fin by (fastforce simp: prepared_all_def list_all_iff list_ex_iff)
  have dec: "decided w t d" if "decision_reported w t d" for t d
    using that unfolding decision_reported_def by (blast intro: reported_decided fin)
  show ?thesis
    using assms(2)
    by (cases call)
      (auto simp: abort_txn_def or_error_def split: sum.splits
         intro: knows_decided seen dec
         intro!: ensures_returning ensures_weaken [OF ensures_begin [OF t]] ensures_weaken [OF ensures_prepare]
         ensures_weaken [OF ensures_heartbeat] ensures_weaken [OF ensures_commit [OF t]] ensures_weaken [OF ensures_finalize_abort]
         ensures_weaken [OF ensures_recover] ensures_weaken [OF ensures_push] ensures_weaken [OF ensures_resolve_orphan]
         ensures_weaken [OF ensures_sweep_orphans] ensures_weaken [OF ensures_sweep_resolved]
         ensures_weaken [OF ensures_decide_commit] ensures_weaken [OF ensures_broadcast])
qed

end
