(* ===== verification/Dist_Run.thy ===== *)
theory Dist_Run
  imports Dist_World "HOL-Library.Countable"
begin

text \<open>
  A complete run of the protocol, step by step: one transaction with one participant is begun, prepared,
  committed and resolved. It shows that the hypotheses of the protocol's properties hold together and
  that a commit call can reach its answer. The JSON codec of the run is an injection of the commands
  into byte strings.
\<close>

section \<open>An injective codec\<close>

instance word :: (len) countable
  by (rule countable_classI [of unat]) (rule unsigned_word_eqI)

instance HlcTimestamp :: countable
  by countable_datatype

instance char :: countable
  by countable_datatype

instance DistAbortReason :: countable
  by countable_datatype

instance DistributedTxnState :: countable
  by countable_datatype

instance txn_participant_ext :: (countable) countable
  by (rule countable_classI [of "\<lambda>x. to_nat (tp_tablet_id x, tp_raft_group_id x, txn_participant.more x)"]) simp

instance txn_record_ext :: (countable) countable
  by (rule countable_classI [of "\<lambda>x. to_nat (tr_txn_id x, tr_state x, tr_participants x, tr_prepare_ts x, tr_coordinator x,
      tr_created_at x, tr_heartbeat x, tr_expiry x, tr_max_observed x, tr_idempotency_key x, txn_record.more x)"]) simp

instance write_intent_ext :: (countable) countable
  by (rule countable_classI [of "\<lambda>x. to_nat (wi_txn_id x, wi_key x, wi_value_ref x, wi_prepare_ts x, write_intent.more x)"]) simp

instance TxnDecision :: countable
  by countable_datatype

instance CoordinatorCommand :: countable
  by countable_datatype

instance IntentCommand :: countable
  by countable_datatype

text \<open>Two chosen values get one-byte codes; every other value a code that starts with a zero byte.\<close>

definition table_json :: "'c::countable \<Rightarrow> 'c \<Rightarrow> 'c \<Rightarrow> u8 list" where
  "table_json a b c = (if c = a then [1] else if c = b then [2] else 0 # replicate (to_nat c) 0)"

definition table_parse :: "'c::countable \<Rightarrow> 'c \<Rightarrow> u8 list \<Rightarrow> string + 'c" where
  "table_parse a b bs = Inr (if bs = [1] then a else if bs = [2] then b else from_nat (length bs - 1))"

lemma table_round [simp]: "table_parse a b (table_json a b c) = Inr c"
  by (simp add: table_json_def table_parse_def)

section \<open>The deployment of the run\<close>

definition run_config :: DistTxnConfig where
  "run_config = \<lparr>cfg_selection = TxnIdDerived, cfg_status_partitions = [(0, 3)], cfg_pending_timeout = 100, cfg_resolved_retention = 100,
     cfg_sweep_limit = 10, cfg_hlc_max_skew = 0, cfg_node_tiebreaker = 0, cfg_propose_retry_interval = 1, cfg_max_propose_rounds = 3\<rparr>"

definition run_texts :: driver_texts where
  "run_texts = \<lparr>tx_error = (\<lambda>_. []), tx_log_error = (\<lambda>_. []), tx_status_reason = (\<lambda>_. []), tx_prepare_reason = (\<lambda>_. []),
     tx_debug_state = (\<lambda>_. []), tx_debug_hlc = (\<lambda>_. [])\<rparr>"

definition run_driver :: driver where
  "run_driver = \<lparr>dv_config = run_config, dv_texts = run_texts, dv_sha = (\<lambda>bs. bs)\<rparr>"

definition run_writes :: participant_writes where
  "run_writes = \<lparr>pw_participant = \<lparr>tp_tablet_id = 1, tp_raft_group_id = 11\<rparr>, pw_schema_version = 0, pw_authz_version = 0,
     pw_intents = [\<lparr>wi_txn_id = 0, wi_key = [1], wi_value_ref = [2], wi_prepare_ts = HLC_ZERO\<rparr>]\<rparr>"

definition run_request :: "TransactionId \<Rightarrow> commit_request" where
  "run_request t = \<lparr>cr_txn_id = t, cr_idempotency_key = [], cr_writes = [run_writes], cr_observed = [], cr_first_write_group = None\<rparr>"

definition run_record :: txn_record where
  "run_record = begin_record run_driver (run_request 7) 3 [pw_participant run_writes] (HlcTimestamp 1 0 0)"

definition run_intents :: "write_intent list" where
  "run_intents = stamp_intents 7 (HlcTimestamp 2 0 0) (pw_intents run_writes)"

definition run_commit_ts :: HlcTimestamp where
  "run_commit_ts = HlcTimestamp 3 0 0"

definition run_begin :: CoordinatorCommand where "run_begin = Begin run_record"
definition run_commit :: CoordinatorCommand where "run_commit = Commit 7 run_commit_ts"
definition run_persist :: IntentCommand where "run_persist = PersistIntents 7 0 0 (HlcTimestamp 2 0 0) run_intents"
definition run_resolve :: IntentCommand where "run_resolve = Resolve 7 (DecideCommit run_commit_ts)"

definition run_env :: "unit participant_env" where
  "run_env = \<lparr>pe_validate = (\<lambda>_ _. Inr None), pe_apply_staged = (\<lambda>_ _ _ e. (Inr (), e)),
     pe_forward = (\<lambda>_ e. (Inr (), e)), pe_debug_decision = (\<lambda>_. [])\<rparr>"

definition run_deployment :: "unit deployment" where
  "run_deployment = \<lparr>dp_driver = run_driver, dp_retention = 4096,
     dp_status_json = table_json (versioned_new run_begin) (versioned_new run_commit),
     dp_status_parse = table_parse (versioned_new run_begin) (versioned_new run_commit),
     dp_intent_json = table_json (versioned_new run_persist) (versioned_new run_resolve),
     dp_intent_parse = table_parse (versioned_new run_persist) (versioned_new run_resolve),
     dp_env = run_env, dp_request = run_request\<rparr>"

definition status_member :: group_member where "status_member = \<lparr>gm_group = 3, gm_node = 1\<rparr>"
definition intent_member :: group_member where "intent_member = \<lparr>gm_group = 11, gm_node = 2\<rparr>"

lemma run_deployment_simps [simp]:
  "dp_driver run_deployment = run_driver" "dp_request run_deployment = run_request" "dp_env run_deployment = run_env"
  "dp_retention run_deployment = 4096" "dv_sha run_driver = (\<lambda>bs. bs)" "gm_group status_member = 3" "gm_group intent_member = 11"
  by (simp_all add: run_deployment_def run_driver_def status_member_def intent_member_def)

lemma run_coordinator: "coordinator_for run_driver (run_request t) = Inr (3, [pw_participant run_writes])"
proof -
  obtain g where "select_coordinator_group TxnIdDerived t None [(0, 3)] = Inr g" "g \<in> snd ` set [(0::u32, 3::RaftGroupId)]"
    using partition_index_published [of "[(0, 3)]" t None] by blast
  then show ?thesis by (simp add: coordinator_for_def run_request_def run_driver_def run_config_def)
qed

section \<open>Worlds with one task\<close>

definition fresh_machine :: "'k \<Rightarrow> unit sm_inner \<times> 'k" where
  "fresh_machine k = (sm_open None (None, ()), k)"

definition fresh_status :: "unit status_machine" where
  "fresh_status = fresh_machine \<lparr>sk_state = txn_status_default, sk_position = POSITION_ZERO, sk_command_id = None\<rparr>"

definition fresh_intent :: "(unit, unit) intent_machine" where
  "fresh_intent = fresh_machine \<lparr>ik_state = intent_default, ik_position = POSITION_ZERO, ik_command_id = None, ik_engine = None\<rparr>"

definition lone ::
    "unit status_machine list \<Rightarrow> (unit, unit) intent_machine list \<Rightarrow> (RaftGroupId \<times> u8 list \<times> CoordinatorCommand) set \<Rightarrow>
     (RaftGroupId \<times> u8 list \<times> IntentCommand) set \<Rightarrow> driver_result driver_prog list \<Rightarrow> (unit, unit) world" where
  "lone S I si ii ps = \<lparr>w_status = (\<lambda>g. if g = 3 then S else [fresh_status]), w_intent = (\<lambda>g. if g = 11 then I else [fresh_intent]),
     w_status_issued = si, w_intent_issued = ii, w_tasks = ps\<rparr>"

abbreviation reachable :: "(unit, unit) world \<Rightarrow> bool" where
  "reachable \<equiv> reach world_init (world_step run_deployment)"

lemma lone_states [simp]:
  "status_states (lone S I si ii ps) 3 = (\<lambda>x. sk_state (snd x)) ` set S"
  "intent_states (lone S I si ii ps) 11 = (\<lambda>x. ik_state (snd x)) ` set I"
  "status_now (lone S I si ii ps) 3 = sk_state (snd (hd S))"
  "intent_now (lone S I si ii ps) 11 = ik_state (snd (hd I))"
  by (simp_all add: lone_def status_states_def intent_states_def status_now_def intent_now_def)

lemma run_start: "reachable (lone [fresh_status] [fresh_intent] {} {} [])"
  by (rule reach_init)
    (auto simp: world_init_def lone_def fresh_status_def fresh_intent_def fresh_machine_def)

lemma run_spawn:
  assumes "reachable (lone S I si ii [])" "call_ok run_deployment (lone S I si ii []) call"
  shows "reachable (lone S I si ii [start_call run_deployment call])"
proof -
  have "world_step run_deployment (lone S I si ii []) (lone S I si ii [start_call run_deployment call])"
    using ws_start [OF assms(2)] by (simp add: lone_def)
  then show ?thesis using assms(1) by (rule reach_step [rotated])
qed

lemma run_reply:
  assumes "reachable (lone S I si ii [Act x k])" "answers (lone S I si ii [Act x k]) x r"
  shows "reachable (lone S I si ii [k r])"
proof -
  have "world_step run_deployment (lone S I si ii [Act x k]) (lone S I si ii [k r])"
    using ws_reply [of 0 "lone S I si ii [Act x k]" x k r run_deployment] assms(2) by (simp add: lone_def)
  then show ?thesis using assms(1) by (rule reach_step [rotated])
qed

lemma run_ask:
  assumes "reachable (lone S I si ii [bind (ask x sel) f])" "answers (lone S I si ii [bind (ask x sel) f]) x r"
  shows "reachable (lone S I si ii [f (sel r)])"
  using run_reply [of S I si ii x "\<lambda>r. bind (Ret (sel r)) f" r] assms by (simp add: ask_def)

section \<open>Entries of the run\<close>

definition machine_at :: "u8 list list \<Rightarrow> log_position option \<Rightarrow> unit sm_inner \<Rightarrow> bool" where
  "machine_at ids at s \<longleftrightarrow>
     recent_set s = set ids \<and> recent_command_ids (sm_record s) = ids \<and> last_applied (sm_record s) = at \<and>
     last_applied_command_id (sm_record s) = (if ids = [] then None else Some (last ids))"

lemma fresh_at: "machine_at [] None (sm_open None (None, ()))"
  by (simp add: machine_at_def sm_open_def applied_record_default_def)

lemma evict_fits: "length xs \<le> retention \<Longrightarrow> evict retention xs seen = (xs, seen)"
  by (cases xs) simp_all

lemma apply_new_command:
  assumes "machine_at ids at s" "cid \<notin> set ids" "length ids < retention" "rc_command_id c = Some cid"
    and "case at of None \<Rightarrow> True | Some q \<Rightarrow> lp_index q < lp_index p"
    and "sink \<lparr>ac_position = p, ac_command = c\<rparr> k = (Inr (), k')"
  shows "\<exists>response s'. apply_one sink retention None \<lparr>le_position = p, le_payload = Normal c\<rparr> (s, k) = (Inr response, s', k') \<and>
    machine_at (ids @ [cid]) (Some p) s'"
proof -
  have fresh: "\<not> is_duplicate s c"
    using assms(1,2,4) by (auto simp: is_duplicate_def machine_at_def split: if_splits)
  have "evict retention (ids @ [cid]) (insert cid (set ids)) = (ids @ [cid], insert cid (set ids))"
    using assms(3) by (intro evict_fits) simp
  then have "machine_at (ids @ [cid]) (Some p) (advance_to p (mark_applied retention c s))"
    using assms(1,2,4)
    by (auto simp: machine_at_def mark_applied_def record_command_id_def advance_to_def Let_def split: option.splits)
  moreover have "\<not> (case last_applied (sm_record s) of None \<Rightarrow> False | Some q \<Rightarrow> lp_index p \<le> lp_index q)"
    using assms(1,5) by (auto simp: machine_at_def not_le split: option.splits)
  ultimately show ?thesis using fresh assms(6) by (simp add: apply_one_def Let_def)
qed

lemma status_verifies:
  assumes "cmd = run_begin \<or> cmd = run_commit"
  shows "envelope_verify (dv_sha run_driver) (status_envelope run_deployment cid cmd) = Inr ()"
  using assms
  by (auto simp: status_envelope_def run_deployment_def table_json_def versioned_new_def envelope_verify_def envelope_new_def
      MAX_COMMAND_PAYLOAD_BYTES_def COMMAND_ENVELOPE_FORMAT_VERSION_def MIN_SUPPORTED_FORMAT_VERSION_def)

lemma intent_verifies:
  assumes "cmd = run_persist \<or> cmd = run_resolve"
  shows "envelope_verify (dv_sha run_driver) (intent_envelope run_deployment cid cmd) = Inr ()"
  using assms
  by (auto simp: intent_envelope_def run_deployment_def table_json_def versioned_new_def envelope_verify_def envelope_new_def
      MAX_COMMAND_PAYLOAD_BYTES_def COMMAND_ENVELOPE_FORMAT_VERSION_def MIN_SUPPORTED_FORMAT_VERSION_def)

lemma run_round:
  "versioned_decode (dp_status_parse run_deployment) (dp_status_json run_deployment (versioned_new cmd)) = Inr (versioned_new cmd)"
  "versioned_decode (dp_intent_parse run_deployment) (dp_intent_json run_deployment (versioned_new icmd)) = Inr (versioned_new icmd)"
  by (rule versioned_round, simp add: run_deployment_def)+

definition at_position :: "u64 \<Rightarrow> log_position" where
  "at_position i = \<lparr>lp_term = 1, lp_index = i\<rparr>"

lemma status_entry_runs:
  assumes "machine_at ids at s" "cid \<notin> set ids" "length ids < 4096" "cmd = run_begin \<or> cmd = run_commit"
    and "case at of None \<Rightarrow> True | Some q \<Rightarrow> lp_index q < i" "lp_index (sk_position k) < i"
    and "\<And>c. status_apply_command c cmd (sk_state k) = Inr st"
  shows "\<exists>response s'. apply_status_entry run_deployment (group_entry (status_envelope run_deployment cid cmd) ts (at_position i)) (s, k) =
      (Inr response, s', \<lparr>sk_state = st, sk_position = at_position i, sk_command_id = Some cid\<rparr>) \<and>
    machine_at (ids @ [cid]) (Some (at_position i)) s'"
proof -
  let ?c = "Transaction (status_envelope run_deployment cid cmd) ts"
  have "status_decode (dv_sha run_driver) (dp_status_parse run_deployment) (status_envelope run_deployment cid cmd) = Inr cmd"
    using status_verifies [OF assms(4), of cid] run_round(1) [of cmd]
    by (simp add: status_decode_def) (simp add: status_envelope_def envelope_new_def versioned_new_def)
  then have "status_apply (dv_sha run_driver) (dp_status_parse run_deployment) (\<lambda>_. None) \<lparr>ac_position = at_position i, ac_command = ?c\<rparr> k =
      (Inr (), \<lparr>sk_state = st, sk_position = at_position i, sk_command_id = Some cid\<rparr>)"
    using assms(6,7)
    by (simp add: status_apply_def status_dispatch_def at_position_def rc_command_id_def Let_def not_le [symmetric])
      (simp add: status_envelope_def envelope_new_def)
  moreover have "rc_command_id ?c = Some cid" by (simp add: rc_command_id_def status_envelope_def envelope_new_def)
  moreover have "case at of None \<Rightarrow> True | Some q \<Rightarrow> lp_index q < lp_index (at_position i)"
    using assms(5) by (cases at) (simp_all add: at_position_def)
  ultimately show ?thesis
    using apply_new_command [OF assms(1-3)] by (simp add: apply_status_entry_def group_entry_def)
qed

lemma intent_entry_runs:
  assumes "machine_at ids at s" "cid \<notin> set ids" "length ids < 4096" "cmd = run_persist \<or> cmd = run_resolve"
    and "case at of None \<Rightarrow> True | Some q \<Rightarrow> lp_index q < i" "lp_index (ik_position k) < i"
    and "intent_apply_command run_env
      \<lparr>ac_position = at_position i, ac_command = Transaction (intent_envelope run_deployment cid cmd) ts\<rparr> cmd (ik_engine k) (ik_state k) =
      (Inr (), st, engine)"
  shows "\<exists>response s'. apply_intent_entry run_deployment (group_entry (intent_envelope run_deployment cid cmd) ts (at_position i)) (s, k) =
      (Inr response, s', \<lparr>ik_state = st, ik_position = at_position i, ik_command_id = Some cid, ik_engine = engine\<rparr>) \<and>
    machine_at (ids @ [cid]) (Some (at_position i)) s'"
proof -
  let ?c = "Transaction (intent_envelope run_deployment cid cmd) ts"
  have type: "command_type (intent_envelope run_deployment cid cmd) = COMMAND_TYPE_DIST_TXN_INTENT"
    "payload (intent_envelope run_deployment cid cmd) = dp_intent_json run_deployment (versioned_new cmd)"
    "command_id (intent_envelope run_deployment cid cmd) = cid"
    by (simp_all add: intent_envelope_def envelope_new_def)
  have "intent_apply (dv_sha run_driver) (dp_intent_parse run_deployment) run_env (\<lambda>_. None) \<lparr>ac_position = at_position i, ac_command = ?c\<rparr> k =
      (Inr (), \<lparr>ik_state = st, ik_position = at_position i, ik_command_id = Some cid, ik_engine = engine\<rparr>)"
    using assms(6,7) intent_verifies [OF assms(4), of cid] run_round(2) [of cmd] type
    by (simp add: intent_apply_def intent_dispatch_def at_position_def rc_command_id_def Let_def not_le [symmetric] versioned_new_def)
  moreover have "rc_command_id ?c = Some cid" by (simp add: rc_command_id_def type)
  moreover have "case at of None \<Rightarrow> True | Some q \<Rightarrow> lp_index q < lp_index (at_position i)"
    using assms(5) by (cases at) (simp_all add: at_position_def)
  ultimately show ?thesis
    using apply_new_command [OF assms(1-3)] by (simp add: apply_intent_entry_def group_entry_def)
qed

section \<open>Calls of the run\<close>

lemma run_issue_status:
  assumes "reachable (lone S I si ii [Act (ProposeStatus status_member cid cmd) k])"
    and "envelope_verify (dv_sha run_driver) (status_envelope run_deployment cid cmd) = Inr ()"
    and "apply_status_entry run_deployment (group_entry (status_envelope run_deployment cid cmd) ts p) (hd S) = (Inr response, x)"
  shows "reachable (lone (x # S) I (insert (3, cid, cmd) si) ii [Act (ProposeStatus status_member cid cmd) k])"
proof -
  let ?p = "Act (ProposeStatus status_member cid cmd) k"
  have "world_step run_deployment (lone S I si ii [?p]) (lone S I (insert (3, cid, cmd) si) ii [?p])"
    using ws_issue_status [of 0 "lone S I si ii [?p]" status_member cid cmd k run_deployment] by (simp add: lone_def)
  with assms(1) have "reachable (lone S I (insert (3, cid, cmd) si) ii [?p])" by (rule reach_step)
  moreover have "world_step run_deployment (lone S I (insert (3, cid, cmd) si) ii [?p]) (lone (x # S) I (insert (3, cid, cmd) si) ii [?p])"
    using ws_status [of 3 cid cmd "lone S I (insert (3, cid, cmd) si) ii [?p]" run_deployment ts p response x] assms(2,3)
    by (simp add: lone_def fun_upd_def if_distrib cong: if_cong)
  ultimately show ?thesis by (rule reach_step)
qed

lemma run_issue_intent:
  assumes "reachable (lone S I si ii [Act (ProposeIntent intent_member cid cmd) k])"
    and "envelope_verify (dv_sha run_driver) (intent_envelope run_deployment cid cmd) = Inr ()"
    and "apply_intent_entry run_deployment (group_entry (intent_envelope run_deployment cid cmd) ts p) (hd I) = (Inr response, y)"
  shows "reachable (lone S (y # I) si (insert (11, cid, cmd) ii) [Act (ProposeIntent intent_member cid cmd) k])"
proof -
  let ?p = "Act (ProposeIntent intent_member cid cmd) k"
  have "world_step run_deployment (lone S I si ii [?p]) (lone S I si (insert (11, cid, cmd) ii) [?p])"
    using ws_issue_intent [of 0 "lone S I si ii [?p]" intent_member cid cmd k run_deployment] by (simp add: lone_def)
  with assms(1) have "reachable (lone S I si (insert (11, cid, cmd) ii) [?p])" by (rule reach_step)
  moreover have "world_step run_deployment (lone S I si (insert (11, cid, cmd) ii) [?p]) (lone S (y # I) si (insert (11, cid, cmd) ii) [?p])"
    using ws_intent [of 11 cid cmd "lone S I si (insert (11, cid, cmd) ii) [?p]" run_deployment ts p response y] assms(2,3)
    by (simp add: lone_def fun_upd_def if_distrib cong: if_cong)
  ultimately show ?thesis by (rule reach_step)
qed

text \<open>The first round of a retry asks the only member.\<close>

lemma run_round_one:
  assumes "reachable (lone S I si ii [bind (retry_across_members run_driver [m] label call) f])"
  shows "\<exists>g. reachable (lone S I si ii [bind (call m) g]) \<and> (\<forall>a. g (Inr a) = f (Inr (m, a)))"
proof -
  have "reachable (lone S I si ii [bind (ask (LeaderViews [m]) r_views) (\<lambda>claims. bind (ask (LeaderViews [m]) r_views) (\<lambda>claims'.
      bind (try_members call (leaders_first [m] claims claims') None) (\<lambda>out. bind (case out of
        Inl result \<Rightarrow> Ret result
      | Inr last_error \<Rightarrow>
          bind (ask CheckControl r_control) (\<lambda>c. case c of
             Some e \<Rightarrow> Ret (Inl (control_error (dv_texts run_driver) e))
           | None \<Rightarrow>
               if cfg_max_propose_rounds (dv_config run_driver) \<le> Suc 0
               then Ret (Inl (DtUnavailable (unavailable_text (dv_texts run_driver) label (Suc 0) last_error)))
               else retry_rounds run_driver [m] label call (Suc 0))) f)))])"
    using assms by (simp add: retry_across_members_def bind_assoc retry_rounds.simps [of _ _ _ _ 0])
  from run_ask [OF this, of "ViewsReply [True]"] have "reachable (lone S I si ii [bind (ask (LeaderViews [m]) r_views) (\<lambda>claims'.
      bind (try_members call (leaders_first [m] [True] claims') None) (\<lambda>out. bind (case out of
        Inl result \<Rightarrow> Ret result
      | Inr last_error \<Rightarrow>
          bind (ask CheckControl r_control) (\<lambda>c. case c of
             Some e \<Rightarrow> Ret (Inl (control_error (dv_texts run_driver) e))
           | None \<Rightarrow>
               if cfg_max_propose_rounds (dv_config run_driver) \<le> Suc 0
               then Ret (Inl (DtUnavailable (unavailable_text (dv_texts run_driver) label (Suc 0) last_error)))
               else retry_rounds run_driver [m] label call (Suc 0))) f))])"
    by (simp add: an_views)
  from run_ask [OF this, of "ViewsReply [True]"] show ?thesis
    by (auto simp: an_views leaders_first_def bind_assoc intro!: exI)
qed

lemma run_propose_status:
  assumes "reachable (lone S I si ii [bind (propose_status run_driver [status_member] label cid cmd) f])"
    and "envelope_verify (dv_sha run_driver) (status_envelope run_deployment cid cmd) = Inr ()"
    and "apply_status_entry run_deployment (group_entry (status_envelope run_deployment cid cmd) ts p) (hd S) = (Inr response, s', k')"
    and "sk_command_id k' = Some cid"
  shows "reachable (lone ((s', k') # S) I (insert (3, cid, cmd) si) ii [f (Inr (status_member, p, status_rejection_of cid (sk_state k')))])"
proof -
  from run_round_one [OF assms(1) [unfolded propose_status_def]] obtain h where
    h: "reachable (lone S I si ii [bind (ask (ProposeStatus status_member cid cmd) r_status) h])" "\<And>a. h (Inr a) = f (Inr (status_member, a))"
    by blast
  let ?S = "(s', k') # S" and ?si = "insert (3, cid, cmd) si"
  have "reachable (lone ?S I ?si ii [bind (ask (ProposeStatus status_member cid cmd) r_status) h])"
    using run_issue_status [OF _ assms(2,3)] h(1) by (simp add: ask_def)
  moreover have "answers (lone ?S I ?si ii [bind (ask (ProposeStatus status_member cid cmd) r_status) h]) (ProposeStatus status_member cid cmd)
      (StatusReply (Inr (p, status_rejection_of cid (sk_state k'))))"
    using assms(4) by (intro an_status) (auto simp: status_after_def lone_def intro!: exI [of _ "[]"])
  ultimately show ?thesis using run_ask h(2) by fastforce
qed

lemma run_propose_intent:
  assumes "reachable (lone S I si ii [bind (propose_intent run_driver [intent_member] label cid cmd) f])"
    and "envelope_verify (dv_sha run_driver) (intent_envelope run_deployment cid cmd) = Inr ()"
    and "apply_intent_entry run_deployment (group_entry (intent_envelope run_deployment cid cmd) ts p) (hd I) = (Inr response, s', k')"
    and "ik_command_id k' = Some cid"
  shows "reachable (lone S ((s', k') # I) si (insert (11, cid, cmd) ii) [f (Inr (intent_member, p, intent_rejection_of cid (ik_state k')))])"
proof -
  from run_round_one [OF assms(1) [unfolded propose_intent_def]] obtain h where
    h: "reachable (lone S I si ii [bind (ask (ProposeIntent intent_member cid cmd) r_intent) h])" "\<And>a. h (Inr a) = f (Inr (intent_member, a))"
    by blast
  let ?I = "(s', k') # I" and ?ii = "insert (11, cid, cmd) ii"
  have "reachable (lone S ?I si ?ii [bind (ask (ProposeIntent intent_member cid cmd) r_intent) h])"
    using run_issue_intent [OF _ assms(2,3)] h(1) by (simp add: ask_def)
  moreover have "answers (lone S ?I si ?ii [bind (ask (ProposeIntent intent_member cid cmd) r_intent) h]) (ProposeIntent intent_member cid cmd)
      (IntentReply (Inr (p, intent_rejection_of cid (ik_state k'))))"
    using assms(4) by (intro an_intent) (auto simp: intent_after_def lone_def intro!: exI [of _ "[]"])
  ultimately show ?thesis using run_ask h(2) by fastforce
qed

definition run_id :: "string \<Rightarrow> u8 list \<Rightarrow> u8 list" where
  "run_id tag extra = command_id_for (\<lambda>bs. bs) tag 7 extra"

lemma run_ids_differ:
  "run_id TAG_COMMIT [] \<noteq> run_id TAG_BEGIN []" "run_id TAG_RESOLVE extra \<noteq> run_id TAG_PREPARE extra'"
proof -
  have "run_id TAG_COMMIT [] ! 9 \<noteq> run_id TAG_BEGIN [] ! 9"
    by (simp add: run_id_def command_id_for_def TAG_COMMIT_def TAG_BEGIN_def text_bytes_def)
  then show "run_id TAG_COMMIT [] \<noteq> run_id TAG_BEGIN []" by metis
  have "run_id TAG_RESOLVE extra ! 9 \<noteq> run_id TAG_PREPARE extra' ! 9"
    by (simp add: run_id_def command_id_for_def TAG_RESOLVE_def TAG_PREPARE_def text_bytes_def)
  then show "run_id TAG_RESOLVE extra \<noteq> run_id TAG_PREPARE extra'" by metis
qed

definition begun_state :: txn_status_state where
  "begun_state = status_set 7 run_record txn_status_default"

definition begun_sink :: status_sink where
  "begun_sink = \<lparr>sk_state = begun_state, sk_position = at_position 1, sk_command_id = Some (run_id TAG_BEGIN [])\<rparr>"

lemma run_begin_applies: "status_apply_command c run_begin txn_status_default = Inr begun_state"
  by (simp add: run_begin_def apply_begin_def run_record_def begin_record_def run_request_def begun_state_def status_get_def txn_status_default_def)

lemma run_begin_entry:
  "\<exists>response s. apply_status_entry run_deployment (group_entry (status_envelope run_deployment (run_id TAG_BEGIN []) run_begin) ts (at_position 1))
      fresh_status = (Inr response, s, begun_sink) \<and> machine_at [run_id TAG_BEGIN []] (Some (at_position 1)) s"
  using status_entry_runs [OF fresh_at, of "run_id TAG_BEGIN []" run_begin 1 "snd fresh_status" begun_state ts] run_begin_applies
  by (simp add: fresh_status_def fresh_machine_def POSITION_ZERO_def begun_sink_def)

lemma bind_attempt: "bind (attempt_then p g) f = bind p (\<lambda>x. case x of Inl e \<Rightarrow> f (Inl e) | Inr a \<Rightarrow> bind (g a) f)"
  unfolding attempt_then_def bind_assoc by (rule arg_cong [of _ _ "bind p"]) (auto split: sum.splits)

lemma bind_map_error: "bind (map_error g p) f = bind p (\<lambda>x. f (map_sum g id x))"
  by (simp add: map_error_def bind_assoc)

lemmas run_calls = bind_attempt bind_map_error bind_assoc bind.simps(1) sum.case prod.case option.case map_sum.simps id_apply

lemma run_now:
  "reachable (lone S I si ii [bind driver_now f]) \<Longrightarrow> reachable (lone S I si ii [f (Inr ts)])"
  using run_ask [of S I si ii ReadClock r_clock "\<lambda>x. f (map_sum DtClock id x)" "ClockReply (Inr ts)"]
  by (simp add: driver_now_def bind_map_error an_clock)

lemma run_inject:
  "reachable (lone S I si ii [bind (inject name) f]) \<Longrightarrow> reachable (lone S I si ii [f (Inr ())])"
  unfolding inject_def run_calls by (drule run_ask [where r = "FaultReply None"]) (simp_all add: an_fault)

lemma run_hook:
  "reachable (lone S I si ii [bind (post_decision_after_hook t) f]) \<Longrightarrow> reachable (lone S I si ii [f (Inr ())])"
  unfolding post_decision_after_hook_def run_calls by (drule run_ask [where r = "FaultReply None"]) (simp_all add: an_fault)

lemma run_read_record:
  assumes "reachable (lone S I si ii [bind (read_record run_driver [status_member] t) f])"
  shows "reachable (lone S I si ii [f (Inr (status_get (sk_state (snd (hd S))) t))])"
proof -
  from run_round_one [OF assms [unfolded read_record_def run_calls]] obtain h where
    h: "reachable (lone S I si ii [bind (ask (ConsistentRecord status_member t) r_read) h])" "\<And>a. h (Inr a) = f (Inr a)" by auto
  have "answers (lone S I si ii ps) (ConsistentRecord status_member t) (ReadReply (Inr (status_get (sk_state (snd (hd S))) t)))" for ps
    using an_read [of "lone S I si ii ps" status_member t] by simp
  from run_ask [OF h(1) this] show ?thesis by (simp add: h(2))
qed

lemma run_begin_call:
  assumes "reachable (lone [fresh_status] I si ii [bind (begin_txn run_driver [status_member] (run_request 7)) f])"
  shows "\<exists>s. machine_at [run_id TAG_BEGIN []] (Some (at_position 1)) s \<and>
    reachable (lone [(s, begun_sink), fresh_status] I (insert (3, run_id TAG_BEGIN [], run_begin) si) ii [f (Inr run_record)])"
proof -
  have t: "cr_txn_id (run_request 7) = 7" "validate_status_set [status_member] 3 = Inr ()"
    by (simp_all add: run_request_def validate_status_set_def)
  obtain response s where entry: "apply_status_entry run_deployment
      (group_entry (status_envelope run_deployment (run_id TAG_BEGIN []) run_begin) HLC_ZERO (at_position 1)) (hd [fresh_status]) = (Inr response, s, begun_sink)"
    and s: "machine_at [run_id TAG_BEGIN []] (Some (at_position 1)) s"
    using run_begin_entry by fastforce
  have no_rejection: "status_rejection_of cid (sk_state begun_sink) = None" for cid
    by (simp add: status_rejection_of_def begun_sink_def begun_state_def status_set_def txn_status_default_def)
  have cid: "sk_command_id begun_sink = Some (run_id TAG_BEGIN [])" by (simp add: begun_sink_def)
  note verified = status_verifies [of run_begin "run_id TAG_BEGIN []", OF disjI1, OF refl]
  note proposed = run_now [OF assms [unfolded begin_txn_def Let_def run_calls run_coordinator t], of "HlcTimestamp 1 0 0",
      unfolded run_calls run_record_def [symmetric] run_begin_def [symmetric] run_deployment_simps run_id_def [symmetric]]
  note visible = run_propose_status [OF proposed verified entry cid, unfolded no_rejection run_calls]
  have "answers (lone ((s, begun_sink) # S) I si' ii ps) (LocalRecord status_member 7) (RecordReply (Some run_record))" for S si' ps
    using an_record [of begun_state "lone ((s, begun_sink) # S) I si' ii ps" status_member 7] by (simp add: begun_sink_def begun_state_def)
  from run_ask [OF visible this] have "reachable (lone [(s, begun_sink), fresh_status] I (insert (3, run_id TAG_BEGIN [], run_begin) si) ii
      [f (Inr run_record)])" by (simp add: run_record_def begin_record_def run_request_def)
  with s show ?thesis by blast
qed

definition persist_command :: applied_command where
  "persist_command = \<lparr>ac_position = at_position 1,
     ac_command = Transaction (intent_envelope run_deployment (run_id TAG_PREPARE (as_bytes (1::TabletId))) run_persist) HLC_ZERO\<rparr>"

definition run_prepared :: participant_txn where
  "run_prepared = prepared_txn persist_command 7 (HlcTimestamp 2 0 0) run_intents"

definition prepared_sink :: "unit intent_sink" where
  "prepared_sink = \<lparr>ik_state = put_txn 7 run_prepared intent_default, ik_position = at_position 1,
     ik_command_id = Some (run_id TAG_PREPARE (as_bytes (1::TabletId))), ik_engine = None\<rparr>"

lemma run_persist_applies:
  "intent_apply_command run_env persist_command run_persist None intent_default = (Inr (), put_txn 7 run_prepared intent_default, None)"
  by (simp add: run_persist_def apply_persist_def run_prepared_def intent_default_def intent_txn_def run_intents_def stamp_intents_def
      run_writes_def conflicting_holder_def)

lemma run_persist_entry:
  "\<exists>response s. apply_intent_entry run_deployment
      (group_entry (intent_envelope run_deployment (run_id TAG_PREPARE (as_bytes (1::TabletId))) run_persist) HLC_ZERO (at_position 1))
      fresh_intent = (Inr response, s, prepared_sink) \<and> machine_at [run_id TAG_PREPARE (as_bytes (1::TabletId))] (Some (at_position 1)) s"
  using intent_entry_runs [OF fresh_at, of "run_id TAG_PREPARE (as_bytes (1::TabletId))" run_persist 1 "snd fresh_intent" HLC_ZERO]
    run_persist_applies
  by (simp add: fresh_intent_def fresh_machine_def POSITION_ZERO_def prepared_sink_def persist_command_def)

lemma run_prepare_call:
  assumes "reachable (lone S [fresh_intent] si ii [bind (prepare_participant run_driver [intent_member] 7 run_writes) f])"
  shows "\<exists>s token. machine_at [run_id TAG_PREPARE (as_bytes (1::TabletId))] (Some (at_position 1)) s \<and>
    reachable (lone S [(s, prepared_sink), fresh_intent] si (insert (11, run_id TAG_PREPARE (as_bytes (1::TabletId)), run_persist) ii)
      [f (Inr token)])"
proof -
  let ?cid = "run_id TAG_PREPARE (as_bytes (1::TabletId))"
  have group: "(([intent_member] = [] \<or> list_ex (\<lambda>m. gm_group m \<noteq> tp_raft_group_id (pw_participant run_writes)) [intent_member])) = False"
    "tp_tablet_id (pw_participant run_writes) = 1" "pw_schema_version run_writes = 0" "pw_authz_version run_writes = 0"
    by (simp_all add: run_writes_def)
  obtain response s where entry: "apply_intent_entry run_deployment
      (group_entry (intent_envelope run_deployment ?cid run_persist) HLC_ZERO (at_position 1)) (hd [fresh_intent]) = (Inr response, s, prepared_sink)"
    and s: "machine_at [?cid] (Some (at_position 1)) s"
    using run_persist_entry by fastforce
  have no_rejection: "intent_rejection_of cid (ik_state prepared_sink) = None" for cid
    by (simp add: intent_rejection_of_def prepared_sink_def put_txn_def intent_default_def)
  have cid: "ik_command_id prepared_sink = Some ?cid" by (simp add: prepared_sink_def)
  note verified = intent_verifies [of run_persist ?cid, OF disjI1, OF refl]
  note proposed = run_now [OF run_inject [OF assms [unfolded prepare_participant_def Let_def group if_False run_calls], unfolded run_calls],
      of "HlcTimestamp 2 0 0", unfolded run_calls run_intents_def [symmetric] run_persist_def [symmetric] run_deployment_simps run_id_def [symmetric]]
  note visible = run_propose_intent [OF proposed verified entry cid, unfolded no_rejection run_calls]
  have "answers (lone S ((s, prepared_sink) # I) si ii' ps) (LocalTxn intent_member 7) (TxnReply (Some run_prepared))" for I ii' ps
    using an_txn [of "ik_state prepared_sink" "lone S ((s, prepared_sink) # I) si ii' ps" intent_member 7] by (simp add: prepared_sink_def)
  note stored = run_ask [OF visible this, unfolded driver_reply.sel run_calls]
  from run_inject [OF stored] s show ?thesis by (auto simp: run_calls)
qed

lemma par_Ret: "par poll ready p (Ret b) = bind p (\<lambda>a. Ret (a, b))"
  by (induction p) auto

lemma run_all_one: "run_all poll ready [p] = bind p (\<lambda>a. Ret [a])"
  by (simp add: par_Ret bind_assoc)

definition committed_sink :: status_sink where
  "committed_sink = \<lparr>sk_state = status_set 7 (run_record\<lparr>tr_state := Committed run_commit_ts\<rparr>) begun_state, sk_position = at_position 2,
     sk_command_id = Some (run_id TAG_COMMIT [])\<rparr>"

lemma run_commit_applies:
  "status_apply_command c run_commit begun_state = Inr (status_set 7 (run_record\<lparr>tr_state := Committed run_commit_ts\<rparr>) begun_state)"
  by (simp add: run_commit_def apply_commit_def begun_state_def bad_commit_ts_def run_commit_ts_def)
    (simp add: run_record_def begin_record_def run_request_def hlc_max_or_zero_def HLC_ZERO_def hlc_le_iff)

lemma run_commit_entry:
  assumes "machine_at [run_id TAG_BEGIN []] (Some (at_position 1)) s"
  shows "\<exists>response s'. apply_status_entry run_deployment
      (group_entry (status_envelope run_deployment (run_id TAG_COMMIT []) run_commit) HLC_ZERO (at_position 2))
      (s, begun_sink) = (Inr response, s', committed_sink)"
  using status_entry_runs [OF assms, of "run_id TAG_COMMIT []" run_commit 2 begun_sink _ HLC_ZERO] run_commit_applies run_ids_differ(1)
  by (fastforce simp: begun_sink_def committed_sink_def at_position_def)

definition resolve_command :: applied_command where
  "resolve_command = \<lparr>ac_position = at_position 2,
     ac_command = Transaction (intent_envelope run_deployment (run_id TAG_RESOLVE (as_bytes (1::TabletId))) run_resolve) HLC_ZERO\<rparr>"

definition resolved_sink :: "unit intent_sink" where
  "resolved_sink = \<lparr>ik_state = (put_txn 7 (resolved_txn run_prepared (DecideCommit run_commit_ts) (Some HLC_ZERO)) (ik_state prepared_sink))
       \<lparr>is_committed_writes := committed_writes_of 7 run_commit_ts run_intents\<rparr>, ik_position = at_position 2,
     ik_command_id = Some (run_id TAG_RESOLVE (as_bytes (1::TabletId))), ik_engine = None\<rparr>"

lemma run_resolve_entry:
  assumes "machine_at [run_id TAG_PREPARE (as_bytes (1::TabletId))] (Some (at_position 1)) s"
  shows "\<exists>response s'. apply_intent_entry run_deployment
      (group_entry (intent_envelope run_deployment (run_id TAG_RESOLVE (as_bytes (1::TabletId))) run_resolve) HLC_ZERO (at_position 2))
      (s, prepared_sink) = (Inr response, s', resolved_sink)"
proof -
  have "intent_apply_command run_env resolve_command run_resolve (ik_engine prepared_sink) (ik_state prepared_sink) =
      (Inr (), ik_state resolved_sink, None)"
    by (simp add: run_resolve_def apply_resolve_def resolve_command_def prepared_sink_def resolved_sink_def run_prepared_def
        apply_committed_to_engine_def intent_default_def Let_def)
  then show ?thesis
    using intent_entry_runs [OF assms, of "run_id TAG_RESOLVE (as_bytes (1::TabletId))" run_resolve 2 prepared_sink HLC_ZERO] run_ids_differ(2)
    by (fastforce simp: prepared_sink_def resolved_sink_def at_position_def resolve_command_def)
qed

section \<open>The whole run\<close>

lemma run_decide:
  assumes start: "reachable (lone [(s, begun_sink), fresh_status] [(s', prepared_sink), fresh_intent] si ii
      [bind (decide_commit run_driver [status_member] [(11, [intent_member])] 7 tokens seen) f])"
    and s: "machine_at [run_id TAG_BEGIN []] (Some (at_position 1)) s"
    and s': "machine_at [run_id TAG_PREPARE (as_bytes (1::TabletId))] (Some (at_position 1)) s'"
  shows "\<exists>S I si'. reachable (lone ((S, committed_sink) # [(s, begun_sink), fresh_status]) ((I, resolved_sink) # [(s', prepared_sink), fresh_intent]) si'
      (insert (11, run_id TAG_RESOLVE (as_bytes (1::TabletId)), run_resolve) ii)
      [f (Inr (committed_outcome 7 run_commit_ts [pw_participant run_writes]))])"
proof -
  let ?S = "[(s, begun_sink), fresh_status]" and ?I = "[(s', prepared_sink), fresh_intent]"
  obtain response x where commits: "apply_status_entry run_deployment
      (group_entry (status_envelope run_deployment (run_id TAG_COMMIT []) run_commit) HLC_ZERO (at_position 2)) (hd ?S) = (Inr response, x, committed_sink)"
    using run_commit_entry [OF s] by auto
  obtain response' y where resolves: "apply_intent_entry run_deployment
      (group_entry (intent_envelope run_deployment (run_id TAG_RESOLVE (as_bytes (1::TabletId))) run_resolve) HLC_ZERO (at_position 2)) (hd ?I) =
      (Inr response', y, resolved_sink)"
    using run_resolve_entry [OF s'] by auto
  have cids: "sk_command_id committed_sink = Some (run_id TAG_COMMIT [])"
    "ik_command_id resolved_sink = Some (run_id TAG_RESOLVE (as_bytes (1::TabletId)))"
    by (simp_all add: committed_sink_def resolved_sink_def)
  have found: "status_get (sk_state (snd (hd ((x, committed_sink) # S)))) 7 = Some (run_record\<lparr>tr_state := Committed run_commit_ts\<rparr>)" for S
    by (simp add: committed_sink_def)
  have fields: "tr_state (run_record\<lparr>tr_state := Committed run_commit_ts\<rparr>) = Committed run_commit_ts"
    "tr_participants (run_record\<lparr>tr_state := Committed run_commit_ts\<rparr>) = [pw_participant run_writes]"
    "map_of [(11::RaftGroupId, [intent_member])] 11 = Some [intent_member]"
    "tp_tablet_id (pw_participant run_writes) = 1" "tp_raft_group_id (pw_participant run_writes) = 11"
    by (simp_all add: run_record_def begin_record_def run_writes_def)
  note verified = status_verifies [of run_commit "run_id TAG_COMMIT []", OF disjI2, OF refl]
    intent_verifies [of run_resolve "run_id TAG_RESOLVE (as_bytes (1::TabletId))", OF disjI2, OF refl]
  note stamped = run_ask [OF start [unfolded decide_commit_def run_calls] an_stamp [of _ _ run_commit_ts], unfolded driver_reply.sel run_calls]
  note proposed = run_inject [OF stamped, unfolded run_calls run_commit_def [symmetric] run_deployment_simps run_id_def [symmetric]]
  note read = run_propose_status [OF proposed verified(1) commits cids(1), unfolded run_calls finalize_decision_def read_back_def]
  note decided = run_read_record [OF read, unfolded found run_calls fields DistributedTxnState.case broadcast_resolve.simps
      run_deployment_simps run_id_def [symmetric] run_resolve_def [symmetric]]
  note resolved = run_propose_intent [OF decided verified(2) resolves cids(2), unfolded run_calls]
  from run_hook [OF resolved] show ?thesis unfolding run_calls by blast
qed

lemma run_complete:
  obtains s s' S I si ii where
    "reachable (lone (S # [(s, begun_sink), fresh_status]) (I # [(s', prepared_sink), fresh_intent]) si ii
      [Ret (CommitResult 7 (Inr (committed_outcome 7 run_commit_ts [pw_participant run_writes])))])"
    "snd S = committed_sink" "snd I = resolved_sink" "(11, run_id TAG_RESOLVE (as_bytes (1::TabletId)), run_resolve) \<in> ii"
proof -
  have spawned: "reachable (lone [fresh_status] [fresh_intent] {} {}
      [bind (commit run_driver [status_member] [(11, [intent_member])] (run_request 7)) (\<lambda>x. Ret (CommitResult 7 x))])"
    using run_spawn [OF run_start, of "DriveCommit [status_member] [(11, [intent_member])] 7"] by (simp add: returning_def)
  have fields: "cr_txn_id (run_request 7) = 7" "cr_writes (run_request 7) = [run_writes]" "tr_state run_record = Pending"
    "tp_raft_group_id (pw_participant run_writes) = 11"
    by (simp_all add: run_request_def run_record_def begin_record_def run_writes_def)
  from run_begin_call [OF spawned [unfolded commit_def Let_def run_calls fields]] obtain s where
    s: "machine_at [run_id TAG_BEGIN []] (Some (at_position 1)) s" and
    begun: "reachable (lone [(s, begun_sink), fresh_status] [fresh_intent] (insert (3, run_id TAG_BEGIN [], run_begin) {}) {}
      [bind (prepare_participant run_driver [intent_member] 7 run_writes) (\<lambda>a.
        bind (case first_failure [a] of
                Inl e \<Rightarrow> answer_after_abort run_driver [status_member] [(11, [intent_member])] run_record 7
                           (abort_reason_of (dv_texts run_driver) e) ''abort after a failed prepare is not durable; state is ''
              | Inr prepared \<Rightarrow> commit_prepared run_driver [status_member] [(11, [intent_member])] (run_request 7) run_record prepared)
          (\<lambda>x. Ret (CommitResult 7 x)))])"
    by (simp add: run_calls fields run_all_one del: run_all.simps) metis
  from run_prepare_call [OF begun] obtain s' token ii where
    s': "machine_at [run_id TAG_PREPARE (as_bytes (1::TabletId))] (Some (at_position 1)) s'" and
    prepared: "reachable (lone [(s, begun_sink), fresh_status] [(s', prepared_sink), fresh_intent] (insert (3, run_id TAG_BEGIN [], run_begin) {}) ii
      [bind (decide_commit run_driver [status_member] [(11, [intent_member])] 7 [token] (cr_observed (run_request 7))) (\<lambda>x. Ret (CommitResult 7 x))])"
    by (auto simp: commit_prepared_def Let_def fields)
  from run_decide [OF prepared s s'] that show ?thesis by fastforce
qed

end
