(* ===== verification/Dist_Protocol.thy ===== *)
theory Dist_Protocol
  imports Dist_Calls Dist_Run
begin

text \<open>
  The distributed commit protocol as a whole: the invariant of every reachable world, and the properties
  of the protocol's clients and participants.
\<close>

section \<open>The invariant of the protocol\<close>

definition protocol_inv :: "'e deployment \<Rightarrow> ('m, 'e) world \<Rightarrow> bool" where
  "protocol_inv dp w \<longleftrightarrow> world_inv dp w \<and> (\<forall>p \<in> set (w_tasks w). ensures dp p result_ok w)"

lemma task_grows: "ensures dp p result_ok w \<Longrightarrow> grown w w' \<Longrightarrow> ensures dp p result_ok w'"
  by (rule calls.after_grows) (auto simp: calls.grows_def result_ok_grows)

lemma init_inv:
  assumes "world_init w"
  shows "protocol_inv dp w"
proof -
  have groups: "\<exists>s k s' k'. w_status w g = [(s, k)] \<and> sk_state k = txn_status_default \<and>
      w_intent w g = [(s', k')] \<and> ik_state k' = intent_default" for g
    using assms unfolding world_init_def by meson
  have st: "st = txn_status_default" if "st \<in> status_states w g" for st g
    using groups [of g] that by (auto simp: status_states_def)
  have it: "st = intent_default" if "st \<in> intent_states w g" for st g
    using groups [of g] that by (auto simp: intent_states_def)
  have none: "status_get txn_status_default t = None" "intent_txn intent_default t = None" for t
    by (simp_all add: status_get_def txn_status_default_def intent_txn_def intent_default_def)
  have "participant_inv intent_default"
    by (simp add: participant_inv_def intent_default_def intents_exclusive_def writes_decided_def intent_txn_def)
  then have "intent_facts dp w g" for g
    using it [of _ g] none by (fastforce simp: intent_facts_def record_facts_def made_visible_def writes_requested_def seen_at_def intent_default_def)
  moreover have "status_facts dp w g" for g using st [of _ g] none by (fastforce simp: status_facts_def)
  moreover have "w_status w g \<noteq> [] \<and> w_intent w g \<noteq> []" for g
    using groups [of g] by auto
  ultimately have "world_inv dp w" using assms by (intro world_invI) (simp_all add: world_init_def)
  then show ?thesis using assms by (simp add: protocol_inv_def world_init_def)
qed

lemma status_entry_moves:
  assumes ok: "deployment_ok dp" and inv: "world_inv dp w" and issued: "(g, cid, cmd) \<in> w_status_issued w"
    and ap: "apply_status_entry dp (group_entry (status_envelope dp cid cmd) ts p) (hd (w_status w g)) = (Inr response, x)"
  shows "status_moves dp w g (sk_state (snd x))"
proof -
  have "dp_status_parse dp (dp_status_json dp (versioned_new cmd)) = Inr (versioned_new cmd)" using ok by (simp add: deployment_ok_def)
  with status_entry_effect [of dp cid cmd ts p "fst (hd (w_status w g))" "snd (hd (w_status w g))" response "fst x" "snd x"] ap
  have "sk_state (snd x) = status_now w g \<or> (\<exists>c. status_apply_command c cmd (status_now w g) = Inr (sk_state (snd x)))"
    by (simp add: status_now_def)
  then show ?thesis using issued_ok(1) [OF inv issued] unfolding status_moves_def by blast
qed

lemma intent_entry_moves:
  assumes ok: "deployment_ok dp" and inv: "world_inv dp w" and issued: "(g, cid, cmd) \<in> w_intent_issued w"
    and ap: "apply_intent_entry dp (group_entry (intent_envelope dp cid cmd) ts p) (hd (w_intent w g)) = (Inr response, y)"
  shows "intent_moves dp w g (ik_state (snd y)) \<and> participant_inv (ik_state (snd y))"
proof -
  have "dp_intent_parse dp (dp_intent_json dp (versioned_new cmd)) = Inr (versioned_new cmd)" using ok by (simp add: deployment_ok_def)
  with intent_entry_effect [of dp cid cmd ts p "fst (hd (w_intent w g))" "snd (hd (w_intent w g))" response "fst y" "snd y"] ap
  have effect: "ik_state (snd y) = intent_now w g \<or>
      (\<exists>c e e'. intent_apply_command (dp_env dp) c cmd e (intent_now w g) = (Inr (), ik_state (snd y), e'))"
    by (auto simp: intent_now_def)
  then have "intent_moves dp w g (ik_state (snd y))"
    using issued_ok(2) [OF inv issued] unfolding intent_moves_def by blast
  moreover have "participant_inv (intent_now w g)" by (rule intent_fact(1) [OF inv now_in_states(2) [OF inv]])
  then have "participant_inv (ik_state (snd y))"
    using effect intent_step_inv intent_step.intros by metis
  ultimately show ?thesis ..
qed

lemma world_step_facts:
  assumes "world_step dp w w'" and ok: "deployment_ok dp" and prot: "protocol_inv dp w"
  shows "world_inv dp w'" "grown w w'"
proof -
  have inv: "world_inv dp w" using prot by (simp add: protocol_inv_def)
  have task: "ensures dp (w_tasks w ! i) result_ok w" if "i < length (w_tasks w)" for i
    using prot nth_mem [OF that] by (simp add: protocol_inv_def)
  from assms(1) have "world_inv dp w' \<and> grown w w'"
  proof cases
    case (ws_issue_status i m cid cmd k)
    then have "justified_status dp w (gm_group m) cmd" using task [of i] by simp
    then show ?thesis using ws_issue_status(1) issue_status_inv [OF inv] by (simp add: grown_def)
  next
    case (ws_issue_intent i m cid cmd k)
    then have "justified_intent dp w (gm_group m) cmd" using task [of i] by simp
    then show ?thesis using ws_issue_intent(1) issue_intent_inv [OF inv] by (simp add: grown_def)
  next
    case (ws_versions g cid schema authz)
    then show ?thesis using issue_intent_inv [OF inv, of g "SetTabletVersions schema authz" cid] by (simp add: grown_def)
  next
    case (ws_status g cid cmd ts p response x)
    have "status_moves dp w g (sk_state (snd x))" using status_entry_moves [OF ok inv] ws_status(2,4) by blast
    then show ?thesis using push_status_inv [OF inv] push_grown(1) [of w g x] ws_status(1) by (simp add: push_status_def)
  next
    case (ws_status_other entry g response x)
    have "sk_state (snd x) = status_now w g"
      using status_other_effect [of dp entry "fst (hd (w_status w g))" "snd (hd (w_status w g))" response "fst x" "snd x"]
        ws_status_other(2,3) by (simp add: status_now_def)
    then show ?thesis
      using push_status_inv [OF inv, of g x] push_grown(1) [of w g x] ws_status_other(1) by (simp add: push_status_def status_moves_def)
  next
    case (ws_intent g cid cmd ts p response y)
    from intent_entry_moves [OF ok inv ws_intent(2,4)]
    show ?thesis using push_intent_inv [OF ok inv, of g y] push_grown(2) [of w g y] ws_intent(1) by (simp add: push_intent_def)
  next
    case (ws_intent_other entry g response y)
    have "ik_state (snd y) = intent_now w g"
      using intent_other_effect [of dp entry "fst (hd (w_intent w g))" "snd (hd (w_intent w g))" response "fst y" "snd y"]
        ws_intent_other(2,3) by (simp add: intent_now_def)
    then show ?thesis
      using push_intent_inv [OF ok inv, of g y] push_grown(2) [of w g y] ws_intent_other(1)
        intent_fact(1) [OF inv now_in_states(2) [OF inv]] by (simp add: push_intent_def intent_moves_def)
  qed (use inv in \<open>simp_all add: grown_def\<close>)
  then show "world_inv dp w'" "grown w w'" by simp_all
qed

lemma protocol_step:
  assumes step: "world_step dp w w'" and ok: "deployment_ok dp" and prot: "protocol_inv dp w"
  shows "protocol_inv dp w'"
proof -
  have inv: "world_inv dp w" using prot by (simp add: protocol_inv_def)
  note facts = world_step_facts [OF assms]
  have old: "ensures dp p result_ok w'" if "p \<in> set (w_tasks w)" for p
    using prot that facts(2) by (auto simp: protocol_inv_def intro: task_grows)
  have "ensures dp p result_ok w'" if p: "p \<in> set (w_tasks w')" for p
    using step
  proof cases
    case (ws_start call)
    then have "p \<in> set (w_tasks w) \<or> p = start_call dp call" using p by auto
    moreover have "result_ok res w" if "Ret res \<in> set (w_tasks w)" for res using prot that by (auto simp: protocol_inv_def)
    then have "ensures dp (start_call dp call) result_ok w" by (rule ensures_call [OF ok ws_start(2)])
    then have "ensures dp (start_call dp call) result_ok w'" using facts(2) by (rule task_grows)
    ultimately show ?thesis using old by blast
  next
    case (ws_reply i x k r)
    then have "p \<in> set (w_tasks w) \<or> p = k r" using p set_update_subset_insert by fastforce
    moreover have "ensures dp (Act x k) result_ok w" using prot ws_reply(2,3) nth_mem by (fastforce simp: protocol_inv_def)
    then have "ensures dp (k r) result_ok w" using ws_reply(4) inv by (simp add: sound_answers_def)
    then have "ensures dp (k r) result_ok w'" using facts(2) by (rule task_grows)
    ultimately show ?thesis using old by blast
  qed (use p old in auto)
  with facts(1) show ?thesis by (simp add: protocol_inv_def)
qed

interpretation protocol: guarded_system world_init "world_step dp" "\<lambda>w. if deployment_ok dp then protocol_inv dp w else True"
  for dp :: "'e deployment"
  by unfold_locales (auto simp: init_inv intro: protocol_step split: if_splits)

lemma reach_protocol:
  assumes "deployment_ok dp" "reach world_init (world_step dp) w"
  shows "protocol_inv dp w" "world_inv dp w"
  using protocol.reach_inv [OF assms(2)] assms(1) by (simp_all add: protocol_inv_def)

section \<open>What participants and clients see\<close>

definition resolutions :: "('m, 'e) world \<Rightarrow> TransactionId \<Rightarrow> TxnDecision set" where
  "resolutions w t = {d. \<exists>g. \<exists>st \<in> intent_states w g. \<exists>px. intent_txn st t = Some px \<and> px_resolution px = Some d}"

definition visible_stamps :: "('m, 'e) world \<Rightarrow> TransactionId \<Rightarrow> HlcTimestamp set" where
  "visible_stamps w t = {ts. \<exists>g. \<exists>st \<in> intent_states w g. \<exists>c \<in> set (is_committed_writes st). cw_txn_id c = t \<and> cw_commit_ts c = ts}"

definition staged_in_full :: "('m, 'e) world \<Rightarrow> TransactionId \<Rightarrow> participant_writes \<Rightarrow> bool" where
  "staged_in_full w t wr \<longleftrightarrow>
     (\<exists>px ts. intent_txn (intent_now w (group_of wr)) t = Some px \<and> px_resolution px = None \<and>
        px_intents px = stamp_intents t ts (pw_intents wr))"

definition published_in_full :: "('m, 'e) world \<Rightarrow> TransactionId \<Rightarrow> HlcTimestamp \<Rightarrow> participant_writes \<Rightarrow> bool" where
  "published_in_full w t ts wr \<longleftrightarrow>
     (\<exists>st \<in> intent_states w (group_of wr). set (committed_writes_of t ts (pw_intents wr)) \<subseteq> set (is_committed_writes st))"

lemma decided_now:
  assumes "world_inv dp w" "decided w t d"
  shows "\<exists>g r. status_get (status_now w g) t = Some r \<and> decision_of (tr_state r) = Some d"
proof -
  obtain g st r where r: "st \<in> status_states w g" "status_get st t = Some r" "decision_of (tr_state r) = Some d"
    using assms(2) unfolding decided_def by blast
  then have "status_get (status_now w g) t = Some r"
    using status_fact(3) [OF assms(1) r(1,2)] decision_terminal by auto
  with r(3) show ?thesis by blast
qed

lemma record_decides:
  assumes "world_inv dp w" "status_get (status_now w g) t = Some r" "decided w t d"
  shows "decision_of (tr_state r) = Some d"
proof -
  obtain h r' where r': "status_get (status_now w h) t = Some r'" "decision_of (tr_state r') = Some d"
    using decided_now [OF assms(1,3)] by blast
  have "g = h"
    using status_fact(2) [OF assms(1) now_in_states(1) [OF assms(1)] assms(2)]
      status_fact(2) [OF assms(1) now_in_states(1) [OF assms(1)] r'(1)] by simp
  with assms(2) r' show ?thesis by simp
qed

lemma resolution_decided: "world_inv dp w \<Longrightarrow> d \<in> resolutions w t \<Longrightarrow> decided w t d"
  unfolding resolutions_def using intent_fact(2) by (fastforce simp: record_facts_def)

lemma stamp_decided:
  assumes "world_inv dp w" "ts \<in> visible_stamps w t"
  shows "decided w t (DecideCommit ts)"
proof -
  obtain g st c where c: "st \<in> intent_states w g" "c \<in> set (is_committed_writes st)" "cw_txn_id c = t" "cw_commit_ts c = ts"
    using assms(2) unfolding visible_stamps_def by blast
  then have "DecideCommit ts \<in> resolutions w t"
    using intent_fact(1) [OF assms(1) c(1)] unfolding participant_inv_def writes_decided_def resolutions_def by blast
  then show ?thesis by (rule resolution_decided [OF assms(1)])
qed

lemma commit_reaches_all:
  assumes ok: "deployment_ok dp" and inv: "world_inv dp w" and dec: "decided w t (DecideCommit ts)"
    and wr: "wr \<in> set (cr_writes (dp_request dp t))"
  shows "staged_in_full w t wr \<or> published_in_full w t ts wr"
  using seen_fact [OF inv committed_seen [OF inv dec wr]]
proof
  assume "\<exists>px. intent_txn (intent_now w (group_of wr)) t = Some px \<and> px_resolution px = None"
  then obtain px where px: "intent_txn (intent_now w (group_of wr)) t = Some px" "px_resolution px = None" by blast
  then have "staged_for dp (group_of wr) t px"
    using intent_fact(2) [OF inv now_in_states(2) [OF inv]] by (fastforce simp: record_facts_def)
  then show ?thesis using px group_of_inj [OF ok _ wr] unfolding staged_for_def staged_in_full_def by metis
next
  assume "resolved_at w (group_of wr) t"
  then obtain st px d where st: "st \<in> intent_states w (group_of wr)" "intent_txn st t = Some px" "px_resolution px = Some d"
    unfolding resolved_at_def by blast
  then have "decided w t d" using resolution_decided [OF inv] unfolding resolutions_def by blast
  with dec have "d = DecideCommit ts" using decided_unique [OF inv] by blast
  with st wr intent_fact(3) [OF inv st(1)] show ?thesis unfolding made_visible_def published_in_full_def by blast
qed

section \<open>Properties\<close>

text \<open>C1: Distributed commits are atomic. Under any interleaving of commits, aborts, recoveries, pushes and
  sweeps, with lost replies, stale local reads and late or repeated delivery, every participant resolves a
  transaction only the way its coordinator record decided; writes become visible only at the record's
  commit timestamp, and never for an aborted or undecided transaction; and once the record says committed,
  every participant holds all of the transaction's writes, staged or published.\<close>

theorem atomic_commit:
  assumes "deployment_ok dp" and "reach world_init (world_step dp) w" and "status_get (status_now w g) t = Some r"
  shows "resolutions w t \<subseteq> set_option (decision_of (tr_state r)) \<and>
    visible_stamps w t \<subseteq> (case tr_state r of Committed ts \<Rightarrow> {ts} | _ \<Rightarrow> {}) \<and>
    (case tr_state r of
       Committed ts \<Rightarrow> list_all (\<lambda>wr. staged_in_full w t wr \<or> published_in_full w t ts wr) (cr_writes (dp_request dp t))
     | _ \<Rightarrow> True)"
proof -
  note inv = reach_protocol(2) [OF assms(1,2)]
  note decides = record_decides [OF inv assms(3)]
  have "resolutions w t \<subseteq> set_option (decision_of (tr_state r))"
    using resolution_decided [OF inv] decides by auto
  moreover have "visible_stamps w t \<subseteq> (case tr_state r of Committed ts \<Rightarrow> {ts} | _ \<Rightarrow> {})"
    using stamp_decided [OF inv, of _ t] decides by (cases "tr_state r") force+
  moreover have "staged_in_full w t wr \<or> published_in_full w t ts wr"
    if "tr_state r = Committed ts" "wr \<in> set (cr_writes (dp_request dp t))" for ts wr
  proof (rule commit_reaches_all [OF assms(1) inv _ that(2)])
    show "decided w t (DecideCommit ts)"
      using that(1) assms(3) now_in_states(1) [OF inv] unfolding decided_def by force
  qed
  ultimately show ?thesis by (auto simp: list_all_iff split: DistributedTxnState.splits)
qed

text \<open>C2: A client is never told a false outcome. Whenever a begin, commit, abort, recovery, push or orphan call
  has returned a commit or an abort, the coordinator record holds exactly that decision, and since a
  transaction has one decision no two calls ever report different ones.\<close>

theorem reported_outcome_is_durable:
  assumes "deployment_ok dp" and "reach world_init (world_step dp) w"
    and "Ret res \<in> set (w_tasks w)" and "reported res = Some (t, d)"
    and "Ret res' \<in> set (w_tasks w)" and "reported res' = Some (t, d')"
  shows "(\<exists>g r. status_get (status_now w g) t = Some r \<and> decision_of (tr_state r) = Some d) \<and> d' = d"
proof -
  note prot = reach_protocol [OF assms(1,2)]
  have "ensures dp (Ret res) result_ok w" "ensures dp (Ret res') result_ok w"
    using prot(1) assms(3,5) unfolding protocol_inv_def by blast+
  then have "decided w t d" "decided w t d'" using assms(4,6) by (auto intro: reported_decided)
  then show ?thesis using decided_now [OF prot(2)] decided_unique [OF prot(2)] by blast
qed

text \<open>An error that the engine of the participant itself returned, to the validation of staged writes or to
  their application.\<close>

definition engine_error :: "'e participant_env \<Rightarrow> 'e option \<Rightarrow> StateMachineError \<Rightarrow> bool" where
  "engine_error env engine err \<longleftrightarrow>
     (\<exists>e staged. engine = Some e \<and>
        (pe_validate env e staged = Inl err \<or> (\<exists>tag ts. fst (pe_apply_staged env tag staged ts e) = Inl err)))"

lemma persist_error: "apply_persist env c t schema authz ts is engine st = Inl err \<Longrightarrow> engine_error env engine err"
  by (auto simp: apply_persist_def engine_error_def split: option.splits if_splits sum.splits)

lemma committed_error:
  "apply_committed_to_engine env t staged ts engine = (Inl err, engine') \<Longrightarrow> engine_error env engine err"
  unfolding apply_committed_to_engine_def engine_error_def
  by (auto split: option.splits if_splits prod.splits) (metis fst_conv)

lemma resolve_error:
  assumes "apply_resolve env c t d engine st = (Inl err, out)"
    and "\<And>px prior. intent_txn st t = Some px \<Longrightarrow> px_resolution px = Some prior \<Longrightarrow> prior = d"
  shows "engine_error env engine err"
proof (cases "intent_txn st t")
  case (Some px)
  show ?thesis
  proof (cases "px_resolution px")
    case None
    with Some assms(1) show ?thesis
      by (auto simp: apply_resolve_def Let_def intro: committed_error split: prod.splits sum.splits TxnDecision.splits)
  next
    case prior: (Some prior)
    with Some assms(2) have "prior = d" by blast
    with Some prior assms(1) show ?thesis
      by (auto simp: apply_resolve_def resolve_again_def Let_def intro: committed_error
          split: prod.splits sum.splits TxnDecision.splits if_splits)
  qed
qed (use assms(1) in \<open>simp add: apply_resolve_def\<close>)

lemma oversized_intent:
  "envelope_verify (dv_sha (dp_driver dp)) (intent_envelope dp cid cmd) = Inl err \<Longrightarrow>
   MAX_COMMAND_PAYLOAD_BYTES < length (dp_intent_json dp (versioned_new cmd))"
  by (auto simp: envelope_verify_def intent_envelope_def envelope_new_def COMMAND_ENVELOPE_FORMAT_VERSION_def
      MIN_SUPPORTED_FORMAT_VERSION_def split: if_splits)

text \<open>C7: A participant halts only on an error of its own engine. Take any command that some driver call has
  proposed to a participant group, delivered at any time and in any order. If the group's state machine
  cannot apply it, then the command exceeds the payload limit, or the error is one that the engine of
  the participant returned when it validated or applied staged writes; the conflicting-decision error,
  which would stop the tablet's replication stream for good, and decoding errors never occur.
  Checkpoint writes succeed.\<close>

theorem participant_halts_only_on_engine_error:
  assumes ok: "deployment_ok dp" and reached: "reach world_init (world_step dp) w"
    and issued: "(g, cid, cmd) \<in> w_intent_issued w"
  shows "case fst (apply_intent_entry dp (group_entry (intent_envelope dp cid cmd) ts p) (hd (w_intent w g))) of
      Inr _ \<Rightarrow> True
    | Inl err \<Rightarrow> MAX_COMMAND_PAYLOAD_BYTES < length (dp_intent_json dp (versioned_new cmd)) \<or>
        engine_error (dp_env dp) (ik_engine (snd (hd (w_intent w g)))) err"
proof -
  note inv = reach_protocol(2) [OF ok reached]
  obtain s k where sk: "hd (w_intent w g) = (s, k)" by (cases "hd (w_intent w g)")
  then have now: "ik_state k = intent_now w g" by (simp add: intent_now_def)
  have "dp_intent_parse dp (dp_intent_json dp (versioned_new cmd)) = Inr (versioned_new cmd)" using ok by (simp add: deployment_ok_def)
  note decoded = versioned_round [of "dp_intent_parse dp", OF this]
  have agree: "prior = d" if "cmd = Resolve t d" "intent_txn (ik_state k) t = Some px" "px_resolution px = Some prior" for t d px prior
  proof -
    have "decided w t d" using issued_ok(2) [OF inv issued] that(1) by simp
    moreover have "decided w t prior"
      using resolution_decided [OF inv, of prior t] now_in_states(2) [OF inv, of g] that(2,3) unfolding resolutions_def now by blast
    ultimately show ?thesis using decided_unique [OF inv] by blast
  qed
  have command: "engine_error (dp_env dp) (ik_engine k) err"
    if "intent_apply_command (dp_env dp) c cmd (ik_engine k) (ik_state k) = (Inl err, out)" for c err out
    using that agree by (cases cmd) (auto intro: persist_error resolve_error split: sum.splits)
  let ?c = "\<lparr>ac_position = p, ac_command = Transaction (intent_envelope dp cid cmd) ts\<rparr>"
  have fields: "command_type (intent_envelope dp cid cmd) = COMMAND_TYPE_DIST_TXN_INTENT"
    "payload (intent_envelope dp cid cmd) = dp_intent_json dp (versioned_new cmd)"
    by (simp_all add: intent_envelope_def envelope_new_def)
  have sink: "MAX_COMMAND_PAYLOAD_BYTES < length (dp_intent_json dp (versioned_new cmd)) \<or> engine_error (dp_env dp) (ik_engine k) err"
    if "intent_apply (dv_sha (dp_driver dp)) (dp_intent_parse dp) (dp_env dp) (\<lambda>_. None) ?c k = (Inl err, k')" for err k'
    using that decoded oversized_intent [of dp cid cmd] command [of ?c]
    by (auto simp: intent_apply_def intent_dispatch_def fields versioned_new_def Let_def split: if_splits sum.splits prod.splits)
  then show ?thesis unfolding apply_intent_entry_def sk
    by (auto simp: apply_one_def group_entry_def Let_def split: if_splits sum.splits prod.splits option.splits)
qed

section \<open>Witnesses\<close>

lemma run_deployment_ok: "deployment_ok run_deployment"
  by (simp add: deployment_ok_def run_deployment_def run_request_def)

lemma run_world_committed:
  obtains w where "reachable w" "status_get (status_now w 3) 7 = Some (run_record\<lparr>tr_state := Committed run_commit_ts\<rparr>)"
    "w_tasks w = [Ret (CommitResult 7 (Inr (committed_outcome 7 run_commit_ts [pw_participant run_writes])))]"
    "(11, run_id TAG_RESOLVE (as_bytes (1::TabletId)), run_resolve) \<in> w_intent_issued w"
    "resolutions w 7 \<noteq> {}"
proof (rule run_complete)
  fix s s' S I si ii
  let ?w = "lone (S # [(s, begun_sink), fresh_status]) (I # [(s', prepared_sink), fresh_intent]) si ii
      [Ret (CommitResult 7 (Inr (committed_outcome 7 run_commit_ts [pw_participant run_writes])))]"
  assume w: "reachable ?w" "snd S = committed_sink" "snd I = resolved_sink" "(11, run_id TAG_RESOLVE (as_bytes (1::TabletId)), run_resolve) \<in> ii"
  have "DecideCommit run_commit_ts \<in> resolutions ?w 7"
    using w(3) unfolding resolutions_def
    by (auto intro!: exI [of _ 11] bexI [of _ "ik_state resolved_sink"] simp: resolved_sink_def)
  then show thesis using that [of ?w] w by (auto simp: committed_sink_def lone_def status_now_def)
qed

theorem atomic_commit_witness:
  "\<exists>w :: (unit, unit) world. reach world_init (world_step run_deployment) w \<and>
     status_get (status_now w 3) 7 = Some (run_record\<lparr>tr_state := Committed run_commit_ts\<rparr>) \<and>
     resolutions w 7 = {DecideCommit run_commit_ts} \<and> (staged_in_full w 7 run_writes \<or> published_in_full w 7 run_commit_ts run_writes)"
proof (rule run_world_committed)
  fix w :: "(unit, unit) world"
  assume w: "reachable w" "status_get (status_now w 3) 7 = Some (run_record\<lparr>tr_state := Committed run_commit_ts\<rparr>)" "resolutions w 7 \<noteq> {}"
  from atomic_commit [OF run_deployment_ok w(1,2)] w show ?thesis
    by (intro exI [of _ w]) (auto simp: run_request_def)
qed

theorem reported_outcome_is_durable_witness:
  "\<exists>(w :: (unit, unit) world) g r. reach world_init (world_step run_deployment) w \<and>
     w_tasks w = [Ret (CommitResult 7 (Inr (committed_outcome 7 run_commit_ts [pw_participant run_writes])))] \<and>
     status_get (status_now w g) 7 = Some r \<and> decision_of (tr_state r) = Some (DecideCommit run_commit_ts)"
proof (rule run_world_committed)
  fix w :: "(unit, unit) world"
  let ?res = "CommitResult 7 (Inr (committed_outcome 7 run_commit_ts [pw_participant run_writes]))"
  assume w: "reachable w" "w_tasks w = [Ret ?res]"
  have "Ret ?res \<in> set (w_tasks w)" "reported ?res = Some (7, DecideCommit run_commit_ts)"
    using w(2) by (simp_all add: committed_outcome_def)
  from reported_outcome_is_durable [OF run_deployment_ok w(1) this this] w show ?thesis by blast
qed

theorem participant_halts_only_on_engine_error_witness:
  "\<exists>(w :: (unit, unit) world) response y. reach world_init (world_step run_deployment) w \<and>
     resolutions w 7 \<noteq> {} \<and>
     apply_intent_entry run_deployment
       (group_entry (intent_envelope run_deployment (run_id TAG_RESOLVE (as_bytes (1::TabletId))) run_resolve) HLC_ZERO (at_position 3))
       (hd (w_intent w 11)) = (Inr response, y)"
proof (rule run_world_committed)
  fix w :: "(unit, unit) world"
  assume w: "reachable w" "(11, run_id TAG_RESOLVE (as_bytes (1::TabletId)), run_resolve) \<in> w_intent_issued w" "resolutions w 7 \<noteq> {}"
  let ?out = "apply_intent_entry run_deployment
       (group_entry (intent_envelope run_deployment (run_id TAG_RESOLVE (as_bytes (1::TabletId))) run_resolve) HLC_ZERO (at_position 3))
       (hd (w_intent w 11))"
  have "\<not> MAX_COMMAND_PAYLOAD_BYTES < length (dp_intent_json run_deployment (versioned_new run_resolve))"
    using intent_verifies [of run_resolve undefined] by (auto simp: envelope_verify_def intent_envelope_def envelope_new_def run_deployment_def split: if_splits)
  moreover have "\<not> engine_error (dp_env run_deployment) engine err" for engine err
    by (simp add: engine_error_def run_deployment_def run_env_def)
  ultimately obtain response where "fst ?out = Inr response"
    using participant_halts_only_on_engine_error [OF run_deployment_ok w(1,2), of HLC_ZERO "at_position 3"]
    by (cases "fst ?out") auto
  then have "?out = (Inr response, snd ?out)" by (metis prod.collapse)
  with w show ?thesis by blast
qed

end
