(* ===== verification/Dist_Limits.thy ===== *)
theory Dist_Limits
  imports Dist_Run
begin

text \<open>
  Where the deduplication window and the probe by raft group reach their limits: an abort proposed before
  the transaction begins shadows every later abort, a repeated sweep of the same instant is a duplicate,
  and recovery counts two tablets of one raft group as prepared by one record.
\<close>

section \<open>Duplicates\<close>

lemma duplicate_keeps_sink:
  assumes "cid \<in> recent_set s" "rc_command_id c = Some cid"
    and "case last_applied (sm_record s) of None \<Rightarrow> True | Some q \<Rightarrow> lp_index q < lp_index p"
  shows "\<exists>response s'. apply_one sink retention None \<lparr>le_position = p, le_payload = Normal c\<rparr> (s, k) = (Inr response, s', k) \<and>
    ar_duplicate response"
proof -
  have "\<not> (case last_applied (sm_record s) of None \<Rightarrow> False | Some q \<Rightarrow> lp_index p \<le> lp_index q)"
    using assms(3) by (cases "last_applied (sm_record s)") (auto simp: not_le)
  with assms(1,2) show ?thesis by (simp add: apply_one_def is_duplicate_def Let_def)
qed

text \<open>A sweep's command id is a function of the cutoff and the limit alone.\<close>

lemma repeated_sweep_removes_nothing:
  assumes "sweep_command_id dv (sweep_cutoff dv now) \<in> recent_set s"
    and "case last_applied (sm_record s) of None \<Rightarrow> True | Some q \<Rightarrow> lp_index q < lp_index p"
  shows "\<exists>response s'. apply_intent_entry dp (group_entry (intent_envelope dp (sweep_command_id dv (sweep_cutoff dv now))
      (SweepResolved (sweep_cutoff dv now) (cfg_sweep_limit (dv_config dv)))) ts p) (s, k) = (Inr response, s', k) \<and> ar_duplicate response"
  unfolding apply_intent_entry_def group_entry_def
  by (rule duplicate_keeps_sink [OF assms(1) _ assms(2)]) (simp add: rc_command_id_def intent_envelope_def envelope_new_def)

section \<open>An abort before the begin\<close>

definition status_log_entry :: "(u8 list \<Rightarrow> u8 list) \<Rightarrow> u8 list \<Rightarrow> u8 list \<Rightarrow> u64 \<Rightarrow> unit log_entry" where
  "status_log_entry sha body cid i =
     group_entry (envelope_new sha COMMAND_TYPE_DIST_TXN_COORDINATOR cid body) HLC_ZERO (at_position i)"

lemma status_sink_applies:
  assumes "envelope_verify sha (envelope_new sha COMMAND_TYPE_DIST_TXN_COORDINATOR cid body) = Inr ()"
    and "parse body = Inr (versioned_new cmd)"
    and "lp_index (sk_position k) < i" and "\<And>c. status_apply_command c cmd (sk_state k) = Inr (st c)"
  shows "\<exists>c. status_apply sha parse (\<lambda>_. None) \<lparr>ac_position = at_position i, ac_command = Transaction (envelope_new sha
      COMMAND_TYPE_DIST_TXN_COORDINATOR cid body) HLC_ZERO\<rparr> k =
      (Inr (), \<lparr>sk_state = st c, sk_position = at_position i, sk_command_id = Some cid\<rparr>)"
  using assms(1,3,4) versioned_round [of parse, OF assms(2)]
  by (intro exI [of _ "\<lparr>ac_position = at_position i, ac_command = Transaction (envelope_new sha
      COMMAND_TYPE_DIST_TXN_COORDINATOR cid body) HLC_ZERO\<rparr>"])
    (simp add: status_apply_def status_dispatch_def status_decode_def at_position_def rc_command_id_def envelope_new_def
      versioned_new_def Let_def not_le [symmetric])

lemma status_entry_step:
  assumes "machine_at ids at s" "cid \<notin> set ids" "length ids < retention"
    and "case at of None \<Rightarrow> True | Some q \<Rightarrow> lp_index q < i" "lp_index (sk_position k) < i"
    and "envelope_verify sha (envelope_new sha COMMAND_TYPE_DIST_TXN_COORDINATOR cid body) = Inr ()"
    and "parse body = Inr (versioned_new cmd)" and "\<And>c. status_apply_command c cmd (sk_state k) = Inr (st c)"
  shows "\<exists>response s' c. apply_one (status_apply sha parse (\<lambda>_. None)) retention None (status_log_entry sha body cid i) (s, k) =
      (Inr response, s', \<lparr>sk_state = st c, sk_position = at_position i, sk_command_id = Some cid\<rparr>) \<and>
    machine_at (ids @ [cid]) (Some (at_position i)) s'"
proof -
  obtain c where c: "status_apply sha parse (\<lambda>_. None) \<lparr>ac_position = at_position i, ac_command = Transaction (envelope_new sha
      COMMAND_TYPE_DIST_TXN_COORDINATOR cid body) HLC_ZERO\<rparr> k =
      (Inr (), \<lparr>sk_state = st c, sk_position = at_position i, sk_command_id = Some cid\<rparr>)"
    using status_sink_applies [of sha cid body parse cmd k i st] assms(5-8) by blast
  have "case at of None \<Rightarrow> True | Some q \<Rightarrow> lp_index q < lp_index (at_position i)"
    using assms(4) by (cases at) (simp_all add: at_position_def)
  from apply_new_command [OF assms(1-3) _ this, where sink = "status_apply sha parse (\<lambda>_. None)", OF _ c] show ?thesis
    unfolding status_log_entry_def group_entry_def replicated_command.simps
    by (auto simp: rc_command_id_def envelope_new_def)
qed

text \<open>An abort that reaches the status group before the begin is refused as unknown but its command id is
  remembered; the abort that a push proposes for the expired transaction carries the same id, so it is
  dropped as a duplicate and the record stays pending.\<close>

lemma early_abort_shadows_push:
  fixes json :: "CoordinatorCommand versioned \<Rightarrow> u8 list"
  assumes ids: "a \<noteq> b" and retention: "2 \<le> retention"
    and verified: "envelope_verify sha (envelope_new sha COMMAND_TYPE_DIST_TXN_COORDINATOR a (json (versioned_new (Abort t reason)))) = Inr ()"
      "envelope_verify sha (envelope_new sha COMMAND_TYPE_DIST_TXN_COORDINATOR b (json (versioned_new (Begin r)))) = Inr ()"
    and round: "parse (json (versioned_new (Abort t reason))) = Inr (versioned_new (Abort t reason))"
      "parse (json (versioned_new (Begin r))) = Inr (versioned_new (Begin r))"
    and r: "tr_txn_id r = t" "tr_state r = Pending"
  shows "\<exists>s k. apply_batch (status_apply sha parse (\<lambda>_. None)) retention
      [status_log_entry sha (json (versioned_new (Abort t reason))) a 1, status_log_entry sha (json (versioned_new (Begin r))) b 2, status_log_entry sha (json (versioned_new (Abort t reason'))) a 3]
      (fresh_status) = Inr (s, k) \<and> status_get (sk_state k) t = Some r"
proof -
  let ?sink = "status_apply sha parse (\<lambda>_. None)"
  define k0 where "k0 = snd fresh_status"
  have fresh: "fresh_status = (sm_open None (None, ()), k0)" "sk_state k0 = txn_status_default" "lp_index (sk_position k0) < 1"
    by (simp_all add: k0_def fresh_status_def fresh_machine_def POSITION_ZERO_def)
  have abort1: "status_apply_command c (Abort t reason) (sk_state k0) = Inr (status_journal c t (UnknownTxn t) txn_status_default)" for c
    by (simp add: fresh(2) apply_abort_def) (simp add: status_get_def txn_status_default_def)
  obtain r1 s1 c1 where e1: "apply_one ?sink retention None (status_log_entry sha (json (versioned_new (Abort t reason))) a 1) fresh_status =
      (Inr r1, s1, \<lparr>sk_state = status_journal c1 t (UnknownTxn t) txn_status_default, sk_position = at_position 1, sk_command_id = Some a\<rparr>)"
    and m1: "machine_at ([] @ [a]) (Some (at_position 1)) s1"
    using status_entry_step [OF fresh_at, of a retention 1 k0 sha "json (versioned_new (Abort t reason))" parse "Abort t reason",
        OF _ _ _ fresh(3) verified(1) round(1) abort1] retention by (auto simp: fresh(1))
  let ?k1 = "\<lparr>sk_state = status_journal c1 t (UnknownTxn t) txn_status_default, sk_position = at_position 1, sk_command_id = Some a\<rparr>"
  have begin2: "status_apply_command c (Begin r) (sk_state ?k1) = Inr (status_set t r (sk_state ?k1))" for c
    using r by (simp add: apply_begin_def) (simp add: status_get_def txn_status_default_def)
  have "\<exists>response s' (c :: applied_command). apply_one ?sink retention None (status_log_entry sha (json (versioned_new (Begin r))) b 2) (s1, ?k1) =
      (Inr response, s', \<lparr>sk_state = status_set t r (sk_state ?k1), sk_position = at_position 2, sk_command_id = Some b\<rparr>) \<and>
    machine_at (([] @ [a]) @ [b]) (Some (at_position 2)) s'"
  proof (rule status_entry_step [OF m1, where st = "\<lambda>_. status_set t r (sk_state ?k1)" and cmd = "Begin r"])
    show "parse (json (versioned_new (Begin r))) = Inr (versioned_new (Begin r))" by (rule round(2))
    show "status_apply_command c (Begin r) (sk_state ?k1) = Inr (status_set t r (sk_state ?k1))" for c by (rule begin2)
  qed (use ids retention verified in \<open>simp_all add: at_position_def\<close>)
  then obtain r2 s2 where e2: "apply_one ?sink retention None (status_log_entry sha (json (versioned_new (Begin r))) b 2) (s1, ?k1) =
      (Inr r2, s2, \<lparr>sk_state = status_set t r (sk_state ?k1), sk_position = at_position 2, sk_command_id = Some b\<rparr>)"
    and m2: "machine_at (([] @ [a]) @ [b]) (Some (at_position 2)) s2" by blast
  let ?k2 = "\<lparr>sk_state = status_set t r (sk_state ?k1), sk_position = at_position 2, sk_command_id = Some b\<rparr>"
  have "\<exists>response s'. apply_one ?sink retention None (status_log_entry sha (json (versioned_new (Abort t reason'))) a 3) (s2, ?k2) = (Inr response, s', ?k2) \<and> ar_duplicate response"
    unfolding status_log_entry_def group_entry_def replicated_command.simps
    by (rule duplicate_keeps_sink [of a]) (use m2 in \<open>auto simp: machine_at_def rc_command_id_def envelope_new_def at_position_def\<close>)
  then obtain r3 s3 where e3: "apply_one ?sink retention None (status_log_entry sha (json (versioned_new (Abort t reason'))) a 3) (s2, ?k2) = (Inr r3, s3, ?k2)" by blast
  have "status_get (sk_state ?k2) t = Some r" by simp
  with e1 e2 e3 show ?thesis unfolding apply_batch.simps by (intro exI [of _ s3] exI [of _ ?k2]) (simp only: prod.case sum.case simp_thms)
qed

section \<open>Two tablets in one raft group\<close>

primrec replies_with :: "('act \<Rightarrow> 'rep) \<Rightarrow> ('act, 'rep, 'a) prog \<Rightarrow> 'a" where
  "replies_with env (Ret a) = a"
| "replies_with env (Act x k) = replies_with env (k (env x))"

lemma replies_bind [simp]: "replies_with env (bind p f) = replies_with env (f (replies_with env p))"
  by (induction p) auto

text \<open>The second tablet's prepare is refused, yet recovery finds no participant missing and goes on to
  commit.\<close>

lemma shared_group_counts_twice:
  assumes "intent_txn st t = Some px" "px_resolution px = None" "\<not> same_write_set (px_intents px) is"
    and "tp_raft_group_id p = g" "tp_raft_group_id q = g" "reply (LocalTxn m t) = TxnReply (intent_txn st t)"
  shows "apply_persist env c t schema authz ts is engine st = Inr (intent_journal c t PayloadMismatch st) \<and>
    replies_with reply (probe_all [(g, [m])] t [p, q] [] 0) = ([px_prepare_ts px, px_prepare_ts px], 0)"
  using assms by (simp add: apply_persist_def probe_participant_def ask_def)

end
