(* ===== verification/Dist_Ssi.thy ===== *)
theory Dist_Ssi
  imports Ids Btree_Map
begin

text \<open>
  The multi-tablet certifier of serializable transactions (\<open>DistSsiCertifier\<close> in
  \<open>crates/mongreldb-cluster/src/dist_ssi.rs\<close>): access sets per tablet, the window of committed access
  sets, and what a successful certification means for the values a transaction read.
\<close>

section \<open>Access sets\<close>

record tablet_key_set =
  tks_keys :: "u8 list list"

definition tks_empty :: tablet_key_set where
  "tks_empty = \<lparr>tks_keys = []\<rparr>"

definition tks_insert :: "u8 list \<Rightarrow> tablet_key_set \<Rightarrow> tablet_key_set" where
  "tks_insert key s = (if list_ex (\<lambda>k. k = key) (tks_keys s) then s else s\<lparr>tks_keys := tks_keys s @ [key]\<rparr>)"

definition tks_intersects :: "tablet_key_set \<Rightarrow> tablet_key_set \<Rightarrow> bool" where
  "tks_intersects s other \<longleftrightarrow> list_ex (\<lambda>k. list_ex (\<lambda>o'. o' = k) (tks_keys other)) (tks_keys s)"

type_synonym tablet_sets = "(TabletId \<times> tablet_key_set) list"

record dist_access_set =
  da_reads :: tablet_sets
  da_writes :: tablet_sets

definition access_empty :: dist_access_set where
  "access_empty = \<lparr>da_reads = [], da_writes = []\<rparr>"

definition touch :: "TabletId \<Rightarrow> u8 list \<Rightarrow> tablet_sets \<Rightarrow> tablet_sets" where
  "touch tablet key sets =
     bt_insert tablet (tks_insert key (case map_of sets tablet of None \<Rightarrow> tks_empty | Some s \<Rightarrow> s)) sets"

definition access_read :: "TabletId \<Rightarrow> u8 list \<Rightarrow> dist_access_set \<Rightarrow> dist_access_set" where
  "access_read tablet key a = a\<lparr>da_reads := touch tablet key (da_reads a)\<rparr>"

definition access_write :: "TabletId \<Rightarrow> u8 list \<Rightarrow> dist_access_set \<Rightarrow> dist_access_set" where
  "access_write tablet key a = a\<lparr>da_writes := touch tablet key (da_writes a)\<rparr>"

fun sets_intersect :: "tablet_sets \<Rightarrow> tablet_sets \<Rightarrow> bool" where
  "sets_intersect [] other = False"
| "sets_intersect ((tablet, s) # rest) other =
     (case map_of other tablet of
        Some o' \<Rightarrow> if tks_intersects s o' then True else sets_intersect rest other
      | None \<Rightarrow> sets_intersect rest other)"

definition writes_intersect_reads :: "dist_access_set \<Rightarrow> dist_access_set \<Rightarrow> bool" where
  "writes_intersect_reads a other = sets_intersect (da_writes a) (da_reads other)"

definition writes_intersect_writes :: "dist_access_set \<Rightarrow> dist_access_set \<Rightarrow> bool" where
  "writes_intersect_writes a other = sets_intersect (da_writes a) (da_writes other)"

section \<open>The certifier\<close>

datatype DistCertOutcome = CertOk | SerializationFailure

record dist_certifier =
  dc_inflight :: "(TransactionId \<times> dist_access_set) list"
  dc_committed :: "(TransactionId \<times> dist_access_set) list"
  dc_window :: nat

definition certifier_new :: "nat \<Rightarrow> dist_certifier" where
  "certifier_new window = \<lparr>dc_inflight = [], dc_committed = [], dc_window = max window 1\<rparr>"

definition ssi_track :: "TransactionId \<Rightarrow> dist_access_set \<Rightarrow> dist_certifier \<Rightarrow> dist_certifier" where
  "ssi_track t a c = c\<lparr>dc_inflight := bt_insert t a (dc_inflight c)\<rparr>"

definition inflight_or_default :: "TransactionId \<Rightarrow> dist_certifier \<Rightarrow> dist_access_set" where
  "inflight_or_default t c = (case map_of (dc_inflight c) t of None \<Rightarrow> access_empty | Some a \<Rightarrow> a)"

definition observe_read :: "TransactionId \<Rightarrow> TabletId \<Rightarrow> u8 list \<Rightarrow> dist_certifier \<Rightarrow> dist_certifier" where
  "observe_read t tablet key c = ssi_track t (access_read tablet key (inflight_or_default t c)) c"

definition observe_write :: "TransactionId \<Rightarrow> TabletId \<Rightarrow> u8 list \<Rightarrow> dist_certifier \<Rightarrow> dist_certifier" where
  "observe_write t tablet key c = ssi_track t (access_write tablet key (inflight_or_default t c)) c"

fun conflicts_with :: "dist_access_set \<Rightarrow> (TransactionId \<times> dist_access_set) list \<Rightarrow> bool" where
  "conflicts_with mine [] = False"
| "conflicts_with mine ((_, other) # rest) =
     (if writes_intersect_writes mine other then True
      else if writes_intersect_reads other mine then (if writes_intersect_reads mine other then True else True)
      else if writes_intersect_reads mine other \<and> writes_intersect_reads other mine then True
      else conflicts_with mine rest)"

definition certify :: "TransactionId \<Rightarrow> dist_certifier \<Rightarrow> DistCertOutcome \<times> dist_certifier" where
  "certify t c =
     (case map_of (dc_inflight c) t of
        None \<Rightarrow> (CertOk, c)
      | Some mine \<Rightarrow>
          (let c1 = c\<lparr>dc_inflight := bt_remove t (dc_inflight c)\<rparr>
           in if conflicts_with mine (dc_committed c1) then (SerializationFailure, c1)
              else (let committed = dc_committed c1 @ [(t, mine)]
                    in (CertOk, c1\<lparr>dc_committed := drop (length committed - dc_window c1) committed\<rparr>))))"

definition forget :: "TransactionId \<Rightarrow> dist_certifier \<Rightarrow> dist_certifier" where
  "forget t c = c\<lparr>dc_inflight := bt_remove t (dc_inflight c)\<rparr>"

section \<open>Cells\<close>

text \<open>A cell is a key of a tablet. The abstraction of an access set is the set of its cells.\<close>

type_synonym cell = "TabletId \<times> u8 list"

definition access_cells :: "tablet_sets \<Rightarrow> cell set" where
  "access_cells sets = {(tablet, key). \<exists>s. map_of sets tablet = Some s \<and> key \<in> set (tks_keys s)}"

lemma tks_intersects_iff: "tks_intersects s other \<longleftrightarrow> set (tks_keys s) \<inter> set (tks_keys other) \<noteq> {}"
  by (auto simp: tks_intersects_def list_ex_iff)

lemma access_cells_touch [simp]: "access_cells (touch tablet key sets) = insert (tablet, key) (access_cells sets)"
  by (auto simp: access_cells_def touch_def tks_insert_def tks_empty_def list_ex_iff split: option.splits if_splits)

lemma sets_intersect_iff:
  assumes "distinct (map fst sets)"
  shows "sets_intersect sets other \<longleftrightarrow> access_cells sets \<inter> access_cells other \<noteq> {}"
  using assms
proof (induction sets other rule: sets_intersect.induct)
  case (2 tablet s rest other)
  have "map_of rest tablet = None" using "2.prems" by (simp add: map_of_eq_None_iff)
  then have cons: "access_cells ((tablet, s) # rest) = Pair tablet ` set (tks_keys s) \<union> access_cells rest"
    by (auto simp: access_cells_def split: if_splits)
  have head: "Pair tablet ` set (tks_keys s) \<inter> access_cells other \<noteq> {} \<longleftrightarrow>
      (case map_of other tablet of None \<Rightarrow> False | Some o' \<Rightarrow> tks_intersects s o')"
    by (auto simp: access_cells_def tks_intersects_iff split: option.splits)
  show ?case unfolding cons Int_Un_distrib2
    using 2 head by (cases "map_of other tablet") (auto split: if_splits)
qed (simp add: access_cells_def)

definition access_ok :: "dist_access_set \<Rightarrow> bool" where
  "access_ok a \<longleftrightarrow> bt_sorted (da_reads a) \<and> bt_sorted (da_writes a)"

lemma access_ops_ok [simp]:
  "access_ok access_empty" "access_ok a \<Longrightarrow> access_ok (access_read tablet key a)" "access_ok a \<Longrightarrow> access_ok (access_write tablet key a)"
  by (simp_all add: access_ok_def access_empty_def access_read_def access_write_def touch_def)

lemma conflicts_iff:
  assumes "access_ok mine" "\<forall>e \<in> set committed. access_ok (snd e)"
  shows "conflicts_with mine committed \<longleftrightarrow>
    (\<exists>e \<in> set committed. access_cells (da_writes (snd e)) \<inter> (access_cells (da_reads mine) \<union> access_cells (da_writes mine)) \<noteq> {})"
  using assms(2)
proof (induction committed)
  case (Cons e rest)
  obtain t other where e: "e = (t, other)" by (cases e)
  have "writes_intersect_writes mine other \<longleftrightarrow> access_cells (da_writes mine) \<inter> access_cells (da_writes other) \<noteq> {}"
    "writes_intersect_reads other mine \<longleftrightarrow> access_cells (da_writes other) \<inter> access_cells (da_reads mine) \<noteq> {}"
    using assms(1) Cons.prems
    by (auto simp: e writes_intersect_writes_def writes_intersect_reads_def access_ok_def sets_intersect_iff bt_sorted_distinct)
  with Cons show ?case by (auto simp: e)
qed simp

section \<open>What certification means\<close>

text \<open>The effect of a committed transaction on the store: it changes only the cells of its write set.\<close>

definition changes_only :: "dist_access_set \<Rightarrow> (cell \<Rightarrow> 'v) \<Rightarrow> (cell \<Rightarrow> 'v) \<Rightarrow> bool" where
  "changes_only a before after \<longleftrightarrow> (\<forall>x. x \<notin> access_cells (da_writes a) \<longrightarrow> after x = before x)"

fun run_commits :: "(TransactionId \<times> dist_access_set) list \<Rightarrow> (cell \<Rightarrow> 'v) list \<Rightarrow> bool" where
  "run_commits [] [s] \<longleftrightarrow> True"
| "run_commits ((_, a) # es) (s # s' # ss) \<longleftrightarrow> changes_only a s s' \<and> run_commits es (s' # ss)"
| "run_commits _ _ \<longleftrightarrow> False"

lemma run_commits_keeps:
  "run_commits es ss \<Longrightarrow> \<forall>e \<in> set es. x \<notin> access_cells (da_writes (snd e)) \<Longrightarrow> hd ss x = last ss x"
proof (induction es ss rule: run_commits.induct)
  case (2 t a es s s' ss)
  from "2.prems" have "changes_only a s s'" "x \<notin> access_cells (da_writes a)" by simp_all
  then have "s' x = s x" unfolding changes_only_def by blast
  moreover have "hd (s' # ss) x = last (s' # ss) x" using 2 by simp
  ultimately show ?case by simp
qed auto

definition certifier_ok :: "dist_certifier \<Rightarrow> bool" where
  "certifier_ok c \<longleftrightarrow>
     (\<forall>e \<in> set (dc_inflight c). access_ok (snd e)) \<and> (\<forall>e \<in> set (dc_committed c). access_ok (snd e)) \<and>
     0 < dc_window c \<and> length (dc_committed c) \<le> dc_window c"

lemma bt_insert_subset: "set (bt_insert k v xs) \<subseteq> insert (k, v) (set xs)"
  by (induction k v xs rule: bt_insert.induct) auto

lemma ssi_track_ok: "certifier_ok c \<Longrightarrow> access_ok a \<Longrightarrow> certifier_ok (ssi_track t a c)"
  using bt_insert_subset [of t a "dc_inflight c"] by (auto simp: certifier_ok_def ssi_track_def)

lemma inflight_ok: "certifier_ok c \<Longrightarrow> access_ok (inflight_or_default t c)"
  by (auto simp: certifier_ok_def inflight_or_default_def dest!: map_of_SomeD split: option.splits)

lemma forget_ok: "certifier_ok c \<Longrightarrow> certifier_ok (forget t c)"
  by (auto simp: certifier_ok_def forget_def bt_remove_def)

lemma certify_ok: "certifier_ok c \<Longrightarrow> certifier_ok (snd (certify t c))"
  by (auto simp: certifier_ok_def certify_def Let_def bt_remove_def dest!: map_of_SomeD in_set_dropD split: option.splits)

inductive certifier_step :: "dist_certifier \<Rightarrow> dist_certifier \<Rightarrow> bool" where
  cs_track: "access_ok a \<Longrightarrow> certifier_step c (ssi_track t a c)"
| cs_read: "certifier_step c (observe_read t tablet key c)"
| cs_write: "certifier_step c (observe_write t tablet key c)"
| cs_certify: "certifier_step c (snd (certify t c))"
| cs_forget: "certifier_step c (forget t c)"

interpretation certifier: guarded_system "\<lambda>c. \<exists>n. c = certifier_new n" certifier_step certifier_ok
proof
  show "certifier_ok c" if "\<exists>n. c = certifier_new n" for c
    using that by (auto simp: certifier_ok_def certifier_new_def)
  show "certifier_ok d" if "certifier_step c d" "certifier_ok c" for c d
    using that by cases (auto simp: observe_read_def observe_write_def intro!: ssi_track_ok access_ops_ok forget_ok certify_ok inflight_ok)
qed

text \<open>C20: A certified transaction is serializable at its commit point. If every transaction that committed
  since it took its snapshot is still in the certifier's window, then nothing it read and nothing it
  writes was changed in between: the values it read are the current ones, so its effect is that of
  running alone at the commit point.\<close>

theorem certified_reads_are_current:
  assumes "reach (\<lambda>c. \<exists>n. c = certifier_new n) certifier_step c"
    and "map_of (dc_inflight c) t = Some mine" and "certify t c = (CertOk, c')"
    and "dc_committed c = older @ since" and "run_commits since (snapshot # stores)"
    and "x \<in> access_cells (da_reads mine) \<union> access_cells (da_writes mine)"
  shows "last (snapshot # stores) x = snapshot x"
proof -
  have ok: "certifier_ok c" using certifier.reach_inv [OF assms(1)] .
  then have mine: "access_ok mine" using assms(2) by (auto simp: certifier_ok_def dest!: map_of_SomeD)
  have "\<not> conflicts_with mine (dc_committed c)" using assms(2,3) by (auto simp: certify_def Let_def split: if_splits)
  then have "x \<notin> access_cells (da_writes (snd e))" if "e \<in> set since" for e
    using ok mine assms(4,6) that by (auto simp: conflicts_iff certifier_ok_def)
  with run_commits_keeps [OF assms(5)] show ?thesis by simp
qed

definition ssi_reader :: dist_access_set where
  "ssi_reader = access_read 1 [1] access_empty"

definition ssi_writer :: dist_access_set where
  "ssi_writer = access_write 1 [2] access_empty"

lemmas ssi_eval = certify_def ssi_track_def certifier_new_def ssi_reader_def ssi_writer_def access_read_def access_write_def
  access_empty_def touch_def tks_insert_def tks_empty_def bt_remove_def Let_def writes_intersect_writes_def
  writes_intersect_reads_def tks_intersects_def

theorem certified_reads_are_current_witness:
  "fst (certify 7 (ssi_track 7 ssi_reader (snd (certify 8 (ssi_track 8 ssi_writer (certifier_new 4)))))) = CertOk \<and>
   last [\<lambda>_. 0, (\<lambda>_. 0)((1, [2]) := 5)] ((1, [1]) :: cell) = (0::nat)"
proof -
  let ?c = "ssi_track 7 ssi_reader (snd (certify 8 (ssi_track 8 ssi_writer (certifier_new 4))))"
  have "reach (\<lambda>c. \<exists>n. c = certifier_new n) certifier_step (ssi_track 8 ssi_writer (certifier_new 4))"
    by (rule reach_step [where s = "certifier_new 4"]) (auto simp: ssi_writer_def intro: cs_track reach_init)
  from reach_step [OF this cs_certify]
  have "reach (\<lambda>c. \<exists>n. c = certifier_new n) certifier_step (snd (certify 8 (ssi_track 8 ssi_writer (certifier_new 4))))" .
  then have reached: "reach (\<lambda>c. \<exists>n. c = certifier_new n) certifier_step ?c"
    by (rule reach_step) (rule cs_track, simp add: ssi_reader_def)
  have cert: "certify 7 ?c = (CertOk, snd (certify 7 ?c))" and committed: "dc_committed ?c = [] @ [(8, ssi_writer)]"
    and mine: "map_of (dc_inflight ?c) 7 = Some ssi_reader"
    by (simp_all add: ssi_eval)
  have "run_commits [(8, ssi_writer)] [\<lambda>_. 0, (\<lambda>_. 0)((1, [2]) := (5::nat))]"
    by (simp add: changes_only_def ssi_writer_def access_write_def access_empty_def)
  moreover have "(1, [1]) \<in> access_cells (da_reads ssi_reader) \<union> access_cells (da_writes ssi_reader)"
    by (simp add: ssi_reader_def access_read_def)
  ultimately show ?thesis
    using certified_reads_are_current [OF reached mine cert committed, of "\<lambda>_. 0 :: nat" "[(\<lambda>_. 0)((1, [2]) := 5)]" "(1, [1])"] cert
    by (metis fst_conv)
qed

section \<open>Limits of the window\<close>

text \<open>The window forgets the oldest commits even while a transaction that overlaps them is in flight: with
  a window of one, a second commit hides the overwritten read and the stale reader is certified.\<close>

lemma overflow_certifies_stale_read:
  "fst (certify 7 (snd (certify 9 (ssi_track 9 ssi_writer (snd (certify 8 (ssi_track 8 (access_write 1 [1] access_empty)
     (ssi_track 7 ssi_reader (certifier_new 1))))))))) = CertOk"
  by (simp add: ssi_eval)

text \<open>The window does not know who overlaps whom: a transaction that starts after a commit and reads what it
  wrote is refused as if it were concurrent.\<close>

lemma sequential_reader_is_refused:
  "fst (certify 7 (ssi_track 7 ssi_reader (snd (certify 8 (ssi_track 8 (access_write 1 [1] access_empty) (certifier_new 4)))))) = SerializationFailure"
  by (simp add: ssi_eval)

end
