(* ===== verification/Spec2Isabelle.thy ===== *)
theory Spec2Isabelle
  imports Epoch_Publication Run_Cursor Lock_Protocol Commit_Validation Transaction_Life Dist_Protocol Dist_Limits Dist_Ssi
begin

text \<open>
  MongrelDB is a multi-version database: an embedded storage engine (\<open>crates/mongreldb-core\<close>), shared
  types (\<open>mongreldb-types\<close>), a command log (\<open>mongreldb-log\<close>), raft groups (\<open>mongreldb-consensus\<close>) and
  a cluster layer with distributed transactions (\<open>mongreldb-cluster\<close>). Verified here are its time
  and visibility rules, the two in-memory storage tiers, locking and conflict validation, the life and
  durability of a transaction, and the distributed commit protocol. Paths below are relative to
  \<open>src/crates\<close>, and to \<open>mongreldb-core/src\<close> where only a file name is given.

  \<^bold>\<open>How the parts interact.\<close> A transaction takes its snapshot from the epoch authority, reads versions
  through the tiers, takes locks, and at commit is validated against the conflict index, gets an epoch
  and a timestamp and waits for the group commit. Its rows are written to the memtable, whose segments
  are B-epsilon-trees; a flush drains the memtable in order into the mutable run, whose arrays are
  packed memory arrays. A transaction over several tablets is driven by the protocol of
  \<open>dist_txn.rs\<close>, whose records live in replicated state machines.

  \<^bold>\<open>Foundations.\<close> \<open>Mongrel_Prelude\<close> has the machine integers, the slice operations, reachability and the
  locale \<open>guarded_system\<close> of transition systems with an invariant; \<open>Btree_Map\<close> and \<open>Byte_Codec\<close> the
  standard containers and byte formats; \<open>Errors\<close> the error taxonomy (\<open>mongreldb-types/src/errors.rs\<close>,
  \<open>error.rs\<close>) and its retry discipline.

  \<^bold>\<open>Time and visibility.\<close> \<open>Hlc\<close> (\<open>mongreldb-types/src/hlc.rs\<close>): every timestamp of a clock exceeds all
  before it, a commit timestamp exceeds the participants' ones, the text form round-trips, and a
  saturated clock repeats itself while its wall clock stands. \<open>Epochs\<close> and \<open>Epoch_Publication\<close> (\<open>epoch.rs\<close>): snapshots, recency of
  versions, the GC floor, and the reader watermark under interleaved committers: it is always safe, and
  it may lag behind until a later commit, which never happens when the calls do not overlap. \<open>Execution\<close>
  (\<open>execution.rs\<close>): a reason that can be read is permanent; a scan that races with the first
  cancellations may return another one (\<open>racing_scan_sees_later_reason\<close>).

  \<^bold>\<open>Storage.\<close> \<open>Rows\<close>: values, rows and the row-id allocator (\<open>rowid.rs\<close>). \<open>Be_Tree\<close>, \<open>Be_Tree_Log\<close>,
  \<open>Be_Tree_Reads\<close>, \<open>Be_Tree_Cursor\<close>, \<open>Be_Tree_Stream\<close> (\<open>be_tree.rs\<close>) show that the tree is a log per
  version key; \<open>Version_Store\<close> states the contract as a locale, interprets it on the tree and
  derives the reads, the drain, the shape and the lazy cursor. \<open>Memtable\<close>,
  \<open>Memtable_Visibility\<close> and \<open>Memtable_Cursor\<close> (\<open>memtable.rs\<close>): the memtable refines the list of its
  writes, point read and scan agree, and the streaming merge is the scan. \<open>Pma\<close> and \<open>Pma_Runs\<close>
  (\<open>pma.rs\<close>): the packed memory array is a sorted multiset, with its spacing in double precision.
  \<open>Mutable_Run\<close> and \<open>Run_Cursor\<close> (\<open>mutable_run.rs\<close>): the tier refines the list of inserted rows,
  its seeking point read agrees with its scan, and its streaming cursor ends at the first row without
  a visible version, so that it can lose later rows (\<open>run_cursor_loses_row\<close>).

  \<^bold>\<open>Concurrency control.\<close> \<open>Wait_Graph\<close>, \<open>Locks\<close>, \<open>Lock_Safety\<close>, \<open>Lock_Protocol\<close> (\<open>locks.rs\<close>): the deadlock
  search is exact; in every reachable table exclusive holds are sole, waiters are granted in order,
  none wait in a cycle and a release leaves nothing behind. \<open>Conflict_Index\<close> and \<open>Commit_Validation\<close>
  (\<open>txn.rs\<close>, \<open>database.rs\<close>): transactions whose begin and commit interleave at every access to shared
  state. The pruned index answers as the whole commit log for a transaction that no prune minimum
  overtook between the reading and the registration of its epoch, and two-phase validation is exact
  if besides no commit is recorded between the probe and the reading of the version; runs show that
  a conflict is lost in each of the two windows. \<open>Transaction_Life\<close> (\<open>txn.rs\<close>, \<open>wal.rs\<close>): transaction states, the commit fence, and
  that an acknowledged commit is durable. \<open>Log_Types\<close>: positions and receipts of the log.

  \<^bold>\<open>Distributed transactions.\<close> \<open>Ids\<close> (\<open>mongreldb-types/src/ids.rs\<close>) and \<open>Command_Envelope\<close>
  (\<open>mongreldb-log/src/envelope.rs\<close>): exactness of the text form and of the frame. \<open>Replicated_Machine\<close>
  (\<open>mongreldb-consensus/src/identity.rs\<close>, \<open>state_machine.rs\<close>): idempotent apply, with the locale
  \<open>replay_sink\<close>. The other theories model \<open>mongreldb-cluster/src/dist_txn.rs\<close>: \<open>Dist_Records\<close> its
  records, \<open>Dist_Status\<close> and \<open>Dist_Intents\<close> the sinks of coordinator and participant groups,
  \<open>Dist_Driver\<close> every call of the driver as a tree of actions (\<open>Effect_Trees\<close>), \<open>Dist_World\<close> the
  interleaving of calls with the groups. \<open>Dist_Safety\<close>, \<open>Dist_Calls\<close> and \<open>Dist_Protocol\<close> prove atomic
  commit, that reported outcomes are durable, and that participants halt only on an error of their
  engine or an oversized command; \<open>Dist_Run\<close> is a complete run, and \<open>Dist_Limits\<close> shows where deduplication and probing reach their limits. \<open>Dist_Ssi\<close>
  (\<open>dist_ssi.rs\<close>): what a certified transaction has read is current while the window holds every
  commit since its snapshot.

  \<^bold>\<open>Modelling.\<close> A critical section is one function on the state its mutex guards, and concurrency is the
  interleaving of critical sections; where the code reads shared state in several steps, the steps
  interleave as well. \<open>Arc\<close>s are values. Code outside the sources is a parameter: SHA-256,
  \<open>serde_json\<close>, display texts, hashes, clocks, the engine behind a participant. The protocol
  assumes of a deployment (\<open>deployment_ok\<close>) that requests carry their own id and name a group once,
  and that the codec reads back what it wrote. Raft may delay, repeat and lose replies.

  \<^bold>\<open>Bounds and fuel.\<close> The memtable cursors carry a depth and fuel: the height of the trees and one unit
  per stored version are enough (\<open>streaming_merge_is_scan\<close>). The retries of the driver end by
  their bounded number of rounds. The capacity loop of the packed array is a \<open>while_option\<close> and is
  shown to end; its theorems hold while the arrays stay below \<open>2\<^sup>4\<^sup>0\<close> slots, where double precision
  spaces all elements apart. Other loops are total functions with a measure.

  \<^bold>\<open>Not modelled.\<close> The \<open>Database\<close> and the table engine beyond the parts named above, among them the flush
  and the merge of tier cursors with on-disk runs; the WAL's files, sorted runs, pages and caches;
  secondary indexes, many of them approximate; catalog, DDL, constraints and triggers; statement
  staging and the idempotency ledger of \<open>txn.rs\<close>; security and encryption, backup and replication,
  jobs; raft storage and transport, which wrap a package; cluster metadata, placement, splits and
  merges; SQL on top of external packages; servers, clients, bindings, simulation and benchmarks.
  They are files, network, threads and external packages for the most part, or too large to be
  translated in full, and a part of them would not have supported a statement about the whole.
\<close>

end
